(* ===== verification/Gfs_Prelude.thy ===== *)
theory Gfs_Prelude
  imports Main "HOL-Library.Char_ord" "HOL-Library.List_Lexorder"
begin

text \<open>
  Shared vocabulary of the development.

  \<^item> Rust's \<open>Vec<u8>\<close> and \<open>&[u8]\<close> are \<open>bytes\<close>, that is \<open>char list\<close>: a HOL character is one of
    256 values, so it is a byte, and the byte literal \<open>b'/'\<close> is \<open>CHR ''/''\<close>. The order on
    \<open>bytes\<close> is the lexicographic one (\<open>List_Lexorder\<close> over \<open>Char_ord\<close>), as Rust derives it.
  \<^item> \<open>u64\<close> and \<open>usize\<close> values are \<open>nat\<close> with saturation or two's complement written out where
    the source has it; \<open>i64\<close> is \<open>int\<close>.
  \<^item> \<open>BTreeMap\<close> is a key-sorted association list with the operations below, behind the
    interface locale \<open>ordered_map\<close>; \<open>HashMap\<close> uses the same representation (its iteration
    order is never relied on), \<open>HashSet\<close> and \<open>BTreeSet\<close> are HOL sets.
  \<^item> \<open>codec\<close> is the contract every encoder and decoder pair of the program is proved to meet.
\<close>

named_theorems map_laws \<open>what a lookup returns after an insert, a removal or a fold of them\<close>

type_synonym u8 = char
type_synonym bytes = "char list"
type_synonym path = bytes

section \<open>Machine integers\<close>

definition u64_max :: nat where
  "u64_max = 18446744073709551615"

definition i64_max :: int where
  "i64_max = 9223372036854775807"

definition i64_min :: int where
  "i64_min = -9223372036854775808"

text \<open>\<open>u64::saturating_add\<close> and \<open>u64::saturating_sub\<close>.\<close>

definition sat_add :: "nat \<Rightarrow> nat \<Rightarrow> nat" where
  "sat_add a b = (if a + b > u64_max then u64_max else a + b)"

definition sat_sub :: "nat \<Rightarrow> nat \<Rightarrow> nat" where
  "sat_sub a b = (if b \<ge> a then 0 else a - b)"

text \<open>\<open>i64::saturating_add\<close> and \<open>i64::saturating_sub\<close>.\<close>

definition isat_add :: "int \<Rightarrow> int \<Rightarrow> int" where
  "isat_add a b = max i64_min (min i64_max (a + b))"

definition isat_sub :: "int \<Rightarrow> int \<Rightarrow> int" where
  "isat_sub a b = max i64_min (min i64_max (a - b))"

text \<open>The \<open>as i64\<close>, \<open>as u64\<close> and \<open>as u32\<close> casts: two's complement reinterpretation, and truncation.\<close>

definition u64_as_i64 :: "nat \<Rightarrow> int" where
  "u64_as_i64 n = (if n < 2 ^ 63 then int n else int n - 2 ^ 64)"

definition i64_as_u64 :: "int \<Rightarrow> nat" where
  "i64_as_u64 i = nat (i mod 2 ^ 64)"

definition i64_as_u32 :: "int \<Rightarrow> nat" where
  "i64_as_u32 i = nat (i mod 2 ^ 32)"

lemma sat_sub_eq [simp]: "sat_sub a b = a - b"
  by (simp add: sat_sub_def)

lemma sat_add_exact: "a + b \<le> u64_max \<Longrightarrow> sat_add a b = a + b"
  by (simp add: sat_add_def)

lemma sat_add_le: "sat_add a b \<le> a + b"
  by (simp add: sat_add_def)

lemma u64_i64_roundtrip [simp]: "n < 2 ^ 64 \<Longrightarrow> i64_as_u64 (u64_as_i64 n) = n"
proof -
  assume n: "n < 2 ^ 64"
  show ?thesis
  proof (cases "n < 2 ^ 63")
    case True
    with n show ?thesis by (simp add: u64_as_i64_def i64_as_u64_def)
  next
    case False
    have "(int n - 2 ^ 64) mod 2 ^ 64 = int n mod 2 ^ 64"
      by (simp add: mod_diff_right_eq [symmetric])
    with n False show ?thesis by (simp add: u64_as_i64_def i64_as_u64_def)
  qed
qed

lemma i64_as_u32_small [simp]: "n < 2 ^ 32 \<Longrightarrow> i64_as_u32 (int n) = n"
  by (simp add: i64_as_u32_def)

unbundle bit_operations_syntax

lemma of_char_bound [simp]: "(of_char c :: nat) < 256"
  by (simp add: of_char_of)

lemma or_add: "b < 2 ^ k \<Longrightarrow> push_bit k a OR b = 2 ^ k * a + (b::nat)"
proof -
  assume b: "b < 2 ^ k"
  have "push_bit k a AND b = 0"
  proof (rule bit_eqI)
    fix n
    have "bit b n \<Longrightarrow> n < k"
      using b by (metis bit_take_bit_iff take_bit_nat_eq_self)
    then show "bit (push_bit k a AND b) n = bit 0 n"
      by (auto simp: bit_and_iff bit_push_bit_iff_nat)
  qed
  then have "push_bit k a + b = push_bit k a OR b"
    by (rule disjunctive_add_eq_or)
  then show ?thesis by (simp add: push_bit_eq_mult mult.commute)
qed

lemma or_push_add: "v < 2 ^ j \<Longrightarrow> 2 ^ k * (2 ^ j * y) OR push_bit k v = 2 ^ k * (2 ^ j * y + (v::nat))"
proof -
  assume v: "v < 2 ^ j"
  have "2 ^ k * (2 ^ j * y) OR push_bit k v = push_bit k (push_bit j y OR v)"
    by (simp only: push_bit_or) (simp add: push_bit_eq_mult mult.commute mult.left_commute)
  then show ?thesis using or_add [OF v, of y] by (simp add: push_bit_eq_mult mult.commute)
qed

section \<open>Byte strings\<close>

text \<open>\<open>slice::split(|b| *b == sep)\<close>: always at least one piece, empty pieces kept.\<close>

fun split_on :: "u8 \<Rightarrow> bytes \<Rightarrow> bytes list" where
  "split_on sep [] = [[]]"
| "split_on sep (c # cs) =
     (if c = sep then [] # split_on sep cs
      else (case split_on sep cs of [] \<Rightarrow> [[c]] | p # ps \<Rightarrow> (c # p) # ps))"

fun join_with :: "u8 \<Rightarrow> bytes list \<Rightarrow> bytes" where
  "join_with sep [] = []"
| "join_with sep [p] = p"
| "join_with sep (p # q # ps) = p @ sep # join_with sep (q # ps)"

text \<open>\<open>str::split_once\<close>: the text before and after the first separator.\<close>

fun split_once :: "u8 \<Rightarrow> bytes \<Rightarrow> (bytes \<times> bytes) option" where
  "split_once sep [] = None"
| "split_once sep (c # cs) =
     (if c = sep then Some ([], cs)
      else (case split_once sep cs of None \<Rightarrow> None | Some (a, b) \<Rightarrow> Some (c # a, b)))"

fun starts_with :: "bytes \<Rightarrow> bytes \<Rightarrow> bool" where
  "starts_with s [] = True"
| "starts_with [] (p # ps) = False"
| "starts_with (c # cs) (p # ps) = (c = p \<and> starts_with cs ps)"

definition ends_with :: "bytes \<Rightarrow> bytes \<Rightarrow> bool" where
  "ends_with s p = starts_with (rev s) (rev p)"

definition strip_prefix :: "bytes \<Rightarrow> bytes \<Rightarrow> bytes option" where
  "strip_prefix p s = (if starts_with s p then Some (drop (length p) s) else None)"

text \<open>\<open>str::contains\<close> for a substring.\<close>

fun contains_sub :: "bytes \<Rightarrow> bytes \<Rightarrow> bool" where
  "contains_sub [] p = (p = [])"
| "contains_sub (c # cs) p = (starts_with (c # cs) p \<or> contains_sub cs p)"

lemma split_on_not_Nil [simp]: "split_on sep s \<noteq> []"
  by (induction s) (auto split: list.splits)

lemma join_split [simp]: "join_with sep (split_on sep s) = s"
proof (induction s)
  case (Cons c cs)
  obtain p ps where "split_on sep cs = p # ps"
    by (meson neq_Nil_conv split_on_not_Nil)
  with Cons show ?case by (cases ps) auto
qed simp

lemma split_on_no_sep: "p \<in> set (split_on sep s) \<Longrightarrow> sep \<notin> set p"
  by (induction s arbitrary: p) (auto split: if_splits list.splits)

lemma split_on_clean [simp]: "sep \<notin> set s \<Longrightarrow> split_on sep s = [s]"
  by (induction s) auto

lemma split_on_append:
  "sep \<notin> set p \<Longrightarrow> split_on sep (p @ sep # s) = p # split_on sep s"
  by (induction p) auto

lemma split_join:
  "ps \<noteq> [] \<Longrightarrow> (\<And>p. p \<in> set ps \<Longrightarrow> sep \<notin> set p) \<Longrightarrow> split_on sep (join_with sep ps) = ps"
proof (induction sep ps rule: join_with.induct)
  case (3 sep p q ps)
  have "split_on sep (p @ sep # join_with sep (q # ps)) = p # split_on sep (join_with sep (q # ps))"
    using "3.prems"(2) by (simp add: split_on_append)
  with 3 show ?case by simp
qed auto

lemma split_once_append [simp]: "sep \<notin> set a \<Longrightarrow> split_once sep (a @ sep # b) = Some (a, b)"
  by (induction a) auto

lemma split_once_SomeD: "split_once sep s = Some (a, b) \<Longrightarrow> s = a @ sep # b \<and> sep \<notin> set a"
  by (induction s arbitrary: a) (auto split: option.splits if_splits)

lemma split_once_Some_iff:
  "split_once sep s = Some (a, b) \<longleftrightarrow> s = a @ sep # b \<and> sep \<notin> set a"
  using split_once_SomeD by fastforce

lemma split_once_None_iff [simp]: "split_once sep s = None \<longleftrightarrow> sep \<notin> set s"
  by (induction s) (auto split: option.splits)

lemma starts_with_iff: "starts_with s p \<longleftrightarrow> (\<exists>t. s = p @ t)"
  by (induction s p rule: starts_with.induct) auto

lemma starts_with_append [simp]: "starts_with (p @ t) p"
  by (simp add: starts_with_iff)

lemma ends_with_iff: "ends_with s p \<longleftrightarrow> (\<exists>t. s = t @ p)"
  unfolding ends_with_def starts_with_iff
  by (metis rev_append rev_rev_ident)

lemma strip_prefix_Some_iff: "strip_prefix p s = Some t \<longleftrightarrow> s = p @ t"
  by (auto simp: strip_prefix_def starts_with_iff)

lemma strip_prefix_append [simp]: "strip_prefix p (p @ t) = Some t"
  by (simp add: strip_prefix_Some_iff)

lemma contains_sub_iff: "contains_sub s p \<longleftrightarrow> (\<exists>a b. s = a @ p @ b)"
proof (induction s)
  case (Cons c cs)
  have "(\<exists>a b. c # cs = a @ p @ b) \<longleftrightarrow> (\<exists>b. c # cs = p @ b) \<or> (\<exists>a b. cs = a @ p @ b)"
    by (metis append_Cons append_Nil neq_Nil_conv list.sel(3))
  with Cons show ?case by (simp add: starts_with_iff)
qed auto

section \<open>BTreeMap\<close>

type_synonym ('k, 'v) btree = "('k \<times> 'v) list"

abbreviation bt_get :: "('k, 'v) btree \<Rightarrow> 'k \<rightharpoonup> 'v" where
  "bt_get \<equiv> map_of"

fun bt_insert :: "'k::linorder \<Rightarrow> 'v \<Rightarrow> ('k, 'v) btree \<Rightarrow> ('k, 'v) btree" where
  "bt_insert k v [] = [(k, v)]"
| "bt_insert k v ((a, b) # m) =
     (if k < a then (k, v) # (a, b) # m
      else if k = a then (k, v) # m
      else (a, b) # bt_insert k v m)"

definition bt_remove :: "'k \<Rightarrow> ('k, 'v) btree \<Rightarrow> ('k, 'v) btree" where
  "bt_remove k m = filter (\<lambda>e. fst e \<noteq> k) m"

text \<open>\<open>BTreeMap::range(lo..hi)\<close>.\<close>

definition bt_range :: "'k::linorder \<Rightarrow> 'k \<Rightarrow> ('k, 'v) btree \<Rightarrow> ('k, 'v) btree" where
  "bt_range lo hi m = filter (\<lambda>e. lo \<le> fst e \<and> fst e < hi) m"

definition bt_ok :: "('k::linorder, 'v) btree \<Rightarrow> bool" where
  "bt_ok m = sorted_wrt (<) (map fst m)"

lemma bt_get_insert [simp, map_laws]: "bt_get (bt_insert k v m) = (bt_get m)(k \<mapsto> v)"
  by (induction m) (auto simp: fun_eq_iff)

lemma bt_get_remove [simp, map_laws]: "bt_get (bt_remove k m) = (bt_get m)(k := None)"
  by (induction m) (auto simp: bt_remove_def fun_eq_iff)

lemma set_bt_insert: "set (map fst (bt_insert k v m)) = insert k (set (map fst m))"
  by (induction k v m rule: bt_insert.induct) auto

lemma bt_ok_Nil [simp]: "bt_ok []"
  by (simp add: bt_ok_def)

lemma bt_ok_insert [simp]: "bt_ok m \<Longrightarrow> bt_ok (bt_insert k v m)"
proof (induction m)
  case (Cons e m)
  obtain a b where e: "e = (a, b)" by force
  from Cons.prems e have ok: "bt_ok m" and a: "\<forall>x \<in> set (map fst m). a < x"
    by (auto simp: bt_ok_def)
  consider "k < a" | "k = a" | "a < k" by fastforce
  then show ?case
  proof cases
    case 3
    have "\<forall>x \<in> set (map fst (bt_insert k v m)). a < x"
      using a 3 by (subst set_bt_insert) auto
    with 3 Cons.IH [OF ok] e show ?thesis by (auto simp: bt_ok_def)
  qed (use e ok a in \<open>auto simp: bt_ok_def\<close>)
qed (simp add: bt_ok_def)

lemma sorted_wrt_map_filter: "sorted_wrt R (map f xs) \<Longrightarrow> sorted_wrt R (map f (filter P xs))"
  by (induction xs) auto

lemma bt_ok_remove [simp]: "bt_ok m \<Longrightarrow> bt_ok (bt_remove k m)"
  unfolding bt_ok_def bt_remove_def by (rule sorted_wrt_map_filter)

lemma bt_ok_distinct: "bt_ok m \<Longrightarrow> distinct (map fst m)"
  by (simp add: bt_ok_def strict_sorted_iff)

lemma bt_get_iff_mem: "bt_ok m \<Longrightarrow> bt_get m k = Some v \<longleftrightarrow> (k, v) \<in> set m"
  by (metis bt_ok_distinct map_of_eq_Some_iff)

lemma bt_ext:
  assumes "bt_ok m" and "bt_ok m'" and "bt_get m = bt_get m'"
  shows "m = m'"
proof (rule map_sorted_distinct_set_unique [of fst])
  show set: "set m = set m'"
    using bt_get_iff_mem [OF assms(1)] bt_get_iff_mem [OF assms(2)] assms(3) by (metis set_eqI surj_pair)
  show "inj_on fst (set m \<union> set m')"
    using bt_ok_distinct [OF assms(1)] set by (simp add: distinct_map)
qed (use assms(1,2) in \<open>simp_all add: bt_ok_def strict_sorted_iff\<close>)

lemma map_of_filter_key: "map_of (filter (\<lambda>(k, v). P k) m) y = (if P y then map_of m y else None)"
  by (induction m) auto

text \<open>
  The interface the components use a map through: the laws say what a lookup returns and
  that every operation keeps the representation invariant.
\<close>

locale ordered_map =
  fixes empty :: "'m"
    and get :: "'m \<Rightarrow> 'k \<rightharpoonup> 'v"
    and ins :: "'k \<Rightarrow> 'v \<Rightarrow> 'm \<Rightarrow> 'm"
    and del :: "'k \<Rightarrow> 'm \<Rightarrow> 'm"
    and ok :: "'m \<Rightarrow> bool"
  assumes get_empty: "get empty = Map.empty"
    and get_ins: "ok m \<Longrightarrow> get (ins k v m) = (get m)(k \<mapsto> v)"
    and get_del: "ok m \<Longrightarrow> get (del k m) = (get m)(k := None)"
    and ok_empty: "ok empty"
    and ok_ins: "ok m \<Longrightarrow> ok (ins k v m)"
    and ok_del: "ok m \<Longrightarrow> ok (del k m)"
begin

lemma ok_fold_del: "ok m \<Longrightarrow> ok (fold del ks m)"
  by (induction ks arbitrary: m) (auto simp: ok_del)

lemma get_fold_del: "ok m \<Longrightarrow> get (fold del ks m) x = (if x \<in> set ks then None else get m x)"
  by (induction ks arbitrary: m) (auto simp: get_del ok_del)

lemma ok_fold_ins: "ok m \<Longrightarrow> ok (fold (\<lambda>y. ins (f y) (g y)) ys m)"
  by (induction ys arbitrary: m) (auto simp: ok_ins)

lemma get_fold_ins_other:
  "ok m \<Longrightarrow> x \<notin> f ` set ys \<Longrightarrow> get (fold (\<lambda>y. ins (f y) (g y)) ys m) x = get m x"
  by (induction ys arbitrary: m) (auto simp: get_ins ok_ins)

lemma get_fold_ins:
  "ok m \<Longrightarrow> inj_on f (set ys) \<Longrightarrow> y \<in> set ys \<Longrightarrow>
   get (fold (\<lambda>y. ins (f y) (g y)) ys m) (f y) = Some (g y)"
proof (induction ys arbitrary: m)
  case (Cons z zs)
  show ?case
  proof (cases "y \<in> set zs")
    case True
    with Cons show ?thesis by (auto simp: ok_ins)
  next
    case False
    with Cons.prems have "y = z" "f y \<notin> f ` set zs" by auto
    with Cons.prems(1) show ?thesis
      by (simp add: get_fold_ins_other ok_ins get_ins)
  qed
qed simp

end

interpretation bt: ordered_map "[]" bt_get bt_insert bt_remove bt_ok
  by unfold_locales auto

section \<open>Codecs\<close>

text \<open>
  An encoder and a partial decoder that reads back what the encoder writes, for the values a
  predicate admits. Round trips make the encoding unambiguous.
\<close>

locale codec =
  fixes valid :: "'a \<Rightarrow> bool"
    and enc :: "'a \<Rightarrow> 'b"
    and dec :: "'b \<Rightarrow> 'e + 'a"
  assumes dec_enc: "valid x \<Longrightarrow> dec (enc x) = Inr x"
begin

lemma enc_inj_on: "inj_on enc {x. valid x}"
  by (metis (no_types, lifting) dec_enc inj_onI mem_Collect_eq sum.inject(2))

lemma enc_eq_iff: "valid x \<Longrightarrow> valid y \<Longrightarrow> enc x = enc y \<longleftrightarrow> x = y"
  by (metis dec_enc sum.inject(2))

end

section \<open>Lists\<close>

lemma fold_invariant:
  "P s \<Longrightarrow> (\<And>x s. x \<in> set xs \<Longrightarrow> P s \<Longrightarrow> P (f x s)) \<Longrightarrow> P (fold f xs s)"
  by (induction xs arbitrary: s) auto

text \<open>\<open>slice::chunks(n)\<close>.\<close>

function chunks :: "nat \<Rightarrow> 'a list \<Rightarrow> 'a list list" where
  "chunks n xs = (if n = 0 \<or> xs = [] then [] else take n xs # chunks n (drop n xs))"
  by pat_completeness auto
termination
  by (relation "measure (\<lambda>(n, xs). length xs)") auto

declare chunks.simps [simp del]

lemma chunks_Nil [simp]: "chunks n [] = []"
  by (simp add: chunks.simps)

section \<open>Text\<close>

text \<open>\<open>str::split_inclusive(sep)\<close> and \<open>str::strip_suffix(sep)\<close>.\<close>

fun split_inclusive :: "u8 \<Rightarrow> bytes \<Rightarrow> bytes list" where
  "split_inclusive sep [] = []"
| "split_inclusive sep (c # cs) =
     (if c = sep then [c] # split_inclusive sep cs
      else (case split_inclusive sep cs of [] \<Rightarrow> [[c]] | p # ps \<Rightarrow> (c # p) # ps))"

definition strip_suffix_byte :: "u8 \<Rightarrow> bytes \<Rightarrow> bytes option" where
  "strip_suffix_byte sep s = (if s \<noteq> [] \<and> last s = sep then Some (butlast s) else None)"

lemma split_inclusive_line:
  "sep \<notin> set p \<Longrightarrow> split_inclusive sep (p @ sep # s) = (p @ [sep]) # split_inclusive sep s"
  by (induction p) auto

lemma strip_suffix_byte_snoc [simp]: "strip_suffix_byte sep (p @ [sep]) = Some p"
  by (simp add: strip_suffix_byte_def)

text \<open>
  One UTF-8 encoded scalar value at the front of a non-empty byte string: the value and the
  number of continuation bytes, \<open>None\<close> when the front is not well formed. The table is the one
  \<open>std::str::from_utf8\<close> implements.
\<close>

definition cont_byte :: "nat \<Rightarrow> bool" where
  "cont_byte b = (0x80 \<le> b \<and> b \<le> 0xBF)"

fun utf8_char :: "nat \<Rightarrow> nat list \<Rightarrow> (nat \<times> nat) option" where
  "utf8_char a bs =
     (if a < 0x80 then Some (a, 0)
      else if 0xC2 \<le> a \<and> a \<le> 0xDF then
        (case bs of b # _ \<Rightarrow>
           if cont_byte b then Some ((a - 0xC0) * 64 + (b - 0x80), 1) else None
         | _ \<Rightarrow> None)
      else if 0xE0 \<le> a \<and> a \<le> 0xEF then
        (case bs of b # c # _ \<Rightarrow>
           if cont_byte b \<and> cont_byte c \<and> (a = 0xE0 \<longrightarrow> 0xA0 \<le> b) \<and> (a = 0xED \<longrightarrow> b \<le> 0x9F)
           then Some ((a - 0xE0) * 4096 + (b - 0x80) * 64 + (c - 0x80), 2) else None
         | _ \<Rightarrow> None)
      else if 0xF0 \<le> a \<and> a \<le> 0xF4 then
        (case bs of b # c # d # _ \<Rightarrow>
           if cont_byte b \<and> cont_byte c \<and> cont_byte d
              \<and> (a = 0xF0 \<longrightarrow> 0x90 \<le> b) \<and> (a = 0xF4 \<longrightarrow> b \<le> 0x8F)
           then Some ((a - 0xF0) * 262144 + (b - 0x80) * 4096 + (c - 0x80) * 64 + (d - 0x80), 3)
           else None
         | _ \<Rightarrow> None)
      else None)"

declare utf8_char.simps [simp del]

fun utf8_decode :: "nat list \<Rightarrow> nat list option" where
  "utf8_decode [] = Some []"
| "utf8_decode (a # bs) =
     (case utf8_char a bs of None \<Rightarrow> None
      | Some (v, n) \<Rightarrow> map_option ((#) v) (utf8_decode (drop n bs)))"

text \<open>\<open>from_utf8(s).is_ok()\<close>, and \<open>str::chars\<close> as scalar values (a \<open>str\<close> is valid UTF-8).\<close>

definition utf8_valid :: "bytes \<Rightarrow> bool" where
  "utf8_valid s = (utf8_decode (map of_char s) \<noteq> None)"

definition str_chars :: "bytes \<Rightarrow> nat list" where
  "str_chars s = (case utf8_decode (map of_char s) of None \<Rightarrow> [] | Some cs \<Rightarrow> cs)"

definition is_ascii :: "bytes \<Rightarrow> bool" where
  "is_ascii s = (\<forall>c \<in> set s. (of_char c :: nat) < 128)"

lemma utf8_decode_ascii: "(\<forall>b \<in> set bs. b < 128) \<Longrightarrow> utf8_decode bs = Some bs"
  by (induction bs) (auto simp: utf8_char.simps)

lemma ascii_utf8_valid [simp]: "is_ascii s \<Longrightarrow> utf8_valid s"
  by (simp add: is_ascii_def utf8_valid_def utf8_decode_ascii)

lemma ascii_str_chars: "is_ascii s \<Longrightarrow> str_chars s = map of_char s"
  by (simp add: is_ascii_def str_chars_def utf8_decode_ascii)

lemma is_ascii_append [simp]: "is_ascii (a @ b) \<longleftrightarrow> is_ascii a \<and> is_ascii b"
  by (auto simp: is_ascii_def)

section \<open>Decimal numbers\<close>

text \<open>
  \<open>to_string\<close> of an unsigned integer, and \<open>str::parse\<close> into one bounded by \<open>mx\<close>: an optional
  \<open>+\<close>, at least one digit, nothing else, no overflow.
\<close>

definition digit_char :: "nat \<Rightarrow> char" where
  "digit_char d = char_of (48 + d)"

fun dec_string :: "nat \<Rightarrow> string" where
  "dec_string n = (if n < 10 then [digit_char n] else dec_string (n div 10) @ [digit_char (n mod 10)])"

declare dec_string.simps [simp del]

definition is_ascii_digit :: "char \<Rightarrow> bool" where
  "is_ascii_digit c = (48 \<le> (of_char c :: nat) \<and> (of_char c :: nat) \<le> 57)"

definition dec_value :: "string \<Rightarrow> nat" where
  "dec_value s = foldl (\<lambda>n c. 10 * n + (of_char c - 48)) 0 s"

definition parse_unsigned :: "nat \<Rightarrow> string \<Rightarrow> nat option" where
  "parse_unsigned mx s =
     (let ds = (case s of [] \<Rightarrow> [] | c # cs \<Rightarrow> if c = CHR ''+'' then cs else s)
      in if ds = [] \<or> \<not> list_all is_ascii_digit ds then None
         else if dec_value ds > mx then None else Some (dec_value ds))"

lemma of_char_digit [simp]: "d < 10 \<Longrightarrow> of_char (digit_char d) = 48 + d"
  by (simp add: digit_char_def)

lemma dec_string_not_Nil [simp]: "dec_string n \<noteq> []"
  by (subst dec_string.simps) simp

lemma is_ascii_digit_char [simp]: "d < 10 \<Longrightarrow> is_ascii_digit (digit_char d)"
  by (simp add: is_ascii_digit_def)

lemma dec_string_digits: "list_all is_ascii_digit (dec_string n)"
proof (induction n rule: dec_string.induct)
  case (1 n)
  then show ?case by (subst dec_string.simps) simp
qed

lemma dec_value_snoc: "dec_value (s @ [c]) = 10 * dec_value s + (of_char c - 48)"
  by (simp add: dec_value_def)

lemma dec_value_dec_string [simp]: "dec_value (dec_string n) = n"
proof (induction n rule: dec_string.induct)
  case (1 n)
  show ?case
  proof (cases "n < 10")
    case True
    then show ?thesis by (subst dec_string.simps) (simp add: dec_value_def)
  next
    case False
    with 1 show ?thesis by (subst dec_string.simps) (simp add: dec_value_snoc)
  qed
qed

lemma parse_dec_string [simp]: "n \<le> mx \<Longrightarrow> parse_unsigned mx (dec_string n) = Some n"
proof -
  assume n: "n \<le> mx"
  obtain c cs where s: "dec_string n = c # cs" using dec_string_not_Nil by (meson neq_Nil_conv)
  with dec_string_digits [of n] have "c \<noteq> CHR ''+''" by (auto simp: is_ascii_digit_def)
  with s n dec_string_digits [of n] dec_value_dec_string [of n] show ?thesis
    by (simp add: parse_unsigned_def)
qed

lemma dec_string_length: "0 < k \<Longrightarrow> n < 10 ^ k \<Longrightarrow> length (dec_string n) \<le> k"
proof (induction k arbitrary: n)
  case (Suc k)
  show ?case
  proof (cases "n < 10")
    case True
    then show ?thesis by (subst dec_string.simps) simp
  next
    case False
    with Suc.prems have "0 < k" by (cases k) auto
    moreover have "n div 10 < 10 ^ k"
      using Suc.prems by (simp add: less_mult_imp_div_less mult.commute)
    ultimately have "length (dec_string (n div 10)) \<le> k" by (rule Suc.IH)
    with False show ?thesis by (subst dec_string.simps) simp
  qed
qed simp

lemma digits_ascii: "list_all is_ascii_digit s \<Longrightarrow> is_ascii s"
  by (auto simp: is_ascii_digit_def is_ascii_def list_all_iff)

end
