(* ===== verification/Gfs_Error.thy ===== *)
theory Gfs_Error
  imports Gfs_Prelude
begin

text \<open>
  The structured error codes of \<open>crates/gfs-types/src/error.rs\<close> and their transport mappings.
  A \<open>GfsError\<close> is its code: the human-readable message is not modelled, so a fallible function
  of the crate returns \<open>error_code + 'a\<close>.
\<close>

datatype error_code =
    InvalidArgument | NotFound | PermissionDenied | Unauthenticated | Expired
  | FailedPrecondition | Conflict | ResourceLimit | SnapshotBuilding | NotIndexable
  | UnsupportedRepositoryFormat | ReservedNamespace | Unavailable | DeadlineExceeded
  | Cancelled | Internal

fun grpc_code :: "error_code \<Rightarrow> nat" where
  "grpc_code InvalidArgument = 3"
| "grpc_code NotFound = 5"
| "grpc_code PermissionDenied = 7"
| "grpc_code Unauthenticated = 16"
| "grpc_code Expired = 16"
| "grpc_code FailedPrecondition = 9"
| "grpc_code Conflict = 10"
| "grpc_code ResourceLimit = 8"
| "grpc_code SnapshotBuilding = 14"
| "grpc_code NotIndexable = 9"
| "grpc_code UnsupportedRepositoryFormat = 9"
| "grpc_code ReservedNamespace = 3"
| "grpc_code Unavailable = 14"
| "grpc_code DeadlineExceeded = 4"
| "grpc_code Cancelled = 1"
| "grpc_code Internal = 13"

fun http_status :: "error_code \<Rightarrow> nat" where
  "http_status InvalidArgument = 400"
| "http_status ReservedNamespace = 400"
| "http_status Unauthenticated = 401"
| "http_status Expired = 401"
| "http_status PermissionDenied = 403"
| "http_status NotFound = 404"
| "http_status Conflict = 409"
| "http_status FailedPrecondition = 422"
| "http_status NotIndexable = 422"
| "http_status UnsupportedRepositoryFormat = 422"
| "http_status ResourceLimit = 429"
| "http_status Internal = 500"
| "http_status Unavailable = 503"
| "http_status SnapshotBuilding = 503"
| "http_status DeadlineExceeded = 504"
| "http_status Cancelled = 499"

fun retryable :: "error_code \<Rightarrow> bool" where
  "retryable Unavailable = True"
| "retryable SnapshotBuilding = True"
| "retryable DeadlineExceeded = True"
| "retryable _ = False"

fun error_code_as_str :: "error_code \<Rightarrow> string" where
  "error_code_as_str InvalidArgument = ''INVALID_ARGUMENT''"
| "error_code_as_str NotFound = ''NOT_FOUND''"
| "error_code_as_str PermissionDenied = ''PERMISSION_DENIED''"
| "error_code_as_str Unauthenticated = ''UNAUTHENTICATED''"
| "error_code_as_str Expired = ''EXPIRED''"
| "error_code_as_str FailedPrecondition = ''FAILED_PRECONDITION''"
| "error_code_as_str Conflict = ''CONFLICT''"
| "error_code_as_str ResourceLimit = ''RESOURCE_LIMIT''"
| "error_code_as_str SnapshotBuilding = ''SNAPSHOT_BUILDING''"
| "error_code_as_str NotIndexable = ''NOT_INDEXABLE''"
| "error_code_as_str UnsupportedRepositoryFormat = ''UNSUPPORTED_REPOSITORY_FORMAT''"
| "error_code_as_str ReservedNamespace = ''RESERVED_NAMESPACE''"
| "error_code_as_str Unavailable = ''UNAVAILABLE''"
| "error_code_as_str DeadlineExceeded = ''DEADLINE_EXCEEDED''"
| "error_code_as_str Cancelled = ''CANCELLED''"
| "error_code_as_str Internal = ''INTERNAL''"

text \<open>\<open>GfsError::masked_denial\<close>: a denial that must look like absence.\<close>

definition masked_denial :: error_code where
  "masked_denial = NotFound"

text \<open>
  The two transports agree on what may be retried: a code is retryable exactly when its HTTP status is
  503 or 504, exactly when its gRPC status is UNAVAILABLE or DEADLINE_EXCEEDED, and the wire names of
  distinct codes differ.
\<close>

theorem retryable_transports:
  "(retryable c \<longleftrightarrow> http_status c \<in> {503, 504}) \<and> (retryable c \<longleftrightarrow> grpc_code c \<in> {14, 4})
   \<and> (error_code_as_str c = error_code_as_str d \<longleftrightarrow> c = d)"
  by (cases c; cases d; simp)

end
