(* ===== verification/Gfs_Path.thy ===== *)
theory Gfs_Path
  imports Gfs_Error
begin

unbundle bit_operations_syntax

text \<open>
  Repository paths as raw bytes, \<open>crates/gfs-types/src/path.rs\<close>, with the two limits of
  \<open>limits.rs\<close> they are checked against: component splitting and joining, the validation every
  caller-supplied path goes through, and the unpadded base64url wire form. The bit operations
  of the base64 routines are those of the source, on \<open>nat\<close> (no intermediate value reaches
  32 bits). A \<open>BytePath\<close> is its byte string.
\<close>

definition MAX_PATH_BYTES :: nat where
  "MAX_PATH_BYTES = 4096"

definition MAX_PATH_COMPONENTS :: nat where
  "MAX_PATH_COMPONENTS = 256"

section \<open>Components\<close>

definition components :: "path \<Rightarrow> bytes list" where
  "components p = filter (\<lambda>c. c \<noteq> []) (split_on (CHR ''/'') p)"

definition file_name :: "path \<Rightarrow> bytes option" where
  "file_name p = (case rev (components p) of [] \<Rightarrow> None | c # _ \<Rightarrow> Some c)"

definition join_path :: "path \<Rightarrow> bytes \<Rightarrow> path" where
  "join_path p c =
     (if p \<noteq> [] \<and> \<not> ends_with p ''/'' then p @ ''/'' @ c else p @ c)"

section \<open>Validation\<close>

fun validate_components :: "bool \<Rightarrow> bytes list \<Rightarrow> nat \<Rightarrow> error_code + unit" where
  "validate_components root [] count = Inr ()"
| "validate_components root (c # cs) count =
     (if c = [] then
        (if root then validate_components root cs count else Inl InvalidArgument)
      else if c = ''.'' \<or> c = ''..'' then Inl InvalidArgument
      else if count + 1 > MAX_PATH_COMPONENTS then Inl InvalidArgument
      else validate_components root cs (count + 1))"

definition validate :: "path \<Rightarrow> error_code + unit" where
  "validate p =
     (if length p > MAX_PATH_BYTES then Inl InvalidArgument
      else if CHR 0x00 \<in> set p then Inl InvalidArgument
      else if starts_with p ''/'' then Inl InvalidArgument
      else validate_components (p = []) (split_on (CHR ''/'') p) 0)"

definition exceeds_length_limits :: "path \<Rightarrow> bool" where
  "exceeds_length_limits p =
     (if length p > MAX_PATH_BYTES then True
      else length (filter (\<lambda>c. c \<noteq> []) (split_on (CHR ''/'') p)) > MAX_PATH_COMPONENTS)"

section \<open>base64url\<close>

definition b64_table :: string where
  "b64_table = ''ABCDEFGHIJKLMNOPQRSTUVWXYZabcdefghijklmnopqrstuvwxyz0123456789-_''"

definition b64_digit :: "nat \<Rightarrow> nat \<Rightarrow> char" where
  "b64_digit n k = b64_table ! (drop_bit k n AND 63)"

definition byte_at :: "bytes \<Rightarrow> nat \<Rightarrow> nat" where
  "byte_at chunk i = (if i < length chunk then of_char (chunk ! i) else 0)"

definition b64_chunk :: "bytes \<Rightarrow> string" where
  "b64_chunk chunk =
     (let n = push_bit 16 (byte_at chunk 0) OR push_bit 8 (byte_at chunk 1) OR byte_at chunk 2
      in [b64_digit n 18, b64_digit n 12]
         @ (if length chunk > 1 then [b64_digit n 6] else [])
         @ (if length chunk > 2 then [b64_digit n 0] else []))"

definition b64url_encode :: "bytes \<Rightarrow> string" where
  "b64url_encode bs = concat (map b64_chunk (chunks 3 bs))"

definition b64_val :: "char \<Rightarrow> nat option" where
  "b64_val c =
     (let b = of_char c :: nat
      in if 65 \<le> b \<and> b \<le> 90 then Some (b - 65)
         else if 97 \<le> b \<and> b \<le> 122 then Some (b - 97 + 26)
         else if 48 \<le> b \<and> b \<le> 57 then Some (b - 48 + 52)
         else if b = 45 then Some 62
         else if b = 95 then Some 63
         else None)"

text \<open>The inner loop \<open>n |= val(b)? << (18 - 6 * i)\<close>.\<close>

fun b64_gather :: "string \<Rightarrow> nat \<Rightarrow> nat \<Rightarrow> nat option" where
  "b64_gather [] i n = Some n"
| "b64_gather (c # cs) i n =
     (case b64_val c of None \<Rightarrow> None
      | Some v \<Rightarrow> b64_gather cs (i + 1) (n OR push_bit (18 - 6 * i) v))"

definition byte_of :: "nat \<Rightarrow> char" where
  "byte_of n = char_of (take_bit 8 n)"

definition b64_unchunk :: "string \<Rightarrow> error_code + bytes" where
  "b64_unchunk chunk =
     (if length chunk = 1 then Inl InvalidArgument
      else case b64_gather chunk 0 0 of
        None \<Rightarrow> Inl InvalidArgument
      | Some n \<Rightarrow>
          Inr ([byte_of (drop_bit 16 n)]
               @ (if length chunk > 2 then [byte_of (drop_bit 8 n)] else [])
               @ (if length chunk > 3 then [byte_of n] else [])))"

fun b64_decode_chunks :: "string list \<Rightarrow> error_code + bytes" where
  "b64_decode_chunks [] = Inr []"
| "b64_decode_chunks (c # cs) =
     (case b64_unchunk c of Inl e \<Rightarrow> Inl e
      | Inr bs \<Rightarrow> (case b64_decode_chunks cs of Inl e \<Rightarrow> Inl e | Inr rest \<Rightarrow> Inr (bs @ rest)))"

definition trim_padding :: "string \<Rightarrow> string" where
  "trim_padding s = rev (dropWhile (\<lambda>c. c = CHR ''='') (rev s))"

definition b64url_decode :: "string \<Rightarrow> error_code + bytes" where
  "b64url_decode s = b64_decode_chunks (chunks 4 (trim_padding s))"

section \<open>What validation accepts\<close>

definition plain_component :: "bytes \<Rightarrow> bool" where
  "plain_component c \<longleftrightarrow> c \<noteq> [] \<and> c \<noteq> ''.'' \<and> c \<noteq> ''..'' \<and> CHR ''/'' \<notin> set c"

lemma validate_components_iff:
  "validate_components False cs n = Inr () \<longleftrightarrow>
     (\<forall>c \<in> set cs. c \<noteq> [] \<and> c \<noteq> ''.'' \<and> c \<noteq> ''..'') \<and> (cs = [] \<or> n + length cs \<le> MAX_PATH_COMPONENTS)"
  by (induction cs arbitrary: n) auto

lemma validate_root [simp]: "validate [] = Inr ()"
  by (simp add: validate_def)

lemma validate_iff:
  "validate p = Inr () \<longleftrightarrow>
     p = [] \<or> (length p \<le> MAX_PATH_BYTES \<and> CHR 0x00 \<notin> set p
       \<and> length (split_on (CHR ''/'') p) \<le> MAX_PATH_COMPONENTS
       \<and> (\<forall>c \<in> set (split_on (CHR ''/'') p). plain_component c))"
proof (cases "p = []")
  case False
  have "starts_with p ''/'' \<Longrightarrow> \<exists>c \<in> set (split_on (CHR ''/'') p). c = []"
    using False by (cases p) auto
  with False show ?thesis
    by (auto simp: validate_def validate_components_iff plain_component_def
        dest: split_on_no_sep)
qed simp

lemma validate_components_eq: "validate p = Inr () \<Longrightarrow> p \<noteq> [] \<Longrightarrow> components p = split_on (CHR ''/'') p"
  unfolding validate_iff components_def plain_component_def
  by (intro filter_id_conv [THEN iffD2]) auto

lemma components_plain: "validate p = Inr () \<Longrightarrow> c \<in> set (components p) \<Longrightarrow> plain_component c"
  unfolding validate_iff by (auto simp: components_def)

lemma join_components: "validate p = Inr () \<Longrightarrow> join_with (CHR ''/'') (components p) = p"
  by (cases "p = []") (simp_all add: validate_components_eq, simp add: components_def)

lemma split_on_join_snoc:
  "CHR ''/'' \<notin> set c \<Longrightarrow> split_on (CHR ''/'') (p @ CHR ''/'' # c) = split_on (CHR ''/'') p @ [c]"
  by (induction p) (auto split: list.splits)

lemma not_ends_slash: "validate p = Inr () \<Longrightarrow> p \<noteq> [] \<Longrightarrow> \<not> ends_with p ''/''"
proof
  assume v: "validate p = Inr ()" and "p \<noteq> []" and "ends_with p ''/''"
  then obtain q where p: "p = q @ ''/''" by (auto simp: ends_with_iff)
  have "[] \<in> set (split_on (CHR ''/'') (q @ ''/''))"
    by (simp add: split_on_join_snoc)
  with v p show False by (auto simp: validate_iff plain_component_def)
qed

lemma components_join:
  assumes "validate p = Inr ()" and "plain_component c"
  shows "components (join_path p c) = components p @ [c]"
proof (cases "p = []")
  case True
  with assms show ?thesis
    by (simp add: join_path_def components_def plain_component_def)
next
  case False
  with assms show ?thesis
    by (simp add: join_path_def components_def not_ends_slash split_on_join_snoc plain_component_def)
qed

section \<open>The base64 alphabet and groups\<close>

lemma and_63: "(n::nat) AND 63 = n mod 64"
  using take_bit_eq_mask [of 6 n] by (simp add: take_bit_eq_mod mask_eq_exp_minus_1)

lemma b64_val_table: "map b64_val b64_table = map Some [0..<64]"
  by (simp add: b64_table_def b64_val_def upt_rec)

lemma b64_val_table_nth: "i < 64 \<Longrightarrow> b64_val (b64_table ! i) = Some i"
proof -
  assume i: "i < 64"
  have "length b64_table = 64" by (simp add: b64_table_def)
  with i have "b64_val (b64_table ! i) = map b64_val b64_table ! i" by simp
  also have "\<dots> = Some i" using i by (simp add: b64_val_table)
  finally show ?thesis .
qed

lemma b64_val_digit [simp]: "b64_val (b64_digit n k) = Some (n div 2 ^ k mod 64)"
  by (simp add: b64_digit_def and_63 drop_bit_eq_div b64_val_table_nth)

lemma b64_gather_4:
  assumes "v0 < 64" "v1 < 64" "v2 < 64" "v3 < 64"
  shows "((push_bit 18 v0 OR push_bit 12 v1) OR push_bit 6 v2) OR v3
           = 262144 * v0 + 4096 * v1 + 64 * v2 + (v3::nat)"
proof -
  have 1: "push_bit 18 v0 OR push_bit 12 v1 = 4096 * (64 * v0 + v1)"
    using or_push_add [of v1 6 12 v0] assms by (simp add: push_bit_eq_mult algebra_simps)
  have 2: "4096 * (64 * v0 + v1) OR push_bit 6 v2 = 64 * (64 * (64 * v0 + v1) + v2)"
    using or_push_add [of v2 6 6 "64 * v0 + v1"] assms by (simp add: algebra_simps)
  have 3: "64 * (64 * (64 * v0 + v1) + v2) OR v3 = 64 * (64 * (64 * v0 + v1) + v2) + v3"
    using or_push_add [of v3 6 0 "64 * (64 * v0 + v1) + v2"] assms by simp
  from 1 2 3 show ?thesis by simp
qed

lemma b64_gather_3:
  assumes "v0 < 64" "v1 < 64" "v2 < 64"
  shows "(push_bit 18 v0 OR push_bit 12 v1) OR push_bit 6 v2
           = 262144 * v0 + 4096 * v1 + 64 * (v2::nat)"
  using b64_gather_4 [of v0 v1 v2 0] assms by simp

lemma b64_gather_2:
  assumes "v0 < 64" "v1 < 64"
  shows "push_bit 18 v0 OR push_bit 12 v1 = 262144 * v0 + 4096 * (v1::nat)"
  using b64_gather_4 [of v0 v1 0 0] assms by simp

lemma group_value:
  "a < 256 \<Longrightarrow> b < 256 \<Longrightarrow> c < 256 \<Longrightarrow>
   push_bit 16 a OR push_bit 8 b OR c = 65536 * a + 256 * b + (c::nat)"
proof -
  assume "a < 256" "b < 256" "c < 256"
  then have "push_bit 16 a OR push_bit 8 b = push_bit 8 (256 * a + b)"
    and "push_bit 8 (256 * a + b) OR c = 256 * (256 * a + b) + c"
    using or_push_add [of b 8 8 a] or_add [of c 8 "256 * a + b"]
    by (simp_all add: push_bit_eq_mult algebra_simps)
  then show ?thesis by (simp add: or.assoc [symmetric])
qed

lemma byte_of_add [simp]: "byte_of (256 * m + of_char c) = c"
  by (simp add: byte_of_def take_bit_eq_mod)

lemma byte_of_char [simp]: "byte_of (of_char c) = c"
  using byte_of_add [of 0 c] by simp

lemmas b64_group_simps =
  b64_chunk_def b64_unchunk_def byte_at_def Let_def group_value drop_bit_eq_div

lemma sextets: "(n::nat) < 16777216 \<Longrightarrow>
    262144 * (n div 262144 mod 64) + 4096 * (n div 4096 mod 64)
    + 64 * (n div 64 mod 64) + n mod 64 = n"
proof -
  assume "n < 16777216"
  then have a: "n div 262144 mod 64 = n div 262144" by simp
  have "n div 4096 = 64 * (n div 262144) + n div 4096 mod 64"
    using div_mult_mod_eq [of "n div 4096" 64] div_mult2_eq [of n 4096 64] by simp
  moreover have "n div 64 = 64 * (n div 4096) + n div 64 mod 64"
    using div_mult_mod_eq [of "n div 64" 64] div_mult2_eq [of n 64 64] by simp
  moreover have "n = 64 * (n div 64) + n mod 64" by simp
  ultimately show ?thesis unfolding a by linarith
qed

lemma low_byte_div: "(256 * m + of_char c) div 256 = (m::nat)"
  by simp

lemma b64_unchunk_chunk3: "b64_unchunk (b64_chunk [a, b, c]) = Inr [a, b, c]"
proof -
  define n :: nat where "n = 65536 * of_char a + 256 * of_char b + of_char c"
  have n: "n < 16777216"
    unfolding n_def using of_char_bound [of a] of_char_bound [of b] of_char_bound [of c] by linarith
  have d2: "n div 256 = 256 * of_char a + of_char b"
    using low_byte_div [of "256 * of_char a + of_char b" c] by (simp add: n_def algebra_simps)
  then have d1: "n div 65536 = of_char a"
    using div_mult2_eq [of n 256 256] by (simp add: low_byte_div)
  have "b64_gather (b64_chunk [a, b, c]) 0 0 = Some n"
    using sextets [OF n] n by (simp add: b64_group_simps n_def [symmetric] b64_gather_4)
  then have "b64_unchunk (b64_chunk [a, b, c])
      = Inr [byte_of (n div 65536), byte_of (n div 256), byte_of n]"
    by (simp add: b64_unchunk_def drop_bit_eq_div) (simp add: b64_chunk_def Let_def)
  also have "byte_of n = c"
    using byte_of_add [of "256 * of_char a + of_char b" c] by (simp add: n_def algebra_simps)
  finally show ?thesis by (simp add: d1 d2)
qed

lemma b64_unchunk_chunk2: "b64_unchunk (b64_chunk [a, b]) = Inr [a, b]"
proof -
  define n :: nat where "n = 65536 * of_char a + 256 * of_char b"
  have n: "n < 16777216"
    unfolding n_def using of_char_bound [of a] of_char_bound [of b] by linarith
  have z: "n mod 64 = 0" unfolding n_def by presburger
  have d2: "n div 256 = 256 * of_char a + of_char b" by (simp add: n_def)
  then have d1: "n div 65536 = of_char a"
    using div_mult2_eq [of n 256 256] by (simp add: low_byte_div)
  have "b64_gather (b64_chunk [a, b]) 0 0 = Some n"
    using sextets [OF n] n z group_value [of "of_char a" "of_char b" 0]
    by (simp add: b64_group_simps n_def [symmetric] b64_gather_3)
  then have "b64_unchunk (b64_chunk [a, b]) = Inr [byte_of (n div 65536), byte_of (n div 256)]"
    by (simp add: b64_unchunk_def drop_bit_eq_div) (simp add: b64_chunk_def Let_def)
  then show ?thesis by (simp add: d1 d2)
qed

lemma b64_unchunk_chunk1: "b64_unchunk (b64_chunk [a]) = Inr [a]"
proof -
  define n :: nat where "n = 65536 * of_char a"
  have n: "n < 16777216"
    unfolding n_def using of_char_bound [of a] by linarith
  have "n = 64 * (64 * (16 * of_char a))" by (simp add: n_def)
  then have z: "n mod 64 = 0" "n div 64 mod 64 = 0" by simp_all
  have "b64_gather (b64_chunk [a]) 0 0 = Some n"
    using sextets [OF n] n z group_value [of "of_char a" 0 0]
    by (simp add: b64_group_simps n_def [symmetric] b64_gather_2)
  then have "b64_unchunk (b64_chunk [a]) = Inr [byte_of (n div 65536)]"
    by (simp add: b64_unchunk_def drop_bit_eq_div) (simp add: b64_chunk_def Let_def)
  then show ?thesis by (simp add: n_def)
qed

lemma length_b64_chunk: "length xs = 3 \<Longrightarrow> length (b64_chunk xs) = 4"
  by (simp add: b64_chunk_def Let_def)

lemma chunks_append: "n > 0 \<Longrightarrow> length xs = n \<Longrightarrow> chunks n (xs @ ys) = xs # chunks n ys"
  by (subst chunks.simps) auto

lemma chunks_short: "xs \<noteq> [] \<Longrightarrow> length xs \<le> n \<Longrightarrow> chunks n xs = [xs]"
  by (cases "n = 0") (simp, subst chunks.simps, simp)

lemma b64_decode_encode_chunks:
  "b64_decode_chunks (chunks 4 (b64url_encode bs)) = Inr bs"
proof (induction bs rule: length_induct)
  case (1 bs)
  consider "bs = []" | a where "bs = [a]" | a b where "bs = [a, b]"
    | a b c rest where "bs = a # b # c # rest"
    by (cases bs rule: remdups_adj.cases; metis list.exhaust)
  then show ?case
  proof cases
    case (2 a)
    have "chunks 4 (b64_chunk [a]) = [b64_chunk [a]]"
      by (rule chunks_short) (simp_all add: b64_chunk_def Let_def)
    with 2 show ?thesis by (simp add: b64url_encode_def chunks_short b64_unchunk_chunk1)
  next
    case (3 a b)
    have "chunks 4 (b64_chunk [a, b]) = [b64_chunk [a, b]]"
      by (rule chunks_short) (simp_all add: b64_chunk_def Let_def)
    with 3 show ?thesis by (simp add: b64url_encode_def chunks_short b64_unchunk_chunk2)
  next
    case (4 a b c rest)
    have "chunks 3 bs = [a, b, c] # chunks 3 rest"
      using chunks_append [of 3 "[a, b, c]" rest] 4 by simp
    then have "chunks 4 (b64url_encode bs) = b64_chunk [a, b, c] # chunks 4 (b64url_encode rest)"
      by (simp add: b64url_encode_def chunks_append length_b64_chunk)
    with 1 4 show ?thesis by (simp add: b64_unchunk_chunk3)
  qed (simp add: b64url_encode_def)
qed

lemma b64_digit_not_pad: "b64_digit n k \<noteq> CHR ''=''"
proof
  assume "b64_digit n k = CHR ''=''"
  then have "b64_val (CHR ''='') = Some (n div 2 ^ k mod 64)" by (metis b64_val_digit)
  then show False by (simp add: b64_val_def)
qed

lemma b64_chunk_no_pad: "CHR ''='' \<notin> set (b64_chunk xs)"
  using b64_digit_not_pad by (auto simp: b64_chunk_def Let_def dest: sym)

lemma trim_padding_id: "CHR ''='' \<notin> set s \<Longrightarrow> trim_padding s = s"
  unfolding trim_padding_def
  by (cases s rule: rev_cases) auto

lemma trim_padding_encode: "trim_padding (b64url_encode bs) = b64url_encode bs"
  by (rule trim_padding_id) (simp add: b64url_encode_def b64_chunk_no_pad)

lemma b64url_roundtrip_lemma: "b64url_decode (b64url_encode bs) = Inr bs"
  by (simp add: b64url_decode_def trim_padding_encode b64_decode_encode_chunks)

interpretation b64_codec: codec "\<lambda>_. True" b64url_encode b64url_decode
  by unfold_locales (rule b64url_roundtrip_lemma)

section \<open>Properties\<close>

text \<open>
  C21. Validation makes paths canonical: an accepted path is the join of its components, every component is
  plain (not empty, not \<open>.\<close> or \<open>..\<close>, no separator), there are at most 256 of them, and two accepted
  paths with the same components are the same path.
\<close>

theorem validate_canonical:
  assumes "validate p = Inr ()" and "validate q = Inr ()"
  shows "(\<forall>c \<in> set (components p). plain_component c)
    \<and> length (components p) \<le> MAX_PATH_COMPONENTS
    \<and> join_with (CHR ''/'') (components p) = p
    \<and> (components p = components q \<longleftrightarrow> p = q)"
proof -
  have "length (components p) \<le> MAX_PATH_COMPONENTS"
    using assms(1) by (cases "p = []")
      (simp_all add: validate_components_eq validate_iff, simp add: components_def)
  moreover have "components p = components q \<Longrightarrow> p = q"
    using assms by (metis join_components)
  ultimately show ?thesis
    using assms components_plain join_components by blast
qed

theorem validate_canonical_witness:
  "validate ''src/a.rs'' = Inr () \<and> components ''src/a.rs'' \<noteq> components ''src/a''"
  using validate_canonical [of "''src/a.rs''" "''src/a''"]
  by (simp add: validate_def MAX_PATH_BYTES_def MAX_PATH_COMPONENTS_def)

text \<open>
  Whatever bytes a path holds, the unpadded base64url wire form decodes back to exactly them, also
  with trailing \<open>=\<close> padding.
\<close>

theorem b64url_roundtrip:
  "b64url_decode (b64url_encode bs @ replicate k (CHR ''='')) = Inr bs"
proof -
  have "trim_padding (s @ replicate k (CHR ''='')) = trim_padding s" for s
    by (simp add: trim_padding_def dropWhile_append)
  then show ?thesis
    by (simp add: b64url_decode_def trim_padding_encode b64_decode_encode_chunks)
qed

end
