(* ===== verification/Gfs_Oid.thy ===== *)
theory Gfs_Oid
  imports Gfs_Error
begin

unbundle bit_operations_syntax

text \<open>
  Object identifiers (\<open>crates/gfs-types/src/oid.rs\<close>), Git file modes and entry kinds
  (\<open>entry.rs\<close>), and Git LFS pointer files (\<open>lfs.rs\<close>). The hex routines keep the source's shifts
  and masks; \<open>u8\<close> arithmetic is on \<open>nat\<close> below 256.
\<close>

section \<open>Algorithms and identifiers\<close>

datatype hash_algorithm = Sha1 | Sha256 | LfsSha256

fun raw_len :: "hash_algorithm \<Rightarrow> nat" where
  "raw_len Sha1 = 20"
| "raw_len Sha256 = 32"
| "raw_len LfsSha256 = 32"

definition hex_len :: "hash_algorithm \<Rightarrow> nat" where
  "hex_len a = raw_len a * 2"

fun algorithm_name :: "hash_algorithm \<Rightarrow> string" where
  "algorithm_name Sha1 = ''sha1''"
| "algorithm_name Sha256 = ''sha256''"
| "algorithm_name LfsSha256 = ''lfs-sha256''"

definition algorithm_from_name :: "string \<Rightarrow> hash_algorithm option" where
  "algorithm_from_name s =
     (if s = ''sha1'' then Some Sha1
      else if s = ''sha256'' then Some Sha256
      else if s = ''lfs-sha256'' then Some LfsSha256
      else None)"

fun is_git_object_format :: "hash_algorithm \<Rightarrow> bool" where
  "is_git_object_format Sha1 = True"
| "is_git_object_format Sha256 = True"
| "is_git_object_format LfsSha256 = False"

datatype object_id = ObjectId (oid_algorithm: hash_algorithm) (oid_raw: bytes)

datatype oid_error = OidLength nat nat | NotHex | MissingAlgorithm | UnknownAlgorithm

definition from_raw :: "hash_algorithm \<Rightarrow> bytes \<Rightarrow> oid_error + object_id" where
  "from_raw a raw =
     (if length raw \<noteq> raw_len a then Inl (OidLength (raw_len a) (length raw))
      else Inr (ObjectId a raw))"

definition hex_val :: "char \<Rightarrow> oid_error + nat" where
  "hex_val c =
     (let b = of_char c :: nat
      in if 48 \<le> b \<and> b \<le> 57 then Inr (b - 48)
         else if 97 \<le> b \<and> b \<le> 102 then Inr (b - 97 + 10)
         else if 65 \<le> b \<and> b \<le> 70 then Inr (b - 65 + 10)
         else Inl NotHex)"

text \<open>The loop over \<open>bytes.chunks(2)\<close>: \<open>raw.push((hi << 4) | lo)\<close>.\<close>

fun hex_pairs :: "string \<Rightarrow> oid_error + bytes" where
  "hex_pairs (a # b # rest) =
     (case hex_val a of Inl e \<Rightarrow> Inl e
      | Inr hi \<Rightarrow>
        (case hex_val b of Inl e \<Rightarrow> Inl e
         | Inr lo \<Rightarrow>
           (case hex_pairs rest of Inl e \<Rightarrow> Inl e
            | Inr raw \<Rightarrow> Inr (char_of (take_bit 8 (push_bit 4 hi) OR lo) # raw))))"
| "hex_pairs _ = Inr []"

definition from_hex :: "hash_algorithm \<Rightarrow> string \<Rightarrow> oid_error + object_id" where
  "from_hex a hex =
     (if length hex \<noteq> hex_len a then Inl (OidLength (hex_len a) (length hex))
      else case hex_pairs hex of Inl e \<Rightarrow> Inl e | Inr raw \<Rightarrow> Inr (ObjectId a raw))"

definition parse_qualified :: "string \<Rightarrow> oid_error + object_id" where
  "parse_qualified s =
     (case split_once (CHR '':'') s of
        None \<Rightarrow> Inl MissingAlgorithm
      | Some (algo, hex) \<Rightarrow>
          (case algorithm_from_name algo of
             None \<Rightarrow> Inl UnknownAlgorithm
           | Some a \<Rightarrow> from_hex a hex))"

definition hex_digit :: "nat \<Rightarrow> char" where
  "hex_digit d = (if d < 10 then char_of (48 + d) else char_of (87 + d))"

definition to_hex :: "object_id \<Rightarrow> string" where
  "to_hex oid =
     concat (map (\<lambda>b. [hex_digit (drop_bit 4 (of_char b)), hex_digit (of_char b AND 0xF)])
       (oid_raw oid))"

definition to_qualified :: "object_id \<Rightarrow> string" where
  "to_qualified oid = algorithm_name (oid_algorithm oid) @ '':'' @ to_hex oid"

definition is_hex :: "string \<Rightarrow> bool" where
  "is_hex s = (s \<noteq> [] \<and> list_all (\<lambda>c. \<not> isl (hex_val c)) s)"

definition oid_ok :: "object_id \<Rightarrow> bool" where
  "oid_ok oid = (length (oid_raw oid) = raw_len (oid_algorithm oid))"

section \<open>File modes\<close>

text \<open>The octal modes 100644, 100755, 120000, 040000 and 160000 of \<open>mod mode\<close>, in decimal.\<close>

definition REGULAR :: nat where "REGULAR = 33188"
definition EXECUTABLE :: nat where "EXECUTABLE = 33261"
definition SYMLINK :: nat where "SYMLINK = 40960"
definition DIRECTORY :: nat where "DIRECTORY = 16384"
definition GITLINK :: nat where "GITLINK = 57344"

datatype entry_kind = Regular | Executable | Symlink | Directory | Gitlink | Unsupported nat

definition from_mode :: "nat \<Rightarrow> entry_kind" where
  "from_mode m =
     (if m = REGULAR then Regular
      else if m = EXECUTABLE then Executable
      else if m = SYMLINK then Symlink
      else if m = DIRECTORY then Directory
      else if m = GITLINK then Gitlink
      else Unsupported m)"

fun as_mode :: "entry_kind \<Rightarrow> nat" where
  "as_mode Regular = REGULAR"
| "as_mode Executable = EXECUTABLE"
| "as_mode Symlink = SYMLINK"
| "as_mode Directory = DIRECTORY"
| "as_mode Gitlink = GITLINK"
| "as_mode (Unsupported m) = m"

definition is_dir_like :: "entry_kind \<Rightarrow> bool" where
  "is_dir_like k = (k = Directory \<or> k = Gitlink)"

definition has_blob_content :: "entry_kind \<Rightarrow> bool" where
  "has_blob_content k = (k = Regular \<or> k = Executable \<or> k = Symlink)"

text \<open>A kind as \<open>from_mode\<close> makes it: \<open>Unsupported\<close> never carries a supported mode.\<close>

definition kind_ok :: "entry_kind \<Rightarrow> bool" where
  "kind_ok k = (from_mode (as_mode k) = k \<and> as_mode k < 2 ^ 32)"

section \<open>LFS pointers\<close>

definition MAX_POINTER_SIZE :: nat where
  "MAX_POINTER_SIZE = 1024"

definition VERSION_URLS :: "string list" where
  "VERSION_URLS = [''https://git-lfs.github.com/spec/v1'', ''https://hawser.github.com/spec/v1'']"

datatype lfs_pointer = LfsPointer (ptr_oid: object_id) (ptr_size: nat)

abbreviation nl :: char where
  "nl \<equiv> CHR 0x0A"

definition to_pointer_text :: "lfs_pointer \<Rightarrow> string" where
  "to_pointer_text p =
     ''version '' @ VERSION_URLS ! 0 @ nl # ''oid sha256:'' @ to_hex (ptr_oid p) @ nl #
     ''size '' @ dec_string (ptr_size p) @ [nl]"

text \<open>The loop over the lines after the first.\<close>

fun pointer_lines ::
  "string list \<Rightarrow> object_id option \<Rightarrow> nat option \<Rightarrow> (object_id option \<times> nat option) option" where
  "pointer_lines [] oid sz = Some (oid, sz)"
| "pointer_lines (l # ls) oid sz =
     (case strip_suffix_byte nl l of None \<Rightarrow> None
      | Some line \<Rightarrow>
        (case split_once (CHR '' '') line of None \<Rightarrow> None
         | Some (key, value) \<Rightarrow>
           if key = ''oid'' then
             (case strip_prefix ''sha256:'' value of None \<Rightarrow> None
              | Some hex \<Rightarrow>
                (case from_hex LfsSha256 hex of Inl _ \<Rightarrow> None
                 | Inr oid' \<Rightarrow> pointer_lines ls (Some oid') sz))
           else if key = ''size'' then
             (case parse_unsigned u64_max value of None \<Rightarrow> None
              | Some sz' \<Rightarrow> pointer_lines ls oid (Some sz'))
           else pointer_lines ls oid sz))"

definition parse_pointer :: "bytes \<Rightarrow> lfs_pointer option" where
  "parse_pointer content =
     (if content = [] \<or> length content > MAX_POINTER_SIZE then None
      else if \<not> utf8_valid content then None
      else case split_inclusive nl content of
        [] \<Rightarrow> None
      | first # rest \<Rightarrow>
          (case strip_suffix_byte nl first of None \<Rightarrow> None
           | Some version \<Rightarrow>
             (case strip_prefix ''version '' version of None \<Rightarrow> None
              | Some url \<Rightarrow>
                if url \<notin> set VERSION_URLS then None
                else (case pointer_lines rest None None of
                        Some (Some oid, Some sz) \<Rightarrow> Some (LfsPointer oid sz)
                      | _ \<Rightarrow> None))))"

section \<open>Hex round trips\<close>

lemma hex_val_digits: "map hex_val (map hex_digit [0..<16]) = map Inr [0..<16]"
  by (simp add: upt_rec hex_digit_def hex_val_def)

lemma hex_val_digit [simp]: "d < 16 \<Longrightarrow> hex_val (hex_digit d) = Inr d"
proof -
  assume d: "d < 16"
  then have "hex_val (hex_digit d) = map hex_val (map hex_digit [0..<16]) ! d" by simp
  also have "\<dots> = Inr d" using d by (simp only: hex_val_digits) simp
  finally show ?thesis .
qed

lemma and_15: "(n::nat) AND 15 = n mod 16"
  using take_bit_eq_mask [of 4 n] by (simp add: take_bit_eq_mod mask_eq_exp_minus_1)

lemma nibbles: "b < 256 \<Longrightarrow> take_bit 8 (push_bit 4 (drop_bit 4 b)) OR (b AND 0xF) = (b::nat)"
proof -
  assume b: "b < 256"
  have "take_bit 8 (push_bit 4 (drop_bit 4 b)) = push_bit 4 (b div 16)"
    using b by (simp add: take_bit_nat_eq_self push_bit_eq_mult drop_bit_eq_div)
  then show ?thesis using or_add [of "b mod 16" 4 "b div 16"] by (simp add: and_15)
qed

lemma hex_pairs_to_hex: "hex_pairs (to_hex (ObjectId a raw)) = Inr raw"
proof (induction raw)
  case (Cons b raw)
  have "drop_bit 4 (of_char b :: nat) < 16" "(of_char b :: nat) AND 0xF < 16"
    by (simp_all add: drop_bit_eq_div less_mult_imp_div_less and_15)
  with Cons show ?case by (simp add: to_hex_def nibbles)
qed (simp add: to_hex_def)

lemma length_to_hex [simp]: "length (to_hex oid) = 2 * length (oid_raw oid)"
  by (simp add: to_hex_def length_concat comp_def sum_list_triv)

lemma from_hex_to_hex [simp]: "oid_ok oid \<Longrightarrow> from_hex (oid_algorithm oid) (to_hex oid) = Inr oid"
  by (cases oid) (simp add: from_hex_def hex_len_def oid_ok_def hex_pairs_to_hex)

lemma algorithm_name_inverse [simp]: "algorithm_from_name (algorithm_name a) = Some a"
  by (cases a) (simp_all add: algorithm_from_name_def)

lemma algorithm_name_no_colon [simp]: "CHR '':'' \<notin> set (algorithm_name a)"
  by (cases a) simp_all

lemma parse_to_qualified: "oid_ok oid \<Longrightarrow> parse_qualified (to_qualified oid) = Inr oid"
  by (simp add: parse_qualified_def to_qualified_def)

interpretation oid_codec: codec oid_ok to_qualified parse_qualified
  by unfold_locales (rule parse_to_qualified)

lemma length_hex_pairs: "hex_pairs s = Inr raw \<Longrightarrow> even (length s) \<Longrightarrow> length raw = length s div 2"
  by (induction s arbitrary: raw rule: hex_pairs.induct) (auto split: sum.splits)

text \<open>Every identifier the parsers return has the length of its algorithm.\<close>

lemma from_hex_ok: "from_hex a s = Inr oid \<Longrightarrow> oid_ok oid \<and> oid_algorithm oid = a"
  by (auto simp: from_hex_def oid_ok_def hex_len_def length_hex_pairs split: if_splits sum.splits)

lemma parse_qualified_ok: "parse_qualified s = Inr oid \<Longrightarrow> oid_ok oid"
  by (auto simp: parse_qualified_def dest: from_hex_ok split: option.splits)

section \<open>Modes\<close>

lemmas mode_defs = REGULAR_def EXECUTABLE_def SYMLINK_def DIRECTORY_def GITLINK_def

lemma as_mode_from_mode [simp]: "as_mode (from_mode m) = m"
  by (simp add: from_mode_def)

lemma kind_ok_supported [simp]:
  "kind_ok Regular" "kind_ok Executable" "kind_ok Symlink" "kind_ok Directory" "kind_ok Gitlink"
  by (simp_all add: kind_ok_def from_mode_def mode_defs)

section \<open>LFS pointers\<close>

lemma of_char_hex_digit: "d < 16 \<Longrightarrow> of_char (hex_digit d) = (if d < 10 then 48 + d else 87 + d)"
  by (simp add: hex_digit_def)

lemma hex_digit_props: "d < 16 \<Longrightarrow> hex_digit d \<noteq> nl \<and> (of_char (hex_digit d) :: nat) < 128"
  using of_char_hex_digit [of d] by (auto split: if_splits)

lemma to_hex_chars: "c \<in> set (to_hex oid) \<Longrightarrow> c \<noteq> nl \<and> (of_char c :: nat) < 128"
proof -
  assume "c \<in> set (to_hex oid)"
  then obtain b where "c = hex_digit (drop_bit 4 (of_char b)) \<or> c = hex_digit (of_char b AND 0xF)"
    by (auto simp: to_hex_def)
  moreover have "drop_bit 4 (of_char b :: nat) < 16" "(of_char b :: nat) AND 0xF < 16"
    by (simp_all add: drop_bit_eq_div less_mult_imp_div_less and_15)
  ultimately show ?thesis using hex_digit_props by metis
qed

lemma dec_string_no_nl [simp]: "nl \<notin> set (dec_string n)"
  using dec_string_digits [of n] by (auto simp: list_all_iff is_ascii_digit_def)

lemma pointer_text_lines:
  "split_inclusive nl (to_pointer_text p) =
     [(''version '' @ VERSION_URLS ! 0) @ [nl], (''oid sha256:'' @ to_hex (ptr_oid p)) @ [nl],
      (''size '' @ dec_string (ptr_size p)) @ [nl]]"
proof -
  have hex: "nl \<notin> set (''oid sha256:'' @ to_hex (ptr_oid p))"
    using to_hex_chars by auto
  have "to_pointer_text p =
      (''version '' @ VERSION_URLS ! 0) @ nl # (''oid sha256:'' @ to_hex (ptr_oid p)) @ nl #
      (''size '' @ dec_string (ptr_size p)) @ nl # []"
    by (simp add: to_pointer_text_def)
  then show ?thesis
    using hex by (simp only: split_inclusive_line) (simp add: split_inclusive_line VERSION_URLS_def)
qed

lemma pointer_text_ascii: "is_ascii (to_pointer_text p)"
proof -
  have "is_ascii (to_hex (ptr_oid p))" using to_hex_chars by (auto simp: is_ascii_def)
  moreover have "is_ascii (dec_string (ptr_size p))" by (simp add: digits_ascii dec_string_digits)
  ultimately show ?thesis
    by (simp add: to_pointer_text_def VERSION_URLS_def is_ascii_def ball_Un)
qed

definition pointer_ok :: "lfs_pointer \<Rightarrow> bool" where
  "pointer_ok p = (oid_algorithm (ptr_oid p) = LfsSha256 \<and> oid_ok (ptr_oid p) \<and> ptr_size p \<le> u64_max)"

lemma pointer_text_length: "pointer_ok p \<Longrightarrow> length (to_pointer_text p) \<le> MAX_POINTER_SIZE"
proof -
  assume p: "pointer_ok p"
  then have "ptr_size p < 10 ^ 20" by (simp add: pointer_ok_def u64_max_def)
  then have "length (dec_string (ptr_size p)) \<le> 20" by (intro dec_string_length) simp_all
  with p show ?thesis
    by (simp add: to_pointer_text_def VERSION_URLS_def MAX_POINTER_SIZE_def pointer_ok_def oid_ok_def)
qed

lemma pointer_lines_text:
  "pointer_ok p \<Longrightarrow>
   pointer_lines [(''oid sha256:'' @ to_hex (ptr_oid p)) @ [nl], (''size '' @ dec_string (ptr_size p)) @ [nl]]
     None None = Some (Some (ptr_oid p), Some (ptr_size p))"
proof -
  assume p: "pointer_ok p"
  have 1: "split_once (CHR '' '') (''oid sha256:'' @ to_hex (ptr_oid p))
      = Some (''oid'', ''sha256:'' @ to_hex (ptr_oid p))"
    and 2: "split_once (CHR '' '') (''size '' @ dec_string (ptr_size p))
      = Some (''size'', dec_string (ptr_size p))"
    by simp_all
  have 3: "from_hex LfsSha256 (to_hex (ptr_oid p)) = Inr (ptr_oid p)"
    using p from_hex_to_hex [of "ptr_oid p"] by (simp add: pointer_ok_def)
  show ?thesis
    using p by (simp only: pointer_lines.simps strip_suffix_byte_snoc 1 2 option.case prod.case
        strip_prefix_append 3 sum.case) (simp add: pointer_ok_def)
qed

lemma parse_pointer_text: "pointer_ok p \<Longrightarrow> parse_pointer (to_pointer_text p) = Some p"
proof -
  assume p: "pointer_ok p"
  have ne: "to_pointer_text p \<noteq> []" by (simp add: to_pointer_text_def)
  have url: "VERSION_URLS ! 0 \<in> set VERSION_URLS" by (simp add: VERSION_URLS_def)
  show ?thesis
    unfolding parse_pointer_def pointer_text_lines
    using ne url pointer_text_length [OF p] pointer_text_ascii [of p]
    by (simp only: pointer_lines_text [OF p] strip_suffix_byte_snoc strip_prefix_append
        list.case option.case prod.case) auto
qed

text \<open>Accepting is strict: an accepted blob yields a well-formed LFS identifier.\<close>

lemma pointer_lines_ok:
  "pointer_lines ls oid sz = Some (Some oid', Some sz') \<Longrightarrow>
   (\<And>x. oid = Some x \<Longrightarrow> oid_ok x \<and> oid_algorithm x = LfsSha256) \<Longrightarrow>
   (\<And>n. sz = Some n \<Longrightarrow> n \<le> u64_max) \<Longrightarrow>
   oid_ok oid' \<and> oid_algorithm oid' = LfsSha256 \<and> sz' \<le> u64_max"
proof (induction ls oid sz rule: pointer_lines.induct)
  case (2 l ls oid sz)
  then show ?case
    by (fastforce split: option.splits sum.splits if_splits prod.splits dest: from_hex_ok
        simp: parse_unsigned_def Let_def)
qed simp

lemma parse_pointer_ok: "parse_pointer content = Some p \<Longrightarrow> pointer_ok p"
proof -
  assume "parse_pointer content = Some p"
  then obtain ls where "pointer_lines ls None None = Some (Some (ptr_oid p), Some (ptr_size p))"
    by (auto simp: parse_pointer_def split: if_splits list.splits option.splits prod.splits)
  then show ?thesis using pointer_lines_ok unfolding pointer_ok_def by blast
qed

definition parse_pointer_result :: "bytes \<Rightarrow> unit + lfs_pointer" where
  "parse_pointer_result content = (case parse_pointer content of None \<Rightarrow> Inl () | Some p \<Rightarrow> Inr p)"

interpretation lfs_codec: codec pointer_ok to_pointer_text parse_pointer_result
  by unfold_locales (simp add: parse_pointer_result_def parse_pointer_text)

section \<open>Properties\<close>

text \<open>
  The qualified text of an object id parses back to it; whatever text parses, it yields an id with
  exactly the number of bytes its algorithm has, whose own qualified text parses to the same id.
\<close>

theorem qualified_roundtrip:
  "(oid_ok oid \<longrightarrow> parse_qualified (to_qualified oid) = Inr oid)
   \<and> (parse_qualified s = Inr oid' \<longrightarrow>
        oid_ok oid' \<and> parse_qualified (to_qualified oid') = Inr oid')"
  using parse_to_qualified parse_qualified_ok by blast

theorem qualified_roundtrip_witness:
  "parse_qualified (to_qualified (ObjectId Sha1 (replicate 20 (CHR ''a''))))
     = Inr (ObjectId Sha1 (replicate 20 (CHR ''a'')))"
  using qualified_roundtrip [of "ObjectId Sha1 (replicate 20 (CHR ''a''))"]
  by (simp add: oid_ok_def)

text \<open>
  The pointer text of an LFS pointer parses back to it, and every accepted blob is at most 1024 bytes
  and yields a 32-byte LFS id with a 64-bit size.
\<close>

theorem lfs_pointer_roundtrip:
  "(pointer_ok p \<longrightarrow> parse_pointer (to_pointer_text p) = Some p)
   \<and> (parse_pointer content = Some q \<longrightarrow>
        pointer_ok q \<and> length content \<le> MAX_POINTER_SIZE \<and> content \<noteq> [])"
proof -
  have "parse_pointer content = Some q \<Longrightarrow> length content \<le> MAX_POINTER_SIZE \<and> content \<noteq> []"
    by (auto simp: parse_pointer_def split: if_splits)
  then show ?thesis using parse_pointer_text parse_pointer_ok by blast
qed

theorem lfs_pointer_roundtrip_witness:
  "parse_pointer (to_pointer_text (LfsPointer (ObjectId LfsSha256 (replicate 32 (CHR ''a''))) 12345))
     = Some (LfsPointer (ObjectId LfsSha256 (replicate 32 (CHR ''a''))) 12345)"
  using lfs_pointer_roundtrip [of "LfsPointer (ObjectId LfsSha256 (replicate 32 (CHR ''a''))) 12345"]
  by (simp add: pointer_ok_def oid_ok_def u64_max_def)

end
