(* ===== verification/Gfs_Time.thy ===== *)
theory Gfs_Time
  imports Gfs_Prelude
begin

text \<open>
  The timestamp policy of \<open>crates/gfs-types/src/time.rs\<close>: nanosecond timestamps, the clamp
  that makes a stable snapshot time out of a committer time, and the logical clock the overlay
  stamps local edits with. \<open>secs\<close> is an \<open>i64\<close> (\<open>int\<close>, saturating), \<open>nanos\<close> a \<open>u32\<close> below
  \<open>10^9\<close>.
\<close>

datatype timestamp = Timestamp (secs: int) (nanos: nat)

definition ns_per_sec :: nat where
  "ns_per_sec = 1000000000"

text \<open>The derived \<open>Ord\<close>: seconds first, then nanoseconds.\<close>

instantiation timestamp :: linorder
begin

definition less_eq_timestamp :: "timestamp \<Rightarrow> timestamp \<Rightarrow> bool" where
  "less_eq_timestamp a b = (secs a < secs b \<or> secs a = secs b \<and> nanos a \<le> nanos b)"

definition less_timestamp :: "timestamp \<Rightarrow> timestamp \<Rightarrow> bool" where
  "less_timestamp a b = (secs a < secs b \<or> secs a = secs b \<and> nanos a < nanos b)"

instance
  by standard
    (auto simp: less_eq_timestamp_def less_timestamp_def intro: timestamp.expand)

end

definition timestamp_ok :: "timestamp \<Rightarrow> bool" where
  "timestamp_ok t = (i64_min \<le> secs t \<and> secs t \<le> i64_max \<and> nanos t < ns_per_sec)"

definition from_secs :: "int \<Rightarrow> timestamp" where
  "from_secs s = Timestamp s 0"

definition MIN_SUPPORTED_UNIX_SECS :: int where
  "MIN_SUPPORTED_UNIX_SECS = 631152000"

definition MIN_SUPPORTED :: timestamp where
  "MIN_SUPPORTED = from_secs MIN_SUPPORTED_UNIX_SECS"

text \<open>
  \<open>Timestamp::from_system_time\<close>: \<open>duration_since(UNIX_EPOCH)\<close> gives a distance in seconds and
  nanoseconds after the epoch, or the error carries the distance before it. \<open>d_secs\<close> is cast
  with \<open>as i64\<close>.
\<close>

datatype since_epoch = After nat nat | Before nat nat

fun from_system_time :: "since_epoch \<Rightarrow> timestamp" where
  "from_system_time (After s n) = Timestamp (u64_as_i64 s) n"
| "from_system_time (Before s n) =
     (if n = 0 then Timestamp (- u64_as_i64 s) 0
      else Timestamp (- u64_as_i64 s - 1) (ns_per_sec - n))"

definition next_tick :: "timestamp \<Rightarrow> timestamp" where
  "next_tick t =
     (let n = nanos t + 1
      in if n \<ge> ns_per_sec
         then Timestamp (isat_add (secs t) (int (n div ns_per_sec))) (n mod ns_per_sec)
         else Timestamp (secs t) n)"

definition prev_tick :: "timestamp \<Rightarrow> timestamp" where
  "prev_tick t =
     (if nanos t = 0 then Timestamp (isat_sub (secs t) 1) 999999999
      else Timestamp (secs t) (nanos t - 1))"

definition snapshot_time :: "timestamp \<Rightarrow> timestamp \<Rightarrow> timestamp" where
  "snapshot_time committer_time first_seen =
     (let lo = MIN_SUPPORTED; hi = prev_tick first_seen
      in if hi < lo then lo
         else if committer_time < lo then lo
         else if committer_time > hi then hi
         else committer_time)"

definition overlay_time :: "timestamp \<Rightarrow> timestamp \<Rightarrow> timestamp option \<Rightarrow> timestamp" where
  "overlay_time host_wall_clock snap prior_entry_time =
     (let t = max host_wall_clock (next_tick snap)
      in case prior_entry_time of None \<Rightarrow> t | Some prior \<Rightarrow> max t (next_tick prior))"

definition clamp_requested_overlay_time :: "timestamp \<Rightarrow> timestamp \<Rightarrow> timestamp" where
  "clamp_requested_overlay_time requested snap = max requested (next_tick snap)"

section \<open>Ticks\<close>

lemmas timestamp_order = less_eq_timestamp_def less_timestamp_def

text \<open>The last representable instant is where saturation can stall the clock.\<close>

definition clock_end :: timestamp where
  "clock_end = Timestamp i64_max 999999999"

lemma next_tick_ok: "timestamp_ok t \<Longrightarrow> timestamp_ok (next_tick t)"
  by (auto simp: next_tick_def timestamp_ok_def Let_def isat_add_def ns_per_sec_def
      i64_min_def i64_max_def)

lemma prev_tick_ok: "timestamp_ok t \<Longrightarrow> timestamp_ok (prev_tick t)"
  by (auto simp: prev_tick_def timestamp_ok_def isat_sub_def ns_per_sec_def
      i64_min_def i64_max_def)

lemma next_tick_less:
  assumes "timestamp_ok t" and "t < clock_end"
  shows "t < next_tick t"
  using assms
  by (auto simp: next_tick_def timestamp_ok_def Let_def isat_add_def timestamp_order
      clock_end_def ns_per_sec_def i64_min_def i64_max_def)

lemma next_tick_prev_tick:
  assumes "timestamp_ok t" and "i64_min < secs t \<or> 0 < nanos t"
  shows "next_tick (prev_tick t) = t"
  using assms
  by (cases t)
    (auto simp: next_tick_def prev_tick_def timestamp_ok_def Let_def isat_add_def isat_sub_def
      ns_per_sec_def i64_min_def i64_max_def)

lemma prev_tick_less:
  assumes "timestamp_ok t" and "i64_min < secs t \<or> 0 < nanos t"
  shows "prev_tick t < t"
  using assms
  by (auto simp: prev_tick_def timestamp_ok_def isat_sub_def timestamp_order
      ns_per_sec_def i64_min_def i64_max_def)

lemma overlay_time_ok:
  "timestamp_ok w \<Longrightarrow> timestamp_ok s \<Longrightarrow> (\<forall>p. prior = Some p \<longrightarrow> timestamp_ok p) \<Longrightarrow>
   timestamp_ok (overlay_time w s prior)"
  by (auto simp: overlay_time_def Let_def max_def next_tick_ok split: option.splits)

section \<open>The policy\<close>

text \<open>
  C19. A snapshot time is never below the supported floor, lies strictly below the first-seen time whenever
  that leaves room above the floor, and passes a committer time inside the window through unchanged.
\<close>

theorem snapshot_time_window:
  assumes "timestamp_ok first_seen" and "MIN_SUPPORTED < first_seen" and "timestamp_ok c"
  shows "MIN_SUPPORTED \<le> snapshot_time c first_seen \<and> snapshot_time c first_seen < first_seen
    \<and> (MIN_SUPPORTED \<le> c \<and> c < first_seen \<longrightarrow> snapshot_time c first_seen = c)"
proof -
  have floor: "i64_min < secs first_seen \<or> 0 < nanos first_seen"
    using assms(2) by (auto simp: timestamp_order MIN_SUPPORTED_def from_secs_def
        MIN_SUPPORTED_UNIX_SECS_def i64_min_def)
  then have below: "prev_tick first_seen < first_seen" using assms(1) by (rule prev_tick_less [rotated])
  have room: "MIN_SUPPORTED \<le> prev_tick first_seen"
    using assms by (auto simp: timestamp_order MIN_SUPPORTED_def from_secs_def prev_tick_def isat_sub_def
        timestamp_ok_def MIN_SUPPORTED_UNIX_SECS_def i64_min_def i64_max_def)
  have inside: "c < first_seen \<Longrightarrow> c \<le> prev_tick first_seen"
    using assms(1,3) floor by (auto simp: timestamp_order prev_tick_def isat_sub_def timestamp_ok_def
        ns_per_sec_def i64_min_def i64_max_def)
  show ?thesis
    using below room inside by (auto simp: snapshot_time_def Let_def)
qed

theorem snapshot_time_window_witness:
  "snapshot_time (Timestamp 1700000600 0) (Timestamp 1700000000 500) < Timestamp 1700000000 500"
  using snapshot_time_window [of "Timestamp 1700000000 500" "Timestamp 1700000600 0"]
  by (simp add: timestamp_ok_def timestamp_order MIN_SUPPORTED_def from_secs_def
      MIN_SUPPORTED_UNIX_SECS_def i64_min_def i64_max_def ns_per_sec_def)

text \<open>
  C20. A local edit is stamped strictly later than the snapshot and strictly later than the previous stamp
  of the overlay, whatever the host clock says, as long as the clock has not run out.
\<close>

theorem overlay_time_newer:
  assumes "timestamp_ok snap" "snap < clock_end" "timestamp_ok prior" "prior < clock_end"
  shows "snap < overlay_time host snap (Some prior) \<and> prior < overlay_time host snap (Some prior)
    \<and> snap < clamp_requested_overlay_time host snap"
  using next_tick_less [OF assms(1,2)] next_tick_less [OF assms(3,4)]
  by (auto simp: overlay_time_def clamp_requested_overlay_time_def Let_def max_def)

theorem overlay_time_newer_witness:
  "Timestamp 2000 999999999
     < overlay_time (Timestamp 1000 0) (Timestamp 1500 0) (Some (Timestamp 2000 999999999))"
  using overlay_time_newer [of "Timestamp 1500 0" "Timestamp 2000 999999999" "Timestamp 1000 0"]
  by (simp add: timestamp_ok_def timestamp_order clock_end_def i64_min_def i64_max_def ns_per_sec_def)

end
