(* ===== verification/Gfs_OverlayState.thy ===== *)
theory Gfs_OverlayState
  imports Gfs_Path Gfs_Oid Gfs_Time
begin

text \<open>
  The overlay's path state and resolution rules: \<open>crates/gfs-overlay/src/state.rs\<close> (kinds,
  contents, journal rows and their column encoding, path ancestry), \<open>merge.rs\<close> (resolution of a
  path against the rows, masking, the fate of a base child) and \<open>error.rs\<close> (the POSIX condition
  of a refusal; messages are not modelled).
\<close>

section \<open>Conditions\<close>

datatype condition =
    Exists | NoEntry | NotDirectory | IsDirectory | NotEmpty | Invalid | NameTooLong
  | NotPermitted | QuotaExceeded | Io

definition condition_of_code :: "error_code \<Rightarrow> condition" where
  "condition_of_code c = (if c = InvalidArgument then Invalid else Io)"

definition path_condition :: "path \<Rightarrow> condition + unit" where
  "path_condition p =
     (if exceeds_length_limits p then Inl NameTooLong
      else case validate p of Inl c \<Rightarrow> Inl (condition_of_code c) | Inr u \<Rightarrow> Inr u)"

section \<open>Kinds, contents, rows\<close>

datatype overlay_kind = ORegular | OExecutable | OSymlink | ODirectory

definition is_dir :: "overlay_kind \<Rightarrow> bool" where
  "is_dir k = (k = ODirectory)"

definition is_file :: "overlay_kind \<Rightarrow> bool" where
  "is_file k = (k = ORegular \<or> k = OExecutable)"

fun git_mode :: "overlay_kind \<Rightarrow> nat" where
  "git_mode ORegular = REGULAR"
| "git_mode OExecutable = EXECUTABLE"
| "git_mode OSymlink = SYMLINK"
| "git_mode ODirectory = DIRECTORY"

fun from_entry_kind :: "entry_kind \<Rightarrow> overlay_kind option" where
  "from_entry_kind Regular = Some ORegular"
| "from_entry_kind Executable = Some OExecutable"
| "from_entry_kind Symlink = Some OSymlink"
| "from_entry_kind Directory = Some ODirectory"
| "from_entry_kind Gitlink = None"
| "from_entry_kind (Unsupported m) = None"

fun to_entry_kind :: "overlay_kind \<Rightarrow> entry_kind" where
  "to_entry_kind ORegular = Regular"
| "to_entry_kind OExecutable = Executable"
| "to_entry_kind OSymlink = Symlink"
| "to_entry_kind ODirectory = Directory"

fun kind_code :: "overlay_kind \<Rightarrow> int" where
  "kind_code ORegular = 0"
| "kind_code OExecutable = 1"
| "kind_code OSymlink = 2"
| "kind_code ODirectory = 3"

definition kind_from_code :: "int \<Rightarrow> overlay_kind option" where
  "kind_from_code c =
     (if c = 0 then Some ORegular
      else if c = 1 then Some OExecutable
      else if c = 2 then Some OSymlink
      else if c = 3 then Some ODirectory
      else None)"

datatype content = CNone | CLocal nat | CBase object_id

fun local_id :: "content \<Rightarrow> nat option" where
  "local_id (CLocal i) = Some i"
| "local_id _ = None"

fun base_oid :: "content \<Rightarrow> object_id option" where
  "base_oid (CBase oid) = Some oid"
| "base_oid _ = None"

datatype base_facts = BaseFacts (bf_oid: object_id) (bf_kind: entry_kind) (bf_size: nat)

record overlay_entry =
  e_path :: path
  e_present :: bool
  e_kind :: overlay_kind
  e_opaque :: bool
  e_ino :: nat
  e_content :: content
  e_symlink_target :: "bytes option"
  e_size :: nat
  e_mtime :: timestamp
  e_ctime :: timestamp
  e_renamed_from :: "path option"
  e_base :: "base_facts option"

section \<open>Path ancestry\<close>

definition parent_of :: "path \<Rightarrow> path" where
  "parent_of p =
     (if CHR ''/'' \<in> set p then rev (tl (dropWhile (\<lambda>c. c \<noteq> CHR ''/'') (rev p))) else [])"

definition ancestors_of :: "path \<Rightarrow> path list" where
  "ancestors_of p =
     (if p = [] then []
      else [] # map (\<lambda>i. take i p) (filter (\<lambda>i. p ! i = CHR ''/'') [0..<length p]))"

definition is_within :: "path \<Rightarrow> path \<Rightarrow> bool" where
  "is_within p d =
     (if d = [] then True
      else p = d \<or> (length p > length d \<and> p ! length d = CHR ''/'' \<and> starts_with p d))"

definition entry_parent :: "overlay_entry \<Rightarrow> path" where
  "entry_parent e = parent_of (e_path e)"

definition entry_name :: "overlay_entry \<Rightarrow> bytes" where
  "entry_name e = (case file_name (e_path e) of None \<Rightarrow> [] | Some n \<Rightarrow> n)"

definition shadows_base :: "overlay_entry \<Rightarrow> bool" where
  "shadows_base e = (e_base e \<noteq> None)"

section \<open>The stored form of a row\<close>

record row =
  r_path :: bytes
  r_parent :: bytes
  r_present :: int
  r_kind :: int
  r_opaque :: int
  r_ino :: int
  r_content_kind :: int
  r_content_id :: "int option"
  r_content_oid :: "string option"
  r_symlink_target :: "bytes option"
  r_size :: int
  r_mtime_secs :: int
  r_mtime_nanos :: int
  r_ctime_secs :: int
  r_ctime_nanos :: int
  r_renamed_from :: "bytes option"
  r_base_oid :: "string option"
  r_base_mode :: "int option"
  r_base_size :: "int option"

definition CONTENT_NONE :: int where "CONTENT_NONE = 0"
definition CONTENT_LOCAL :: int where "CONTENT_LOCAL = 1"
definition CONTENT_BASE :: int where "CONTENT_BASE = 2"

fun content_columns :: "content \<Rightarrow> int \<times> int option \<times> string option" where
  "content_columns CNone = (CONTENT_NONE, None, None)"
| "content_columns (CLocal i) = (CONTENT_LOCAL, Some (u64_as_i64 i), None)"
| "content_columns (CBase oid) = (CONTENT_BASE, None, Some (to_qualified oid))"

definition row_of :: "overlay_entry \<Rightarrow> row" where
  "row_of e =
     (let (ck, ci, co) = content_columns (e_content e)
      in \<lparr>r_path = e_path e, r_parent = entry_parent e,
          r_present = of_bool (e_present e), r_kind = kind_code (e_kind e),
          r_opaque = of_bool (e_opaque e), r_ino = u64_as_i64 (e_ino e),
          r_content_kind = ck, r_content_id = ci, r_content_oid = co,
          r_symlink_target = e_symlink_target e, r_size = u64_as_i64 (e_size e),
          r_mtime_secs = secs (e_mtime e), r_mtime_nanos = int (nanos (e_mtime e)),
          r_ctime_secs = secs (e_ctime e), r_ctime_nanos = int (nanos (e_ctime e)),
          r_renamed_from = e_renamed_from e,
          r_base_oid = map_option (\<lambda>b. to_qualified (bf_oid b)) (e_base e),
          r_base_mode = map_option (\<lambda>b. int (as_mode (bf_kind b))) (e_base e),
          r_base_size = map_option (\<lambda>b. u64_as_i64 (bf_size b)) (e_base e)\<rparr>)"

datatype row_error = UnknownKind | NoContentId | NoContentOid | BadOid oid_error | UnknownContentKind

definition decode_content :: "row \<Rightarrow> row_error + content" where
  "decode_content r =
     (if r_content_kind r = CONTENT_NONE then Inr CNone
      else if r_content_kind r = CONTENT_LOCAL then
        (case r_content_id r of None \<Rightarrow> Inl NoContentId | Some i \<Rightarrow> Inr (CLocal (i64_as_u64 i)))
      else if r_content_kind r = CONTENT_BASE then
        (case r_content_oid r of None \<Rightarrow> Inl NoContentOid
         | Some s \<Rightarrow> (case parse_qualified s of Inl e \<Rightarrow> Inl (BadOid e) | Inr oid \<Rightarrow> Inr (CBase oid)))
      else Inl UnknownContentKind)"

definition decode_base :: "row \<Rightarrow> row_error + base_facts option" where
  "decode_base r =
     (case (r_base_oid r, r_base_mode r, r_base_size r) of
        (Some s, Some m, Some n) \<Rightarrow>
          (case parse_qualified s of Inl e \<Rightarrow> Inl (BadOid e)
           | Inr oid \<Rightarrow> Inr (Some (BaseFacts oid (from_mode (i64_as_u32 m)) (i64_as_u64 n))))
      | _ \<Rightarrow> Inr None)"

definition decode_row :: "row \<Rightarrow> row_error + overlay_entry" where
  "decode_row r =
     (case kind_from_code (r_kind r) of None \<Rightarrow> Inl UnknownKind
      | Some kind \<Rightarrow>
        (case decode_content r of Inl e \<Rightarrow> Inl e
         | Inr content \<Rightarrow>
           (case decode_base r of Inl e \<Rightarrow> Inl e
            | Inr base \<Rightarrow>
              Inr \<lparr>e_path = r_path r, e_present = (r_present r \<noteq> 0), e_kind = kind,
                   e_opaque = (r_opaque r \<noteq> 0), e_ino = i64_as_u64 (r_ino r),
                   e_content = content, e_symlink_target = r_symlink_target r,
                   e_size = i64_as_u64 (r_size r),
                   e_mtime = Timestamp (r_mtime_secs r) (i64_as_u32 (r_mtime_nanos r)),
                   e_ctime = Timestamp (r_ctime_secs r) (i64_as_u32 (r_ctime_nanos r)),
                   e_renamed_from = r_renamed_from r, e_base = base\<rparr>)))"

section \<open>Resolution\<close>

type_synonym rows = "(path, overlay_entry) btree"

datatype resolution = Overlay overlay_entry | Base | Absent

text \<open>The ancestor loop of \<open>resolve\<close>: \<open>None\<close> is the early return of \<open>Absent\<close>.\<close>

fun resolve_walk :: "rows \<Rightarrow> path list \<Rightarrow> bool \<Rightarrow> bool option" where
  "resolve_walk rows [] masked = Some masked"
| "resolve_walk rows (a # as) masked =
     (case bt_get rows a of
        None \<Rightarrow> resolve_walk rows as masked
      | Some e \<Rightarrow>
          if \<not> e_present e then None
          else if \<not> is_dir (e_kind e) then None
          else resolve_walk rows as (masked \<or> e_opaque e))"

definition resolve :: "rows \<Rightarrow> path \<Rightarrow> resolution" where
  "resolve rows p =
     (case resolve_walk rows (ancestors_of p) False of
        None \<Rightarrow> Absent
      | Some masked \<Rightarrow>
          (case bt_get rows p of
             Some e \<Rightarrow> if e_present e then Overlay e else Absent
           | None \<Rightarrow> if masked then Absent else Base))"

definition masks_base :: "rows \<Rightarrow> path \<Rightarrow> bool" where
  "masks_base rows dir =
     (list_ex (\<lambda>a. case bt_get rows a of
                     Some e \<Rightarrow> \<not> e_present e \<or> \<not> is_dir (e_kind e) \<or> e_opaque e
                   | None \<Rightarrow> False) (ancestors_of dir)
      \<or> (case bt_get rows dir of
           Some e \<Rightarrow> \<not> e_present e \<or> \<not> is_dir (e_kind e) \<or> e_opaque e
         | None \<Rightarrow> False))"

datatype base_child_fate = Keep | Replace overlay_entry | Hide

definition base_child :: "rows \<Rightarrow> path \<Rightarrow> bytes \<Rightarrow> base_child_fate" where
  "base_child rows dir name =
     (if masks_base rows dir then Hide
      else case bt_get rows (join_path dir name) of
        Some e \<Rightarrow> if e_present e then Replace e else Hide
      | None \<Rightarrow> Keep)"

section \<open>Lemmas on ancestry\<close>

text \<open>\<open>below p d\<close>: \<open>p\<close> lives strictly below \<open>d\<close>, by its bytes.\<close>

definition below :: "path \<Rightarrow> path \<Rightarrow> bool" where
  "below p d \<longleftrightarrow> (\<exists>s. p = d @ CHR ''/'' # s)"

lemma belowI [intro, simp]: "below (d @ CHR ''/'' # s) d"
  by (auto simp: below_def)

lemma below_length: "below p d \<Longrightarrow> length d < length p"
  by (auto simp: below_def)

lemma below_irrefl [simp]: "\<not> below p p"
  using below_length by blast

lemma below_asym: "below p d \<Longrightarrow> \<not> below d p"
  by (metis below_length less_asym)

lemma below_trans [trans]: "below p q \<Longrightarrow> below q r \<Longrightarrow> below p r"
  by (auto simp: below_def)

lemma below_Nil [simp]: "\<not> below [] d"
  by (simp add: below_def)

lemma below_take: "below p a \<longleftrightarrow> (\<exists>i < length p. p ! i = CHR ''/'' \<and> a = take i p)"
proof
  assume "\<exists>i < length p. p ! i = CHR ''/'' \<and> a = take i p"
  then show "below p a" unfolding below_def by (metis id_take_nth_drop)
next
  assume "below p a"
  then obtain s where "p = a @ CHR ''/'' # s" by (auto simp: below_def)
  then show "\<exists>i < length p. p ! i = CHR ''/'' \<and> a = take i p"
    by (intro exI [of _ "length a"]) simp
qed

lemma below_linear:
  assumes "below p a" and "below p b"
  shows "a = b \<or> below a b \<or> below b a"
proof -
  have *: "i < j \<Longrightarrow> j < length p \<Longrightarrow> p ! i = CHR ''/'' \<Longrightarrow> below (take j p) (take i p)" for i j
    unfolding below_take by (intro exI [of _ i]) simp
  from assms obtain i j where "i < length p" "p ! i = CHR ''/''" "a = take i p"
      "j < length p" "p ! j = CHR ''/''" "b = take j p"
    unfolding below_take by blast
  then show ?thesis using * [of i j] * [of j i] by (cases i j rule: linorder_cases) simp_all
qed

lemma is_within_iff: "is_within p d \<longleftrightarrow> d = [] \<or> p = d \<or> below p d"
proof -
  have "length p > length d \<and> p ! length d = CHR ''/'' \<and> starts_with p d \<longleftrightarrow> below p d"
  proof
    assume "length p > length d \<and> p ! length d = CHR ''/'' \<and> starts_with p d"
    then show "below p d"
      unfolding below_take starts_with_iff by (intro exI [of _ "length d"]) auto
  next
    assume "below p d"
    then show "length p > length d \<and> p ! length d = CHR ''/'' \<and> starts_with p d"
      by (auto simp: below_def)
  qed
  then show ?thesis by (simp add: is_within_def)
qed

lemma ancestors_iff: "a \<in> set (ancestors_of p) \<longleftrightarrow> p \<noteq> [] \<and> (a = [] \<or> below p a)"
  by (auto simp: ancestors_of_def below_take)

lemma parent_of_decomp:
  assumes "CHR ''/'' \<in> set p"
  obtains n where "p = parent_of p @ CHR ''/'' # n" and "CHR ''/'' \<notin> set n"
proof -
  obtain a n where p: "p = a @ CHR ''/'' # n" and n: "CHR ''/'' \<notin> set n"
    using assms by (meson split_list_last)
  have "dropWhile (\<lambda>c. c \<noteq> CHR ''/'') (rev p) = CHR ''/'' # rev a"
    using n unfolding p by (auto simp: dropWhile_append3)
  then have "parent_of p = a" using assms by (simp add: parent_of_def)
  with p n show ?thesis by (intro that [of n]) simp_all
qed

lemma parent_of_slash [simp]: "CHR ''/'' \<notin> set n \<Longrightarrow> parent_of (d @ CHR ''/'' # n) = d"
proof -
  assume n: "CHR ''/'' \<notin> set n"
  have "dropWhile (\<lambda>c. c \<noteq> CHR ''/'') (rev (d @ CHR ''/'' # n)) = CHR ''/'' # rev d"
    using n by (auto simp: dropWhile_append3)
  then show ?thesis by (simp add: parent_of_def)
qed

lemma parent_of_top [simp]: "CHR ''/'' \<notin> set p \<Longrightarrow> parent_of p = []"
  by (simp add: parent_of_def)

lemma below_slash: "below p a \<Longrightarrow> CHR ''/'' \<in> set p"
  by (auto simp: below_def)

lemma below_parent_iff:
  "below p a \<longleftrightarrow> CHR ''/'' \<in> set p \<and> (a = parent_of p \<or> below (parent_of p) a)"
proof (cases "CHR ''/'' \<in> set p")
  case True
  then obtain n where p: "p = parent_of p @ CHR ''/'' # n" and n: "CHR ''/'' \<notin> set n"
    by (rule parent_of_decomp)
  have pp: "below p (parent_of p)" using p unfolding below_def by blast
  have "below p a \<Longrightarrow> a = parent_of p \<or> below (parent_of p) a"
  proof -
    assume "below p a"
    then consider "a = parent_of p" | "below a (parent_of p)" | "below (parent_of p) a"
      using below_linear [OF _ pp] by blast
    then show ?thesis
    proof cases
      case 2
      from \<open>below p a\<close> obtain t where t: "p = a @ CHR ''/'' # t" by (auto simp: below_def)
      from 2 obtain u where "a = parent_of p @ CHR ''/'' # u" by (auto simp: below_def)
      with t p have "parent_of p @ CHR ''/'' # n = parent_of p @ CHR ''/'' # u @ CHR ''/'' # t" by simp
      then have "n = u @ CHR ''/'' # t" by simp
      with n show ?thesis by simp
    qed blast+
  qed
  with pp True show ?thesis using below_trans by blast
qed (auto dest: below_slash)

text \<open>
  A proper relative path: not the root, every component plain. Every path a mutation accepts is
  one; the length limits are left out because a directory rename can exceed them below itself.
\<close>

definition good_path :: "path \<Rightarrow> bool" where
  "good_path p \<longleftrightarrow> p \<noteq> [] \<and> (\<forall>c \<in> set (split_on (CHR ''/'') p). plain_component c)"

lemma path_condition_good: "path_condition p = Inr () \<Longrightarrow> p \<noteq> [] \<Longrightarrow> good_path p"
  by (auto simp: path_condition_def good_path_def validate_iff split: if_splits sum.splits)

lemma split_on_append_sep:
  "split_on (CHR ''/'') (a @ CHR ''/'' # b) = split_on (CHR ''/'') a @ split_on (CHR ''/'') b"
  by (induction a) (auto split: list.splits)

lemma good_path_alt: "good_path p \<longleftrightarrow> (\<forall>c \<in> set (split_on (CHR ''/'') p). plain_component c)"
  by (cases "p = []") (simp_all add: good_path_def plain_component_def)

lemma good_append_iff:
  "good_path (a @ CHR ''/'' # b) \<longleftrightarrow> good_path a \<and> good_path b"
  by (simp add: good_path_alt split_on_append_sep ball_Un)

lemma good_not_Nil [simp]: "\<not> good_path []"
  by (simp add: good_path_def)

lemma good_no_leading_slash: "good_path p \<Longrightarrow> p \<noteq> CHR ''/'' # s"
  using good_append_iff [of "[]" s] by auto

lemma good_below: "good_path p \<Longrightarrow> below p a \<Longrightarrow> good_path a"
  by (auto simp: below_def good_append_iff)

lemma good_parent_slash: "good_path p \<Longrightarrow> parent_of p = [] \<longleftrightarrow> CHR ''/'' \<notin> set p"
  by (metis append_Nil good_no_leading_slash parent_of_decomp parent_of_top)

lemma good_below_not_Nil: "good_path p \<Longrightarrow> below p a \<Longrightarrow> a \<noteq> []"
  by (auto simp: below_def dest: good_no_leading_slash)

text \<open>On good paths the ancestors are the root, the parent and the parent's ancestors.\<close>

lemma good_ancestors_parent:
  assumes "good_path p"
  shows "set (ancestors_of p) = insert [] (insert (parent_of p) (set (ancestors_of (parent_of p))))"
  using assms good_parent_slash [OF assms]
  by (auto simp: ancestors_iff below_parent_iff [of p] good_path_def)

lemma below_ancestors: "below p a \<Longrightarrow> set (ancestors_of a) \<subseteq> set (ancestors_of p)"
  by (auto simp: ancestors_iff dest: below_trans)

section \<open>Resolution as a function of the row map\<close>

definition blocking :: "overlay_entry \<Rightarrow> bool" where
  "blocking e \<longleftrightarrow> \<not> e_present e \<or> \<not> is_dir (e_kind e)"

definition blocked :: "(path \<rightharpoonup> overlay_entry) \<Rightarrow> path \<Rightarrow> bool" where
  "blocked R p \<longleftrightarrow> (\<exists>a \<in> set (ancestors_of p). \<exists>e. R a = Some e \<and> blocking e)"

definition masked :: "(path \<rightharpoonup> overlay_entry) \<Rightarrow> path \<Rightarrow> bool" where
  "masked R p \<longleftrightarrow> (\<exists>a \<in> set (ancestors_of p). \<exists>e. R a = Some e \<and> e_opaque e)"

definition resolves :: "(path \<rightharpoonup> overlay_entry) \<Rightarrow> path \<Rightarrow> resolution" where
  "resolves R p =
     (if blocked R p then Absent
      else case R p of
        Some e \<Rightarrow> if e_present e then Overlay e else Absent
      | None \<Rightarrow> if masked R p then Absent else Base)"

lemma resolve_walk_eq:
  "resolve_walk rows as m =
     (if \<exists>a \<in> set as. \<exists>e. bt_get rows a = Some e \<and> blocking e then None
      else Some (m \<or> (\<exists>a \<in> set as. \<exists>e. bt_get rows a = Some e \<and> e_opaque e)))"
  by (induction as arbitrary: m) (auto simp: blocking_def split: option.splits)

lemma resolve_eq: "resolve rows p = resolves (bt_get rows) p"
  by (auto simp: resolve_def resolves_def resolve_walk_eq blocked_def masked_def
      split: option.splits)

lemma masks_base_eq:
  "masks_base rows d \<longleftrightarrow>
     blocked (bt_get rows) d \<or> masked (bt_get rows) d
     \<or> (\<exists>e. bt_get rows d = Some e \<and> (blocking e \<or> e_opaque e))"
proof -
  have "(case bt_get rows a of Some e \<Rightarrow> \<not> e_present e \<or> \<not> is_dir (e_kind e) \<or> e_opaque e
         | None \<Rightarrow> False) \<longleftrightarrow> (\<exists>e. bt_get rows a = Some e \<and> (blocking e \<or> e_opaque e))" for a
    by (simp add: blocking_def split: option.split) blast
  then show ?thesis
    unfolding masks_base_def list_ex_iff blocked_def masked_def by blast
qed

section \<open>The stored form loses nothing\<close>

definition base_facts_ok :: "base_facts \<Rightarrow> bool" where
  "base_facts_ok b \<longleftrightarrow> oid_ok (bf_oid b) \<and> kind_ok (bf_kind b) \<and> bf_size b < 2 ^ 64"

fun content_ok :: "content \<Rightarrow> bool" where
  "content_ok CNone = True"
| "content_ok (CLocal i) = (i < 2 ^ 64)"
| "content_ok (CBase oid) = oid_ok oid"

text \<open>Every field fits the width its Rust type has.\<close>

definition entry_ok :: "overlay_entry \<Rightarrow> bool" where
  "entry_ok e \<longleftrightarrow> e_ino e < 2 ^ 64 \<and> e_size e < 2 ^ 64 \<and> content_ok (e_content e)
     \<and> nanos (e_mtime e) < 2 ^ 32 \<and> nanos (e_ctime e) < 2 ^ 32
     \<and> (\<forall>b. e_base e = Some b \<longrightarrow> base_facts_ok b)"

lemma kind_code_roundtrip [simp]: "kind_from_code (kind_code k) = Some k"
  by (cases k) (simp_all add: kind_from_code_def)

lemma decode_content_row: "content_ok (e_content e) \<Longrightarrow> decode_content (row_of e) = Inr (e_content e)"
  by (cases "e_content e")
    (simp_all add: decode_content_def row_of_def CONTENT_NONE_def CONTENT_LOCAL_def
      CONTENT_BASE_def parse_to_qualified)

lemma decode_base_row:
  "(\<And>b. e_base e = Some b \<Longrightarrow> base_facts_ok b) \<Longrightarrow> decode_base (row_of e) = Inr (e_base e)"
proof (cases "e_base e")
  case (Some b)
  assume "\<And>b. e_base e = Some b \<Longrightarrow> base_facts_ok b"
  with Some have "base_facts_ok b" by blast
  with Some show ?thesis
    by (simp add: decode_base_def row_of_def split_beta base_facts_ok_def kind_ok_def
        parse_to_qualified)
qed (simp add: decode_base_def row_of_def split_beta)

lemma row_fields [simp]:
  "r_path (row_of e) = e_path e" "r_present (row_of e) = of_bool (e_present e)"
  "r_kind (row_of e) = kind_code (e_kind e)" "r_opaque (row_of e) = of_bool (e_opaque e)"
  "r_ino (row_of e) = u64_as_i64 (e_ino e)" "r_symlink_target (row_of e) = e_symlink_target e"
  "r_size (row_of e) = u64_as_i64 (e_size e)"
  "r_mtime_secs (row_of e) = secs (e_mtime e)" "r_mtime_nanos (row_of e) = int (nanos (e_mtime e))"
  "r_ctime_secs (row_of e) = secs (e_ctime e)" "r_ctime_nanos (row_of e) = int (nanos (e_ctime e))"
  "r_renamed_from (row_of e) = e_renamed_from e"
  by (simp_all add: row_of_def split_beta)

lemma decode_row_of: "entry_ok e \<Longrightarrow> decode_row (row_of e) = Inr e"
  by (simp add: decode_row_def entry_ok_def decode_content_row decode_base_row)

interpretation row_codec: codec entry_ok row_of decode_row
  by unfold_locales (rule decode_row_of)

section \<open>Properties\<close>

text \<open>
  C8. The stored form of a row loses nothing: decoding the columns written for an entry gives the entry
  back, and two entries with the same stored row are the same entry.
\<close>

theorem row_roundtrip:
  assumes "entry_ok e" and "entry_ok e'"
  shows "decode_row (row_of e) = Inr e \<and> (row_of e = row_of e' \<longleftrightarrow> e = e')"
  using assms decode_row_of row_codec.enc_eq_iff by blast

definition sample_entry :: overlay_entry where
  "sample_entry =
     \<lparr>e_path = ''dir/new.rs'', e_present = True, e_kind = OExecutable, e_opaque = False,
      e_ino = 2 ^ 63 + 9, e_content = CLocal 42, e_symlink_target = None, e_size = 1234,
      e_mtime = Timestamp 1700000000 500, e_ctime = Timestamp (-1) 1,
      e_renamed_from = Some ''dir/old.rs'',
      e_base = Some (BaseFacts (ObjectId Sha1 (replicate 20 (CHR ''a''))) Regular 10)\<rparr>"

lemma sample_entry_ok: "entry_ok sample_entry"
  by (simp add: sample_entry_def entry_ok_def base_facts_ok_def oid_ok_def)

theorem row_roundtrip_witness: "decode_row (row_of sample_entry) = Inr sample_entry"
  using row_roundtrip [OF sample_entry_ok sample_entry_ok] by blast

text \<open>
  C9. Resolution, stated without the walk: a path is absent when some ancestor's row is a whiteout or not a
  directory; otherwise its own row decides; without a row it is the base's exactly when no ancestor is
  opaque.
\<close>

theorem resolve_spec:
  "resolve rows p =
     (if \<exists>a \<in> set (ancestors_of p). \<exists>e. bt_get rows a = Some e \<and> \<not> (e_present e \<and> is_dir (e_kind e))
      then Absent
      else case bt_get rows p of
        Some e \<Rightarrow> if e_present e then Overlay e else Absent
      | None \<Rightarrow>
          if \<exists>a \<in> set (ancestors_of p). \<exists>e. bt_get rows a = Some e \<and> e_opaque e then Absent else Base)"
  unfolding resolve_eq resolves_def blocked_def masked_def blocking_def de_Morgan_conj by (rule refl)

end
