(* ===== verification/Gfs_Overlay.thy ===== *)
theory Gfs_Overlay
  imports Gfs_OverlayState
begin

text \<open>
  The copy-on-write overlay of \<open>crates/gfs-overlay/src/lib.rs\<close> with the durable halves it writes
  through: the journal of \<open>journal.rs\<close> and the content files of \<open>store.rs\<close>.

  The state \<open>overlay\<close> is \<open>Inner\<close> and \<open>Overlay\<close> together. \<open>files\<close> is the content store (content id to
  bytes); \<open>wall\<close> is the sequence of answers of the host clock (\<open>Timestamp::now\<close>) and \<open>reads\<close> how many
  were taken. An operation maps the state to a result and the new state, so what a refused
  operation leaves behind (an advanced clock, a spent content id) is part of the model.

  SQLite transactions and local file operations are taken to succeed; the conditions the code
  itself checks (quota, missing or existing names, undecodable rows) are branches. The journal's
  meta table is kept as typed fields.
\<close>

section \<open>State\<close>

datatype change = Put overlay_entry | Delete path

record journal =
  j_rows :: "(path, row) btree"
  j_vanished :: "path set"
  j_overflow :: bool
  j_next_ino :: nat
  j_next_content_id :: nat
  j_root_times :: "(timestamp \<times> timestamp) option"
  j_instance_id :: nat
  j_binding :: "(string \<times> string) option"

record overlay =
  journal :: journal
  entries :: rows
  children :: "(path, bytes set) btree"
  by_content :: "(nat, path) btree"
  next_ino :: nat
  next_content_id :: nat
  local_bytes :: nat
  clock :: timestamp
  vanished :: "path set"
  vanished_overflow :: bool
  root_times :: "(timestamp \<times> timestamp) option"
  dirty :: "nat set"
  unsynced :: "nat set"
  writers :: "(nat, nat) btree"
  sequence :: nat
  instance_id :: nat
  stamps :: "(path, nat) btree"
  files :: "(nat, bytes) btree"
  quota_bytes :: nat
  max_rename_entries :: nat
  snap :: timestamp
  wall :: "nat \<Rightarrow> timestamp"
  reads :: nat

type_synonym 'a result = "condition + 'a"

definition VANISHED_LIMIT :: nat where
  "VANISHED_LIMIT = 4096"

definition OVERLAY_INO_BASE :: nat where
  "OVERLAY_INO_BASE = 2 ^ 48"

text \<open>The directory a name is created in or removed from, as the caller resolved it.\<close>

datatype parent = Parent (par_ino: nat) (par_base: "base_facts option")

datatype source = Empty | Reader bytes

section \<open>Journal\<close>

datatype vanished_delta = VanishedDelta (gone: "path list") (returned: "path list")

fun vanished_step :: "change \<Rightarrow> vanished_delta \<Rightarrow> vanished_delta" where
  "vanished_step (Put e) d =
     VanishedDelta (filter (\<lambda>p. p \<noteq> e_path e) (gone d)) (returned d @ [e_path e])"
| "vanished_step (Delete p) d =
     VanishedDelta (gone d @ [p]) (filter (\<lambda>q. q \<noteq> p) (returned d))"

definition vanished_delta_of :: "change list \<Rightarrow> vanished_delta" where
  "vanished_delta_of cs = fold vanished_step cs (VanishedDelta [] [])"

fun journal_change :: "change \<Rightarrow> (path, row) btree \<Rightarrow> (path, row) btree" where
  "journal_change (Put e) rs = bt_insert (r_path (row_of e)) (row_of e) rs"
| "journal_change (Delete p) rs = bt_remove p rs"

definition journal_apply ::
  "change list \<Rightarrow> vanished_delta \<Rightarrow> bool \<Rightarrow> nat \<Rightarrow> nat \<Rightarrow> (timestamp \<times> timestamp) option
   \<Rightarrow> journal \<Rightarrow> journal" where
  "journal_apply cs delta overflow nino nid rt J =
     J\<lparr>j_rows := fold journal_change cs (j_rows J),
       j_vanished := (if overflow then {}
                      else (j_vanished J - set (returned delta)) \<union> set (gone delta)),
       j_overflow := (if overflow then True else j_overflow J),
       j_next_ino := nino,
       j_next_content_id := nid,
       j_root_times := (case rt of None \<Rightarrow> j_root_times J | Some t \<Rightarrow> Some t)\<rparr>"

fun journal_decode :: "(path \<times> row) list \<Rightarrow> overlay_entry list result" where
  "journal_decode [] = Inr []"
| "journal_decode ((p, r) # rs) =
     (case decode_row r of Inl _ \<Rightarrow> Inl Io
      | Inr e \<Rightarrow> (case journal_decode rs of Inl c \<Rightarrow> Inl c | Inr es \<Rightarrow> Inr (e # es)))"

definition journal_load :: "journal \<Rightarrow> overlay_entry list result" where
  "journal_load J = journal_decode (j_rows J)"

definition journal_bind :: "string \<times> string \<Rightarrow> journal \<Rightarrow> journal result" where
  "journal_bind b J =
     (case j_binding J of
        None \<Rightarrow> Inr (J\<lparr>j_binding := Some b, j_next_ino := OVERLAY_INO_BASE, j_next_content_id := 1\<rparr>)
      | Some b' \<Rightarrow>
          if b' \<noteq> b then
            (if j_rows J = [] then Inr (J\<lparr>j_binding := Some b\<rparr>) else Inl Invalid)
          else Inr J)"

definition journal_rebind ::
  "string \<times> string \<Rightarrow> overlay_entry list \<Rightarrow> (timestamp \<times> timestamp) option \<Rightarrow> journal \<Rightarrow> journal" where
  "journal_rebind b keep rt J =
     J\<lparr>j_rows := fold (\<lambda>e rs. journal_change (Put e) rs) keep [],
       j_vanished := {}, j_overflow := False, j_root_times := rt, j_binding := Some b\<rparr>"

section \<open>Indexes and the commit\<close>

text \<open>\<open>rows_under\<close>: the range \<open>dir/ .. dir0\<close> of the sorted map, \<open>0\<close> being the byte after \<open>/\<close>.\<close>

definition rows_under :: "rows \<Rightarrow> path \<Rightarrow> overlay_entry list" where
  "rows_under rs dir =
     (if dir = [] then map snd rs
      else map snd (bt_range (dir @ ''/'') (dir @ ''0'') rs))"

definition release_content :: "nat \<Rightarrow> path \<Rightarrow> (nat, path) btree \<Rightarrow> (nat, path) btree" where
  "release_content i p ix = (if bt_get ix i = Some p then bt_remove i ix else ix)"

definition child_add :: "path \<Rightarrow> bytes \<Rightarrow> (path, bytes set) btree \<Rightarrow> (path, bytes set) btree" where
  "child_add d n ch = bt_insert d (insert n (case bt_get ch d of None \<Rightarrow> {} | Some s \<Rightarrow> s)) ch"

definition child_drop :: "path \<Rightarrow> bytes \<Rightarrow> (path, bytes set) btree \<Rightarrow> (path, bytes set) btree" where
  "child_drop d n ch = (case bt_get ch d of None \<Rightarrow> ch | Some s \<Rightarrow> bt_insert d (s - {n}) ch)"

definition put_stamp :: "bool \<Rightarrow> path \<Rightarrow> nat \<Rightarrow> (path, nat) btree \<Rightarrow> (path, nat) btree" where
  "put_stamp stamp p s st = (if stamp then bt_insert p s st else st)"

text \<open>The memory half of one change, in the order of the loop in \<open>commit_with\<close>.\<close>

fun apply_change :: "bool \<Rightarrow> change \<Rightarrow> overlay \<Rightarrow> overlay" where
  "apply_change stamp (Put e) ov =
     (let prev = bt_get (entries ov) (e_path e);
          old_id = (case prev of None \<Rightarrow> None | Some q \<Rightarrow> local_id (e_content q));
          bytes1 = (case (prev, old_id) of (Some q, Some i) \<Rightarrow> sat_sub (local_bytes ov) (e_size q)
                    | _ \<Rightarrow> local_bytes ov);
          ix1 = (case old_id of
                   Some i \<Rightarrow> if Some i \<noteq> local_id (e_content e)
                             then release_content i (e_path e) (by_content ov) else by_content ov
                 | None \<Rightarrow> by_content ov)
      in ov\<lparr>stamps := put_stamp stamp (e_path e) (sequence ov) (stamps ov),
            local_bytes := (case local_id (e_content e) of None \<Rightarrow> bytes1
                            | Some i \<Rightarrow> sat_add bytes1 (e_size e)),
            by_content := (case local_id (e_content e) of None \<Rightarrow> ix1
                           | Some i \<Rightarrow> bt_insert i (e_path e) ix1),
            dirty := (case local_id (e_content e) of None \<Rightarrow> dirty ov | Some i \<Rightarrow> dirty ov - {i}),
            children := child_add (entry_parent e) (entry_name e) (children ov),
            entries := bt_insert (e_path e) e (entries ov)\<rparr>)"
| "apply_change stamp (Delete p) ov =
     (let ov1 = ov\<lparr>stamps := put_stamp stamp p (sequence ov) (stamps ov)\<rparr>
      in case bt_get (entries ov) p of
           None \<Rightarrow> ov1
         | Some q \<Rightarrow>
             ov1\<lparr>entries := bt_remove p (entries ov),
                 local_bytes := (case local_id (e_content q) of None \<Rightarrow> local_bytes ov
                                 | Some i \<Rightarrow> sat_sub (local_bytes ov) (e_size q)),
                 by_content := (case local_id (e_content q) of None \<Rightarrow> by_content ov
                                | Some i \<Rightarrow> release_content i p (by_content ov)),
                 dirty := (case local_id (e_content q) of None \<Rightarrow> dirty ov
                           | Some i \<Rightarrow> dirty ov - {i}),
                 children := child_drop (entry_parent q) (entry_name q) (children ov)\<rparr>)"

definition store_remove :: "nat \<Rightarrow> overlay \<Rightarrow> overlay" where
  "store_remove i ov = ov\<lparr>unsynced := unsynced ov - {i}, files := bt_remove i (files ov)\<rparr>"

definition commit_with ::
  "change list \<Rightarrow> nat list \<Rightarrow> (timestamp \<times> timestamp) option \<Rightarrow> bool \<Rightarrow> overlay \<Rightarrow> overlay" where
  "commit_with cs release rt stamp ov =
     (let delta = vanished_delta_of cs;
          overflow = (vanished_overflow ov
                      \<or> card (vanished ov) + length (gone delta) > VANISHED_LIMIT);
          ov1 = ov\<lparr>sequence := (if stamp then sequence ov + 1 else sequence ov)\<rparr>;
          ov2 = ov1\<lparr>journal := journal_apply cs delta overflow (next_ino ov) (next_content_id ov)
                                 rt (journal ov),
                    root_times := (case rt of None \<Rightarrow> root_times ov | Some t \<Rightarrow> Some t)\<rparr>;
          ov3 = (if overflow then ov2\<lparr>vanished := {}, vanished_overflow := True\<rparr>
                 else ov2\<lparr>vanished := (vanished ov - set (returned delta)) \<union> set (gone delta),
                          stamps := fold (\<lambda>p. put_stamp stamp p (sequence ov2)) (gone delta)
                                      (stamps ov)\<rparr>);
          ov4 = fold (apply_change stamp) cs ov3
      in fold store_remove release ov4)"

definition commit ::
  "change list \<Rightarrow> nat list \<Rightarrow> (timestamp \<times> timestamp) option \<Rightarrow> overlay \<Rightarrow> overlay" where
  "commit cs release rt ov = commit_with cs release rt True ov"

section \<open>Clock, allocators, checks\<close>

definition next_time :: "overlay \<Rightarrow> timestamp \<times> overlay" where
  "next_time ov =
     (let t = overlay_time (wall ov (reads ov)) (snap ov) (Some (clock ov))
      in (t, ov\<lparr>clock := t, reads := reads ov + 1\<rparr>))"

definition allocate_ino :: "overlay \<Rightarrow> nat \<times> overlay" where
  "allocate_ino ov = (next_ino ov, ov\<lparr>next_ino := next_ino ov + 1\<rparr>)"

definition adopt_ino :: "nat \<Rightarrow> overlay \<Rightarrow> nat \<times> overlay" where
  "adopt_ino i ov = (if i = 0 then allocate_ino ov else (i, ov))"

definition allocate_content_id :: "overlay \<Rightarrow> nat \<times> overlay" where
  "allocate_content_id ov = (next_content_id ov, ov\<lparr>next_content_id := next_content_id ov + 1\<rparr>)"

definition over_quota :: "overlay \<Rightarrow> nat \<Rightarrow> bool" where
  "over_quota ov added = (sat_add (local_bytes ov) added > quota_bytes ov)"

definition existing :: "overlay \<Rightarrow> path \<Rightarrow> base_facts option \<Rightarrow> entry_kind option" where
  "existing ov p base =
     (case resolve (entries ov) p of
        Overlay e \<Rightarrow> Some (to_entry_kind (e_kind e))
      | Absent \<Rightarrow> None
      | Base \<Rightarrow> map_option bf_kind base)"

definition check_parent :: "overlay \<Rightarrow> path \<Rightarrow> base_facts option \<Rightarrow> unit result" where
  "check_parent ov p parent_base =
     (let parent = parent_of p
      in if parent = [] then Inr ()
         else case existing ov parent parent_base of
           None \<Rightarrow> Inl NoEntry
         | Some k \<Rightarrow> if \<not> is_dir_like k then Inl NotDirectory else Inr ())"

datatype parent_touch = TouchRoot | TouchRow overlay_entry | TouchNothing

definition parent_touch :: "path \<Rightarrow> parent \<Rightarrow> timestamp \<Rightarrow> overlay \<Rightarrow> parent_touch \<times> overlay" where
  "parent_touch p par now ov =
     (let dir = parent_of p
      in if dir = [] then (TouchRoot, ov)
         else case resolve (entries ov) dir of
           Overlay e \<Rightarrow>
             if e_present e \<and> is_dir (e_kind e)
             then (TouchRow (e\<lparr>e_mtime := now, e_ctime := now\<rparr>), ov)
             else (TouchNothing, ov)
         | Absent \<Rightarrow> (TouchNothing, ov)
         | Base \<Rightarrow>
             (case par_base par of None \<Rightarrow> (TouchNothing, ov)
              | Some f \<Rightarrow>
                (case from_entry_kind (bf_kind f) of None \<Rightarrow> (TouchNothing, ov)
                 | Some k \<Rightarrow>
                   if \<not> is_dir k then (TouchNothing, ov)
                   else (let (ino, ov1) = adopt_ino (par_ino par) ov
                         in (TouchRow \<lparr>e_path = dir, e_present = True, e_kind = k,
                               e_opaque = False, e_ino = ino, e_content = CNone,
                               e_symlink_target = None, e_size = bf_size f, e_mtime = now,
                               e_ctime = now, e_renamed_from = None, e_base = Some f\<rparr>, ov1)))))"

text \<open>\<open>push_touch\<close>: fold a parent touch into the transaction being assembled.\<close>

fun push_touch ::
  "parent_touch \<Rightarrow> timestamp \<Rightarrow> change list \<times> (timestamp \<times> timestamp) option
   \<Rightarrow> change list \<times> (timestamp \<times> timestamp) option" where
  "push_touch TouchRoot now (cs, rt) = (cs, Some (now, now))"
| "push_touch (TouchRow e) now (cs, rt) = (cs @ [Put e], rt)"
| "push_touch TouchNothing now (cs, rt) = (cs, rt)"

definition commit_touching ::
  "change list \<Rightarrow> nat list \<Rightarrow> path \<Rightarrow> parent \<Rightarrow> timestamp \<Rightarrow> overlay \<Rightarrow> overlay" where
  "commit_touching cs release p par now ov =
     (let (touch, ov1) = parent_touch p par now ov;
          (cs', rt) = push_touch touch now (cs, None)
      in commit cs' release rt ov1)"

section \<open>Creating\<close>

definition create_file ::
  "path \<Rightarrow> base_facts option \<Rightarrow> parent \<Rightarrow> nat \<Rightarrow> bool \<Rightarrow> overlay \<Rightarrow> overlay_entry result \<times> overlay" where
  "create_file p base par ino executable ov =
     (case path_condition p of Inl c \<Rightarrow> (Inl c, ov)
      | Inr _ \<Rightarrow>
        (case check_parent ov p (par_base par) of Inl c \<Rightarrow> (Inl c, ov)
         | Inr _ \<Rightarrow>
           if existing ov p base \<noteq> None then (Inl Exists, ov)
           else if over_quota ov 0 then (Inl QuotaExceeded, ov)
           else (let (ino', ov1) = adopt_ino ino ov;
                     (cid, ov2) = allocate_content_id ov1
                 in if bt_get (files ov2) cid \<noteq> None then (Inl Io, ov2)
                    else (let ov3 = ov2\<lparr>files := bt_insert cid [] (files ov2),
                                        unsynced := insert cid (unsynced ov2)\<rparr>;
                              (now, ov4) = next_time ov3;
                              e = \<lparr>e_path = p, e_present = True,
                                   e_kind = (if executable then OExecutable else ORegular),
                                   e_opaque = False, e_ino = ino', e_content = CLocal cid,
                                   e_symlink_target = None, e_size = 0, e_mtime = now,
                                   e_ctime = now, e_renamed_from = None, e_base = base\<rparr>
                          in (Inr e, commit_touching [Put e] [] p par now ov4)))))"

definition mkdir ::
  "path \<Rightarrow> base_facts option \<Rightarrow> parent \<Rightarrow> nat \<Rightarrow> overlay \<Rightarrow> overlay_entry result \<times> overlay" where
  "mkdir p base par ino ov =
     (case path_condition p of Inl c \<Rightarrow> (Inl c, ov)
      | Inr _ \<Rightarrow>
        (case check_parent ov p (par_base par) of Inl c \<Rightarrow> (Inl c, ov)
         | Inr _ \<Rightarrow>
           if existing ov p base \<noteq> None then (Inl Exists, ov)
           else (let (ino', ov1) = adopt_ino ino ov;
                     (now, ov2) = next_time ov1;
                     e = \<lparr>e_path = p, e_present = True, e_kind = ODirectory, e_opaque = True,
                          e_ino = ino', e_content = CNone, e_symlink_target = None, e_size = 0,
                          e_mtime = now, e_ctime = now, e_renamed_from = None, e_base = base\<rparr>
                 in (Inr e, commit_touching [Put e] [] p par now ov2))))"

definition symlink ::
  "path \<Rightarrow> bytes \<Rightarrow> base_facts option \<Rightarrow> parent \<Rightarrow> nat \<Rightarrow> overlay \<Rightarrow> overlay_entry result \<times> overlay" where
  "symlink p target base par ino ov =
     (case path_condition p of Inl c \<Rightarrow> (Inl c, ov)
      | Inr _ \<Rightarrow>
        if target = [] \<or> CHR 0x00 \<in> set target then (Inl Invalid, ov)
        else (case check_parent ov p (par_base par) of Inl c \<Rightarrow> (Inl c, ov)
         | Inr _ \<Rightarrow>
           if existing ov p base \<noteq> None then (Inl Exists, ov)
           else (let (ino', ov1) = adopt_ino ino ov;
                     (now, ov2) = next_time ov1;
                     e = \<lparr>e_path = p, e_present = True, e_kind = OSymlink, e_opaque = False,
                          e_ino = ino', e_content = CNone, e_symlink_target = Some target,
                          e_size = length target, e_mtime = now, e_ctime = now,
                          e_renamed_from = None, e_base = base\<rparr>
                 in (Inr e, commit_touching [Put e] [] p par now ov2))))"

section \<open>Copying up and writing\<close>

text \<open>
  What a copy-up takes over from the row or the base entry: kind, symlink target, base facts,
  inode number and rename origin.
\<close>

type_synonym copy_up_source =
  "overlay_kind \<times> bytes option \<times> base_facts option \<times> nat \<times> path option"

definition copy_up_of_row :: "overlay_entry \<Rightarrow> copy_up_source result" where
  "copy_up_of_row e =
     (if is_dir (e_kind e) then Inl IsDirectory
      else if e_kind e = OSymlink then Inl Invalid
      else Inr (e_kind e, e_symlink_target e, e_base e, e_ino e, e_renamed_from e))"

definition copy_up_of_base :: "base_facts option \<Rightarrow> nat \<Rightarrow> copy_up_source result" where
  "copy_up_of_base base ino =
     (case base of None \<Rightarrow> Inl NoEntry
      | Some f \<Rightarrow>
        (case from_entry_kind (bf_kind f) of None \<Rightarrow> Inl NotPermitted
         | Some k \<Rightarrow>
           if is_dir k then Inl IsDirectory
           else if k = OSymlink then Inl Invalid
           else Inr (k, None, Some f, ino, None)))"

definition copy_up ::
  "path \<Rightarrow> copy_up_source \<Rightarrow> source \<Rightarrow> overlay \<Rightarrow> overlay_entry result \<times> overlay" where
  "copy_up p from src ov =
     (let (kind, target, bf, ino, origin) = from;
          (cid, ov1) = allocate_content_id ov;
          data = (case src of Empty \<Rightarrow> [] | Reader bs \<Rightarrow> bs);
          declared = (case bf of None \<Rightarrow> 0 | Some f \<Rightarrow> bf_size f)
      in if src \<noteq> Empty \<and> over_quota ov1 declared then (Inl QuotaExceeded, ov1)
         else if over_quota ov1 (length data) then (Inl QuotaExceeded, ov1)
         else (let ov2 = ov1\<lparr>files := bt_insert cid data (files ov1),
                             unsynced := insert cid (unsynced ov1)\<rparr>;
                   (now, ov3) = next_time ov2;
                   e = \<lparr>e_path = p, e_present = True, e_kind = kind, e_opaque = False,
                        e_ino = ino, e_content = CLocal cid, e_symlink_target = target,
                        e_size = length data, e_mtime = now, e_ctime = now,
                        e_renamed_from = origin, e_base = bf\<rparr>
               in (Inr e, commit [Put e] [] None ov3)))"

definition materialize ::
  "path \<Rightarrow> base_facts option \<Rightarrow> nat \<Rightarrow> source \<Rightarrow> overlay \<Rightarrow> overlay_entry result \<times> overlay" where
  "materialize p base ino src ov =
     (case path_condition p of Inl c \<Rightarrow> (Inl c, ov)
      | Inr _ \<Rightarrow>
        (case resolve (entries ov) p of
           Absent \<Rightarrow> (Inl NoEntry, ov)
         | Overlay e \<Rightarrow>
             if local_id (e_content e) \<noteq> None then (Inr e, ov)
             else (case copy_up_of_row e of Inl c \<Rightarrow> (Inl c, ov) | Inr from \<Rightarrow> copy_up p from src ov)
         | Base \<Rightarrow>
             (case copy_up_of_base base ino of Inl c \<Rightarrow> (Inl c, ov)
              | Inr from \<Rightarrow> copy_up p from src ov)))"

text \<open>\<open>replace_in_memory\<close> and \<open>note_written\<close>: the row moves in memory, the id is marked dirty.\<close>

definition replace_in_memory :: "overlay_entry \<Rightarrow> overlay \<Rightarrow> overlay" where
  "replace_in_memory e ov =
     (let b1 = (case bt_get (entries ov) (e_path e) of None \<Rightarrow> local_bytes ov
                | Some q \<Rightarrow> if local_id (e_content q) \<noteq> None then sat_sub (local_bytes ov) (e_size q)
                            else local_bytes ov)
      in ov\<lparr>local_bytes := (if local_id (e_content e) \<noteq> None then sat_add b1 (e_size e) else b1),
            entries := bt_insert (e_path e) e (entries ov)\<rparr>)"

definition note_written :: "overlay_entry \<Rightarrow> nat \<Rightarrow> timestamp option \<Rightarrow> overlay \<Rightarrow> overlay" where
  "note_written e sz mtime ov =
     (let (now, ov1) = next_time ov;
          e' = e\<lparr>e_size := sz, e_mtime := (case mtime of None \<Rightarrow> now | Some t \<Rightarrow> t), e_ctime := now\<rparr>;
          ov2 = ov1\<lparr>dirty := (case local_id (e_content e') of None \<Rightarrow> dirty ov1
                              | Some i \<Rightarrow> insert i (dirty ov1)),
                    sequence := sequence ov1 + 1,
                    stamps := bt_insert (e_path e') (sequence ov1 + 1) (stamps ov1)\<rparr>
      in replace_in_memory e' ov2)"

text \<open>
  The bytes a write may land under the quota: everything, a prefix, or nothing.
  \<open>current\<close> is the size the file is counted at.
\<close>

definition admit_write :: "overlay \<Rightarrow> nat \<Rightarrow> nat \<Rightarrow> bytes \<Rightarrow> bytes result" where
  "admit_write ov current offset data =
     (let growth = sat_sub (sat_add offset (length data)) current;
          headroom = sat_sub (quota_bytes ov) (local_bytes ov)
      in if growth > headroom then
           (let allowed = sat_sub (length data) (growth - headroom)
            in if allowed = 0 then Inl QuotaExceeded else Inr (take allowed data))
         else Inr data)"

text \<open>\<open>pwrite\<close> on a content file: a gap reads as zeros.\<close>

definition pwrite :: "nat \<Rightarrow> bytes \<Rightarrow> bytes \<Rightarrow> bytes" where
  "pwrite offset data content =
     (let padded = content @ replicate (offset - length content) (CHR 0x00)
      in if data = [] then content
         else take offset padded @ data @ drop (offset + length data) padded)"

definition present_row :: "overlay \<Rightarrow> path \<Rightarrow> overlay_entry option" where
  "present_row ov p =
     (case bt_get (entries ov) p of Some e \<Rightarrow> if e_present e then Some e else None | None \<Rightarrow> None)"

definition write_at :: "path \<Rightarrow> nat \<Rightarrow> bytes \<Rightarrow> overlay \<Rightarrow> nat result \<times> overlay" where
  "write_at p offset data ov =
     (case present_row ov p of None \<Rightarrow> (Inl NoEntry, ov)
      | Some e \<Rightarrow>
        (case local_id (e_content e) of None \<Rightarrow> (Inl Io, ov)
         | Some i \<Rightarrow>
           (case admit_write ov (e_size e) offset data of Inl c \<Rightarrow> (Inl c, ov)
            | Inr d \<Rightarrow>
              (case bt_get (files ov) i of None \<Rightarrow> (Inl Io, ov)
               | Some content \<Rightarrow>
                 (let ov1 = ov\<lparr>files := bt_insert i (pwrite offset d content) (files ov)\<rparr>;
                      sz = max (e_size e) (sat_add offset (length d))
                  in (Inr (length d), note_written e sz None ov1))))))"

text \<open>
  A write through an open descriptor. The descriptor keeps its file alive after the name is
  gone, so \<open>content\<close> is the descriptor's own bytes when no row is left; the new bytes are returned.
\<close>

definition owner_of :: "overlay \<Rightarrow> nat \<Rightarrow> overlay_entry option" where
  "owner_of ov i =
     (case bt_get (by_content ov) i of None \<Rightarrow> None | Some p \<Rightarrow> bt_get (entries ov) p)"

definition write_content ::
  "nat \<Rightarrow> bytes \<Rightarrow> nat \<Rightarrow> bytes \<Rightarrow> overlay \<Rightarrow> (nat \<times> bytes) result \<times> overlay" where
  "write_content i content offset data ov =
     (let entry = owner_of ov i;
          current = (case entry of None \<Rightarrow> 0 | Some e \<Rightarrow> e_size e)
      in case admit_write ov current offset data of Inl c \<Rightarrow> (Inl c, ov)
         | Inr d \<Rightarrow>
           (let bytes = pwrite offset d content;
                ov1 = (if bt_get (files ov) i = None then ov
                       else ov\<lparr>files := bt_insert i bytes (files ov)\<rparr>)
            in (Inr (length d, bytes),
                case entry of None \<Rightarrow> ov1
                | Some e \<Rightarrow> note_written e (max (e_size e) (sat_add offset (length d))) None ov1)))"

definition truncate :: "path \<Rightarrow> nat \<Rightarrow> overlay \<Rightarrow> overlay_entry result \<times> overlay" where
  "truncate p sz ov =
     (case present_row ov p of None \<Rightarrow> (Inl NoEntry, ov)
      | Some e \<Rightarrow>
        if is_dir (e_kind e) then (Inl IsDirectory, ov)
        else (case local_id (e_content e) of None \<Rightarrow> (Inl Io, ov)
         | Some i \<Rightarrow>
           if sz > e_size e \<and> over_quota ov (sz - e_size e) then (Inl QuotaExceeded, ov)
           else (case bt_get (files ov) i of None \<Rightarrow> (Inl Io, ov)
            | Some content \<Rightarrow>
              (let ov1 = ov\<lparr>files := bt_insert i
                               (take sz content @ replicate (sz - length content) (CHR 0x00)) (files ov)\<rparr>;
                   (now, ov2) = next_time ov1;
                   e' = e\<lparr>e_size := sz, e_mtime := now, e_ctime := now\<rparr>
               in (Inr e', commit [Put e'] [] None ov2)))))"

end
