(* ===== verification/Gfs_OverlayOps.thy ===== *)
theory Gfs_OverlayOps
  imports Gfs_Overlay
begin

text \<open>
  The rest of the overlay's operations (\<open>crates/gfs-overlay/src/lib.rs\<close>): settling and
  referencing content, metadata changes, removal and rename. \<open>BaseDescendant\<close> is an argument type of \<open>rename\<close>.
\<close>

section \<open>Settling\<close>

definition settle_locked :: "nat \<Rightarrow> overlay \<Rightarrow> overlay_entry option \<times> overlay" where
  "settle_locked i ov =
     (case owner_of ov i of
        None \<Rightarrow> (None, ov\<lparr>dirty := dirty ov - {i}\<rparr>)
      | Some e \<Rightarrow> (Some e, if i \<in> dirty ov then commit [Put e] [] None ov else ov))"

definition settle_content :: "nat \<Rightarrow> overlay \<Rightarrow> overlay_entry option \<times> overlay" where
  "settle_content i ov = settle_locked i ov"

definition settle_all :: "overlay \<Rightarrow> overlay" where
  "settle_all ov =
     (if dirty ov = {} then ov
      else let cs = map Put (List.map_filter (owner_of ov) (sorted_list_of_set (dirty ov)));
               ov1 = ov\<lparr>dirty := {}\<rparr>
           in if cs = [] then ov1 else commit cs [] None ov1)"

text \<open>\<open>sync\<close>: rows that are only in memory are committed, then the published content is forced out.\<close>

definition sync :: "overlay \<Rightarrow> overlay" where
  "sync ov = (settle_all ov)\<lparr>unsynced := {}\<rparr>"

definition refresh_content :: "nat \<Rightarrow> nat \<Rightarrow> timestamp \<Rightarrow> overlay \<Rightarrow> overlay_entry option \<times> overlay" where
  "refresh_content i sz mtime ov =
     (case owner_of ov i of None \<Rightarrow> (None, ov)
      | Some e \<Rightarrow>
          settle_locked i
            (if e_size e \<noteq> sz \<or> e_mtime e \<noteq> mtime then note_written e sz (Some mtime) ov else ov))"

section \<open>Writers and references\<close>

definition writer_opened :: "nat \<Rightarrow> overlay \<Rightarrow> overlay" where
  "writer_opened i ov =
     ov\<lparr>writers := bt_insert i (1 + (case bt_get (writers ov) i of None \<Rightarrow> 0 | Some n \<Rightarrow> n))
                     (writers ov)\<rparr>"

definition begin_write :: "path \<Rightarrow> overlay \<Rightarrow> overlay_entry option \<times> overlay" where
  "begin_write p ov =
     (case present_row ov p of None \<Rightarrow> (None, ov)
      | Some e \<Rightarrow>
        (case local_id (e_content e) of None \<Rightarrow> (None, ov)
         | Some i \<Rightarrow> (Some e, writer_opened i ov)))"

definition writer_closed :: "nat \<Rightarrow> overlay \<Rightarrow> overlay" where
  "writer_closed i ov =
     (case bt_get (writers ov) i of None \<Rightarrow> ov
      | Some n \<Rightarrow> ov\<lparr>writers := (if n - 1 = 0 then bt_remove i (writers ov)
                                else bt_insert i (n - 1) (writers ov))\<rparr>)"

definition reference_base ::
  "nat \<Rightarrow> overlay_entry \<Rightarrow> object_id \<Rightarrow> overlay \<Rightarrow> overlay_entry option \<times> overlay" where
  "reference_base i hashed oid ov =
     (case bt_get (entries ov) (e_path hashed) of None \<Rightarrow> (None, ov)
      | Some e \<Rightarrow>
          let unchanged = (e_present e \<and> local_id (e_content e) = Some i
                \<and> e_size e = e_size hashed \<and> e_mtime e = e_mtime hashed
                \<and> e_ctime e = e_ctime hashed \<and> e_renamed_from e = None
                \<and> (case e_base e of None \<Rightarrow> False | Some b \<Rightarrow> bf_oid b = oid)
                \<and> i \<notin> dirty ov \<and> bt_get (writers ov) i = None)
          in if \<not> unchanged then (None, ov)
             else let e' = e\<lparr>e_content := CBase oid\<rparr>
                  in (Some e', commit_with [Put e'] [] None False ov))"

definition release_copy :: "nat \<Rightarrow> overlay \<Rightarrow> overlay" where
  "release_copy i ov = (if bt_get (by_content ov) i \<noteq> None then ov else store_remove i ov)"

section \<open>Metadata\<close>

definition adopt :: "path \<Rightarrow> base_facts option \<Rightarrow> nat \<Rightarrow> overlay \<Rightarrow> overlay_entry result \<times> overlay" where
  "adopt p base ino ov =
     (case path_condition p of Inl c \<Rightarrow> (Inl c, ov)
      | Inr _ \<Rightarrow>
        if p = [] then (Inl Invalid, ov)
        else (case resolve (entries ov) p of
           Overlay e \<Rightarrow> (Inr e, ov)
         | Absent \<Rightarrow> (Inl NoEntry, ov)
         | Base \<Rightarrow>
           (case base of None \<Rightarrow> (Inl NoEntry, ov)
            | Some f \<Rightarrow>
              (case from_entry_kind (bf_kind f) of None \<Rightarrow> (Inl NotPermitted, ov)
               | Some k \<Rightarrow>
                 (let (now, ov1) = next_time ov;
                      e = \<lparr>e_path = p, e_present = True, e_kind = k, e_opaque = False,
                           e_ino = ino,
                           e_content = (if is_dir k then CNone else CBase (bf_oid f)),
                           e_symlink_target = None, e_size = bf_size f, e_mtime = now,
                           e_ctime = now, e_renamed_from = None, e_base = Some f\<rparr>
                  in (Inr e, commit [Put e] [] None ov1))))))"

definition set_executable ::
  "path \<Rightarrow> base_facts option \<Rightarrow> nat \<Rightarrow> bool \<Rightarrow> overlay \<Rightarrow> overlay_entry result \<times> overlay" where
  "set_executable p base ino executable ov =
     (case adopt p base ino ov of (Inl c, ov1) \<Rightarrow> (Inl c, ov1)
      | (Inr e, ov1) \<Rightarrow>
          if is_dir (e_kind e) \<or> e_kind e = OSymlink then (Inr e, ov1)
          else let wanted = (if executable then OExecutable else ORegular)
               in if e_kind e = wanted then (Inr e, ov1)
                  else (let (now, ov2) = next_time ov1;
                            e' = e\<lparr>e_kind := wanted, e_ctime := now\<rparr>
                        in (Inr e', commit [Put e'] [] None ov2)))"

definition set_times ::
  "path \<Rightarrow> base_facts option \<Rightarrow> nat \<Rightarrow> timestamp option \<Rightarrow> overlay \<Rightarrow> overlay_entry result \<times> overlay" where
  "set_times p base ino mtime ov =
     (case adopt p base ino ov of (Inl c, ov1) \<Rightarrow> (Inl c, ov1)
      | (Inr e, ov1) \<Rightarrow>
          (let (now, ov2) = next_time ov1;
               m = (case mtime of None \<Rightarrow> now | Some t \<Rightarrow> clamp_requested_overlay_time t (snap ov));
               e' = e\<lparr>e_mtime := m, e_ctime := now\<rparr>
           in (Inr e', commit [Put e'] [] None ov2)))"

definition touch_root :: "timestamp option \<Rightarrow> overlay \<Rightarrow> (timestamp \<times> timestamp) \<times> overlay" where
  "touch_root mtime ov =
     (let (now, ov1) = next_time ov;
          m = (case mtime of None \<Rightarrow> now | Some t \<Rightarrow> clamp_requested_overlay_time t (snap ov))
      in ((m, now), commit [] [] (Some (m, now)) ov1))"

section \<open>Reading\<close>

definition list_children :: "overlay \<Rightarrow> path \<Rightarrow> overlay_entry list" where
  "list_children ov dir =
     List.map_filter (\<lambda>n. bt_get (entries ov) (join_path dir n))
       (sorted_list_of_set (case bt_get (children ov) dir of None \<Rightarrow> {} | Some s \<Rightarrow> s))"

definition extra_children :: "overlay \<Rightarrow> path \<Rightarrow> bytes set \<Rightarrow> overlay_entry list" where
  "extra_children ov dir base_names =
     filter (\<lambda>e. e_present e \<and> entry_name e \<notin> base_names) (list_children ov dir)"

definition merged_dir_is_empty :: "overlay \<Rightarrow> path \<Rightarrow> bytes list \<Rightarrow> bool" where
  "merged_dir_is_empty ov dir base_children =
     (let names = (case bt_get (children ov) dir of None \<Rightarrow> {} | Some s \<Rightarrow> s)
      in if \<exists>n \<in> names. (case bt_get (entries ov) (join_path dir n) of
                           None \<Rightarrow> False | Some e \<Rightarrow> e_present e) then False
         else if masks_base (entries ov) dir then True
         else list_all (\<lambda>n. case bt_get (entries ov) (join_path dir n) of
                          Some e \<Rightarrow> \<not> e_present e | None \<Rightarrow> False) base_children)"

definition changes_since :: "nat \<Rightarrow> overlay \<Rightarrow> (nat \<times> path list) option" where
  "changes_since after ov =
     (if after > sequence ov then None
      else Some (sequence ov, map fst (filter (\<lambda>(p, s). s > after) (stamps ov))))"

section \<open>Removal\<close>

text \<open>The whiteout row a removal or a rename leaves where the base has an entry.\<close>

definition whiteout :: "path \<Rightarrow> base_facts \<Rightarrow> nat \<Rightarrow> timestamp \<Rightarrow> overlay_entry" where
  "whiteout p f ino now =
     \<lparr>e_path = p, e_present = False,
      e_kind = (case from_entry_kind (bf_kind f) of None \<Rightarrow> ORegular | Some k \<Rightarrow> k),
      e_opaque = False, e_ino = ino, e_content = CNone, e_symlink_target = None, e_size = 0,
      e_mtime = now, e_ctime = now, e_renamed_from = None, e_base = Some f\<rparr>"

definition row_base :: "overlay_entry option \<Rightarrow> base_facts option \<Rightarrow> base_facts option" where
  "row_base row base = (case row of None \<Rightarrow> base
     | Some e \<Rightarrow> (case e_base e of None \<Rightarrow> base | Some f \<Rightarrow> Some f))"

definition row_ids :: "overlay_entry option \<Rightarrow> nat list" where
  "row_ids row = (case row of None \<Rightarrow> []
     | Some e \<Rightarrow> (case local_id (e_content e) of None \<Rightarrow> [] | Some i \<Rightarrow> [i]))"

definition remove ::
  "path \<Rightarrow> base_facts option \<Rightarrow> parent \<Rightarrow> bool \<Rightarrow> bool \<Rightarrow> overlay \<Rightarrow> unit result \<times> overlay" where
  "remove p base par expect_dir merged_is_empty ov =
     (if p = [] then (Inl Invalid, ov)
      else case existing ov p base of None \<Rightarrow> (Inl NoEntry, ov)
      | Some kind \<Rightarrow>
          if expect_dir \<and> \<not> is_dir_like kind then (Inl NotDirectory, ov)
          else if \<not> expect_dir \<and> is_dir_like kind then (Inl IsDirectory, ov)
          else if is_dir_like kind \<and> \<not> merged_is_empty then (Inl NotEmpty, ov)
          else
            (let row = bt_get (entries ov) p;
                 doomed = (if is_dir_like kind then filter e_present (rows_under (entries ov) p) else []);
                 release = row_ids row @ concat (map (\<lambda>e. row_ids (Some e)) doomed);
                 cs = map (\<lambda>e. Delete (e_path e)) doomed;
                 (cs1, ov1) =
                   (case row_base row base of
                      Some f \<Rightarrow>
                        (let (now, ov1) = next_time ov
                         in (cs @ [Put (whiteout p f (case row of None \<Rightarrow> 0 | Some e \<Rightarrow> e_ino e) now)], ov1))
                    | None \<Rightarrow> (cs @ [Delete p], ov));
                 (now, ov2) = next_time ov1
             in (Inr (), commit_touching cs1 release p par now ov2)))"

section \<open>Rename\<close>

datatype base_descendant =
  BaseDescendant (bd_relative: path) (bd_facts: base_facts) (bd_symlink_target: "bytes option")

text \<open>The row that arrives at \<open>to\<close>: the source row moved, or the base entry as a fresh row.\<close>

definition moved_row ::
  "path \<Rightarrow> nat \<Rightarrow> base_facts option \<Rightarrow> path \<Rightarrow> base_facts option \<Rightarrow> timestamp \<Rightarrow> overlay
   \<Rightarrow> overlay_entry result \<times> overlay" where
  "moved_row from from_ino from_base to to_base now ov =
     (let fresh =
        (case from_base of None \<Rightarrow> (Inl NoEntry, ov)
         | Some f \<Rightarrow>
           (case from_entry_kind (bf_kind f) of None \<Rightarrow> (Inl NotPermitted, ov)
            | Some k \<Rightarrow>
              (let (ino, ov1) = adopt_ino from_ino ov
               in (Inr \<lparr>e_path = to, e_present = True, e_kind = k, e_opaque = is_dir k,
                        e_ino = ino, e_content = (if is_dir k then CNone else CBase (bf_oid f)),
                        e_symlink_target = None, e_size = bf_size f, e_mtime = now,
                        e_ctime = now, e_renamed_from = Some from, e_base = to_base\<rparr>, ov1))))
      in case bt_get (entries ov) from of
           None \<Rightarrow> fresh
         | Some row \<Rightarrow>
             if e_present row then
               (Inr (row\<lparr>e_path := to,
                         e_renamed_from := Some (case e_renamed_from row of None \<Rightarrow> from | Some q \<Rightarrow> q),
                         e_base := to_base, e_ctime := now, e_opaque := is_dir (e_kind row)\<rparr>), ov)
             else fresh)"

definition mover_changes :: "path \<Rightarrow> path \<Rightarrow> timestamp \<Rightarrow> overlay_entry \<Rightarrow> change list" where
  "mover_changes from to now row =
     (if \<not> e_present row then []
      else [Delete (e_path row),
            Put (row\<lparr>e_path := to @ drop (length from) (e_path row), e_ctime := now,
                     e_opaque := is_dir (e_kind row), e_base := None\<rparr>)])"

text \<open>One base descendant: skipped unless it still resolves to the base, otherwise a row of its own.\<close>

definition descendant_change ::
  "path \<Rightarrow> path \<Rightarrow> timestamp \<Rightarrow> base_descendant \<Rightarrow> change list \<times> overlay \<Rightarrow> change list \<times> overlay" where
  "descendant_change from to now d acc =
     (let (cs, ov) = acc;
          target = to @ ''/'' @ bd_relative d;
          source = from @ ''/'' @ bd_relative d
      in if resolve (entries ov) source \<noteq> Base then (cs, ov)
         else case from_entry_kind (bf_kind (bd_facts d)) of None \<Rightarrow> (cs, ov)
         | Some k \<Rightarrow>
             (let (ino, ov1) = allocate_ino ov
              in (cs @ [Put \<lparr>e_path = target, e_present = True, e_kind = k, e_opaque = is_dir k,
                             e_ino = ino,
                             e_content = (if is_dir k then CNone else CBase (bf_oid (bd_facts d))),
                             e_symlink_target = bd_symlink_target d,
                             e_size = bf_size (bd_facts d), e_mtime = now, e_ctime = now,
                             e_renamed_from = Some source, e_base = None\<rparr>], ov1)))"

text \<open>Content of the destination that goes, and what hides the source afterwards.\<close>

definition released :: "overlay \<Rightarrow> path \<Rightarrow> nat list" where
  "released ov to =
     row_ids (bt_get (entries ov) to) @ concat (map (\<lambda>e. row_ids (Some e)) (rows_under (entries ov) to))"

definition hiding :: "path \<Rightarrow> base_facts option \<Rightarrow> timestamp \<Rightarrow> overlay_entry option \<Rightarrow> change" where
  "hiding from from_base now row =
     (case row_base row from_base of
        Some f \<Rightarrow> Put (whiteout from f (case row of None \<Rightarrow> 0 | Some e \<Rightarrow> e_ino e) now)
      | None \<Rightarrow> Delete from)"

text \<open>Both parents change when the names differ in their directory, one otherwise.\<close>

definition rename_touches ::
  "path \<Rightarrow> parent \<Rightarrow> path \<Rightarrow> parent \<Rightarrow> timestamp \<Rightarrow> overlay \<Rightarrow> change list
   \<Rightarrow> change list \<times> (timestamp \<times> timestamp) option \<times> overlay" where
  "rename_touches from from_par to to_par now ov cs =
     (let (t1, ov1) = parent_touch from from_par now ov;
          (cs1, rt1) = push_touch t1 now (cs, None)
      in if parent_of from \<noteq> parent_of to
         then (let (t2, ov2) = parent_touch to to_par now ov1;
                   (cs2, rt2) = push_touch t2 now (cs1, rt1)
               in (cs2, rt2, ov2))
         else (cs1, rt1, ov1))"

definition rename_commit ::
  "path \<Rightarrow> nat \<Rightarrow> base_facts option \<Rightarrow> parent \<Rightarrow> path \<Rightarrow> base_facts option \<Rightarrow> parent
   \<Rightarrow> base_descendant list \<Rightarrow> overlay \<Rightarrow> unit result \<times> overlay" where
  "rename_commit from from_ino from_base from_par to to_base to_par descs ov =
     (let row = bt_get (entries ov) from;
          (now, ov1) = next_time ov;
          dels = map (\<lambda>e. Delete (e_path e)) (rows_under (entries ov) to);
          release = released ov to
      in case moved_row from from_ino from_base to to_base now ov1 of
           (Inl c, ov2) \<Rightarrow> (Inl c, ov2)
         | (Inr moved, ov2) \<Rightarrow>
             let dir = is_dir (e_kind moved);
                 movers = rows_under (entries ov2) from
             in if dir \<and> length movers + length descs > max_rename_entries ov2
                then (Inl QuotaExceeded, ov2)
                else
                  (let cs1 = dels @ [Put moved];
                       cs2 = (if dir then cs1 @ concat (map (mover_changes from to now) movers) else cs1);
                       (cs3, ov3) = (if dir then fold (descendant_change from to now) descs (cs2, ov2)
                                     else (cs2, ov2));
                       (cs4, rt, ov4) =
                         rename_touches from from_par to to_par now ov3 (cs3 @ [hiding from from_base now row])
                   in (Inr (), commit cs4 release rt ov4)))"

definition rename ::
  "path \<Rightarrow> nat \<Rightarrow> base_facts option \<Rightarrow> parent \<Rightarrow> path \<Rightarrow> base_facts option \<Rightarrow> parent
   \<Rightarrow> base_descendant list \<Rightarrow> bool \<Rightarrow> bool \<Rightarrow> overlay \<Rightarrow> unit result \<times> overlay" where
  "rename from from_ino from_base from_par to to_base to_par descs to_merged_is_empty no_replace ov =
     (case path_condition from of Inl c \<Rightarrow> (Inl c, ov)
      | Inr _ \<Rightarrow>
      (case path_condition to of Inl c \<Rightarrow> (Inl c, ov)
      | Inr _ \<Rightarrow>
        if from = [] \<or> to = [] then (Inl Invalid, ov)
        else if from = to then (Inr (), ov)
        else if is_within to from then (Inl Invalid, ov)
        else (case check_parent ov to (par_base to_par) of Inl c \<Rightarrow> (Inl c, ov)
        | Inr _ \<Rightarrow>
          (case existing ov from from_base of None \<Rightarrow> (Inl NoEntry, ov)
           | Some sk \<Rightarrow>
             (case existing ov to to_base of
                None \<Rightarrow> rename_commit from from_ino from_base from_par to to_base to_par descs ov
              | Some tk \<Rightarrow>
                  if no_replace then (Inl Exists, ov)
                  else if is_dir_like sk \<and> \<not> is_dir_like tk then (Inl NotDirectory, ov)
                  else if \<not> is_dir_like sk \<and> is_dir_like tk then (Inl IsDirectory, ov)
                  else if is_dir_like sk \<and> is_dir_like tk \<and> \<not> to_merged_is_empty
                  then (Inl NotEmpty, ov)
                  else rename_commit from from_ino from_base from_par to to_base to_par descs ov)))))"

end
