(* ===== verification/Gfs_Commit.thy ===== *)
theory Gfs_Commit
  imports Gfs_OverlayOps
begin

text \<open>
  What a commit of the overlay does, as functions of the maps it changes: the rows become the
  fold of the changes, the released content ids lose their files, everything else stays. On top
  of that, the invariants of the derived indexes (\<open>children\<close>, \<open>by_content\<close>, \<open>local_bytes\<close>,
  \<open>stamps\<close>) and of the journal that mirrors the rows.
\<close>

named_theorems commit_simps \<open>fields after the primitive steps of a commit\<close>

section \<open>Names inside a directory\<close>

definition leaf :: "path \<Rightarrow> bytes" where
  "leaf x = (case file_name x of None \<Rightarrow> [] | Some n \<Rightarrow> n)"

lemma entry_name_leaf: "entry_name e = leaf (e_path e)"
  by (simp add: entry_name_def leaf_def)

lemma good_components: "good_path p \<Longrightarrow> components p = split_on (CHR ''/'') p"
  unfolding good_path_def components_def plain_component_def
  by (intro filter_id_conv [THEN iffD2]) auto

lemma good_not_ends_slash: "good_path p \<Longrightarrow> \<not> ends_with p ''/''"
proof
  assume "good_path p" and "ends_with p ''/''"
  then obtain q where "good_path (q @ CHR ''/'' # [])" by (auto simp: ends_with_iff)
  then have "good_path []" by (simp only: good_append_iff)
  then show False by simp
qed

lemma leaf_slash: "good_path (d @ CHR ''/'' # n) \<Longrightarrow> CHR ''/'' \<notin> set n \<Longrightarrow> leaf (d @ CHR ''/'' # n) = n"
  by (simp add: leaf_def file_name_def good_components split_on_append_sep)

lemma leaf_top: "good_path n \<Longrightarrow> CHR ''/'' \<notin> set n \<Longrightarrow> leaf n = n"
  by (simp add: leaf_def file_name_def good_components)

lemma good_plain: "plain_component n \<longleftrightarrow> good_path n \<and> CHR ''/'' \<notin> set n"
  by (cases "CHR ''/'' \<in> set n") (simp_all add: plain_component_def good_path_def)

lemma join_path_root: "join_path [] n = n"
  by (simp add: join_path_def)

lemma join_path_good: "good_path d \<Longrightarrow> join_path d n = d @ CHR ''/'' # n"
  by (auto simp: join_path_def good_not_ends_slash)

lemma join_parent_leaf: "good_path x \<Longrightarrow> join_path (parent_of x) (leaf x) = x"
proof (cases "CHR ''/'' \<in> set x")
  case True
  assume x: "good_path x"
  from True obtain d n where d: "x = d @ CHR ''/'' # n" "CHR ''/'' \<notin> set n"
    by (rule parent_of_decomp)
  with x have "good_path d" "leaf x = n" "parent_of x = d"
    by (simp_all add: good_append_iff leaf_slash)
  with d(1) show ?thesis by (simp add: join_path_good)
qed (simp add: leaf_top join_path_def)

lemma parent_leaf_inj:
  "good_path x \<Longrightarrow> good_path y \<Longrightarrow> parent_of x = parent_of y \<Longrightarrow> leaf x = leaf y \<Longrightarrow> x = y"
  by (metis join_parent_leaf)

lemma join_plain:
  assumes "d = [] \<or> good_path d" and "plain_component n"
  shows "good_path (join_path d n)" and "parent_of (join_path d n) = d" and "leaf (join_path d n) = n"
proof -
  have n: "good_path n" "CHR ''/'' \<notin> set n" using assms(2) by (simp_all add: good_plain)
  from assms(1) show "good_path (join_path d n)" "parent_of (join_path d n) = d"
      "leaf (join_path d n) = n"
    using n by (auto simp: join_path_root join_path_good good_append_iff leaf_slash leaf_top)
qed

lemma leaf_plain: "good_path x \<Longrightarrow> plain_component (leaf x)"
proof -
  assume x: "good_path x"
  then have "leaf x \<in> set (split_on (CHR ''/'') x)"
    using split_on_not_Nil [of "CHR ''/''" x]
    by (auto simp: leaf_def file_name_def good_components split: list.splits)
  with x show ?thesis by (simp add: good_path_def)
qed

lemma good_parent: "good_path x \<Longrightarrow> parent_of x = [] \<or> good_path (parent_of x)"
  by (metis good_append_iff good_parent_slash parent_of_decomp)

section \<open>Changes as map updates\<close>

fun change_key :: "change \<Rightarrow> path" where
  "change_key (Put e) = e_path e"
| "change_key (Delete p) = p"

fun change_val :: "change \<Rightarrow> overlay_entry option" where
  "change_val (Put e) = Some e"
| "change_val (Delete p) = None"

definition upd :: "change \<Rightarrow> (path \<rightharpoonup> overlay_entry) \<Rightarrow> (path \<rightharpoonup> overlay_entry)" where
  "upd c R = R(change_key c := change_val c)"

lemma upd_Put [simp]: "upd (Put e) R = R(e_path e \<mapsto> e)"
  and upd_Delete [simp]: "upd (Delete p) R = R(p := None)"
  by (simp_all add: upd_def)

text \<open>The last change of a path wins; a path no change names keeps its row.\<close>

lemma fold_upd_other: "x \<notin> change_key ` set cs \<Longrightarrow> fold upd cs R x = R x"
  by (induction cs arbitrary: R) (auto simp: upd_def)

lemma fold_upd_last:
  "x \<notin> change_key ` set ds \<Longrightarrow> change_key c = x \<Longrightarrow> fold upd (cs @ c # ds) R x = change_val c"
  by (simp add: fold_upd_other) (simp add: upd_def)

lemma fold_upd_cases:
  obtains "x \<notin> change_key ` set cs" "fold upd cs R x = R x"
  | c where "c \<in> set cs" "change_key c = x" "fold upd cs R x = change_val c"
proof (cases "x \<in> change_key ` set cs")
  case True
  then obtain as c bs where "cs = as @ c # bs" "change_key c = x" "x \<notin> change_key ` set bs"
    using split_list_last_prop [of cs "\<lambda>c. change_key c = x"] by (metis imageE)
  then show thesis using that(2) [of c] fold_upd_last [of x bs c as R] by simp
qed (use that(1) fold_upd_other in blast)

lemma fold_upd_deletes: "fold upd (map Delete ps) R x = (if x \<in> set ps then None else R x)"
  by (induction ps arbitrary: R) auto

section \<open>The memory half of a commit\<close>

lemma apply_change_entries [commit_simps]:
  "bt_get (entries (apply_change st c ov)) = upd c (bt_get (entries ov))"
  by (cases c) (auto simp: Let_def fun_eq_iff split: option.splits)

lemma apply_change_bt_ok: "bt_ok (entries ov) \<Longrightarrow> bt_ok (entries (apply_change st c ov))"
  by (cases c) (auto simp: Let_def split: option.splits)

lemma apply_change_frame [commit_simps]:
  "files (apply_change st c ov) = files ov" "next_ino (apply_change st c ov) = next_ino ov"
  "next_content_id (apply_change st c ov) = next_content_id ov" "clock (apply_change st c ov) = clock ov"
  "quota_bytes (apply_change st c ov) = quota_bytes ov"
  "max_rename_entries (apply_change st c ov) = max_rename_entries ov"
  "snap (apply_change st c ov) = snap ov" "wall (apply_change st c ov) = wall ov"
  "reads (apply_change st c ov) = reads ov" "sequence (apply_change st c ov) = sequence ov"
  "journal (apply_change st c ov) = journal ov" "writers (apply_change st c ov) = writers ov"
  "unsynced (apply_change st c ov) = unsynced ov" "vanished (apply_change st c ov) = vanished ov"
  by (cases c; simp add: Let_def split: option.splits)+

declare apply_change.simps [simp del]

lemma store_remove_frame [commit_simps]:
  "entries (store_remove i ov) = entries ov" "children (store_remove i ov) = children ov"
  "next_ino (store_remove i ov) = next_ino ov" "by_content (store_remove i ov) = by_content ov"
  "next_content_id (store_remove i ov) = next_content_id ov" "clock (store_remove i ov) = clock ov"
  "quota_bytes (store_remove i ov) = quota_bytes ov" "local_bytes (store_remove i ov) = local_bytes ov"
  "max_rename_entries (store_remove i ov) = max_rename_entries ov"
  "snap (store_remove i ov) = snap ov" "wall (store_remove i ov) = wall ov"
  "reads (store_remove i ov) = reads ov" "sequence (store_remove i ov) = sequence ov"
  "journal (store_remove i ov) = journal ov" "stamps (store_remove i ov) = stamps ov"
  "dirty (store_remove i ov) = dirty ov" "writers (store_remove i ov) = writers ov"
  "files (store_remove i ov) = bt_remove i (files ov)" "vanished (store_remove i ov) = vanished ov"
  by (simp_all add: store_remove_def)

text \<open>A field that every step keeps is kept by the two folds of \<open>commit_with\<close>.\<close>

lemma fold_keeps: "(\<And>x s. f (g x s) = f s) \<Longrightarrow> f (fold g xs s) = f s"
  by (induction xs arbitrary: s) auto

lemmas commit_folds [commit_simps] =
  fold_keeps [of entries store_remove] fold_keeps [of children store_remove]
  fold_keeps [of by_content store_remove] fold_keeps [of local_bytes store_remove]
  fold_keeps [of next_ino store_remove] fold_keeps [of next_content_id store_remove]
  fold_keeps [of clock store_remove] fold_keeps [of quota_bytes store_remove]
  fold_keeps [of max_rename_entries store_remove] fold_keeps [of snap store_remove]
  fold_keeps [of wall store_remove] fold_keeps [of reads store_remove]
  fold_keeps [of sequence store_remove] fold_keeps [of journal store_remove]
  fold_keeps [of stamps store_remove] fold_keeps [of dirty store_remove]
  fold_keeps [of writers store_remove] fold_keeps [of vanished store_remove]
  fold_keeps [of files "apply_change st" for st] fold_keeps [of next_ino "apply_change st" for st]
  fold_keeps [of next_content_id "apply_change st" for st] fold_keeps [of clock "apply_change st" for st]
  fold_keeps [of quota_bytes "apply_change st" for st]
  fold_keeps [of max_rename_entries "apply_change st" for st]
  fold_keeps [of snap "apply_change st" for st] fold_keeps [of wall "apply_change st" for st]
  fold_keeps [of reads "apply_change st" for st] fold_keeps [of sequence "apply_change st" for st]
  fold_keeps [of journal "apply_change st" for st] fold_keeps [of writers "apply_change st" for st]
  fold_keeps [of vanished "apply_change st" for st]

lemma fold_apply_change_entries:
  "bt_get (entries (fold (apply_change st) cs ov)) = fold upd cs (bt_get (entries ov))"
  by (induction cs arbitrary: ov) (simp_all add: apply_change_entries)

lemma fold_store_remove_files:
  "bt_get (files (fold store_remove ids ov)) i = (if i \<in> set ids then None else bt_get (files ov) i)"
  by (induction ids arbitrary: ov) (auto simp: store_remove_frame)

text \<open>The state \<open>commit_with\<close> hands to the loop over the changes.\<close>

definition commit_start ::
  "change list \<Rightarrow> (timestamp \<times> timestamp) option \<Rightarrow> bool \<Rightarrow> overlay \<Rightarrow> overlay" where
  "commit_start cs rt stamp ov = commit_with [] [] None False
     (ov\<lparr>sequence := (if stamp then sequence ov + 1 else sequence ov)\<rparr>)"

lemma commit_entries [simp]:
  "bt_get (entries (commit_with cs rel rt st ov)) = fold upd cs (bt_get (entries ov))"
  by (simp add: commit_with_def Let_def commit_simps fold_apply_change_entries)

lemma commit_files [simp]:
  "bt_get (files (commit_with cs rel rt st ov)) i = (if i \<in> set rel then None else bt_get (files ov) i)"
  by (simp add: commit_with_def Let_def commit_simps fold_store_remove_files)

lemma commit_frame [simp]:
  "next_ino (commit_with cs rel rt st ov) = next_ino ov"
  "next_content_id (commit_with cs rel rt st ov) = next_content_id ov"
  "clock (commit_with cs rel rt st ov) = clock ov"
  "quota_bytes (commit_with cs rel rt st ov) = quota_bytes ov"
  "max_rename_entries (commit_with cs rel rt st ov) = max_rename_entries ov"
  "snap (commit_with cs rel rt st ov) = snap ov" "wall (commit_with cs rel rt st ov) = wall ov"
  "reads (commit_with cs rel rt st ov) = reads ov" "writers (commit_with cs rel rt st ov) = writers ov"
  "sequence (commit_with cs rel rt st ov) = (if st then sequence ov + 1 else sequence ov)"
  by (simp_all add: commit_with_def Let_def commit_simps)

lemma commit_bt_ok: "bt_ok (entries ov) \<Longrightarrow> bt_ok (entries (commit_with cs rel rt st ov))"
proof -
  assume ok: "bt_ok (entries ov)"
  have "bt_ok (entries ov') \<Longrightarrow> bt_ok (entries (fold (apply_change st) cs ov'))" for ov'
    by (rule fold_invariant) (simp_all add: apply_change_bt_ok)
  with ok show ?thesis by (simp add: commit_with_def Let_def commit_simps)
qed

section \<open>Keys and the children index\<close>

definition keyed :: "(path \<rightharpoonup> overlay_entry) \<Rightarrow> bool" where
  "keyed R \<longleftrightarrow> (\<forall>x e. R x = Some e \<longrightarrow> e_path e = x \<and> good_path x)"

definition kids :: "overlay \<Rightarrow> path \<Rightarrow> bytes set" where
  "kids ov d = (case bt_get (children ov) d of None \<Rightarrow> {} | Some s \<Rightarrow> s)"

definition kids_ok :: "overlay \<Rightarrow> bool" where
  "kids_ok ov \<longleftrightarrow> (\<forall>d. kids ov d = leaf ` {x \<in> dom (bt_get (entries ov)). parent_of x = d})"

definition rows_ok :: "overlay \<Rightarrow> bool" where
  "rows_ok ov \<longleftrightarrow> bt_ok (entries ov) \<and> keyed (bt_get (entries ov)) \<and> kids_ok ov"

lemma keyedD: "keyed R \<Longrightarrow> R x = Some e \<Longrightarrow> e_path e = x \<and> good_path x"
  by (simp add: keyed_def)

lemma keyed_upd: "keyed R \<Longrightarrow> good_path (change_key c) \<Longrightarrow> keyed (upd c R)"
  by (cases c) (auto simp: keyed_def)

lemma keyed_fold_upd: "keyed R \<Longrightarrow> \<forall>c \<in> set cs. good_path (change_key c) \<Longrightarrow> keyed (fold upd cs R)"
  by (induction cs arbitrary: R) (auto simp: keyed_upd)

lemma kids_Put: "kids (apply_change st (Put e) ov) d =
    (if d = parent_of (e_path e) then insert (leaf (e_path e)) (kids ov d) else kids ov d)"
  by (simp add: kids_def apply_change.simps Let_def child_add_def entry_parent_def entry_name_leaf)

lemma kids_Delete: "kids (apply_change st (Delete p) ov) d =
    (case bt_get (entries ov) p of None \<Rightarrow> kids ov d
     | Some q \<Rightarrow> if d = parent_of (e_path q) then kids ov d - {leaf (e_path q)} else kids ov d)"
  by (auto simp: kids_def apply_change.simps Let_def child_drop_def entry_parent_def entry_name_leaf split: option.splits)

lemma kids_ok_Put:
  assumes "kids_ok ov"
  shows "kids_ok (apply_change st (Put e) ov)"
proof -
  have "{x \<in> dom ((bt_get (entries ov))(e_path e \<mapsto> e)). parent_of x = d} =
      (if d = parent_of (e_path e) then insert (e_path e) {x \<in> dom (bt_get (entries ov)). parent_of x = d}
       else {x \<in> dom (bt_get (entries ov)). parent_of x = d})" for d
    by auto
  then show ?thesis
    using assms by (simp add: kids_ok_def kids_Put apply_change_entries)
qed

lemma kids_ok_Delete:
  assumes "keyed (bt_get (entries ov))" and "kids_ok ov" and "good_path p"
  shows "kids_ok (apply_change st (Delete p) ov)"
proof (cases "bt_get (entries ov) p")
  case None
  then have "(bt_get (entries ov))(p := None) = bt_get (entries ov)" by auto
  with None assms(2) show ?thesis
    by (simp add: kids_ok_def kids_Delete apply_change_entries)
next
  case (Some q)
  let ?K = "\<lambda>d. {x \<in> dom (bt_get (entries ov)). parent_of x = d}"
  have q: "e_path q = p" using Some assms(1) by (blast dest: keyedD)
  have K: "{x \<in> dom ((bt_get (entries ov))(p := None)). parent_of x = d} = ?K d - {p}" for d
    by auto
  have "inj_on leaf (insert p (?K (parent_of p)))"
  proof (rule inj_onI)
    fix x y assume x: "x \<in> insert p (?K (parent_of p))" and y: "y \<in> insert p (?K (parent_of p))"
      and "leaf x = leaf y"
    have "good_path z" if "z \<in> insert p (?K (parent_of p))" for z
      using that assms(1,3) unfolding keyed_def by blast
    then have "good_path x" "good_path y" using x y by blast+
    moreover have "parent_of x = parent_of y" using x y by auto
    ultimately show "x = y" using \<open>leaf x = leaf y\<close> by (rule parent_leaf_inj)
  qed
  then have "leaf ` (?K (parent_of p) - {p}) = leaf ` ?K (parent_of p) - {leaf p}"
    using inj_on_image_set_diff [of leaf _ "?K (parent_of p)" "{p}"] by blast
  moreover have "d \<noteq> parent_of p \<Longrightarrow> ?K d - {p} = ?K d" for d by auto
  ultimately show ?thesis
    using assms(2) Some q unfolding kids_ok_def apply_change_entries upd_Delete K
    by (simp add: kids_Delete)
qed

lemma kids_ok_apply:
  "keyed (bt_get (entries ov)) \<Longrightarrow> kids_ok ov \<Longrightarrow> good_path (change_key c) \<Longrightarrow>
   kids_ok (apply_change st c ov)"
  by (cases c) (simp_all only: kids_ok_Put kids_ok_Delete change_key.simps)

lemma rows_ok_fold:
  "rows_ok ov \<Longrightarrow> \<forall>c \<in> set cs. good_path (change_key c) \<Longrightarrow> rows_ok (fold (apply_change st) cs ov)"
  by (rule fold_invariant)
    (simp_all add: rows_ok_def apply_change_bt_ok apply_change_entries keyed_upd kids_ok_apply
     )

lemma rows_ok_cong:
  "entries ov = entries ov' \<Longrightarrow> children ov = children ov' \<Longrightarrow> rows_ok ov \<longleftrightarrow> rows_ok ov'"
  by (simp add: rows_ok_def kids_ok_def kids_def)

text \<open>A commit is the two folds, run on a state whose rows, indexes and files are still the old ones.\<close>

lemma commit_shape:
  obtains ov' where "commit_with cs rel rt st ov = fold store_remove rel (fold (apply_change st) cs ov')"
    and "entries ov' = entries ov" "children ov' = children ov" "by_content ov' = by_content ov"
    and "local_bytes ov' = local_bytes ov" "dirty ov' = dirty ov" "files ov' = files ov"
    and "sequence ov' = (if st then sequence ov + 1 else sequence ov)"
  by (simp add: commit_with_def Let_def)

lemma rows_ok_commit:
  assumes "rows_ok ov" and "\<forall>c \<in> set cs. good_path (change_key c)"
  shows "rows_ok (commit_with cs rel rt st ov)"
proof -
  obtain ov' where "commit_with cs rel rt st ov = fold store_remove rel (fold (apply_change st) cs ov')"
      and "entries ov' = entries ov" "children ov' = children ov"
    by (rule commit_shape)
  moreover have "rows_ok (fold store_remove rel z) = rows_ok z" for z
    by (rule rows_ok_cong) (simp_all add: commit_simps)
  ultimately show ?thesis using assms rows_ok_fold rows_ok_cong by metis
qed

section \<open>The rows below a directory\<close>

lemma char_range: "CHR ''/'' \<le> c \<and> c < CHR ''0'' \<longleftrightarrow> c = CHR ''/''"
proof
  assume "CHR ''/'' \<le> c \<and> c < CHR ''0''"
  then have "(of_char c :: nat) = of_char (CHR ''/'')"
    by (auto simp: less_eq_char_def less_char_def)
  then show "c = CHR ''/''" by (simp only: of_char_eq_iff)
qed (simp add: less_char_def)

text \<open>The range \<open>dir/ .. dir0\<close> holds exactly the paths below \<open>dir\<close>.\<close>

lemma range_below: "d @ ''/'' \<le> x \<and> x < d @ ''0'' \<longleftrightarrow> below x d"
proof (induction d arbitrary: x)
  case Nil
  show ?case
  proof (cases x)
    case (Cons c cs)
    have "''/'' \<le> x \<and> x < ''0'' \<longleftrightarrow> CHR ''/'' \<le> c \<and> c < CHR ''0''"
      using Cons by auto
    with char_range [of c] Cons show ?thesis by (auto simp: below_def)
  qed (simp add: below_def)
next
  case (Cons b d)
  show ?case
  proof (cases x)
    case (Cons c cs)
    with Cons.IH [of cs] show ?thesis by (auto simp: below_def)
  qed (simp add: below_def)
qed

lemma set_rows_under:
  assumes "bt_ok rs" and "d \<noteq> []"
  shows "set (rows_under rs d) = {e. \<exists>x. bt_get rs x = Some e \<and> below x d}"
proof -
  have "set (rows_under rs d) = snd ` {e \<in> set rs. below (fst e) d}"
    using assms(2) by (simp add: rows_under_def bt_range_def range_below)
  also have "\<dots> = {e. \<exists>x. bt_get rs x = Some e \<and> below x d}"
    using assms(1) by (force simp: bt_get_iff_mem)
  finally show ?thesis .
qed

end
