(* ===== verification/Gfs_Model.thy ===== *)
theory Gfs_Model
  imports Gfs_Commit
begin

unbundle bit_operations_syntax

text \<open>
  The reference file system of \<open>crates/gfs-overlay/src/model.rs\<close>: the immutable base tree and the
  map from path to node that every mutation is specified by, together with the blob hashing of
  \<open>hash.rs\<close>. The two digest functions come from crates outside the repository and are the
  parameter \<open>digests\<close>; what the code relies on is stated where it is used.
\<close>

section \<open>Content hashing\<close>

record digests =
  sha1_digest :: "bytes \<Rightarrow> bytes"
  sha256_digest :: "bytes \<Rightarrow> bytes"

definition git_frame :: "bytes \<Rightarrow> bytes" where
  "git_frame content = ''blob '' @ dec_string (length content) @ CHR 0x00 # content"

definition blob_oid :: "digests \<Rightarrow> hash_algorithm \<Rightarrow> bytes \<Rightarrow> condition + object_id" where
  "blob_oid D a content =
     (let finish = (\<lambda>digest. case from_raw a digest of Inl _ \<Rightarrow> Inl Io | Inr oid \<Rightarrow> Inr oid)
      in case a of
           Sha1 \<Rightarrow> finish (sha1_digest D (git_frame content))
         | LfsSha256 \<Rightarrow> finish (sha256_digest D content)
         | Sha256 \<Rightarrow> Inl Io)"

text \<open>
  \<open>blob_oid(Sha1, ..).expect("sha1")\<close>, which the base tree uses: SHA-1 digests have 20 bytes, so
  the hash does not fail.
\<close>

definition git_oid :: "digests \<Rightarrow> bytes \<Rightarrow> object_id" where
  "git_oid D content = ObjectId Sha1 (sha1_digest D (git_frame content))"

section \<open>The base tree\<close>

datatype base_node = BaseNode (bn_kind: entry_kind) (bn_content: bytes)

type_synonym base_tree = "(path, base_node) btree"

definition or_insert_dir :: "path \<Rightarrow> base_tree \<Rightarrow> base_tree" where
  "or_insert_dir p t =
     (if p = [] then t
      else case bt_get t p of Some _ \<Rightarrow> t | None \<Rightarrow> bt_insert p (BaseNode Directory []) t)"

definition base_tree_new :: "(path \<times> entry_kind \<times> bytes) list \<Rightarrow> base_tree" where
  "base_tree_new es =
     fold (\<lambda>(p, k, c) t. bt_insert p (BaseNode k c) (fold or_insert_dir (ancestors_of p) t)) es []"

definition base_get :: "base_tree \<Rightarrow> path \<Rightarrow> base_node option" where
  "base_get t p = (if p = [] then None else bt_get t p)"

definition facts :: "digests \<Rightarrow> base_tree \<Rightarrow> path \<Rightarrow> base_facts option" where
  "facts D t p =
     (case base_get t p of None \<Rightarrow> None
      | Some n \<Rightarrow> Some (BaseFacts (git_oid D (bn_content n)) (bn_kind n) (length (bn_content n))))"

definition content_of_oid :: "digests \<Rightarrow> base_tree \<Rightarrow> object_id \<Rightarrow> bytes option" where
  "content_of_oid D t oid =
     map_option bn_content (List.find (\<lambda>n. git_oid D (bn_content n) = oid) (map snd t))"

definition child_name :: "path \<Rightarrow> path \<Rightarrow> bytes option" where
  "child_name dir p =
     (let rest = (if dir = [] then Some p
                  else if \<not> starts_with p dir \<or> length p \<le> length dir \<or> p ! length dir \<noteq> CHR ''/''
                  then None
                  else Some (drop (length dir + 1) p))
      in case rest of None \<Rightarrow> None
         | Some r \<Rightarrow> if r = [] \<or> CHR ''/'' \<in> set r then None else Some r)"

definition child_names :: "base_tree \<Rightarrow> path \<Rightarrow> bytes list" where
  "child_names t dir = List.map_filter (child_name dir) (map fst t)"

definition descendants :: "digests \<Rightarrow> base_tree \<Rightarrow> path \<Rightarrow> base_descendant list" where
  "descendants D t dir =
     map (\<lambda>(p, n). BaseDescendant (drop (length dir + 1) p)
            (BaseFacts (git_oid D (bn_content n)) (bn_kind n) (length (bn_content n)))
            (if bn_kind n = Symlink then Some (bn_content n) else None))
       (filter (\<lambda>(p, n). starts_with p (dir @ ''/'')) t)"

section \<open>The model\<close>

datatype node = Node (n_kind: overlay_kind) (n_content: bytes)

type_synonym live = "(path, node) btree"

definition model_new :: "base_tree \<Rightarrow> live" where
  "model_new t =
     fold (\<lambda>(p, n) m. case from_entry_kind (bn_kind n) of None \<Rightarrow> m
                       | Some k \<Rightarrow> bt_insert p (Node k (bn_content n)) m) t []"

definition m_check_parent :: "live \<Rightarrow> path \<Rightarrow> condition + unit" where
  "m_check_parent m p =
     (let parent = parent_of p
      in if parent = [] then Inr ()
         else case bt_get m parent of
           None \<Rightarrow> Inl NoEntry
         | Some n \<Rightarrow> if \<not> is_dir (n_kind n) then Inl NotDirectory else Inr ())"

definition m_is_empty_dir :: "live \<Rightarrow> path \<Rightarrow> bool" where
  "m_is_empty_dir m p = (\<not> list_ex (\<lambda>q. child_name p q \<noteq> None) (map fst m))"

text \<open>The shape \<open>create_file\<close>, \<open>mkdir\<close> and \<open>symlink\<close> share: check the parent, refuse a name that exists.\<close>

definition m_insert_new :: "path \<Rightarrow> node \<Rightarrow> live \<Rightarrow> condition + live" where
  "m_insert_new p n m =
     (case m_check_parent m p of Inl c \<Rightarrow> Inl c
      | Inr _ \<Rightarrow> (case bt_get m p of Some _ \<Rightarrow> Inl Exists | None \<Rightarrow> Inr (bt_insert p n m)))"

definition m_create_file :: "path \<Rightarrow> live \<Rightarrow> condition + live" where
  "m_create_file p m = m_insert_new p (Node ORegular []) m"

definition m_mkdir :: "path \<Rightarrow> live \<Rightarrow> condition + live" where
  "m_mkdir p m = m_insert_new p (Node ODirectory []) m"

definition m_symlink :: "path \<Rightarrow> bytes \<Rightarrow> live \<Rightarrow> condition + live" where
  "m_symlink p target m = m_insert_new p (Node OSymlink target) m"

text \<open>\<open>Vec::resize(n, 0)\<close>, and a write at an offset: grow with zeros, then overwrite.\<close>

definition resize :: "nat \<Rightarrow> bytes \<Rightarrow> bytes" where
  "resize n bs = take n bs @ replicate (n - length bs) (CHR 0x00)"

definition write_bytes :: "nat \<Rightarrow> bytes \<Rightarrow> bytes \<Rightarrow> bytes" where
  "write_bytes offset data content =
     (let end = offset + length data;
          grown = (if length content < end then resize end content else content)
      in take offset grown @ data @ drop end grown)"

definition m_write :: "path \<Rightarrow> nat \<Rightarrow> bytes \<Rightarrow> live \<Rightarrow> condition + live" where
  "m_write p offset data m =
     (case bt_get m p of None \<Rightarrow> Inl NoEntry
      | Some n \<Rightarrow>
          if is_dir (n_kind n) then Inl IsDirectory
          else if n_kind n = OSymlink then Inl Invalid
          else Inr (bt_insert p (Node (n_kind n) (write_bytes offset data (n_content n))) m))"

definition m_truncate :: "path \<Rightarrow> nat \<Rightarrow> live \<Rightarrow> condition + live" where
  "m_truncate p sz m =
     (case bt_get m p of None \<Rightarrow> Inl NoEntry
      | Some n \<Rightarrow>
          if is_dir (n_kind n) then Inl IsDirectory
          else if n_kind n = OSymlink then Inl Invalid
          else Inr (bt_insert p (Node (n_kind n) (resize sz (n_content n))) m))"

definition m_set_executable :: "path \<Rightarrow> bool \<Rightarrow> live \<Rightarrow> condition + live" where
  "m_set_executable p executable m =
     (case bt_get m p of None \<Rightarrow> Inl NoEntry
      | Some n \<Rightarrow>
          if is_file (n_kind n)
          then Inr (bt_insert p (Node (if executable then OExecutable else ORegular) (n_content n)) m)
          else Inr m)"

definition m_unlink :: "path \<Rightarrow> live \<Rightarrow> condition + live" where
  "m_unlink p m =
     (case bt_get m p of None \<Rightarrow> Inl NoEntry
      | Some n \<Rightarrow> if is_dir (n_kind n) then Inl IsDirectory else Inr (bt_remove p m))"

definition m_rmdir :: "path \<Rightarrow> live \<Rightarrow> condition + live" where
  "m_rmdir p m =
     (case bt_get m p of None \<Rightarrow> Inl NoEntry
      | Some n \<Rightarrow>
          if \<not> is_dir (n_kind n) then Inl NotDirectory
          else if \<not> m_is_empty_dir m p then Inl NotEmpty
          else Inr (bt_remove p m))"

definition m_move_subtree :: "path \<Rightarrow> path \<Rightarrow> live \<Rightarrow> live" where
  "m_move_subtree from to m =
     (let doomed = filter (\<lambda>p. is_within p to) (map fst m);
          m1 = fold bt_remove doomed m;
          movers = filter (\<lambda>(p, n). is_within p from) m1
      in fold (\<lambda>(p, n) acc. bt_insert (to @ drop (length from) p) n (bt_remove p acc)) movers m1)"

definition m_rename :: "path \<Rightarrow> path \<Rightarrow> live \<Rightarrow> condition + live" where
  "m_rename from to m =
     (if from = to then Inr m
      else if is_within to from then Inl Invalid
      else case bt_get m from of None \<Rightarrow> Inl NoEntry
      | Some source \<Rightarrow>
          (case m_check_parent m to of Inl c \<Rightarrow> Inl c
           | Inr _ \<Rightarrow>
             (case bt_get m to of
                None \<Rightarrow> Inr (m_move_subtree from to m)
              | Some target \<Rightarrow>
                  if is_dir (n_kind source) \<and> \<not> is_dir (n_kind target) then Inl NotDirectory
                  else if \<not> is_dir (n_kind source) \<and> is_dir (n_kind target) then Inl IsDirectory
                  else if is_dir (n_kind source) \<and> is_dir (n_kind target) \<and> \<not> m_is_empty_dir m to
                  then Inl NotEmpty
                  else Inr (m_move_subtree from to m))))"

datatype op =
    CreateFile path
  | Mkdir path
  | MkSymlink path bytes
  | Write path nat bytes
  | Truncate path nat
  | SetExecutable path bool
  | Unlink path
  | Rmdir path
  | Rename path path

fun apply_to_model :: "op \<Rightarrow> live \<Rightarrow> condition + live" where
  "apply_to_model (CreateFile p) m = m_create_file p m"
| "apply_to_model (Mkdir p) m = m_mkdir p m"
| "apply_to_model (MkSymlink p target) m = m_symlink p target m"
| "apply_to_model (Write p offset data) m = m_write p offset data m"
| "apply_to_model (Truncate p sz) m = m_truncate p sz m"
| "apply_to_model (SetExecutable p x) m = m_set_executable p x m"
| "apply_to_model (Unlink p) m = m_unlink p m"
| "apply_to_model (Rmdir p) m = m_rmdir p m"
| "apply_to_model (Rename from to) m = m_rename from to m"

section \<open>Driving the overlay\<close>

text \<open>
  \<open>Op::apply_to_overlay\<close>: the same operation on the overlay, with the base facts the file system
  layer would have resolved. \<open>ino_for\<close> is the FNV hash that stands in for the client's inode table.
\<close>

definition ino_for :: "path \<Rightarrow> nat" where
  "ino_for p =
     fold (\<lambda>b h. ((h XOR of_char b) * 1099511628211) mod 2 ^ 64) p 1469598103934665603
       mod (OVERLAY_INO_BASE - 2) + 2"

definition parent_for :: "digests \<Rightarrow> base_tree \<Rightarrow> path \<Rightarrow> parent" where
  "parent_for D t p = Parent (ino_for (parent_of p)) (facts D t (parent_of p))"

definition h_materialize ::
  "digests \<Rightarrow> base_tree \<Rightarrow> path \<Rightarrow> nat \<Rightarrow> overlay \<Rightarrow> unit result \<times> overlay" where
  "h_materialize D t p ino ov =
     (let copy = (\<lambda>bs. case materialize p (facts D t p) ino (Reader bs) ov of
                         (Inl c, ov1) \<Rightarrow> (Inl c, ov1) | (Inr _, ov1) \<Rightarrow> (Inr (), ov1))
      in case resolve (entries ov) p of
           Absent \<Rightarrow> (Inl NoEntry, ov)
         | Overlay e \<Rightarrow>
             if local_id (e_content e) \<noteq> None then (Inr (), ov)
             else if is_dir (e_kind e) then (Inl IsDirectory, ov)
             else copy (case e_content e of
                          CBase oid \<Rightarrow> (case content_of_oid D t oid of None \<Rightarrow> [] | Some bs \<Rightarrow> bs)
                        | _ \<Rightarrow> [])
         | Base \<Rightarrow>
             (case base_get t p of None \<Rightarrow> (Inl NoEntry, ov)
              | Some n \<Rightarrow>
                  if bn_kind n = Directory then (Inl IsDirectory, ov) else copy (bn_content n)))"

definition outcome :: "'a result \<times> overlay \<Rightarrow> unit result \<times> overlay" where
  "outcome r = (case fst r of Inl c \<Rightarrow> Inl c | Inr _ \<Rightarrow> Inr (), snd r)"

definition and_then ::
  "unit result \<times> overlay \<Rightarrow> (overlay \<Rightarrow> 'a result \<times> overlay) \<Rightarrow> unit result \<times> overlay" where
  "and_then r f = (case fst r of Inl c \<Rightarrow> r | Inr _ \<Rightarrow> outcome (f (snd r)))"

fun apply_to_overlay :: "digests \<Rightarrow> base_tree \<Rightarrow> op \<Rightarrow> overlay \<Rightarrow> unit result \<times> overlay" where
  "apply_to_overlay D t (CreateFile p) ov =
     outcome (create_file p (facts D t p) (parent_for D t p) (ino_for p) False ov)"
| "apply_to_overlay D t (Mkdir p) ov =
     outcome (mkdir p (facts D t p) (parent_for D t p) (ino_for p) ov)"
| "apply_to_overlay D t (MkSymlink p target) ov =
     outcome (symlink p target (facts D t p) (parent_for D t p) (ino_for p) ov)"
| "apply_to_overlay D t (Write p offset data) ov =
     and_then (h_materialize D t p (ino_for p) ov) (write_at p offset data)"
| "apply_to_overlay D t (Truncate p sz) ov =
     and_then (h_materialize D t p (ino_for p) ov) (Gfs_Overlay.truncate p sz)"
| "apply_to_overlay D t (SetExecutable p x) ov =
     outcome (set_executable p (facts D t p) (ino_for p) x ov)"
| "apply_to_overlay D t (Unlink p) ov =
     remove p (facts D t p) (parent_for D t p) False True ov"
| "apply_to_overlay D t (Rmdir p) ov =
     remove p (facts D t p) (parent_for D t p) True
       (merged_dir_is_empty ov p (child_names t p)) ov"
| "apply_to_overlay D t (Rename from to) ov =
     rename from (ino_for from) (facts D t from) (parent_for D t from)
       to (facts D t to) (parent_for D t to) (descendants D t from)
       (merged_dir_is_empty ov to (child_names t to)) False ov"

section \<open>Reading the overlay back\<close>

definition node_of :: "digests \<Rightarrow> base_tree \<Rightarrow> overlay \<Rightarrow> overlay_entry \<Rightarrow> node" where
  "node_of D t ov e =
     Node (e_kind e)
       (case e_content e of
          CNone \<Rightarrow> (case e_symlink_target e of None \<Rightarrow> [] | Some s \<Rightarrow> s)
        | CLocal i \<Rightarrow> (case bt_get (files ov) i of None \<Rightarrow> [] | Some bs \<Rightarrow> bs)
        | CBase oid \<Rightarrow> (case content_of_oid D t oid of None \<Rightarrow> [] | Some bs \<Rightarrow> bs))"

definition base_node_of :: "base_tree \<Rightarrow> path \<Rightarrow> node option" where
  "base_node_of t p =
     (case base_get t p of None \<Rightarrow> None
      | Some n \<Rightarrow> map_option (\<lambda>k. Node k (bn_content n)) (from_entry_kind (bn_kind n)))"

text \<open>What one lookup sees: the arms of the walk that builds \<open>merged_view\<close>, for a single path.\<close>

definition lookup :: "digests \<Rightarrow> base_tree \<Rightarrow> overlay \<Rightarrow> path \<Rightarrow> node option" where
  "lookup D t ov p =
     (if p = [] then None
      else case resolve (entries ov) p of
        Absent \<Rightarrow> None
      | Overlay e \<Rightarrow> Some (node_of D t ov e)
      | Base \<Rightarrow> base_node_of t p)"

text \<open>
  The recursion of \<open>merged_view\<close> itself. One level of \<open>walk\<close>: the base children that survive,
  then the rows that have no base name. \<open>base.get(..).expect(..)\<close> cannot fail on a listed child.
\<close>

definition walk_children :: "digests \<Rightarrow> base_tree \<Rightarrow> overlay \<Rightarrow> path \<Rightarrow> (bytes \<times> node) list" where
  "walk_children D t ov dir =
     (let names = (if masks_base (entries ov) dir then [] else child_names t dir)
      in List.map_filter
           (\<lambda>name. case resolve (entries ov) (join_path dir name) of
              Absent \<Rightarrow> None
            | Overlay e \<Rightarrow> Some (name, node_of D t ov e)
            | Base \<Rightarrow> map_option (Pair name) (base_node_of t (join_path dir name))) names
         @ map (\<lambda>e. (entry_name e, node_of D t ov e)) (extra_children ov dir (set names)))"

text \<open>
  Fuel: every call goes one directory deeper and every path it visits is a key of the base tree or
  of the rows, so the total length of the keys bounds the depth.
\<close>

fun walk :: "nat \<Rightarrow> digests \<Rightarrow> base_tree \<Rightarrow> overlay \<Rightarrow> path \<Rightarrow> live \<Rightarrow> live" where
  "walk 0 D t ov dir out = out"
| "walk (Suc fuel) D t ov dir out =
     fold (\<lambda>(name, node) out.
             let p = join_path dir name; out1 = bt_insert p node out
             in if is_dir (n_kind node) then walk fuel D t ov p out1 else out1)
       (walk_children D t ov dir) out"

definition walk_fuel :: "base_tree \<Rightarrow> overlay \<Rightarrow> nat" where
  "walk_fuel t ov = Suc (sum_list (map (length \<circ> fst) t) + sum_list (map (length \<circ> fst) (entries ov)))"

definition merged_view :: "digests \<Rightarrow> base_tree \<Rightarrow> overlay \<Rightarrow> live" where
  "merged_view D t ov = walk (walk_fuel t ov) D t ov [] []"

end
