(* ===== verification/Gfs_View.thy ===== *)
theory Gfs_View
  imports Gfs_Model
begin

text \<open>
  The merged view of an overlay over a base tree, as a function of the row map and the content
  files, with the invariant the overlay's operations keep: rows are keyed by their path, a present
  row has directories above it, content ids are owned by one row and backed by a file of the row's
  size, and references to base content resolve. The lemmas say how the view changes when a row is
  put, touched or taken away; the operations of the overlay are compositions of these.
\<close>

section \<open>The base tree\<close>

text \<open>
  A base tree as a commit has it: sorted, proper paths, only kinds the overlay can hold, empty
  directories' content, directories above every entry; and the blob hash does not collide on the
  contents that occur.
\<close>

definition base_entry_ok :: "base_tree \<Rightarrow> path \<Rightarrow> base_node \<Rightarrow> bool" where
  "base_entry_ok t p n \<longleftrightarrow>
     good_path p \<and> from_entry_kind (bn_kind n) \<noteq> None \<and> (bn_kind n = Directory \<longrightarrow> bn_content n = [])
     \<and> (\<forall>a \<in> set (ancestors_of p). a \<noteq> [] \<longrightarrow>
          (case bt_get t a of None \<Rightarrow> False | Some m \<Rightarrow> bn_kind m = Directory))"

definition base_ok :: "digests \<Rightarrow> base_tree \<Rightarrow> bool" where
  "base_ok D t \<longleftrightarrow> bt_ok t \<and> (\<forall>(p, n) \<in> set t. base_entry_ok t p n)
     \<and> (\<forall>n \<in> set (map snd t). \<forall>m \<in> set (map snd t).
          git_oid D (bn_content n) = git_oid D (bn_content m) \<longrightarrow> bn_content n = bn_content m)"

lemma base_entryD: "base_ok D t \<Longrightarrow> bt_get t p = Some n \<Longrightarrow> base_entry_ok t p n"
  by (auto simp: base_ok_def dest: map_of_SomeD)

lemma base_get_good: "base_ok D t \<Longrightarrow> base_get t p = bt_get t p"
  using base_entryD [of D t "[]"] by (cases "bt_get t []") (auto simp: base_get_def base_entry_ok_def)

lemma base_closed:
  "base_ok D t \<Longrightarrow> bt_get t p = Some n \<Longrightarrow> below p a \<Longrightarrow> a \<noteq> [] \<Longrightarrow>
   \<exists>m. bt_get t a = Some m \<and> bn_kind m = Directory \<and> bn_content m = []"
proof -
  assume ok: "base_ok D t" and n: "bt_get t p = Some n" and a: "below p a" "a \<noteq> []"
  from a(1) have "a \<in> set (ancestors_of p)" by (auto simp: ancestors_iff)
  with base_entryD [OF ok n] a(2) obtain m where m: "bt_get t a = Some m" "bn_kind m = Directory"
    by (auto simp: base_entry_ok_def split: option.splits)
  with base_entryD [OF ok m(1)] show ?thesis by (auto simp: base_entry_ok_def)
qed

lemma content_of_oid_base:
  assumes "base_ok D t" and "bt_get t p = Some n"
  shows "content_of_oid D t (git_oid D (bn_content n)) = Some (bn_content n)"
proof -
  let ?P = "\<lambda>m. git_oid D (bn_content m) = git_oid D (bn_content n)"
  have n: "n \<in> set (map snd t)" using assms(2) by (force dest: map_of_SomeD)
  then obtain m where m: "List.find ?P (map snd t) = Some m"
    by (metis (mono_tags, lifting) find_None_iff not_None_eq)
  then have "m \<in> set (map snd t)" "?P m" by (auto simp: find_Some_iff)
  with assms(1) n have "bn_content m = bn_content n" unfolding base_ok_def by blast
  with m show ?thesis by (simp add: content_of_oid_def)
qed

lemma from_to_entry_kind [simp]: "from_entry_kind (to_entry_kind k) = Some k"
  by (cases k) simp_all

lemma from_entry_kind_Some: "from_entry_kind k = Some k' \<longleftrightarrow> k = to_entry_kind k'"
  by (cases k; cases k') simp_all

lemma to_entry_dir [simp]: "is_dir_like (to_entry_kind k) = is_dir k"
  by (cases k) (simp_all add: is_dir_like_def is_dir_def)

lemma base_node_of_eq:
  "base_ok D t \<Longrightarrow> base_node_of t p =
     (case bt_get t p of None \<Rightarrow> None
      | Some n \<Rightarrow> map_option (\<lambda>k. Node k (bn_content n)) (from_entry_kind (bn_kind n)))"
  by (simp add: base_node_of_def base_get_good)

lemma base_node_ofE:
  assumes "base_ok D t" and "base_node_of t p = Some n"
  obtains b where "bt_get t p = Some b" "from_entry_kind (bn_kind b) = Some (n_kind n)"
    "n_content n = bn_content b"
  using assms by (auto simp: base_node_of_eq split: option.splits)

section \<open>The view\<close>

type_synonym row_map = "path \<rightharpoonup> overlay_entry"
type_synonym file_map = "nat \<rightharpoonup> bytes"

definition content_at :: "digests \<Rightarrow> base_tree \<Rightarrow> file_map \<Rightarrow> overlay_entry \<Rightarrow> bytes" where
  "content_at D t F e =
     (case e_content e of
        CNone \<Rightarrow> (case e_symlink_target e of None \<Rightarrow> [] | Some s \<Rightarrow> s)
      | CLocal i \<Rightarrow> (case F i of None \<Rightarrow> [] | Some bs \<Rightarrow> bs)
      | CBase oid \<Rightarrow> (case content_of_oid D t oid of None \<Rightarrow> [] | Some bs \<Rightarrow> bs))"

lemma content_at_cong:
  "e_content e' = e_content e \<Longrightarrow> e_symlink_target e' = e_symlink_target e \<Longrightarrow>
   content_at D t F e' = content_at D t F e"
  by (simp only: content_at_def)

definition look :: "digests \<Rightarrow> base_tree \<Rightarrow> row_map \<Rightarrow> file_map \<Rightarrow> path \<Rightarrow> node option" where
  "look D t R F x =
     (if x = [] then None
      else case resolves R x of
        Absent \<Rightarrow> None
      | Overlay e \<Rightarrow> Some (Node (e_kind e) (content_at D t F e))
      | Base \<Rightarrow> base_node_of t x)"

lemma lookup_look: "lookup D t ov = look D t (bt_get (entries ov)) (bt_get (files ov))"
  by (rule ext) (simp add: lookup_def look_def resolve_eq node_of_def content_at_def
      split: resolution.splits content.splits option.splits)

definition dir_at :: "digests \<Rightarrow> base_tree \<Rightarrow> row_map \<Rightarrow> file_map \<Rightarrow> path \<Rightarrow> bool" where
  "dir_at D t R F x \<longleftrightarrow> (\<exists>n. look D t R F x = Some n \<and> is_dir (n_kind n))"

text \<open>What the content of a present row may be, by kind.\<close>

definition in_base :: "digests \<Rightarrow> base_tree \<Rightarrow> object_id \<Rightarrow> bool" where
  "in_base D t oid \<longleftrightarrow> (\<exists>p n. bt_get t p = Some n \<and> oid = git_oid D (bn_content n))"

definition shape_ok :: "digests \<Rightarrow> base_tree \<Rightarrow> overlay_entry \<Rightarrow> bool" where
  "shape_ok D t e \<longleftrightarrow>
     (case e_content e of
        CNone \<Rightarrow> (if is_dir (e_kind e) then e_symlink_target e = None else e_kind e = OSymlink)
      | CLocal i \<Rightarrow> is_file (e_kind e)
      | CBase oid \<Rightarrow> \<not> is_dir (e_kind e) \<and> in_base D t oid)"

definition row_ok :: "digests \<Rightarrow> base_tree \<Rightarrow> file_map \<Rightarrow> nat \<Rightarrow> path \<Rightarrow> overlay_entry \<Rightarrow> bool" where
  "row_ok D t F nid x e \<longleftrightarrow>
     e_path e = x \<and> good_path x \<and> (e_base e = None \<or> e_base e = facts D t x)
     \<and> (e_present e \<longrightarrow> shape_ok D t e)
     \<and> (\<forall>i. e_content e = CLocal i \<longrightarrow>
          e_present e \<and> i < nid \<and> (\<exists>bs. F i = Some bs \<and> length bs = e_size e))"

definition unique_ids :: "row_map \<Rightarrow> bool" where
  "unique_ids R \<longleftrightarrow> (\<forall>x y e e' i. R x = Some e \<longrightarrow> R y = Some e' \<longrightarrow>
     e_content e = CLocal i \<longrightarrow> e_content e' = CLocal i \<longrightarrow> x = y)"

definition closed :: "digests \<Rightarrow> base_tree \<Rightarrow> row_map \<Rightarrow> file_map \<Rightarrow> bool" where
  "closed D t R F \<longleftrightarrow> (\<forall>x e a. R x = Some e \<longrightarrow> e_present e \<longrightarrow> below x a \<longrightarrow> dir_at D t R F a)"

definition view_ok :: "digests \<Rightarrow> base_tree \<Rightarrow> row_map \<Rightarrow> file_map \<Rightarrow> nat \<Rightarrow> bool" where
  "view_ok D t R F nid \<longleftrightarrow>
     (\<forall>x e. R x = Some e \<longrightarrow> row_ok D t F nid x e) \<and> unique_ids R \<and> closed D t R F
     \<and> (\<forall>i. F i \<noteq> None \<longrightarrow> i < nid)"

lemma view_okD:
  assumes "view_ok D t R F nid"
  shows "R x = Some e \<Longrightarrow> row_ok D t F nid x e" "unique_ids R" "closed D t R F"
    "F i \<noteq> None \<Longrightarrow> i < nid"
  using assms by (auto simp: view_ok_def)

lemma local_id_iff: "local_id c = Some i \<longleftrightarrow> c = CLocal i"
  by (cases c) auto

section \<open>Reading the view\<close>

lemma not_blocked_row: "\<not> blocked R x \<Longrightarrow> a \<in> set (ancestors_of x) \<Longrightarrow> R a = Some e \<Longrightarrow>
    e_present e \<and> is_dir (e_kind e)"
  by (auto simp: blocked_def blocking_def)

lemma good_row: "view_ok D t R F nid \<Longrightarrow> R x = Some e \<Longrightarrow> good_path x"
  by (auto dest!: view_okD(1) simp: row_ok_def)

lemma look_good: "base_ok D t \<Longrightarrow> view_ok D t R F nid \<Longrightarrow> look D t R F x = Some n \<Longrightarrow> good_path x"
  by (auto simp: look_def resolves_def base_node_of_eq base_entry_ok_def
      dest: good_row base_entryD split: if_splits option.splits)

lemma dir_at_row:
  "dir_at D t R F a \<Longrightarrow> R a = Some e \<Longrightarrow> e_present e \<and> is_dir (e_kind e)"
  by (auto simp: dir_at_def look_def resolves_def split: if_splits)

lemma dir_at_not_blocked: "dir_at D t R F a \<Longrightarrow> \<not> blocked R a"
  by (auto simp: dir_at_def look_def resolves_def split: if_splits)

text \<open>A path whose ancestors are directories is not blocked, so a present row shows.\<close>

lemma ancestors_dirs_not_blocked:
  assumes "good_path x" and "\<And>a. below x a \<Longrightarrow> dir_at D t R F a" and "R [] = None"
  shows "\<not> blocked R x"
proof
  assume "blocked R x"
  then obtain a e where a: "a \<in> set (ancestors_of x)" "R a = Some e" "blocking e"
    unfolding blocked_def by blast
  from a(1,2) assms(3) have "below x a" by (auto simp: ancestors_iff)
  from assms(2) [OF this] a(2,3) show False by (auto simp: blocking_def dest: dir_at_row)
qed

lemma root_row: "view_ok D t R F nid \<Longrightarrow> R [] = None"
  using good_row [of D t R F nid "[]"] by (cases "R []") auto

lemma present_row_look:
  assumes "view_ok D t R F nid" and "R x = Some e" and "e_present e"
  shows "look D t R F x = Some (Node (e_kind e) (content_at D t F e))"
proof -
  have x: "good_path x" using assms by (blast dest: good_row)
  have "\<not> blocked R x"
    using x by (rule ancestors_dirs_not_blocked [where D = D and t = t and F = F])
      (use assms root_row [OF assms(1)] in \<open>auto dest: view_okD(3) simp: closed_def\<close>)
  with x assms(2,3) show ?thesis by (auto simp: look_def resolves_def)
qed

text \<open>The view is a tree: above everything that exists there is a directory.\<close>

lemma look_closed:
  assumes "base_ok D t" "view_ok D t R F nid" "look D t R F x = Some n" "below x a"
  shows "dir_at D t R F a"
proof -
  have x: "good_path x" using assms(1-3) by (rule look_good)
  from assms(3) have nb: "\<not> blocked R x" by (auto simp: look_def resolves_def split: if_splits)
  show ?thesis
  proof (cases "R x")
    case (Some e)
    with assms(2,3,4) show ?thesis
      by (auto simp: look_def resolves_def closed_def dest: view_okD(3) split: if_splits)
  next
    case None
    with assms(3) nb have nm: "\<not> masked R x" and b: "base_node_of t x = Some n"
      by (auto simp: look_def resolves_def split: if_splits)
    from b obtain m where "bt_get t x = Some m"
      using assms(1) by (auto simp: base_node_of_eq split: option.splits)
    moreover have a: "a \<noteq> []" using x assms(4) by (rule good_below_not_Nil)
    ultimately obtain m' where m': "bt_get t a = Some m'" "bn_kind m' = Directory"
      using base_closed [OF assms(1) _ assms(4)] by blast
    have anc: "set (ancestors_of a) \<subseteq> set (ancestors_of x)" and "a \<in> set (ancestors_of x)"
      using assms(4) below_ancestors by (auto simp: ancestors_iff)
    then have "\<not> blocked R a" "\<not> masked R a" "R a = Some e \<Longrightarrow> e_present e \<and> is_dir (e_kind e)" for e
      using nb nm not_blocked_row [OF nb] by (auto simp: blocked_def masked_def)
    then show ?thesis
      using a m' assms(1)
      by (cases "R a") (auto simp: dir_at_def look_def resolves_def base_node_of_eq is_dir_def)
  qed
qed

lemma look_below_none:
  "base_ok D t \<Longrightarrow> view_ok D t R F nid \<Longrightarrow> below x p \<Longrightarrow> \<not> dir_at D t R F p \<Longrightarrow> look D t R F x = None"
  by (meson look_closed not_None_eq)

lemma row_below_absent:
  "view_ok D t R F nid \<Longrightarrow> below x p \<Longrightarrow> \<not> dir_at D t R F p \<Longrightarrow> R x = Some e \<Longrightarrow> \<not> e_present e"
  by (auto dest: view_okD(3) simp: closed_def)

text \<open>The view at a path depends on the rows at and above it and on its own file.\<close>

lemma look_cong:
  assumes "R' x = R x" and "\<And>a. a \<in> set (ancestors_of x) \<Longrightarrow> R' a = R a"
    and "\<And>e i. R x = Some e \<Longrightarrow> e_content e = CLocal i \<Longrightarrow> F' i = F i"
  shows "look D t R' F' x = look D t R F x"
proof -
  have "resolves R' x = resolves R x"
  proof -
    have "blocked R' x = blocked R x" "masked R' x = masked R x"
      using assms(2) unfolding blocked_def masked_def by (simp_all cong: bex_cong)
    with assms(1) show ?thesis by (simp add: resolves_def)
  qed
  moreover have "resolves R x = Overlay e \<Longrightarrow> R x = Some e" for e
    by (auto simp: resolves_def split: if_splits option.splits)
  then have "resolves R x = Overlay e \<Longrightarrow> content_at D t F' e = content_at D t F e" for e
    using assms(3) by (auto simp: content_at_def split: content.splits)
  ultimately show ?thesis by (auto simp: look_def split: resolution.splits)
qed

lemma dir_look:
  assumes "base_ok D t" "view_ok D t R F nid" "dir_at D t R F d"
  shows "look D t R F d = Some (Node ODirectory [])"
proof (cases "R d")
  case None
  with assms(3) obtain n where "look D t R F d = base_node_of t d" "base_node_of t d = Some n"
      "is_dir (n_kind n)"
    by (auto simp: dir_at_def look_def resolves_def split: if_splits)
  then show ?thesis
    using assms(1) base_entryD [OF assms(1), of d]
    by (auto simp: base_node_of_eq is_dir_def base_entry_ok_def from_entry_kind_Some split: option.splits)
next
  case (Some e)
  with assms have e: "e_present e" "is_dir (e_kind e)" by (auto dest: dir_at_row)
  then have "content_at D t F e = []"
    using view_okD(1) [OF assms(2) Some]
    by (auto simp: row_ok_def shape_ok_def content_at_def is_dir_def is_file_def split: content.splits)
  with present_row_look [OF assms(2) Some] e show ?thesis by (simp add: is_dir_def)
qed

section \<open>Putting a row\<close>

text \<open>The files of all rows but the one at \<open>p\<close> are unchanged.\<close>

definition same_files :: "row_map \<Rightarrow> path \<Rightarrow> file_map \<Rightarrow> file_map \<Rightarrow> bool" where
  "same_files R p F F' \<longleftrightarrow>
     (\<forall>x e i. x \<noteq> p \<longrightarrow> R x = Some e \<longrightarrow> e_content e = CLocal i \<longrightarrow> F' i = F i)"

lemma same_files_refl [simp]: "same_files R p F F"
  by (simp add: same_files_def)

lemma look_unrelated:
  assumes "x \<noteq> p" "\<not> below x p" "p \<noteq> []" "same_files R p F F'"
  shows "look D t (R(p := r)) F' x = look D t R F x"
  by (rule look_cong) (use assms in \<open>auto simp: ancestors_iff same_files_def\<close>)

lemma look_put:
  assumes base: "base_ok D t" and ok: "view_ok D t R F nid" and p: "good_path p"
    and above: "\<And>a. below p a \<Longrightarrow> dir_at D t R F a" and new: "\<not> dir_at D t R F p"
    and e: "e_present e" "\<not> is_dir (e_kind e) \<or> e_opaque e" and files: "same_files R p F F'"
  shows "look D t (R(p \<mapsto> e)) F' = (look D t R F)(p \<mapsto> Node (e_kind e) (content_at D t F' e))"
proof (rule ext)
  fix x
  consider "x = p" | "below x p" | "x \<noteq> p" "\<not> below x p" by blast
  then show "look D t (R(p \<mapsto> e)) F' x = ((look D t R F)(p \<mapsto> Node (e_kind e) (content_at D t F' e))) x"
  proof cases
    case 1
    have "\<not> blocked R p" using p above root_row [OF ok] by (rule ancestors_dirs_not_blocked)
    then have "\<not> blocked (R(p \<mapsto> e)) p"
      by (auto simp: blocked_def ancestors_iff split: if_splits)
    with 1 p e(1) show ?thesis by (auto simp: look_def resolves_def)
  next
    case 2
    have anc: "p \<in> set (ancestors_of x)" using 2 by (auto simp: ancestors_iff)
    have "R x = Some e' \<Longrightarrow> \<not> e_present e'" for e'
      using ok 2 new by (rule row_below_absent)
    moreover have "is_dir (e_kind e) \<Longrightarrow> masked (R(p \<mapsto> e)) x"
      using anc e(2) by (auto simp: masked_def)
    moreover have "\<not> is_dir (e_kind e) \<Longrightarrow> blocked (R(p \<mapsto> e)) x"
      using anc by (auto simp: blocked_def blocking_def)
    ultimately have "look D t (R(p \<mapsto> e)) F' x = None"
      using 2 by (cases "R x") (auto simp: look_def resolves_def)
    with look_below_none [OF base ok 2 new] 2 show ?thesis by auto
  next
    case 3
    with look_unrelated [OF 3(1,2) _ files] p show ?thesis by (auto simp: good_path_def)
  qed
qed

text \<open>
  The invariant after one row changes, for every way the view may change at the row's path only.
\<close>

lemma row_ok_files:
  "row_ok D t F nid x e \<Longrightarrow> (\<And>i. e_content e = CLocal i \<Longrightarrow> F' i = F i) \<Longrightarrow> nid \<le> nid' \<Longrightarrow>
   row_ok D t F' nid' x e"
  by (auto simp: row_ok_def)

lemma view_ok_update:
  assumes ok: "view_ok D t R F nid" and nid: "nid \<le> nid'"
    and files: "same_files R p F F'" "\<And>i. F' i \<noteq> None \<Longrightarrow> i < nid'"
    and row: "\<And>e. r = Some e \<Longrightarrow> row_ok D t F' nid' p e"
    and fresh: "\<And>e e' i x. r = Some e \<Longrightarrow> e_content e = CLocal i \<Longrightarrow> x \<noteq> p \<Longrightarrow> R x = Some e' \<Longrightarrow>
                  e_content e' \<noteq> CLocal i"
    and above: "\<And>e a. r = Some e \<Longrightarrow> e_present e \<Longrightarrow> below p a \<Longrightarrow> dir_at D t R F a"
    and view: "\<And>x. x \<noteq> p \<Longrightarrow> look D t (R(p := r)) F' x = look D t R F x"
    and below: "\<And>x e. below x p \<Longrightarrow> R x = Some e \<Longrightarrow> e_present e \<Longrightarrow> dir_at D t (R(p := r)) F' p"
  shows "view_ok D t (R(p := r)) F' nid'"
proof -
  have rows: "row_ok D t F' nid' x e" if "(R(p := r)) x = Some e" for x e
  proof (cases "x = p")
    case False
    with that have "R x = Some e" by simp
    with view_okD(1) [OF ok] files(1) False nid show ?thesis
      by (intro row_ok_files [of D t F nid x e F' nid']) (auto simp: same_files_def)
  qed (use that row in simp)
  have ids: "unique_ids (R(p := r))"
    using view_okD(2) [OF ok] fresh unfolding unique_ids_def by (auto split: if_splits)
  have "dir_at D t (R(p := r)) F' a" if "(R(p := r)) x = Some e" "e_present e" "below x a" for x e a
  proof (cases "x = p")
    case True
    then have "dir_at D t R F a" "a \<noteq> p" using that above by auto
    with view [of a] show ?thesis by (simp add: dir_at_def)
  next
    case False
    then have x: "R x = Some e" using that by simp
    show ?thesis
    proof (cases "a = p")
      case True
      with below that x show ?thesis by blast
    next
      case False
      with view_okD(3) [OF ok] x that view [of a] show ?thesis by (auto simp: closed_def dir_at_def)
    qed
  qed
  with rows ids files(2) show ?thesis unfolding view_ok_def closed_def by blast
qed

lemma view_ok_put:
  assumes base: "base_ok D t" and ok: "view_ok D t R F nid" and nid: "nid \<le> nid'"
    and row: "row_ok D t F' nid' p e"
    and above: "\<And>a. below p a \<Longrightarrow> dir_at D t R F a" and new: "\<not> dir_at D t R F p"
    and e: "e_present e" "\<not> is_dir (e_kind e) \<or> e_opaque e"
    and files: "same_files R p F F'" "\<And>i. F' i \<noteq> None \<Longrightarrow> i < nid'"
    and fresh: "\<And>e' i x. e_content e = CLocal i \<Longrightarrow> x \<noteq> p \<Longrightarrow> R x = Some e' \<Longrightarrow>
                  e_content e' \<noteq> CLocal i"
  shows "view_ok D t (R(p \<mapsto> e)) F' nid'"
proof (rule view_ok_update [OF ok nid files])
  have p: "good_path p" using row by (simp add: row_ok_def)
  show "look D t (R(p \<mapsto> e)) F' x = look D t R F x" if "x \<noteq> p" for x
    using look_put [OF base ok p above new e files(1)] that by simp
  show "dir_at D t (R(p \<mapsto> e)) F' p" if "below x p" "R x = Some e'" "e_present e'" for x e'
    using row_below_absent [OF ok that(1) new that(2)] that(3) by simp
qed (use row above fresh in auto)

section \<open>Touching a directory\<close>

lemma look_touch:
  assumes base: "base_ok D t" and ok: "view_ok D t R F nid" and d: "dir_at D t R F d"
    and e: "e_present e" "e_kind e = ODirectory" "e_content e = CNone" "e_symlink_target e = None"
    and opaque: "e_opaque e \<longleftrightarrow> (\<exists>q. R d = Some q \<and> e_opaque q)"
  shows "look D t (R(d \<mapsto> e)) F = look D t R F"
proof (rule ext)
  fix x
  have nb: "R d = Some q \<Longrightarrow> \<not> blocking q" for q using dir_at_row [OF d] by (auto simp: blocking_def)
  have "(\<exists>q. (R(d \<mapsto> e)) a = Some q \<and> blocking q) \<longleftrightarrow> (\<exists>q. R a = Some q \<and> blocking q)" for a
    using nb e by (cases "a = d") (auto simp: blocking_def is_dir_def)
  then have "blocked (R(d \<mapsto> e)) x = blocked R x" unfolding blocked_def by blast
  moreover have "masked (R(d \<mapsto> e)) x = masked R x"
    using opaque unfolding masked_def by auto
  moreover have "d \<noteq> []" using d by (auto simp: dir_at_def look_def)
  moreover have "content_at D t F e = []" using e by (simp add: content_at_def)
  ultimately show "look D t (R(d \<mapsto> e)) F x = look D t R F x"
    using dir_look [OF base ok d] dir_at_not_blocked [OF d] e
    by (cases "x = d") (simp_all add: look_def resolves_def)
qed

lemma view_ok_touch:
  assumes base: "base_ok D t" and ok: "view_ok D t R F nid" and d: "dir_at D t R F d"
    and e: "e_present e" "e_kind e = ODirectory" "e_content e = CNone" "e_symlink_target e = None"
    and opaque: "e_opaque e \<longleftrightarrow> (\<exists>q. R d = Some q \<and> e_opaque q)"
    and row: "row_ok D t F nid d e"
  shows "view_ok D t (R(d \<mapsto> e)) F nid"
proof (rule view_ok_update [OF ok order_refl same_files_refl])
  have look: "look D t (R(d \<mapsto> e)) F = look D t R F"
    by (rule look_touch [OF base ok d e opaque])
  show "look D t (R(d \<mapsto> e)) F x = look D t R F x" for x by (simp add: look)
  show "dir_at D t (R(d \<mapsto> e)) F d" using d by (simp add: dir_at_def look)
  show "dir_at D t R F a" if "below d a" for a
    using d look_closed [OF base ok _ that] by (auto simp: dir_at_def)
qed (use ok e row in \<open>auto simp: view_ok_def\<close>)

section \<open>Taking a row away\<close>

text \<open>A removal leaves a whiteout, or no row at all where the base has nothing.\<close>

definition gone_row :: "base_tree \<Rightarrow> path \<Rightarrow> overlay_entry option \<Rightarrow> bool" where
  "gone_row t p r \<longleftrightarrow> (case r of None \<Rightarrow> bt_get t p = None | Some w \<Rightarrow> \<not> e_present w)"

lemma look_gone_within:
  assumes base: "base_ok D t" and r: "gone_row t p r" and R': "R' p = r" and p: "good_path p"
    and rows: "\<And>x e. below x p \<Longrightarrow> R' x = Some e \<Longrightarrow> \<not> e_present e"
    and x: "x = p \<or> below x p"
  shows "look D t R' F x = None"
proof (cases r)
  case (Some w)
  then have "\<not> e_present w" using r by (simp add: gone_row_def)
  moreover have "below x p \<Longrightarrow> p \<in> set (ancestors_of x)" by (auto simp: ancestors_iff)
  ultimately show ?thesis
    using x R' Some by (auto simp: look_def resolves_def blocked_def blocking_def)
next
  case None
  then have t: "bt_get t p = None" using r by (simp add: gone_row_def)
  have "bt_get t x = None"
    using base_closed [OF base, of x _ p] x t p by (cases "bt_get t x") (auto simp: good_path_def)
  moreover have "R' x = Some e \<Longrightarrow> \<not> e_present e" for e using x rows R' None by auto
  ultimately show ?thesis
    using base by (cases "R' x") (auto simp: look_def resolves_def base_node_of_eq)
qed

lemma look_remove:
  assumes base: "base_ok D t" and ok: "view_ok D t R F nid" and p: "good_path p"
    and empty: "\<And>x. below x p \<Longrightarrow> look D t R F x = None"
    and r: "gone_row t p r" and files: "same_files R p F F'"
  shows "look D t (R(p := r)) F' = (look D t R F)(p := None)"
proof (rule ext)
  fix x
  have rows: "\<not> e_present e" if "below x p" "(R(p := r)) x = Some e" for x e
    using present_row_look [OF ok, of x e] empty [OF that(1)] that by (auto split: if_splits)
  consider "x = p" | "below x p" | "x \<noteq> p" "\<not> below x p" by blast
  then show "look D t (R(p := r)) F' x = ((look D t R F)(p := None)) x"
  proof cases
    case 3
    with look_unrelated [OF 3(1,2) _ files] p show ?thesis by (auto simp: good_path_def)
  qed (use look_gone_within [OF base r, of "R(p := r)" x F'] p rows empty in auto)
qed

lemma view_ok_remove:
  assumes base: "base_ok D t" and ok: "view_ok D t R F nid" and p: "good_path p"
    and empty: "\<And>x. below x p \<Longrightarrow> look D t R F x = None"
    and r: "gone_row t p r" and files: "same_files R p F F'" "\<And>i. F' i \<noteq> None \<Longrightarrow> i < nid"
    and row: "\<And>e. r = Some e \<Longrightarrow> row_ok D t F' nid p e"
  shows "view_ok D t (R(p := r)) F' nid"
proof (rule view_ok_update [OF ok order_refl files])
  show "look D t (R(p := r)) F' x = look D t R F x" if "x \<noteq> p" for x
    using look_remove [OF base ok p empty r files(1)] that by simp
  show "dir_at D t (R(p := r)) F' p" if "below x p" "R x = Some e" "e_present e" for x e
    using present_row_look [OF ok that(2,3)] empty [OF that(1)] by simp
qed (use row r in \<open>auto simp: gone_row_def row_ok_def split: option.splits\<close>)

end
