(* ===== verification/Gfs_Refine.thy ===== *)
theory Gfs_Refine
  imports Gfs_View
begin

text \<open>
  The overlay implements the reference model: every operation of the harness, run on an overlay
  whose view is a model's map, returns the model's outcome and leaves a view that is the model's
  new map. This theory has the simulation relation, the steps the operations share and every
  operation but rename, which is in \<open>Gfs_RefineRename\<close>.
\<close>

definition overlay_ok :: "digests \<Rightarrow> base_tree \<Rightarrow> overlay \<Rightarrow> bool" where
  "overlay_ok D t ov \<longleftrightarrow>
     rows_ok ov \<and> view_ok D t (bt_get (entries ov)) (bt_get (files ov)) (next_content_id ov)"

definition sim :: "digests \<Rightarrow> base_tree \<Rightarrow> overlay \<Rightarrow> live \<Rightarrow> bool" where
  "sim D t ov m \<longleftrightarrow> base_ok D t \<and> overlay_ok D t ov \<and> bt_ok m \<and> bt_get m = lookup D t ov"

lemma simD:
  assumes "sim D t ov m"
  shows "base_ok D t" "overlay_ok D t ov" "rows_ok ov" "bt_get m = lookup D t ov"
    "view_ok D t (bt_get (entries ov)) (bt_get (files ov)) (next_content_id ov)"
  using assms by (simp_all add: sim_def overlay_ok_def)

section \<open>Checks agree\<close>

lemma facts_eq:
  "base_ok D t \<Longrightarrow> facts D t p =
     map_option (\<lambda>n. BaseFacts (git_oid D (bn_content n)) (bn_kind n) (length (bn_content n))) (bt_get t p)"
  by (simp add: facts_def base_get_good split: option.splits)

lemma existing_lookup:
  assumes "base_ok D t" and "p \<noteq> []"
  shows "existing ov p (facts D t p) = map_option (\<lambda>n. to_entry_kind (n_kind n)) (lookup D t ov p)"
proof (cases "resolve (entries ov) p")
  case Base
  show ?thesis
  proof (cases "bt_get t p")
    case (Some n)
    with assms have "from_entry_kind (bn_kind n) \<noteq> None"
      using base_entryD [OF assms(1) Some] by (simp add: base_entry_ok_def)
    with Some Base assms show ?thesis
      by (auto simp: existing_def lookup_def facts_eq base_node_of_eq from_entry_kind_Some)
  qed (use Base assms in \<open>simp add: existing_def lookup_def facts_eq base_node_of_eq\<close>)
qed (use assms in \<open>auto simp: existing_def lookup_def node_of_def\<close>)

lemma existing_model:
  "sim D t ov m \<Longrightarrow> p \<noteq> [] \<Longrightarrow>
   existing ov p (facts D t p) = map_option (\<lambda>n. to_entry_kind (n_kind n)) (bt_get m p)"
  by (simp add: simD existing_lookup)

lemma check_parent_model:
  "sim D t ov m \<Longrightarrow> check_parent ov p (par_base (parent_for D t p)) = m_check_parent m p"
  by (auto simp: check_parent_def m_check_parent_def parent_for_def existing_model Let_def
      split: option.splits)

abbreviation dir_in :: "digests \<Rightarrow> base_tree \<Rightarrow> overlay \<Rightarrow> path \<Rightarrow> bool" where
  "dir_in D t ov \<equiv> dir_at D t (bt_get (entries ov)) (bt_get (files ov))"

lemma dir_in_model: "sim D t ov m \<Longrightarrow> dir_in D t ov x \<longleftrightarrow> (\<exists>n. bt_get m x = Some n \<and> is_dir (n_kind n))"
  by (simp add: simD dir_at_def lookup_look)

lemma m_check_parent_ok:
  "m_check_parent m p = Inr () \<longleftrightarrow>
     parent_of p = [] \<or> (\<exists>n. bt_get m (parent_of p) = Some n \<and> is_dir (n_kind n))"
  by (auto simp: m_check_parent_def Let_def split: option.splits)

text \<open>A usable parent makes every ancestor a directory.\<close>

lemma above_dirs:
  assumes "base_ok D t" "view_ok D t R F nid" "good_path p" "parent_of p = [] \<or> dir_at D t R F (parent_of p)"
    and "below p a"
  shows "dir_at D t R F a"
proof -
  have slash: "CHR ''/'' \<in> set p" using assms(5) by (rule below_slash)
  then have par: "dir_at D t R F (parent_of p)" using assms(3,4) good_parent_slash by blast
  from assms(5) consider "a = parent_of p" | "below (parent_of p) a"
    using below_parent_iff by blast
  then show ?thesis
  proof cases
    case 2
    from par obtain n where "look D t R F (parent_of p) = Some n" by (auto simp: dir_at_def)
    from look_closed [OF assms(1,2) this 2] show ?thesis .
  qed (use par in simp)
qed

section \<open>Touching the parent\<close>

lemma ino_for_pos [simp]: "ino_for p \<noteq> 0"
  by (simp add: ino_for_def)

text \<open>A row that can stand for directory \<open>d\<close> without changing the view.\<close>

definition touch_row :: "digests \<Rightarrow> base_tree \<Rightarrow> row_map \<Rightarrow> path \<Rightarrow> overlay_entry \<Rightarrow> bool" where
  "touch_row D t R d e \<longleftrightarrow>
     e_path e = d \<and> e_present e \<and> e_kind e = ODirectory \<and> e_content e = CNone
     \<and> e_symlink_target e = None \<and> (e_base e = None \<or> e_base e = facts D t d)
     \<and> (e_opaque e \<longleftrightarrow> (\<exists>q. R d = Some q \<and> e_opaque q))"

definition touch_changes :: "parent_touch \<Rightarrow> change list" where
  "touch_changes tch = (case tch of TouchRow e \<Rightarrow> [Put e] | _ \<Rightarrow> [])"

definition good_touch :: "digests \<Rightarrow> base_tree \<Rightarrow> row_map \<Rightarrow> path \<Rightarrow> parent_touch \<Rightarrow> bool" where
  "good_touch D t R d tch \<longleftrightarrow> (case tch of TouchRow e \<Rightarrow> d \<noteq> [] \<and> touch_row D t R d e | _ \<Rightarrow> True)"

lemma push_touch_changes: "fst (push_touch tch now (cs, rt)) = cs @ touch_changes tch"
  by (cases tch) (simp_all add: touch_changes_def)

lemma parent_touch_good:
  assumes base: "base_ok D t" and ok: "view_ok D t (bt_get (entries ov)) F nid"
    and par: "parent_of p = [] \<or> dir_at D t (bt_get (entries ov)) F (parent_of p)"
  shows "\<exists>tch. parent_touch p (parent_for D t p) now ov = (tch, ov)
      \<and> good_touch D t (bt_get (entries ov)) (parent_of p) tch"
proof (cases "parent_of p = []")
  case True
  then show ?thesis by (simp add: parent_touch_def good_touch_def)
next
  case False
  let ?R = "bt_get (entries ov)" and ?d = "parent_of p"
  from False par have d: "dir_at D t ?R F ?d" by simp
  show ?thesis
  proof (cases "?R ?d")
    case (Some e)
    with d have e: "e_present e" "is_dir (e_kind e)" by (auto dest: dir_at_row)
    with Some dir_at_not_blocked [OF d] have "resolve (entries ov) ?d = Overlay e"
      by (simp add: resolve_eq resolves_def)
    moreover have "touch_row D t ?R ?d (e\<lparr>e_mtime := now, e_ctime := now\<rparr>)"
      using e view_okD(1) [OF ok Some] Some
      by (auto simp: touch_row_def row_ok_def shape_ok_def is_dir_def is_file_def split: content.splits)
    ultimately show ?thesis using False e by (simp add: parent_touch_def good_touch_def)
  next
    case None
    with d obtain n where "resolves ?R ?d = Base" "base_node_of t ?d = Some n" "is_dir (n_kind n)"
      by (auto simp: dir_at_def look_def resolves_def split: if_splits)
    with None False base show ?thesis
      by (auto simp: parent_touch_def good_touch_def touch_row_def resolve_eq parent_for_def facts_eq
          base_node_of_eq adopt_ino_def is_dir_def Let_def split: option.splits)
  qed
qed

lemma touch_effect:
  assumes base: "base_ok D t" and ok: "view_ok D t R F nid"
    and par: "d = [] \<or> dir_at D t R F d" and tch: "good_touch D t R d tch"
  shows "view_ok D t (fold upd (touch_changes tch) R) F nid
      \<and> look D t (fold upd (touch_changes tch) R) F = look D t R F"
proof (cases tch)
  case (TouchRow e)
  with tch par have d: "dir_at D t R F d" and e: "touch_row D t R d e" by (auto simp: good_touch_def)
  then have "good_path d" using look_good [OF base ok] by (auto simp: dir_at_def)
  with e have row: "row_ok D t F nid d e"
    by (auto simp: touch_row_def row_ok_def shape_ok_def is_dir_def)
  show ?thesis
    using view_ok_touch [OF base ok d _ _ _ _ _ row] look_touch [OF base ok d, of e] e TouchRow
    by (auto simp: touch_row_def touch_changes_def)
qed (use ok in \<open>simp_all add: touch_changes_def\<close>)

lemma touch_changes_key:
  "good_touch D t R d tch \<Longrightarrow> c \<in> set (touch_changes tch) \<Longrightarrow> change_key c = d"
  by (cases tch) (auto simp: touch_changes_def good_touch_def touch_row_def)

text \<open>A touch can be moved before changes that name other paths.\<close>

lemma upd_commute: "change_key c \<noteq> change_key d \<Longrightarrow> upd c (upd d R) = upd d (upd c R)"
  by (simp add: upd_def fun_upd_twist)

lemma fold_upd_commute1:
  "change_key d \<notin> change_key ` set cs \<Longrightarrow> fold upd cs (upd d R) = upd d (fold upd cs R)"
proof (induction cs arbitrary: R)
  case (Cons c cs)
  then have "upd c (upd d R) = upd d (upd c R)" by (intro upd_commute) auto
  with Cons show ?case by simp
qed simp

lemma fold_upd_commute:
  "change_key ` set cs \<inter> change_key ` set ds = {} \<Longrightarrow>
   fold upd (cs @ ds) R = fold upd cs (fold upd ds R)"
proof (induction ds arbitrary: R)
  case (Cons d ds)
  then have "fold upd cs (upd d R) = upd d (fold upd cs R)" by (intro fold_upd_commute1) auto
  moreover have "fold upd (cs @ ds) (upd d R) = fold upd cs (fold upd ds (upd d R))"
    using Cons by auto
  ultimately show ?case by simp
qed simp

text \<open>
  A commit that touches the parent of \<open>p\<close>: the changes act on a row map with the same view, which
  differs from the old one at most in the parent's row.
\<close>

lemma commit_touching_effect:
  assumes st: "R = bt_get (entries ov)" "F = bt_get (files ov)" "nid = next_content_id ov"
    and base: "base_ok D t" and rows: "rows_ok ov" and ok: "view_ok D t R F nid"
    and p: "good_path p" and par: "parent_of p = [] \<or> dir_at D t R F (parent_of p)"
    and keys: "\<forall>c \<in> set cs. good_path (change_key c) \<and> change_key c \<noteq> parent_of p"
  obtains R1 where "view_ok D t R1 F nid" "look D t R1 F = look D t R F"
    "\<And>x. x \<noteq> parent_of p \<Longrightarrow> R1 x = R x"
    "\<And>x e i. R1 x = Some e \<Longrightarrow> e_content e = CLocal i \<Longrightarrow> R x = Some e"
    "bt_get (entries (commit_touching cs rel p (parent_for D t p) now ov)) = fold upd cs R1"
    "bt_get (files (commit_touching cs rel p (parent_for D t p) now ov))
       = (\<lambda>i. if i \<in> set rel then None else F i)"
    "next_content_id (commit_touching cs rel p (parent_for D t p) now ov) = nid"
    "rows_ok (commit_touching cs rel p (parent_for D t p) now ov)"
proof -
  obtain tch where tch: "parent_touch p (parent_for D t p) now ov = (tch, ov)"
      and good: "good_touch D t R (parent_of p) tch"
    using parent_touch_good [OF base ok [unfolded st(1)] par [unfolded st(1)]] unfolding st(1) by blast
  obtain rt where pt: "push_touch tch now (cs, None) = (cs @ touch_changes tch, rt)"
    using push_touch_changes [of tch now cs None] by (cases "push_touch tch now (cs, None)") simp
  let ?ov' = "commit_touching cs rel p (parent_for D t p) now ov"
  have ov': "?ov' = commit_with (cs @ touch_changes tch) rel rt True ov"
    by (simp add: commit_touching_def tch pt commit_def)
  have tk: "change_key c = parent_of p" if "c \<in> set (touch_changes tch)" for c
    using touch_changes_key [OF good that] .
  have "change_key ` set cs \<inter> change_key ` set (touch_changes tch) = {}"
    using keys tk by fastforce
  note com = fold_upd_commute [OF this, of R]
  have tgood: "good_path (change_key c)" if "c \<in> set (touch_changes tch)" for c
  proof -
    from that good par have "dir_at D t R F (parent_of p)"
      by (cases tch) (auto simp: touch_changes_def good_touch_def)
    then show ?thesis using look_good [OF base ok] tk [OF that] by (auto simp: dir_at_def)
  qed
  have eff: "view_ok D t (fold upd (touch_changes tch) R) F nid
      \<and> look D t (fold upd (touch_changes tch) R) F = look D t R F"
    by (rule touch_effect [OF base ok par good])
  show thesis
  proof (rule that)
    show "view_ok D t (fold upd (touch_changes tch) R) F nid"
      "look D t (fold upd (touch_changes tch) R) F = look D t R F" using eff by simp_all
    show "fold upd (touch_changes tch) R x = R x" if "x \<noteq> parent_of p" for x
      using that tk by (intro fold_upd_other) auto
    show "R x = Some e" if "fold upd (touch_changes tch) R x = Some e" "e_content e = CLocal i" for x e i
      using that good by (cases tch) (auto simp: touch_changes_def good_touch_def touch_row_def split: if_splits)
    show "bt_get (entries ?ov') = fold upd cs (fold upd (touch_changes tch) R)"
      unfolding ov' st(1) using com [unfolded st(1)] by simp
    show "bt_get (files ?ov') = (\<lambda>i. if i \<in> set rel then None else F i)"
      by (rule ext) (simp add: ov' st)
    show "next_content_id ?ov' = nid" by (simp add: ov' st)
    show "rows_ok ?ov'" unfolding ov' by (rule rows_ok_commit [OF rows]) (use keys tgood in auto)
  qed
qed

section \<open>Creating\<close>

lemma parent_neq: "good_path p \<Longrightarrow> parent_of p \<noteq> p"
  by (metis below_irrefl below_parent_iff good_not_Nil parent_of_top)

lemma rows_ok_fields: "rows_ok ov \<Longrightarrow> entries ov' = entries ov \<Longrightarrow> children ov' = children ov \<Longrightarrow> rows_ok ov'"
  using rows_ok_cong by metis

lemma overlay_ok_fields:
  "overlay_ok D t ov \<Longrightarrow> entries ov' = entries ov \<Longrightarrow> children ov' = children ov \<Longrightarrow> files ov' = files ov \<Longrightarrow>
   next_content_id ov' = next_content_id ov \<Longrightarrow> overlay_ok D t ov'"
  by (auto simp: overlay_ok_def intro: rows_ok_fields)

lemma view_ok_alloc:
  assumes "base_ok D t" "view_ok D t R F nid"
  shows "view_ok D t R (F(nid \<mapsto> bs)) (Suc nid)" and "look D t R (F(nid \<mapsto> bs)) = look D t R F"
proof -
  have own: "i < nid" if "R x = Some e" "e_content e = CLocal i" for x e i
    using view_okD(1) [OF assms(2) that(1)] that(2) by (simp add: row_ok_def)
  show look: "look D t R (F(nid \<mapsto> bs)) = look D t R F"
    by (rule ext, rule look_cong) (auto dest: own)
  have rows: "row_ok D t (F(nid \<mapsto> bs)) (Suc nid) x e" if "R x = Some e" for x e
    using view_okD(1) [OF assms(2) that] by (rule row_ok_files) (use own [OF that] in auto)
  have ids: "(F(nid \<mapsto> bs)) i \<noteq> None \<Longrightarrow> i < Suc nid" for i
    using view_okD(4) [OF assms(2), of i] by (auto split: if_splits)
  have closed: "closed D t R (F(nid \<mapsto> bs))"
    using view_okD(3) [OF assms(2)] by (simp add: closed_def dir_at_def look)
  from rows ids closed view_okD(2) [OF assms(2)] show "view_ok D t R (F(nid \<mapsto> bs)) (Suc nid)"
    unfolding view_ok_def by blast
qed

text \<open>Putting one present row at a path that is not a directory, together with the parent's touch.\<close>

lemma put_touching:
  assumes st: "R = bt_get (entries ov)" "F = bt_get (files ov)" "nid = next_content_id ov"
    and base: "base_ok D t" and rows: "rows_ok ov" and ok: "view_ok D t R F nid"
    and par: "parent_of p = [] \<or> dir_at D t R F (parent_of p)" and new: "\<not> dir_at D t R F p"
    and row: "row_ok D t F nid p e" and e: "e_present e" "\<not> is_dir (e_kind e) \<or> e_opaque e"
    and fresh: "\<And>e' i x. e_content e = CLocal i \<Longrightarrow> x \<noteq> p \<Longrightarrow> R x = Some e' \<Longrightarrow> e_content e' \<noteq> CLocal i"
  shows "overlay_ok D t (commit_touching [Put e] [] p (parent_for D t p) now ov)
    \<and> lookup D t (commit_touching [Put e] [] p (parent_for D t p) now ov)
        = (look D t R F)(p \<mapsto> Node (e_kind e) (content_at D t F e))"
proof -
  let ?ov' = "commit_touching [Put e] [] p (parent_for D t p) now ov"
  have p: "good_path p" and ep: "e_path e = p" using row by (auto simp: row_ok_def)
  have keys: "\<forall>c \<in> set [Put e]. good_path (change_key c) \<and> change_key c \<noteq> parent_of p"
    using p ep parent_neq by force
  obtain R1 where R1: "view_ok D t R1 F nid" "look D t R1 F = look D t R F"
      "\<And>x. x \<noteq> parent_of p \<Longrightarrow> R1 x = R x"
      "\<And>x e i. R1 x = Some e \<Longrightarrow> e_content e = CLocal i \<Longrightarrow> R x = Some e"
    and st': "bt_get (entries ?ov') = fold upd [Put e] R1"
      "bt_get (files ?ov') = (\<lambda>i. if i \<in> set ([]::nat list) then None else F i)"
      "next_content_id ?ov' = nid" "rows_ok ?ov'"
    by (rule commit_touching_effect [OF st base rows ok p par keys, where rel = "[]" and now = now]) (rule that)
  have same: "dir_at D t R1 F x = dir_at D t R F x" for x by (simp add: dir_at_def R1(2))
  have above: "dir_at D t R1 F a" if "below p a" for a
    using above_dirs [OF base ok p par that] by (simp add: same)
  have new1: "\<not> dir_at D t R1 F p" using new by (simp add: same)
  have "view_ok D t (R1(p \<mapsto> e)) F nid"
    using view_ok_put [OF base R1(1) order_refl row above new1 e same_files_refl] view_okD(4) [OF R1(1)]
      fresh R1(4) by blast
  moreover have "look D t (R1(p \<mapsto> e)) F = (look D t R F)(p \<mapsto> Node (e_kind e) (content_at D t F e))"
    using look_put [OF base R1(1) p above new1 e same_files_refl] by (simp add: R1(2))
  ultimately show ?thesis
    using st' ep by (simp add: overlay_ok_def lookup_look)
qed

text \<open>The outcome of an operation against the outcome of the model.\<close>

definition agrees :: "digests \<Rightarrow> base_tree \<Rightarrow> live \<Rightarrow> condition + live \<Rightarrow> unit result \<times> overlay \<Rightarrow> bool" where
  "agrees D t m res out \<longleftrightarrow>
     (case res of Inl c \<Rightarrow> fst out = Inl c \<and> sim D t (snd out) m
      | Inr m' \<Rightarrow> fst out = Inr () \<and> sim D t (snd out) m')"

text \<open>Refused for a limit, with the file system unchanged, or in agreement with the model.\<close>

definition refines :: "digests \<Rightarrow> base_tree \<Rightarrow> live \<Rightarrow> condition + live \<Rightarrow> unit result \<times> overlay \<Rightarrow> bool" where
  "refines D t m res out \<longleftrightarrow>
     fst out = Inl QuotaExceeded \<and> sim D t (snd out) m \<or> agrees D t m res out"

lemma sim_fields:
  "sim D t ov m \<Longrightarrow> entries ov' = entries ov \<Longrightarrow> children ov' = children ov \<Longrightarrow> files ov' = files ov \<Longrightarrow>
   next_content_id ov' = next_content_id ov \<Longrightarrow> sim D t ov' m"
  by (auto simp: sim_def lookup_look intro: overlay_ok_fields)

lemma sim_insert:
  assumes "sim D t ov m" and "overlay_ok D t ov'"
    and "lookup D t ov' = (lookup D t ov)(p \<mapsto> n)"
  shows "sim D t ov' (bt_insert p n m)"
  using assms by (simp add: sim_def)

text \<open>
  The shared shape of the three creations: the same checks in the same order, then a row for a
  path that did not exist.
\<close>

lemma create_agrees:
  assumes sim: "sim D t ov m" and p: "good_path p"
    and errs: "\<And>c. m_check_parent m p = Inl c \<Longrightarrow> out = (Inl c, ov)"
      "m_check_parent m p = Inr () \<Longrightarrow> bt_get m p \<noteq> None \<Longrightarrow> out = (Inl Exists, ov)"
    and new: "m_check_parent m p = Inr () \<Longrightarrow> bt_get m p = None \<Longrightarrow>
      out = (Inr (), commit_touching [Put e] [] p (parent_for D t p) now ov1)"
    and st: "entries ov1 = entries ov" "children ov1 = children ov"
      "view_ok D t (bt_get (entries ov)) (bt_get (files ov1)) (next_content_id ov1)"
      "look D t (bt_get (entries ov)) (bt_get (files ov1)) = lookup D t ov"
    and e: "e_present e" "\<not> is_dir (e_kind e) \<or> e_opaque e"
      "row_ok D t (bt_get (files ov1)) (next_content_id ov1) p e"
      "\<And>i x e'. e_content e = CLocal i \<Longrightarrow> bt_get (entries ov) x = Some e' \<Longrightarrow> e_content e' \<noteq> CLocal i"
    and n: "n = Node (e_kind e) (content_at D t (bt_get (files ov1)) e)"
  shows "agrees D t m (m_insert_new p n m) out"
proof -
  consider c where "m_check_parent m p = Inl c" | "m_check_parent m p = Inr ()" "bt_get m p \<noteq> None"
    | "m_check_parent m p = Inr ()" "bt_get m p = None"
    by (cases "m_check_parent m p") auto
  then show ?thesis
  proof cases
    case 3
    have d: "dir_at D t (bt_get (entries ov)) (bt_get (files ov1)) x \<longleftrightarrow>
        (\<exists>n. bt_get m x = Some n \<and> is_dir (n_kind n))" for x
      using st(4) simD(4) [OF sim] by (simp add: dir_at_def)
    have "overlay_ok D t (commit_touching [Put e] [] p (parent_for D t p) now ov1)
      \<and> lookup D t (commit_touching [Put e] [] p (parent_for D t p) now ov1) = (lookup D t ov)(p \<mapsto> n)"
      using put_touching [OF refl refl refl simD(1) [OF sim] rows_ok_fields [OF simD(3) [OF sim] st(1,2)],
          where p = p and e = e and now = now] 3 st e n d
      by (simp add: m_check_parent_ok)
    with sim have "sim D t (commit_touching [Put e] [] p (parent_for D t p) now ov1) (bt_insert p n m)"
      by (blast intro: sim_insert)
    with new 3 show ?thesis by (simp add: agrees_def m_insert_new_def)
  qed (use errs sim in \<open>auto simp: agrees_def m_insert_new_def split: option.splits\<close>)
qed

lemma create_file_agrees:
  assumes sim: "sim D t ov m" and p: "p \<noteq> []" "path_condition p = Inr ()" and q: "\<not> over_quota ov 0"
  shows "agrees D t m (m_create_file p m) (apply_to_overlay D t (CreateFile p) ov)"
proof -
  note ok = simD(5) [OF sim] and base = simD(1) [OF sim]
  let ?cid = "next_content_id ov"
  define ov1 where "ov1 = snd (next_time (ov\<lparr>next_content_id := ?cid + 1,
      files := bt_insert ?cid [] (files ov), unsynced := insert ?cid (unsynced ov)\<rparr>))"
  define now where "now = clock ov1"
  define e where "e = \<lparr>e_path = p, e_present = True, e_kind = ORegular, e_opaque = False, e_ino = ino_for p,
      e_content = CLocal ?cid, e_symlink_target = None, e_size = 0, e_mtime = now, e_ctime = now,
      e_renamed_from = None, e_base = facts D t p\<rparr>"
  have files: "bt_get (files ov1) = (bt_get (files ov))(?cid \<mapsto> [])"
    by (simp add: ov1_def next_time_def Let_def)
  have free: "bt_get (files ov) ?cid = None" using view_okD(4) [OF ok, of ?cid]
    by (cases "bt_get (files ov) ?cid") auto
  have lt: "i < ?cid" if "bt_get (entries ov) x = Some e'" "e_content e' = CLocal i" for x e' i
    using view_okD(1) [OF ok that(1)] that(2) by (simp add: row_ok_def)
  have out: "m_check_parent m p = Inr () \<Longrightarrow> bt_get m p = None \<Longrightarrow>
      apply_to_overlay D t (CreateFile p) ov
        = (Inr (), commit_touching [Put e] [] p (parent_for D t p) now ov1)"
    using p q free
    by (simp add: create_file_def check_parent_model [OF sim] existing_model [OF sim] adopt_ino_def
        allocate_content_id_def outcome_def e_def now_def ov1_def next_time_def Let_def)
  show ?thesis
    unfolding m_create_file_def
  proof (rule create_agrees [OF sim path_condition_good [OF p(2,1)] _ _ out])
    show "view_ok D t (bt_get (entries ov)) (bt_get (files ov1)) (next_content_id ov1)"
      using view_ok_alloc(1) [OF base ok] by (simp add: files) (simp add: ov1_def next_time_def Let_def)
    show "look D t (bt_get (entries ov)) (bt_get (files ov1)) = lookup D t ov"
      using view_ok_alloc(2) [OF base ok] by (simp add: files lookup_look)
    show "row_ok D t (bt_get (files ov1)) (next_content_id ov1) p e"
      using path_condition_good [OF p(2,1)]
      by (simp add: files row_ok_def e_def shape_ok_def is_file_def) (simp add: ov1_def next_time_def Let_def)
  qed (use p lt in \<open>force simp: create_file_def check_parent_model [OF sim] existing_model [OF sim]
      outcome_def e_def ov1_def next_time_def Let_def is_dir_def content_at_def files\<close>)+
qed

lemma mkdir_agrees:
  assumes sim: "sim D t ov m" and p: "p \<noteq> []" "path_condition p = Inr ()"
  shows "agrees D t m (m_mkdir p m) (apply_to_overlay D t (Mkdir p) ov)"
proof -
  define ov1 where "ov1 = snd (next_time ov)"
  define now where "now = clock ov1"
  define e where "e = \<lparr>e_path = p, e_present = True, e_kind = ODirectory, e_opaque = True, e_ino = ino_for p,
      e_content = CNone, e_symlink_target = None, e_size = 0, e_mtime = now, e_ctime = now,
      e_renamed_from = None, e_base = facts D t p\<rparr>"
  have out: "m_check_parent m p = Inr () \<Longrightarrow> bt_get m p = None \<Longrightarrow>
      apply_to_overlay D t (Mkdir p) ov
        = (Inr (), commit_touching [Put e] [] p (parent_for D t p) now ov1)"
    using p by (simp add: mkdir_def check_parent_model [OF sim] existing_model [OF sim] adopt_ino_def
        outcome_def e_def now_def ov1_def next_time_def Let_def)
  show ?thesis
    unfolding m_mkdir_def
  proof (rule create_agrees [OF sim path_condition_good [OF p(2,1)] _ _ out])
    show "row_ok D t (bt_get (files ov1)) (next_content_id ov1) p e"
      using path_condition_good [OF p(2,1)] by (simp add: row_ok_def e_def shape_ok_def is_dir_def)
  qed (use p simD(5) [OF sim] in \<open>force simp: mkdir_def check_parent_model [OF sim] existing_model [OF sim]
      outcome_def e_def ov1_def next_time_def Let_def is_dir_def content_at_def lookup_look\<close>)+
qed

lemma symlink_agrees:
  assumes sim: "sim D t ov m" and p: "p \<noteq> []" "path_condition p = Inr ()"
    and target: "target \<noteq> []" "CHR 0x00 \<notin> set target"
  shows "agrees D t m (m_symlink p target m) (apply_to_overlay D t (MkSymlink p target) ov)"
proof -
  define ov1 where "ov1 = snd (next_time ov)"
  define now where "now = clock ov1"
  define e where "e = \<lparr>e_path = p, e_present = True, e_kind = OSymlink, e_opaque = False, e_ino = ino_for p,
      e_content = CNone, e_symlink_target = Some target, e_size = length target, e_mtime = now,
      e_ctime = now, e_renamed_from = None, e_base = facts D t p\<rparr>"
  have out: "m_check_parent m p = Inr () \<Longrightarrow> bt_get m p = None \<Longrightarrow>
      apply_to_overlay D t (MkSymlink p target) ov
        = (Inr (), commit_touching [Put e] [] p (parent_for D t p) now ov1)"
    using p target by (simp add: symlink_def check_parent_model [OF sim] existing_model [OF sim] adopt_ino_def
        outcome_def e_def now_def ov1_def next_time_def Let_def)
  show ?thesis
    unfolding m_symlink_def
  proof (rule create_agrees [OF sim path_condition_good [OF p(2,1)] _ _ out])
    show "row_ok D t (bt_get (files ov1)) (next_content_id ov1) p e"
      using path_condition_good [OF p(2,1)] by (simp add: row_ok_def e_def shape_ok_def is_dir_def)
  qed (use p target simD(5) [OF sim] in \<open>force simp: symlink_def check_parent_model [OF sim]
      existing_model [OF sim] outcome_def e_def ov1_def next_time_def Let_def is_dir_def content_at_def
      lookup_look\<close>)+
qed

section \<open>Replacing a row\<close>

lemma sim_same: "sim D t ov m' \<Longrightarrow> bt_get m' = bt_get m \<Longrightarrow> bt_ok m \<Longrightarrow> sim D t ov m"
  by (simp add: sim_def)

text \<open>One present row that is not a directory is put where something that is not a directory was.\<close>

lemma sim_put:
  assumes sim: "sim D t ov m" and n0: "bt_get m p = Some n0" "\<not> is_dir (n_kind n0)"
    and st: "rows_ok ov'" "bt_get (entries ov') = (bt_get (entries ov))(p \<mapsto> e)"
      "next_content_id ov \<le> next_content_id ov'"
    and files: "same_files (bt_get (entries ov)) p (bt_get (files ov)) (bt_get (files ov'))"
      "\<And>i. bt_get (files ov') i \<noteq> None \<Longrightarrow> i < next_content_id ov'"
    and row: "row_ok D t (bt_get (files ov')) (next_content_id ov') p e"
    and e: "e_present e" "\<not> is_dir (e_kind e)"
    and fresh: "\<And>e' i x. e_content e = CLocal i \<Longrightarrow> x \<noteq> p \<Longrightarrow> bt_get (entries ov) x = Some e' \<Longrightarrow>
      e_content e' \<noteq> CLocal i"
  shows "sim D t ov' (bt_insert p (Node (e_kind e) (content_at D t (bt_get (files ov')) e)) m)"
proof -
  let ?R = "bt_get (entries ov)" and ?F = "bt_get (files ov)" and ?F' = "bt_get (files ov')"
  note base = simD(1) [OF sim] and ok = simD(5) [OF sim]
  have look: "look D t ?R ?F p = Some n0" using n0 simD(4) [OF sim] by (simp add: lookup_look)
  have new: "\<not> dir_at D t ?R ?F p" using n0(2) look by (simp add: dir_at_def)
  have above: "dir_at D t ?R ?F a" if "below p a" for a using look_closed [OF base ok look that] .
  have p: "good_path p" using row by (simp add: row_ok_def)
  have eor: "\<not> is_dir (e_kind e) \<or> e_opaque e" using e(2) by simp
  have "overlay_ok D t ov'"
    unfolding overlay_ok_def st(2)
    using view_ok_put [OF base ok st(3) row above new e(1) eor files] fresh st(1) by blast
  moreover have "lookup D t ov' = (lookup D t ov)(p \<mapsto> Node (e_kind e) (content_at D t ?F' e))"
    using look_put [OF base ok p above new e(1) eor files(1)] by (simp add: lookup_look st(2))
  ultimately show ?thesis by (rule sim_insert [OF sim])
qed

lemma rows_ok_replace:
  assumes "rows_ok ov" and "bt_get (entries ov) (e_path e) = Some q"
    and "entries ov' = bt_insert (e_path e) e (entries ov)" and "children ov' = children ov"
  shows "rows_ok ov'"
proof -
  have "dom ((bt_get (entries ov))(e_path e \<mapsto> e)) = dom (bt_get (entries ov))" using assms(2) by auto
  then show ?thesis
    using assms by (auto simp: rows_ok_def kids_ok_def kids_def keyed_def)
qed

text \<open>What a lookup in the model says of the overlay's resolution.\<close>

lemma model_overlay:
  assumes "sim D t ov m" "p \<noteq> []" "resolve (entries ov) p = Overlay e"
  shows "bt_get m p = Some (Node (e_kind e) (content_at D t (bt_get (files ov)) e))"
    and "bt_get (entries ov) p = Some e" and "e_present e"
    and "row_ok D t (bt_get (files ov)) (next_content_id ov) p e"
proof -
  show r: "bt_get (entries ov) p = Some e" and "e_present e"
    using assms(3) by (auto simp: resolve_eq resolves_def split: if_splits option.splits)
  show "bt_get m p = Some (Node (e_kind e) (content_at D t (bt_get (files ov)) e))"
    using assms simD(4) [OF assms(1)] by (simp add: lookup_look look_def resolve_eq)
  show "row_ok D t (bt_get (files ov)) (next_content_id ov) p e"
    using view_okD(1) [OF simD(5) [OF assms(1)] r] .
qed

lemma model_base:
  assumes "sim D t ov m" "p \<noteq> []" "resolve (entries ov) p = Base"
  shows "bt_get m p = base_node_of t p" and "bt_get (entries ov) p = None"
  using assms simD(4) [OF assms(1)]
  by (auto simp: lookup_look look_def resolve_eq resolves_def split: if_splits option.splits)

lemma model_absent:
  "sim D t ov m \<Longrightarrow> p \<noteq> [] \<Longrightarrow> resolve (entries ov) p = Absent \<Longrightarrow> bt_get m p = None"
  by (simp add: simD(4) lookup_look look_def resolve_eq)

section \<open>Copying up\<close>

lemma local_bytes_put:
  "local_bytes (commit_with [Put e] [] rt st ov) \<le> local_bytes ov + e_size e"
proof -
  obtain ov' where
    "commit_with [Put e] [] rt st ov = fold store_remove [] (fold (apply_change st) [Put e] ov')"
    and "local_bytes ov' = local_bytes ov"
    by (rule commit_shape)
  then show ?thesis
    by (auto simp: apply_change.simps Let_def sat_add_def split: option.splits)
qed

lemma copy_up_sim:
  assumes sim: "sim D t ov m" and p: "good_path p" and n: "bt_get m p = Some (Node k bs)" "is_file k"
    and bf: "bf = None \<or> bf = facts D t p"
    and out: "copy_up p (k, tgt, bf, ino, origin) (Reader bs) ov = (r, ov')"
  shows "r = Inl QuotaExceeded \<and> sim D t ov' m
    \<or> (\<exists>e i. r = Inr e \<and> sim D t ov' m \<and> bt_get (entries ov') p = Some e \<and> e_present e
         \<and> e_content e = CLocal i \<and> e_kind e = k
         \<and> local_bytes ov' \<le> local_bytes ov + length bs \<and> quota_bytes ov' = quota_bytes ov)"
proof -
  let ?cid = "next_content_id ov"
  note ok = simD(5) [OF sim] and base = simD(1) [OF sim]
  define ov3 where "ov3 = snd (next_time (ov\<lparr>next_content_id := ?cid + 1,
      files := bt_insert ?cid bs (files ov), unsynced := insert ?cid (unsynced ov)\<rparr>))"
  define e where "e = \<lparr>e_path = p, e_present = True, e_kind = k, e_opaque = False, e_ino = ino,
      e_content = CLocal ?cid, e_symlink_target = tgt, e_size = length bs, e_mtime = clock ov3,
      e_ctime = clock ov3, e_renamed_from = origin, e_base = bf\<rparr>"
  have own: "i < ?cid" if "bt_get (entries ov) x = Some e'" "e_content e' = CLocal i" for x e' i
    using view_okD(1) [OF ok that(1)] that(2) by (simp add: row_ok_def)
  have refused: "sim D t (ov\<lparr>next_content_id := ?cid + 1\<rparr>) m"
  proof -
    have "view_ok D t (bt_get (entries ov)) (bt_get (files ov)) (Suc ?cid)"
      using ok unfolding view_ok_def row_ok_def by (meson less_SucI)
    then show ?thesis
      using sim by (auto simp: sim_def overlay_ok_def lookup_look intro: rows_ok_fields)
  qed
  have st3: "entries ov3 = entries ov" "children ov3 = children ov" "next_content_id ov3 = Suc ?cid"
      "bt_get (files ov3) = (bt_get (files ov))(?cid \<mapsto> bs)" "local_bytes ov3 = local_bytes ov"
      "quota_bytes ov3 = quota_bytes ov"
    by (simp_all add: ov3_def next_time_def Let_def)
  have "sim D t (commit [Put e] [] None ov3) (bt_insert p
      (Node (e_kind e) (content_at D t (bt_get (files (commit [Put e] [] None ov3))) e)) m)"
  proof (rule sim_put [OF sim n(1)])
    show "rows_ok (commit [Put e] [] None ov3)"
      unfolding commit_def by (rule rows_ok_commit) (use p simD(3) [OF sim] st3 in \<open>auto simp: e_def intro: rows_ok_fields\<close>)
    show "i < next_content_id (commit [Put e] [] None ov3)"
      if "bt_get (files (commit [Put e] [] None ov3)) i \<noteq> None" for i
      using that view_okD(4) [OF ok, of i] by (auto simp: commit_def st3 split: if_splits)
  qed (use n p bf own in \<open>auto simp: commit_def e_def st3 same_files_def row_ok_def shape_ok_def is_file_def
        is_dir_def\<close>)
  moreover have "content_at D t (bt_get (files (commit [Put e] [] None ov3))) e = bs"
    by (simp add: content_at_def e_def commit_def st3)
  moreover have "e_kind e = k" by (simp add: e_def)
  ultimately have "sim D t (commit [Put e] [] None ov3) (bt_insert p (Node k bs) m)" by simp
  moreover have "bt_get (bt_insert p (Node k bs) m) = bt_get m" using n(1) by auto
  moreover have "bt_ok m" using sim by (simp add: sim_def)
  ultimately have fin: "sim D t (commit [Put e] [] None ov3) m" by (rule sim_same)
  have "local_bytes (commit [Put e] [] None ov3) \<le> local_bytes ov + length bs"
    using local_bytes_put [of e None True ov3] by (simp add: commit_def st3 e_def)
  moreover have "(r = Inl QuotaExceeded \<and> ov' = ov\<lparr>next_content_id := ?cid + 1\<rparr>)
      \<or> (r = Inr e \<and> ov' = commit [Put e] [] None ov3)"
    using out by (auto simp: copy_up_def allocate_content_id_def Let_def e_def ov3_def next_time_def
        split: if_splits)
  moreover have "bt_get (entries (commit [Put e] [] None ov3)) p = Some e"
      "quota_bytes (commit [Put e] [] None ov3) = quota_bytes ov"
    by (simp_all add: commit_def e_def st3)
  moreover have "e_present e" "e_content e = CLocal ?cid" "e_kind e = k" by (simp_all add: e_def)
  ultimately show ?thesis using refused fin by blast
qed

text \<open>
  The copy-up the harness runs before a write: the model's refusals in the model's order, or a
  quota refusal, or a row with local content and an unchanged view.
\<close>

definition materialized :: "digests \<Rightarrow> base_tree \<Rightarrow> live \<Rightarrow> path \<Rightarrow> node \<Rightarrow> overlay \<Rightarrow> overlay \<Rightarrow> bool" where
  "materialized D t m p n ov ov' \<longleftrightarrow> sim D t ov' m
     \<and> (\<exists>e i. bt_get (entries ov') p = Some e \<and> e_present e \<and> e_content e = CLocal i \<and> e_kind e = n_kind n)
     \<and> local_bytes ov' \<le> local_bytes ov + length (n_content n) \<and> quota_bytes ov' = quota_bytes ov"

lemma h_materialize_file:
  assumes sim: "sim D t ov m" and p: "p \<noteq> []" "path_condition p = Inr ()"
    and n: "bt_get m p = Some n" "is_file (n_kind n)"
  shows "(\<exists>ov'. h_materialize D t p ino ov = (Inl QuotaExceeded, ov') \<and> sim D t ov' m)
    \<or> (\<exists>ov'. h_materialize D t p ino ov = (Inr (), ov') \<and> materialized D t m p n ov ov')"
proof -
  note base = simD(1) [OF sim] and good = path_condition_good [OF p(2,1)]
  have isfile: "\<not> is_dir (n_kind n)" "n_kind n \<noteq> OSymlink" using n(2) by (auto simp: is_file_def is_dir_def)
  have step: ?thesis
    if bf: "bf = None \<or> bf = facts D t p"
      and h: "h_materialize D t p ino ov =
        (case copy_up p (n_kind n, tgt, bf, ino', origin) (Reader (n_content n)) ov of
           (Inl c, ov1) \<Rightarrow> (Inl c, ov1) | (Inr _, ov1) \<Rightarrow> (Inr (), ov1))" for tgt bf ino' origin
  proof -
    obtain r ov' where out: "copy_up p (n_kind n, tgt, bf, ino', origin) (Reader (n_content n)) ov = (r, ov')"
      by fastforce
    have "bt_get m p = Some (Node (n_kind n) (n_content n))" using n(1) by simp
    from copy_up_sim [OF sim good this n(2) bf out] h out show ?thesis
      by (auto simp: materialized_def)
  qed
  show ?thesis
  proof (cases "resolve (entries ov) p")
    case (Overlay e)
    note ovl = model_overlay [OF sim p(1) Overlay]
    have ne: "n = Node (e_kind e) (content_at D t (bt_get (files ov)) e)" using ovl(1) n(1) by simp
    show ?thesis
    proof (cases "local_id (e_content e)")
      case (Some i)
      then show ?thesis
        using sim ovl ne Overlay by (auto simp: h_materialize_def Let_def materialized_def local_id_iff)
    next
      case None
      moreover from this ovl(3,4) n(2) ne obtain oid where "e_content e = CBase oid"
        by (auto simp: row_ok_def shape_ok_def is_file_def is_dir_def split: content.splits if_splits)
      ultimately have "h_materialize D t p ino ov =
        (case copy_up p (n_kind n, e_symlink_target e, e_base e, e_ino e, e_renamed_from e)
            (Reader (n_content n)) ov of
           (Inl c, ov1) \<Rightarrow> (Inl c, ov1) | (Inr _, ov1) \<Rightarrow> (Inr (), ov1))"
        using Overlay ne isfile p by (simp add: h_materialize_def Let_def materialize_def copy_up_of_row_def
            content_at_def split: option.splits)
      with ovl(4) show ?thesis by (intro step) (auto simp: row_ok_def)
    qed
  next
    case Base
    note mb = model_base [OF sim p(1) Base]
    from mb(1) n(1) have "base_node_of t p = Some n" by simp
    with base obtain b where b: "bt_get t p = Some b" "from_entry_kind (bn_kind b) = Some (n_kind n)"
        "n_content n = bn_content b"
      by (rule base_node_ofE)
    from isfile b(2) have "bn_kind b \<noteq> Directory" by (auto simp: is_dir_def)
    then have "h_materialize D t p ino ov =
        (case copy_up p (n_kind n, None, facts D t p, ino, None) (Reader (n_content n)) ov of
           (Inl c, ov1) \<Rightarrow> (Inl c, ov1) | (Inr _, ov1) \<Rightarrow> (Inr (), ov1))"
      using Base isfile p b base by (simp add: h_materialize_def Let_def materialize_def copy_up_of_base_def
          base_get_good facts_eq)
    then show ?thesis by (intro step) auto
  qed (use model_absent [OF sim p(1)] n(1) in simp)
qed

lemma h_materialize_refused:
  assumes sim: "sim D t ov m" and p: "p \<noteq> []" "path_condition p = Inr ()"
  shows "bt_get m p = None \<Longrightarrow> h_materialize D t p ino ov = (Inl NoEntry, ov)"
    and "bt_get m p = Some n \<Longrightarrow> is_dir (n_kind n) \<Longrightarrow> h_materialize D t p ino ov = (Inl IsDirectory, ov)"
    and "bt_get m p = Some n \<Longrightarrow> n_kind n = OSymlink \<Longrightarrow> h_materialize D t p ino ov = (Inl Invalid, ov)"
proof -
  note base = simD(1) [OF sim] and ovl = model_overlay [OF sim p(1)] and mb = model_base [OF sim p(1)]
  show "h_materialize D t p ino ov = (Inl NoEntry, ov)" if "bt_get m p = None"
  proof (cases "resolve (entries ov) p")
    case Base
    from mb(1) [OF Base] that have "bt_get t p = None"
      using base base_entryD [OF base, of p] by (auto simp: base_node_of_eq base_entry_ok_def split: option.splits)
    with Base base show ?thesis by (simp add: h_materialize_def base_get_good)
  qed (use that ovl(1) in \<open>auto simp: h_materialize_def\<close>)
  show "h_materialize D t p ino ov = (Inl IsDirectory, ov)" if "bt_get m p = Some n" "is_dir (n_kind n)"
  proof (cases "resolve (entries ov) p")
    case (Overlay e)
    with that ovl [OF Overlay] show ?thesis
      by (auto simp: h_materialize_def row_ok_def shape_ok_def is_file_def is_dir_def local_id_iff)
  next
    case Base
    with that mb(1) [OF Base] base show ?thesis
      by (auto simp: h_materialize_def base_get_good base_node_of_eq is_dir_def from_entry_kind_Some
          split: option.splits)
  qed (use that model_absent [OF sim p(1)] in simp)
  show "h_materialize D t p ino ov = (Inl Invalid, ov)" if "bt_get m p = Some n" "n_kind n = OSymlink"
  proof (cases "resolve (entries ov) p")
    case (Overlay e)
    have "local_id (e_content e) = None"
      using that ovl [OF Overlay] by (cases "e_content e") (auto simp: row_ok_def shape_ok_def is_file_def)
    with that ovl [OF Overlay] Overlay p show ?thesis
      by (auto simp: h_materialize_def Let_def materialize_def copy_up_of_row_def is_dir_def)
  next
    case Base
    with that mb(1) [OF Base] base obtain b where "bt_get t p = Some b" "bn_kind b = Symlink"
      by (auto simp: base_node_of_eq from_entry_kind_Some split: option.splits)
    with Base base p show ?thesis
      by (simp add: h_materialize_def base_get_good is_dir_def Let_def materialize_def
          copy_up_of_base_def facts_eq)
  qed (use that model_absent [OF sim p(1)] in simp)
qed

section \<open>Writing\<close>

lemma pwrite_write_bytes: "data \<noteq> [] \<Longrightarrow> pwrite offset data content = write_bytes offset data content"
  by (auto simp: pwrite_def write_bytes_def resize_def Let_def)

lemma length_write_bytes:
  "length (write_bytes offset data content) = max (length content) (offset + length data)"
  by (auto simp: write_bytes_def resize_def Let_def)

text \<open>The state after the row at \<open>p\<close> and its own content file are replaced.\<close>

lemma sim_rewrite:
  assumes sim: "sim D t ov m" and p: "good_path p"
    and e: "bt_get (entries ov) p = Some e" "e_present e" "e_content e = CLocal i" "is_file (e_kind e)"
    and st: "rows_ok ov'" "bt_get (entries ov') = (bt_get (entries ov))(p \<mapsto> e')"
      "next_content_id ov' = next_content_id ov" "bt_get (files ov') = (bt_get (files ov))(i \<mapsto> bs)"
    and e': "e_path e' = p" "e_present e'" "e_content e' = CLocal i" "e_kind e' = e_kind e"
      "e_base e' = e_base e" "e_size e' = length bs"
  shows "sim D t ov' (bt_insert p (Node (e_kind e) bs) m)"
proof -
  note ok = simD(5) [OF sim]
  have row: "row_ok D t (bt_get (files ov)) (next_content_id ov) p e" by (rule view_okD(1) [OF ok e(1)])
  have uniq: "x = p" if "bt_get (entries ov) x = Some q" "e_content q = CLocal i" for x q
    using view_okD(2) [OF ok] e that unfolding unique_ids_def by blast
  have dirs: "\<not> is_dir (e_kind e)" using e(4) by (auto simp: is_file_def is_dir_def)
  have "bt_get m p = Some (Node (e_kind e) (content_at D t (bt_get (files ov)) e))"
    using present_row_look [OF ok e(1,2)] simD(4) [OF sim] by (simp add: lookup_look)
  moreover have "row_ok D t (bt_get (files ov')) (next_content_id ov') p e'"
    using row e e' st p by (auto simp: row_ok_def shape_ok_def is_file_def)
  moreover have "same_files (bt_get (entries ov)) p (bt_get (files ov)) (bt_get (files ov'))"
    using uniq by (auto simp: same_files_def st)
  moreover have "j < next_content_id ov'" if "bt_get (files ov') j \<noteq> None" for j
    using that view_okD(4) [OF ok, of j] row e by (auto simp: st row_ok_def split: if_splits)
  ultimately have "sim D t ov' (bt_insert p (Node (e_kind e') (content_at D t (bt_get (files ov')) e')) m)"
    using dirs e' st uniq by (intro sim_put [OF sim]) auto
  then show ?thesis using e' by (simp add: content_at_def st)
qed

lemma note_written_fields:
  "bt_get (entries (note_written e sz mt ov)) = (bt_get (entries ov))(e_path e \<mapsto>
     e\<lparr>e_size := sz, e_mtime := (case mt of None \<Rightarrow> fst (next_time ov) | Some x \<Rightarrow> x),
       e_ctime := fst (next_time ov)\<rparr>)"
  "files (note_written e sz mt ov) = files ov" "children (note_written e sz mt ov) = children ov"
  "next_content_id (note_written e sz mt ov) = next_content_id ov"
  by (cases mt; simp add: note_written_def next_time_def replace_in_memory_def Let_def)+

lemma rows_ok_note_written:
  "rows_ok ov \<Longrightarrow> bt_get (entries ov) (e_path e) = Some q \<Longrightarrow> rows_ok (note_written e sz mt ov)"
  by (rule rows_ok_replace [where e = "e\<lparr>e_size := sz,
        e_mtime := (case mt of None \<Rightarrow> fst (next_time ov) | Some x \<Rightarrow> x), e_ctime := fst (next_time ov)\<rparr>"])
    (cases mt; simp add: note_written_def next_time_def replace_in_memory_def Let_def)+

lemma write_at_sim:
  assumes mat: "materialized D t m p n ov0 ov" and n: "bt_get m p = Some n" "is_file (n_kind n)"
    and room: "local_bytes ov0 + length (n_content n) + offset + length data \<le> quota_bytes ov0"
    and u64: "offset + length data \<le> u64_max" "quota_bytes ov0 \<le> u64_max" and data: "data \<noteq> []"
  shows "fst (outcome (write_at p offset data ov)) = Inr ()
    \<and> sim D t (snd (outcome (write_at p offset data ov)))
        (bt_insert p (Node (n_kind n) (write_bytes offset data (n_content n))) m)"
proof -
  from mat obtain e i where sim: "sim D t ov m" and e: "bt_get (entries ov) p = Some e" "e_present e"
      "e_content e = CLocal i" "e_kind e = n_kind n"
    and lim: "local_bytes ov \<le> local_bytes ov0 + length (n_content n)" "quota_bytes ov = quota_bytes ov0"
    by (auto simp: materialized_def)
  note ok = simD(5) [OF sim]
  have row: "row_ok D t (bt_get (files ov)) (next_content_id ov) p e" by (rule view_okD(1) [OF ok e(1)])
  then obtain bs where bs: "bt_get (files ov) i = Some bs" "length bs = e_size e" and ep: "e_path e = p"
      "good_path p"
    using e(3) by (auto simp: row_ok_def)
  have c: "n_content n = bs"
    using present_row_look [OF ok e(1,2)] simD(4) [OF sim] n(1) e(3) bs(1)
    by (auto simp: lookup_look content_at_def)
  have admit: "admit_write ov (e_size e) offset data = Inr data"
    using room u64 lim c bs(2) data by (simp add: admit_write_def Let_def sat_add_exact)
  let ?ov1 = "ov\<lparr>files := bt_insert i (pwrite offset data bs) (files ov)\<rparr>"
  let ?sz = "max (e_size e) (sat_add offset (length data))"
  have out: "outcome (write_at p offset data ov) = (Inr (), note_written e ?sz None ?ov1)"
    using e bs admit by (simp add: write_at_def present_row_def outcome_def Let_def)
  have "sim D t (note_written e ?sz None ?ov1) (bt_insert p (Node (e_kind e) (pwrite offset data bs)) m)"
  proof (rule sim_rewrite [OF sim ep(2) e(1-3), where e' = "e\<lparr>e_size := ?sz,
        e_mtime := fst (next_time ?ov1), e_ctime := fst (next_time ?ov1)\<rparr>"])
    have "rows_ok ?ov1" using simD(3) [OF sim] by (rule rows_ok_fields) simp_all
    then show "rows_ok (note_written e ?sz None ?ov1)"
      using e(1) ep(1) by (intro rows_ok_note_written) simp_all
  qed (use e n(2) ep bs u64 data in \<open>simp_all add: note_written_fields pwrite_write_bytes length_write_bytes
      sat_add_exact\<close>)
  with out show ?thesis using e(4) c data by (simp add: pwrite_write_bytes)
qed

lemma model_cases:
  obtains "bt_get m p = None" | n where "bt_get m p = Some n" "is_dir (n_kind n)"
  | n where "bt_get m p = Some n" "n_kind n = OSymlink" | n where "bt_get m p = Some n" "is_file (n_kind n)"
  by (cases "bt_get m p") (auto simp: is_dir_def is_file_def intro: overlay_kind.exhaust)

text \<open>A refusal of the preparing step ends the operation; otherwise the step decides.\<close>

lemma and_then_simps [simp]:
  "and_then (Inl c, ov) f = (Inl c, ov)" "and_then (Inr u, ov) f = outcome (f ov)"
  by (simp_all add: and_then_def)

lemma write_refines:
  assumes sim: "sim D t ov m" and p: "p \<noteq> []" "path_condition p = Inr ()" and data: "data \<noteq> []"
    and room: "\<And>n. bt_get m p = Some n \<Longrightarrow>
      local_bytes ov + length (n_content n) + offset + length data \<le> quota_bytes ov"
    and u64: "offset + length data \<le> u64_max" "quota_bytes ov \<le> u64_max"
  shows "refines D t m (m_write p offset data m) (apply_to_overlay D t (Write p offset data) ov)"
proof -
  note ref = h_materialize_refused [OF sim p, where ino = "ino_for p"]
  show ?thesis
  proof (cases m p rule: model_cases)
    case (4 n)
    then have model: "m_write p offset data m
        = Inr (bt_insert p (Node (n_kind n) (write_bytes offset data (n_content n))) m)"
      by (auto simp: m_write_def is_file_def is_dir_def)
    from h_materialize_file [OF sim p 4, of "ino_for p"] show ?thesis
    proof (elim disjE exE conjE)
      fix ov' assume h: "h_materialize D t p (ino_for p) ov = (Inr (), ov')" and "materialized D t m p n ov ov'"
      from write_at_sim [OF this(2) 4 room [OF 4(1)] u64 data] h model show ?thesis
        by (simp add: refines_def agrees_def)
    qed (simp add: refines_def)
  qed (use ref sim in \<open>auto simp: refines_def agrees_def m_write_def is_dir_def\<close>)
qed

lemma truncate_sim:
  assumes mat: "materialized D t m p n ov0 ov" and n: "bt_get m p = Some n" "is_file (n_kind n)"
  shows "refines D t m (Inr (bt_insert p (Node (n_kind n) (resize sz (n_content n))) m))
      (outcome (Gfs_Overlay.truncate p sz ov))"
proof -
  from mat obtain e i where sim: "sim D t ov m" and e: "bt_get (entries ov) p = Some e" "e_present e"
      "e_content e = CLocal i" "e_kind e = n_kind n"
    by (auto simp: materialized_def)
  note ok = simD(5) [OF sim]
  have row: "row_ok D t (bt_get (files ov)) (next_content_id ov) p e" by (rule view_okD(1) [OF ok e(1)])
  then obtain bs where bs: "bt_get (files ov) i = Some bs" "length bs = e_size e" and ep: "e_path e = p"
      "good_path p"
    using e(3) by (auto simp: row_ok_def)
  have c: "n_content n = bs"
    using present_row_look [OF ok e(1,2)] simD(4) [OF sim] n(1) e(3) bs(1)
    by (auto simp: lookup_look content_at_def)
  define ov2 where "ov2 = snd (next_time (ov\<lparr>files := bt_insert i (resize sz bs) (files ov)\<rparr>))"
  define e' where "e' = e\<lparr>e_size := sz, e_mtime := clock ov2, e_ctime := clock ov2\<rparr>"
  have out: "outcome (Gfs_Overlay.truncate p sz ov) = (Inl QuotaExceeded, ov)
      \<or> outcome (Gfs_Overlay.truncate p sz ov) = (Inr (), commit [Put e'] [] None ov2)"
    using e n(2) bs by (auto simp: Gfs_Overlay.truncate_def present_row_def outcome_def e'_def ov2_def
        next_time_def resize_def is_file_def is_dir_def Let_def)
  have st: "entries ov2 = entries ov" "children ov2 = children ov" "next_content_id ov2 = next_content_id ov"
      "bt_get (files ov2) = (bt_get (files ov))(i \<mapsto> resize sz bs)"
    by (simp_all add: ov2_def next_time_def Let_def)
  have "sim D t (commit [Put e'] [] None ov2) (bt_insert p (Node (e_kind e) (resize sz bs)) m)"
  proof (rule sim_rewrite [OF sim ep(2) e(1-3), where e' = e'])
    show "rows_ok (commit [Put e'] [] None ov2)"
      unfolding commit_def
      by (rule rows_ok_commit) (use simD(3) [OF sim] st ep in \<open>auto simp: e'_def intro: rows_ok_fields\<close>)
    show "bt_get (files (commit [Put e'] [] None ov2)) = (bt_get (files ov))(i \<mapsto> resize sz bs)"
      by (rule ext) (simp add: commit_def st)
  qed (use e n(2) ep in \<open>simp_all add: commit_def st e'_def resize_def\<close>)
  with out sim e(4) c show ?thesis by (auto simp: refines_def agrees_def)
qed

lemma truncate_refines:
  assumes sim: "sim D t ov m" and p: "p \<noteq> []" "path_condition p = Inr ()"
  shows "refines D t m (m_truncate p sz m) (apply_to_overlay D t (Truncate p sz) ov)"
proof -
  note ref = h_materialize_refused [OF sim p, where ino = "ino_for p"]
  show ?thesis
  proof (cases m p rule: model_cases)
    case (4 n)
    then have model: "m_truncate p sz m = Inr (bt_insert p (Node (n_kind n) (resize sz (n_content n))) m)"
      by (auto simp: m_truncate_def is_file_def is_dir_def)
    from h_materialize_file [OF sim p 4, of "ino_for p"] show ?thesis
    proof (elim disjE exE conjE)
      fix ov' assume h: "h_materialize D t p (ino_for p) ov = (Inr (), ov')" and "materialized D t m p n ov ov'"
      from truncate_sim [OF this(2) 4] h model show ?thesis by simp
    qed (simp add: refines_def)
  qed (use ref sim in \<open>auto simp: refines_def agrees_def m_truncate_def is_dir_def\<close>)
qed

section \<open>The executable bit\<close>

text \<open>Adopting a path leaves the view alone and gives it a row.\<close>

lemma sim_touch:
  assumes sim: "sim D t ov m" and n: "bt_get m d = Some n" "is_dir (n_kind n)"
    and e: "touch_row D t (bt_get (entries ov)) d e"
    and st: "rows_ok ov'" "bt_get (entries ov') = (bt_get (entries ov))(d \<mapsto> e)"
      "bt_get (files ov') = bt_get (files ov)" "next_content_id ov' = next_content_id ov"
  shows "sim D t ov' m"
proof -
  have d: "dir_in D t ov d" using n dir_in_model [OF sim] by blast
  then have "d \<noteq> []" by (auto simp: dir_at_def look_def)
  with e have "good_touch D t (bt_get (entries ov)) d (TouchRow e)" by (simp add: good_touch_def)
  from touch_effect [OF simD(1) [OF sim] simD(5) [OF sim] _ this] d e st sim show ?thesis
    by (auto simp: touch_changes_def touch_row_def sim_def overlay_ok_def lookup_look)
qed

lemma adopt_sim:
  assumes sim: "sim D t ov m" and p: "p \<noteq> []" "path_condition p = Inr ()" and n: "bt_get m p = Some n"
  obtains e ov' where "adopt p (facts D t p) ino ov = (Inr e, ov')" "sim D t ov' m"
    "bt_get (entries ov') p = Some e" "e_present e" "e_kind e = n_kind n"
proof (cases "resolve (entries ov) p")
  case (Overlay e)
  with model_overlay [OF sim p(1) Overlay] n sim p show thesis by (intro that [of e ov]) (auto simp: adopt_def)
next
  case Base
  note base = simD(1) [OF sim] and mb = model_base [OF sim p(1) Base]
  from mb(1) n have "base_node_of t p = Some n" by simp
  with base obtain b where b: "bt_get t p = Some b" "from_entry_kind (bn_kind b) = Some (n_kind n)"
      "n_content n = bn_content b"
    by (rule base_node_ofE)
  define ov1 where "ov1 = snd (next_time ov)"
  define e where "e = \<lparr>e_path = p, e_present = True, e_kind = n_kind n, e_opaque = False, e_ino = ino,
      e_content = (if is_dir (n_kind n) then CNone else CBase (git_oid D (bn_content b))),
      e_symlink_target = None, e_size = length (bn_content b), e_mtime = clock ov1, e_ctime = clock ov1,
      e_renamed_from = None, e_base = facts D t p\<rparr>"
  have out: "adopt p (facts D t p) ino ov = (Inr e, commit [Put e] [] None ov1)"
    using p Base b base by (simp add: adopt_def facts_eq next_time_def e_def ov1_def Let_def)
  have st: "entries ov1 = entries ov" "children ov1 = children ov" "files ov1 = files ov"
      "next_content_id ov1 = next_content_id ov"
    by (simp_all add: ov1_def next_time_def Let_def)
  have good: "good_path p" using p by (simp add: path_condition_good)
  have rows: "rows_ok (commit [Put e] [] None ov1)"
    unfolding commit_def
    by (rule rows_ok_commit) (use simD(3) [OF sim] st good in \<open>auto simp: e_def intro: rows_ok_fields\<close>)
  have fin: "bt_get (entries (commit [Put e] [] None ov1)) = (bt_get (entries ov))(p \<mapsto> e)"
      "bt_get (files (commit [Put e] [] None ov1)) = bt_get (files ov)"
      "next_content_id (commit [Put e] [] None ov1) = next_content_id ov"
    by (auto simp: commit_def st e_def)
  have "sim D t (commit [Put e] [] None ov1) m"
  proof (cases "is_dir (n_kind n)")
    case True
    then have "touch_row D t (bt_get (entries ov)) p e"
      using mb(2) by (simp add: touch_row_def e_def is_dir_def)
    from sim_touch [OF sim n True this rows fin] show ?thesis .
  next
    case False
    then have ef: "e_path e = p" "e_present e" "e_kind e = n_kind n" "e_base e = facts D t p"
        "e_content e = CBase (git_oid D (bn_content b))"
      by (simp_all add: e_def)
    have shape: "shape_ok D t e"
      using False b(1) by (auto simp: shape_ok_def e_def in_base_def)
    have "content_at D t (bt_get (files ov)) e = bn_content b"
      using False content_of_oid_base [OF base b(1)] by (simp add: content_at_def e_def)
    moreover have "sim D t (commit [Put e] [] None ov1) (bt_insert p
        (Node (e_kind e) (content_at D t (bt_get (files (commit [Put e] [] None ov1))) e)) m)"
      by (rule sim_put [OF sim n False rows fin(1)])
        (use False good shape ef view_okD(4) [OF simD(5) [OF sim]] in \<open>auto simp: fin(2,3) row_ok_def\<close>)
    moreover have "Node (n_kind n) (bn_content b) = n" using b(3) by (cases n) simp
    ultimately have "sim D t (commit [Put e] [] None ov1) (bt_insert p n m)"
      using fin(2) by (simp add: e_def)
    moreover have "bt_get (bt_insert p n m) = bt_get m" using n by auto
    ultimately show ?thesis using sim by (auto simp: sim_def)
  qed
  with out fin(1) show thesis by (intro that) (auto simp: e_def)
qed (use model_absent [OF sim p(1)] n in simp)

lemma adopt_missing:
  assumes sim: "sim D t ov m" and p: "p \<noteq> []" "path_condition p = Inr ()" and n: "bt_get m p = None"
  shows "adopt p (facts D t p) ino ov = (Inl NoEntry, ov)"
proof (cases "resolve (entries ov) p")
  case Base
  note base = simD(1) [OF sim]
  from model_base(1) [OF sim p(1) Base] n have "bt_get t p = None"
    using base base_entryD [OF base, of p] by (auto simp: base_node_of_eq base_entry_ok_def split: option.splits)
  with Base base p show ?thesis by (simp add: adopt_def facts_eq)
qed (use p model_overlay(1) [OF sim p(1)] n in \<open>auto simp: adopt_def\<close>)

lemma set_executable_agrees:
  assumes sim: "sim D t ov m" and p: "p \<noteq> []" "path_condition p = Inr ()"
  shows "agrees D t m (m_set_executable p x m) (apply_to_overlay D t (SetExecutable p x) ov)"
proof (cases "bt_get m p")
  case None
  with adopt_missing [OF sim p None] sim show ?thesis
    by (simp add: agrees_def m_set_executable_def set_executable_def outcome_def)
next
  case (Some n)
  from adopt_sim [OF sim p Some, of "ino_for p"] obtain e ov1 where
    ad: "adopt p (facts D t p) (ino_for p) ov = (Inr e, ov1)" and sim1: "sim D t ov1 m"
    and e: "bt_get (entries ov1) p = Some e" "e_present e" "e_kind e = n_kind n" by blast
  let ?k = "if x then OExecutable else ORegular"
  define ov2 where "ov2 = snd (next_time ov1)"
  define e' where "e' = e\<lparr>e_kind := ?k, e_ctime := clock ov2\<rparr>"
  note ok = simD(5) [OF sim1]
  have row: "row_ok D t (bt_get (files ov1)) (next_content_id ov1) p e" by (rule view_okD(1) [OF ok e(1)])
  have st: "entries ov2 = entries ov1" "children ov2 = children ov1" "files ov2 = files ov1"
      "next_content_id ov2 = next_content_id ov1"
    by (simp_all add: ov2_def next_time_def Let_def)
  consider "\<not> is_file (n_kind n)" | "is_file (n_kind n)" "n_kind n = ?k" | "is_file (n_kind n)" "n_kind n \<noteq> ?k"
    by blast
  then show ?thesis
  proof cases
    case 1
    then have "is_dir (e_kind e) \<or> e_kind e = OSymlink" using e(3)
      by (cases "n_kind n") (auto simp: is_file_def is_dir_def)
    with 1 ad Some sim1 show ?thesis
      by (simp add: agrees_def m_set_executable_def set_executable_def outcome_def)
  next
    case 2
    then have "Node ?k (n_content n) = n" by (cases n) simp
    with Some have "bt_get (bt_insert p (Node ?k (n_content n)) m) = bt_get m" by auto
    then have "sim D t ov1 (bt_insert p (Node ?k (n_content n)) m)"
      using sim1 by (auto simp: sim_def)
    moreover have "\<not> is_dir (e_kind e)" "e_kind e \<noteq> OSymlink" "e_kind e = ?k"
      using 2 e(3) by (auto simp: is_dir_def)
    ultimately show ?thesis
      using 2(1) ad Some by (simp add: agrees_def m_set_executable_def set_executable_def outcome_def Let_def)
  next
    case 3
    then have k: "\<not> is_dir (e_kind e)" "e_kind e \<noteq> OSymlink" "e_kind e \<noteq> ?k"
      using e(3) by (auto simp: is_dir_def is_file_def)
    have out: "apply_to_overlay D t (SetExecutable p x) ov = (Inr (), commit [Put e'] [] None ov2)"
      using k ad by (simp add: set_executable_def outcome_def e'_def ov2_def next_time_def Let_def)
    have fin: "bt_get (entries (commit [Put e'] [] None ov2)) = (bt_get (entries ov1))(p \<mapsto> e')"
        "bt_get (files (commit [Put e'] [] None ov2)) = bt_get (files ov1)"
        "next_content_id (commit [Put e'] [] None ov2) = next_content_id ov1"
      using row by (auto simp: commit_def st e'_def row_ok_def)
    have rows: "rows_ok (commit [Put e'] [] None ov2)"
      unfolding commit_def
      by (rule rows_ok_commit) (use simD(3) [OF sim1] st row in \<open>auto simp: e'_def row_ok_def intro: rows_ok_fields\<close>)
    have row': "row_ok D t (bt_get (files ov1)) (next_content_id ov1) p e'"
      using row k e(2) by (auto simp: row_ok_def e'_def shape_ok_def is_file_def is_dir_def split: content.splits)
    have uniq: "bt_get (entries ov1) y = Some q \<Longrightarrow> e_content q = CLocal i \<Longrightarrow> e_content e' = CLocal i \<Longrightarrow> y = p"
      for y q i using view_okD(2) [OF ok] e(1) unfolding unique_ids_def e'_def by auto
    have nk: "\<not> is_dir (n_kind n)" using k(1) e(3) by simp
    have ef: "e_present e'" "\<not> is_dir (e_kind e')" and ek: "e_kind e' = ?k"
      using e(2) by (simp_all add: e'_def is_dir_def)
    have "sim D t (commit [Put e'] [] None ov2) (bt_insert p
        (Node (e_kind e') (content_at D t (bt_get (files (commit [Put e'] [] None ov2))) e')) m)"
      by (rule sim_put [OF sim1 Some nk rows fin(1)])
        (use row' uniq ef view_okD(4) [OF ok] in \<open>auto simp: fin(2,3)\<close>)
    moreover have "content_at D t (bt_get (files ov1)) e' = content_at D t (bt_get (files ov1)) e"
      by (rule content_at_cong) (simp_all add: e'_def)
    moreover have "content_at D t (bt_get (files ov1)) e = n_content n"
      using present_row_look [OF ok e(1,2)] simD(4) [OF sim1] Some by (auto simp: lookup_look)
    ultimately have "sim D t (commit [Put e'] [] None ov2) (bt_insert p (Node ?k (n_content n)) m)"
      using ek by (simp add: fin(2))
    with 3(1) out Some show ?thesis by (simp add: agrees_def m_set_executable_def)
  qed
qed

section \<open>Emptiness\<close>

text \<open>Below a directory there is something exactly when it has a child that exists.\<close>

lemma child_on_way:
  assumes "good_path x" and "below x d"
  obtains y where "parent_of y = d" "y = x \<or> below x y" "good_path y"
proof -
  obtain s where s: "x = d @ CHR ''/'' # s" using assms(2) by (auto simp: below_def)
  show thesis
  proof (cases "CHR ''/'' \<in> set s")
    case True
    then obtain n r where n: "s = n @ CHR ''/'' # r" "CHR ''/'' \<notin> set n" by (meson split_list_first)
    let ?y = "d @ CHR ''/'' # n"
    have "x = ?y @ CHR ''/'' # r" using s n by simp
    then have "below x ?y" by (auto simp: below_def)
    moreover have "good_path ?y" using assms(1) \<open>below x ?y\<close> by (rule good_below)
    ultimately show thesis using that [of ?y] n(2) by simp
  next
    case False
    with s assms(1) that [of x] show thesis by simp
  qed
qed

lemma good_parent_below: "good_path x \<Longrightarrow> parent_of x \<noteq> [] \<Longrightarrow> below x (parent_of x)"
  by (metis below_parent_iff good_parent_slash)

definition view_empty :: "digests \<Rightarrow> base_tree \<Rightarrow> row_map \<Rightarrow> file_map \<Rightarrow> path \<Rightarrow> bool" where
  "view_empty D t R F d \<longleftrightarrow> (\<forall>x. below x d \<longrightarrow> look D t R F x = None)"

lemma view_empty_children:
  assumes "base_ok D t" "view_ok D t R F nid" "d \<noteq> []"
  shows "view_empty D t R F d \<longleftrightarrow> (\<forall>x. good_path x \<longrightarrow> parent_of x = d \<longrightarrow> look D t R F x = None)"
proof
  assume "view_empty D t R F d"
  then show "\<forall>x. good_path x \<longrightarrow> parent_of x = d \<longrightarrow> look D t R F x = None"
    using good_parent_below assms(3) by (auto simp: view_empty_def)
next
  assume none: "\<forall>x. good_path x \<longrightarrow> parent_of x = d \<longrightarrow> look D t R F x = None"
  have False if x: "below x d" "look D t R F x = Some n" for x n
  proof -
    have "good_path x" using look_good [OF assms(1,2) x(2)] .
    then obtain y where y: "parent_of y = d" "y = x \<or> below x y" "good_path y"
      using x(1) by (rule child_on_way)
    then have "look D t R F y \<noteq> None"
      using look_closed [OF assms(1,2) x(2), of y] x(2) by (auto simp: dir_at_def)
    with none y(1,3) show False by auto
  qed
  then show "view_empty D t R F d" unfolding view_empty_def by (metis not_None_eq)
qed

lemma child_name_good:
  assumes "good_path q" and "good_path d"
  shows "child_name d q = (if parent_of q = d then Some (leaf q) else None)"
proof (cases "below q d")
  case True
  then obtain s where s: "q = d @ CHR ''/'' # s" by (auto simp: below_def)
  have "s \<noteq> []" using assms(1) s good_append_iff [of d s] by auto
  moreover have "d \<noteq> []" using assms(2) by auto
  ultimately have "child_name d q = (if CHR ''/'' \<in> set s then None else Some s)"
    using s by (auto simp: child_name_def Let_def)
  moreover have "parent_of q \<noteq> d" if "CHR ''/'' \<in> set s"
  proof -
    from that obtain a n where n: "s = a @ CHR ''/'' # n" "CHR ''/'' \<notin> set n" by (meson split_list_last)
    then have "parent_of q = d @ CHR ''/'' # a"
      using s parent_of_slash [OF n(2), of "d @ CHR ''/'' # a"] by simp
    then show ?thesis by simp
  qed
  moreover have "CHR ''/'' \<notin> set s \<Longrightarrow> parent_of q = d \<and> leaf q = s"
    using s assms(1) leaf_slash by simp
  ultimately show ?thesis by auto
next
  case False
  have "d \<noteq> []" using assms(2) by auto
  with False have "\<not> (starts_with q d \<and> length q > length d \<and> q ! length d = CHR ''/'')"
    using is_within_iff [of q d] unfolding is_within_def by (auto simp: below_def starts_with_iff)
  moreover have "parent_of q \<noteq> d" using False good_parent_below [OF assms(1)] \<open>d \<noteq> []\<close> by blast
  ultimately show ?thesis using assms(2) by (auto simp: child_name_def Let_def)
qed

lemma child_name_root: "good_path q \<Longrightarrow> child_name [] q = (if parent_of q = [] then Some (leaf q) else None)"
  by (auto simp: child_name_def good_parent_slash leaf_top)

lemma child_name_dir:
  "good_path q \<Longrightarrow> d = [] \<or> good_path d \<Longrightarrow> child_name d q = (if parent_of q = d then Some (leaf q) else None)"
  using child_name_good child_name_root by blast

lemma model_empty_dir:
  assumes "sim D t ov m" and "good_path p"
  shows "m_is_empty_dir m p \<longleftrightarrow> view_empty D t (bt_get (entries ov)) (bt_get (files ov)) p"
proof -
  note base = simD(1) [OF assms(1)] and ok = simD(5) [OF assms(1)]
  have p: "p \<noteq> []" using assms(2) by auto
  have key: "x \<in> set (map fst m) \<longleftrightarrow> look D t (bt_get (entries ov)) (bt_get (files ov)) x \<noteq> None" for x
    using simD(4) [OF assms(1)] by (metis lookup_look map_of_eq_None_iff set_map)
  have good: "good_path x" if "x \<in> set (map fst m)" for x
    using that key look_good [OF base ok] by auto
  have "m_is_empty_dir m p \<longleftrightarrow> (\<forall>x \<in> set (map fst m). parent_of x \<noteq> p)"
    using child_name_good [OF good assms(2)] by (auto simp: m_is_empty_dir_def list_ex_iff)
  also have "\<dots> \<longleftrightarrow> (\<forall>x. good_path x \<longrightarrow> parent_of x = p \<longrightarrow>
      look D t (bt_get (entries ov)) (bt_get (files ov)) x = None)"
    using key good by blast
  also have "\<dots> \<longleftrightarrow> view_empty D t (bt_get (entries ov)) (bt_get (files ov)) p"
    using view_empty_children [OF base ok p] by simp
  finally show ?thesis .
qed

text \<open>Directly below an unmasked directory, resolution is the child's own row or the base.\<close>

lemma child_resolution:
  assumes "good_path x" and "R [] = None"
  shows "blocked R x \<or> masked R x \<longleftrightarrow>
    blocked R (parent_of x) \<or> masked R (parent_of x)
    \<or> (\<exists>e. R (parent_of x) = Some e \<and> (blocking e \<or> e_opaque e))"
proof -
  have anc: "set (ancestors_of x) = insert [] (insert (parent_of x) (set (ancestors_of (parent_of x))))"
    by (rule good_ancestors_parent [OF assms(1)])
  show ?thesis unfolding blocked_def masked_def anc using assms(2) by auto
qed

lemma base_child_names:
  assumes "base_ok D t" and "p = [] \<or> good_path p"
  shows "set (child_names t p) = {leaf x | x. bt_get t x \<noteq> None \<and> parent_of x = p}"
proof -
  have good: "good_path x" if "bt_get t x \<noteq> None" for x
    using that base_entryD [OF assms(1), of x] by (auto simp: base_entry_ok_def)
  have mem: "x \<in> fst ` set t \<longleftrightarrow> bt_get t x \<noteq> None" for x
    by (metis map_of_eq_None_iff)
  have A: "n \<in> set (child_names t p) \<longleftrightarrow> (\<exists>x. bt_get t x \<noteq> None \<and> child_name p x = Some n)" for n
    using mem by (force simp: child_names_def map_filter_def image_iff)
  have B: "bt_get t x \<noteq> None \<and> child_name p x = Some n \<longleftrightarrow> n = leaf x \<and> bt_get t x \<noteq> None \<and> parent_of x = p" for x n
    using child_name_dir [OF good assms(2), of x] by (auto split: if_splits)
  show ?thesis by (rule set_eqI) (simp only: A B mem_Collect_eq)
qed

lemma child_look:
  assumes ok: "view_ok D t (bt_get (entries ov)) F nid" and x: "good_path x"
  shows "look D t (bt_get (entries ov)) F x = (case bt_get (entries ov) x of
      Some e \<Rightarrow> if e_present e then Some (Node (e_kind e) (content_at D t F e)) else None
    | None \<Rightarrow> if masks_base (entries ov) (parent_of x) then None else base_node_of t x)"
proof (cases "bt_get (entries ov) x")
  case None
  have "blocked (bt_get (entries ov)) x \<or> masked (bt_get (entries ov)) x \<longleftrightarrow> masks_base (entries ov) (parent_of x)"
    using child_resolution [OF x, where R = "bt_get (entries ov)"] root_row [OF ok] by (simp add: masks_base_eq)
  with None x show ?thesis by (auto simp: look_def resolves_def)
next
  case (Some e)
  then show ?thesis using present_row_look [OF ok Some] x by (auto simp: look_def resolves_def)
qed

lemma merged_empty:
  fixes ov t
  defines "R \<equiv> bt_get (entries ov)" and "F \<equiv> bt_get (files ov)"
  assumes base: "base_ok D t" and rows: "rows_ok ov" and ok: "view_ok D t R F nid"
    and p: "dir_at D t R F p"
  shows "merged_dir_is_empty ov p (child_names t p) \<longleftrightarrow> view_empty D t R F p"
proof -
  have good: "good_path p" using p look_good [OF base ok] by (auto simp: dir_at_def)
  then have ne: "p \<noteq> []" by auto
  have root: "R [] = None" by (rule root_row [OF ok])
  have join: "join_path p (leaf x) = x" if "good_path x" "parent_of x = p" for x
    using join_parent_leaf [OF that(1)] that(2) by simp
  let ?child = "\<lambda>x. good_path x \<and> parent_of x = p"
  have vis: "look D t R F x = (case R x of Some e \<Rightarrow> if e_present e
      then Some (Node (e_kind e) (content_at D t F e)) else None
      | None \<Rightarrow> if masks_base (entries ov) p then None else base_node_of t x)" if "?child x" for x
    using child_look [OF ok [unfolded R_def], of x] that by (simp add: R_def)
  have kids: "(case bt_get (children ov) p of None \<Rightarrow> {} | Some s \<Rightarrow> s) = leaf ` {x \<in> dom R. parent_of x = p}"
    using rows by (simp add: rows_ok_def kids_ok_def kids_def R_def)
  have rgood: "good_path x" if "R x = Some e" for x e using good_row [OF ok that] .
  have one: "(\<exists>n \<in> leaf ` {x \<in> dom R. parent_of x = p}. case R (join_path p n) of None \<Rightarrow> False | Some e \<Rightarrow> e_present e)
      \<longleftrightarrow> (\<exists>x e. ?child x \<and> R x = Some e \<and> e_present e)"
  proof -
    have "(case R (join_path p (leaf x)) of None \<Rightarrow> False | Some e \<Rightarrow> e_present e)
        \<longleftrightarrow> (\<exists>e. R x = Some e \<and> e_present e)" if "x \<in> dom R" "parent_of x = p" for x
      using that join rgood by (auto split: option.splits)
    then have "(\<exists>n \<in> leaf ` {x \<in> dom R. parent_of x = p}. case R (join_path p n) of None \<Rightarrow> False | Some e \<Rightarrow> e_present e)
        \<longleftrightarrow> (\<exists>x \<in> dom R. parent_of x = p \<and> (\<exists>e. R x = Some e \<and> e_present e))"
      by (simp add: conj_commute cong: bex_cong) blast
    then show ?thesis using rgood by (simp add: dom_def) blast
  qed
  have bgood: "good_path x" if "bt_get t x \<noteq> None" for x
    using that base_entryD [OF base, of x] by (auto simp: base_entry_ok_def)
  have two: "list_all (\<lambda>n. case R (join_path p n) of Some e \<Rightarrow> \<not> e_present e | None \<Rightarrow> False) (child_names t p)
      \<longleftrightarrow> (\<forall>x. bt_get t x \<noteq> None \<longrightarrow> parent_of x = p \<longrightarrow> (\<exists>e. R x = Some e \<and> \<not> e_present e))"
  proof -
    have "(case R (join_path p (leaf x)) of Some e \<Rightarrow> \<not> e_present e | None \<Rightarrow> False)
        \<longleftrightarrow> (\<exists>e. R x = Some e \<and> \<not> e_present e)" if "bt_get t x \<noteq> None" "parent_of x = p" for x
      using join [OF bgood [OF that(1)] that(2)] by (simp split: option.splits)
    then show ?thesis
      unfolding list_all_iff base_child_names [OF base disjI2 [OF good]] by blast
  qed
  have bnode: "base_node_of t x = None \<longleftrightarrow> bt_get t x = None" for x
    using base base_entryD [OF base, of x] by (auto simp: base_node_of_eq base_entry_ok_def split: option.splits)
  have "view_empty D t R F p \<longleftrightarrow> (\<forall>x. ?child x \<longrightarrow> look D t R F x = None)"
    using view_empty_children [OF base ok ne] by blast
  also have "\<dots> \<longleftrightarrow> \<not> (\<exists>x e. ?child x \<and> R x = Some e \<and> e_present e) \<and>
      (masks_base (entries ov) p \<or>
       (\<forall>x. bt_get t x \<noteq> None \<longrightarrow> parent_of x = p \<longrightarrow> (\<exists>e. R x = Some e \<and> \<not> e_present e)))"
    (is "?A \<longleftrightarrow> \<not> ?B \<and> (?M \<or> ?C)")
  proof -
    have each: "look D t R F x = None \<longleftrightarrow> \<not> (\<exists>e. R x = Some e \<and> e_present e) \<and>
        (?M \<or> (bt_get t x \<noteq> None \<longrightarrow> (\<exists>e. R x = Some e \<and> \<not> e_present e)))" if "?child x" for x
      using vis [OF that] bnode [of x] by (cases "R x") auto
    have "?A \<Longrightarrow> \<not> ?B" using each by blast
    moreover have "?A \<Longrightarrow> ?M \<or> ?C" using each bgood by blast
    moreover have "\<not> ?B \<Longrightarrow> ?M \<or> ?C \<Longrightarrow> ?A" using each by blast
    ultimately show ?thesis by blast
  qed
  finally show ?thesis
    unfolding merged_dir_is_empty_def Let_def kids R_def [symmetric] one two by auto
qed

section \<open>Removing\<close>

lemma row_base_facts:
  "row_ok D t F nid p e \<Longrightarrow> row_base (Some e) (facts D t p) = facts D t p"
  by (auto simp: row_ok_def row_base_def split: option.splits)

lemma whiteout_row_ok: "facts D t p = Some f \<Longrightarrow> good_path p \<Longrightarrow> row_ok D t F nid p (whiteout p f ino now)"
  by (simp add: row_ok_def whiteout_def)

lemma row_ids_iff: "i \<in> set (row_ids r) \<longleftrightarrow> (\<exists>e. r = Some e \<and> e_content e = CLocal i)"
  by (cases r) (auto simp: row_ids_def local_id_iff dest: sym split: option.splits)

text \<open>The files a removal releases are those of the row that goes.\<close>

lemma release_same_files:
  assumes "view_ok D t R F nid" and "\<And>i. i \<in> ids \<Longrightarrow> \<exists>e. R p = Some e \<and> e_content e = CLocal i"
  shows "same_files R p F (\<lambda>i. if i \<in> ids then None else F i)"
  using assms(2) view_okD(2) [OF assms(1)] unfolding same_files_def unique_ids_def by metis

lemma sim_remove:
  assumes sim: "sim D t ov m" and n: "bt_get m p = Some n"
    and empty: "is_dir (n_kind n) \<Longrightarrow> view_empty D t (bt_get (entries ov)) (bt_get (files ov)) p"
    and st: "entries ov1 = entries ov" "children ov1 = children ov" "files ov1 = files ov"
      "next_content_id ov1 = next_content_id ov"
    and c: "change_key c = p" "gone_row t p (change_val c)"
      "\<And>e. change_val c = Some e \<Longrightarrow> row_ok D t (\<lambda>_. None) 0 p e"
    and rel: "set rel \<subseteq> set (row_ids (bt_get (entries ov) p))"
  shows "sim D t (commit_touching [c] rel p (parent_for D t p) now ov1) (bt_remove p m)"
proof -
  let ?R = "bt_get (entries ov)" and ?F = "bt_get (files ov)"
  let ?F' = "\<lambda>i. if i \<in> set rel then None else ?F i"
  let ?ov' = "commit_touching [c] rel p (parent_for D t p) now ov1"
  note base = simD(1) [OF sim] and ok = simD(5) [OF sim]
  have look: "look D t ?R ?F p = Some n" using n simD(4) [OF sim] by (simp add: lookup_look)
  have p: "good_path p" using look_good [OF base ok look] .
  have par: "parent_of p = [] \<or> dir_at D t ?R ?F (parent_of p)"
    using look_closed [OF base ok look] good_parent_below [OF p] by blast
  have keys: "\<forall>x \<in> set [c]. good_path (change_key x) \<and> change_key x \<noteq> parent_of p"
    using p c(1) parent_neq by force
  have st1: "?R = bt_get (entries ov1)" "?F = bt_get (files ov1)" "next_content_id ov = next_content_id ov1"
    by (simp_all add: st)
  obtain R1 where R1: "view_ok D t R1 ?F (next_content_id ov)" "look D t R1 ?F = look D t ?R ?F"
      "\<And>x. x \<noteq> parent_of p \<Longrightarrow> R1 x = ?R x"
      "\<And>x e i. R1 x = Some e \<Longrightarrow> e_content e = CLocal i \<Longrightarrow> ?R x = Some e"
    and st': "bt_get (entries ?ov') = fold upd [c] R1" "bt_get (files ?ov') = ?F'"
      "next_content_id ?ov' = next_content_id ov" "rows_ok ?ov'"
    by (rule commit_touching_effect [OF st1 base rows_ok_fields [OF simD(3) [OF sim] st(1,2)] ok p par keys,
          where rel = rel and now = now]) (rule that)
  have R1p: "R1 p = ?R p" using R1(3) parent_neq [OF p] by metis
  have none: "look D t R1 ?F x = None" if "below x p" for x
  proof (cases "is_dir (n_kind n)")
    case True
    with empty that R1(2) show ?thesis by (simp add: view_empty_def)
  next
    case False
    then have "\<not> dir_at D t ?R ?F p" using look by (simp add: dir_at_def)
    with look_below_none [OF base ok that] R1(2) show ?thesis by simp
  qed
  have files: "same_files R1 p ?F ?F'"
    by (rule release_same_files [OF R1(1)]) (use rel R1p row_ids_iff in auto)
  have ids: "?F' i \<noteq> None \<Longrightarrow> i < next_content_id ov" for i
    using view_okD(4) [OF ok, of i] by (simp split: if_splits)
  have row: "row_ok D t ?F' (next_content_id ov) p e" if "change_val c = Some e" for e
    using c(3) [OF that] by (auto simp: row_ok_def)
  have entries': "bt_get (entries ?ov') = R1(p := change_val c)" using st'(1) c(1) by (simp add: upd_def)
  have "overlay_ok D t ?ov'"
    using view_ok_remove [OF base R1(1) p none c(2) files ids row] st'
    by (simp add: overlay_ok_def entries')
  moreover have "lookup D t ?ov' = (lookup D t ov)(p := None)"
    using look_remove [OF base R1(1) p none c(2) files] by (simp add: lookup_look entries' st'(2) R1(2))
  ultimately show ?thesis using sim by (simp add: sim_def)
qed

lemma remove_agrees:
  assumes sim: "sim D t ov m" and p: "p \<noteq> []" and n: "bt_get m p = Some n"
    and dir: "is_dir (n_kind n) = expect" and empty: "expect \<Longrightarrow> merged \<and> m_is_empty_dir m p"
  shows "fst (remove p (facts D t p) (parent_for D t p) expect merged ov) = Inr ()
    \<and> sim D t (snd (remove p (facts D t p) (parent_for D t p) expect merged ov)) (bt_remove p m)"
proof -
  let ?R = "bt_get (entries ov)" and ?F = "bt_get (files ov)"
  note base = simD(1) [OF sim] and ok = simD(5) [OF sim]
  have look: "look D t ?R ?F p = Some n" using n simD(4) [OF sim] by (simp add: lookup_look)
  have good: "good_path p" using look_good [OF base ok look] .
  have ve: "view_empty D t ?R ?F p" if "is_dir (n_kind n)"
    using that dir empty model_empty_dir [OF sim good] by simp
  have doomed: "(if is_dir (n_kind n) then filter e_present (rows_under (entries ov) p) else []) = []"
  proof -
    have "\<not> e_present e" if "is_dir (n_kind n)" "e \<in> set (rows_under (entries ov) p)" for e
    proof -
      have "bt_ok (entries ov)" using simD(3) [OF sim] by (simp add: rows_ok_def)
      with that(2) p obtain x where x: "?R x = Some e" "below x p" by (auto simp: set_rows_under)
      from ve [OF that(1)] x(2) have "look D t ?R ?F x = None" by (simp add: view_empty_def)
      with present_row_look [OF ok x(1)] show ?thesis by auto
    qed
    then show ?thesis by (simp add: filter_empty_conv)
  qed
  have kind: "existing ov p (facts D t p) = Some (to_entry_kind (n_kind n))"
    using existing_model [OF sim p] n by simp
  have rb: "row_base (?R p) (facts D t p) = facts D t p"
  proof (cases "?R p")
    case (Some e)
    then show ?thesis using row_base_facts [OF view_okD(1) [OF ok Some]] by simp
  qed (simp add: row_base_def)
  let ?ids = "row_ids (?R p)"
  have out: "\<exists>c now ov1. remove p (facts D t p) (parent_for D t p) expect merged ov
        = (Inr (), commit_touching [c] ?ids p (parent_for D t p) now ov1)
      \<and> entries ov1 = entries ov \<and> children ov1 = children ov \<and> files ov1 = files ov
      \<and> next_content_id ov1 = next_content_id ov \<and> change_key c = p
      \<and> (c = Delete p \<and> facts D t p = None \<or> (\<exists>f i s. facts D t p = Some f \<and> c = Put (whiteout p f i s)))"
  proof (cases "facts D t p")
    case None
    have "remove p (facts D t p) (parent_for D t p) expect merged ov = (Inr (), commit_touching [Delete p] ?ids p
        (parent_for D t p) (fst (next_time ov)) (snd (next_time ov)))"
      using p kind dir empty rb doomed None by (simp add: remove_def Let_def case_prod_beta)
    then show ?thesis
      using None by (intro exI [of _ "Delete p"] exI [of _ "fst (next_time ov)"] exI [of _ "snd (next_time ov)"])
        (simp add: next_time_def Let_def)
  next
    case (Some f)
    let ?ov1 = "snd (next_time ov)"
    let ?w = "whiteout p f (case ?R p of None \<Rightarrow> 0 | Some e \<Rightarrow> e_ino e) (fst (next_time ov))"
    have "remove p (facts D t p) (parent_for D t p) expect merged ov = (Inr (), commit_touching [Put ?w] ?ids p
        (parent_for D t p) (fst (next_time ?ov1)) (snd (next_time ?ov1)))"
      using p kind dir empty rb doomed Some by (simp add: remove_def Let_def case_prod_beta)
    moreover have "change_key (Put ?w) = p" by (simp add: whiteout_def)
    ultimately show ?thesis
      using Some by (intro exI [of _ "Put ?w"] exI [of _ "fst (next_time ?ov1)"] exI [of _ "snd (next_time ?ov1)"])
        (auto simp: next_time_def Let_def)
  qed
  then obtain c now ov1 where
    r: "remove p (facts D t p) (parent_for D t p) expect merged ov
        = (Inr (), commit_touching [c] ?ids p (parent_for D t p) now ov1)"
    and st: "entries ov1 = entries ov" "children ov1 = children ov" "files ov1 = files ov"
      "next_content_id ov1 = next_content_id ov" and ck: "change_key c = p"
    and cv: "c = Delete p \<and> facts D t p = None \<or> (\<exists>f i s. facts D t p = Some f \<and> c = Put (whiteout p f i s))"
    by blast
  have gr: "gone_row t p (change_val c)"
    using cv base by (auto simp: gone_row_def facts_eq whiteout_def)
  have "row_ok D t (\<lambda>_. None) 0 p e" if "change_val c = Some e" for e
    using cv that good whiteout_row_ok by auto
  from sim_remove [OF sim n ve st ck gr this subset_refl] r show ?thesis by simp
qed

lemma unlink_agrees:
  assumes sim: "sim D t ov m" and p: "p \<noteq> []"
  shows "agrees D t m (m_unlink p m) (apply_to_overlay D t (Unlink p) ov)"
proof (cases "bt_get m p")
  case None
  then show ?thesis
    using sim p by (simp add: agrees_def m_unlink_def remove_def existing_model [OF sim p])
next
  case (Some n)
  show ?thesis
  proof (cases "is_dir (n_kind n)")
    case True
    with Some sim p show ?thesis
      by (simp add: agrees_def m_unlink_def remove_def existing_model [OF sim p])
  next
    case False
    with remove_agrees [OF sim p Some, of False True] Some show ?thesis
      by (simp add: agrees_def m_unlink_def)
  qed
qed

lemma rmdir_agrees:
  assumes sim: "sim D t ov m" and p: "p \<noteq> []"
  shows "agrees D t m (m_rmdir p m) (apply_to_overlay D t (Rmdir p) ov)"
proof (cases "bt_get m p")
  case None
  then show ?thesis
    using sim p by (simp add: agrees_def m_rmdir_def remove_def existing_model [OF sim p])
next
  case (Some n)
  show ?thesis
  proof (cases "is_dir (n_kind n)")
    case False
    with Some sim p show ?thesis
      by (simp add: agrees_def m_rmdir_def remove_def existing_model [OF sim p])
  next
    case True
    have d: "dir_in D t ov p" using True Some dir_in_model [OF sim] by blast
    then have "good_path p" using look_good [OF simD(1,5) [OF sim]] by (auto simp: dir_at_def)
    with merged_empty [OF simD(1,3,5) [OF sim] d] model_empty_dir [OF sim]
    have eq: "merged_dir_is_empty ov p (child_names t p) \<longleftrightarrow> m_is_empty_dir m p" by simp
    show ?thesis
    proof (cases "m_is_empty_dir m p")
      case True
      with remove_agrees [OF sim p Some, of True "merged_dir_is_empty ov p (child_names t p)"]
        \<open>is_dir (n_kind n)\<close> Some eq show ?thesis by (simp add: agrees_def m_rmdir_def)
    next
      case False
      with \<open>is_dir (n_kind n)\<close> Some sim p eq show ?thesis
        by (simp add: agrees_def m_rmdir_def remove_def existing_model [OF sim p])
    qed
  qed
qed

end
