(* ===== verification/Gfs_RefineRename.thy ===== *)
theory Gfs_RefineRename
  imports Gfs_Refine
begin

text \<open>
  Rename: the overlay moves the rows at and below the source, materializes a row for every base
  entry that still shows through there, removes what the destination held and hides the source.
  The first part states what such a relocation of rows does to the view; the second shows that the
  changes \<open>rename\<close> commits are one; the third that the model's map moves the same way.
\<close>

section \<open>Relocating a subtree\<close>

definition inside :: "path \<Rightarrow> path \<Rightarrow> bool" where
  "inside x d \<longleftrightarrow> x = d \<or> below x d"

lemma inside_iff: "inside x d \<longleftrightarrow> x = d \<or> (\<exists>s. x = d @ CHR ''/'' # s)"
  by (simp add: inside_def below_def)

lemma is_within_inside: "d \<noteq> [] \<Longrightarrow> is_within x d \<longleftrightarrow> inside x d"
  by (simp add: is_within_iff inside_def)

lemma inside_below: "inside a d \<Longrightarrow> below x a \<Longrightarrow> inside x d"
  by (auto simp: inside_def dest: below_trans)

lemma inside_disjoint:
  assumes "\<not> inside to from" and "\<not> inside from to"
  shows "\<not> (inside x from \<and> inside x to)"
  using assms below_linear [of x "from" to] by (auto simp: inside_def)

text \<open>The path under \<open>from\<close> that \<open>x\<close>, at or under \<open>to\<close>, corresponds to.\<close>

definition origin :: "path \<Rightarrow> path \<Rightarrow> path \<Rightarrow> path" where
  "origin from to x = from @ drop (length to) x"

lemma origin_simps [simp]:
  "origin from to to = from" "origin from to (to @ CHR ''/'' # s) = from @ CHR ''/'' # s"
  by (simp_all add: origin_def)

lemma origin_inside: "inside x to \<Longrightarrow> inside (origin from to x) from"
  by (auto simp: inside_iff)

lemma origin_outside:
  "\<not> inside to from \<Longrightarrow> \<not> inside from to \<Longrightarrow> inside x to \<Longrightarrow> \<not> inside (origin from to x) to"
  using inside_disjoint origin_inside by blast

lemma origin_inj: "inside x to \<Longrightarrow> inside y to \<Longrightarrow> origin from to x = origin from to y \<Longrightarrow> x = y"
  by (auto simp: inside_iff)

text \<open>Row \<open>e\<close> at \<open>x\<close> holds what the view had at \<open>y\<close>.\<close>

definition stands_for ::
  "digests \<Rightarrow> base_tree \<Rightarrow> row_map \<Rightarrow> file_map \<Rightarrow> path \<Rightarrow> path \<Rightarrow> overlay_entry \<Rightarrow> bool" where
  "stands_for D t R F y x e \<longleftrightarrow>
     look D t R F y = Some (Node (e_kind e) (content_at D t F e)) \<and> e_present e \<and> shape_ok D t e
     \<and> e_path e = x \<and> (e_base e = None \<or> e_base e = facts D t x)
     \<and> (\<forall>i. e_content e = CLocal i \<longrightarrow> (\<exists>q. R y = Some q \<and> e_content q = CLocal i \<and> e_size q = e_size e))"

text \<open>
  A relocation from \<open>R\<close>, \<open>F\<close> to \<open>R'\<close>, \<open>F'\<close>: the destination holds rows for exactly what the view had
  under the source, nothing present is left at or under the source, nothing else changed, and only
  files of rows at or under the destination may be gone.
\<close>

definition relocated ::
  "digests \<Rightarrow> base_tree \<Rightarrow> path \<Rightarrow> path \<Rightarrow> row_map \<Rightarrow> file_map \<Rightarrow> row_map \<Rightarrow> file_map \<Rightarrow> bool" where
  "relocated D t from to R F R' F' \<longleftrightarrow>
     (\<exists>e. R' to = Some e \<and> stands_for D t R F from to e \<and> (is_dir (e_kind e) \<longrightarrow> e_opaque e))
     \<and> (\<forall>s. R' (to @ CHR ''/'' # s) = None \<and> look D t R F (from @ CHR ''/'' # s) = None
          \<or> (\<exists>e. R' (to @ CHR ''/'' # s) = Some e
               \<and> stands_for D t R F (from @ CHR ''/'' # s) (to @ CHR ''/'' # s) e))
     \<and> gone_row t from (R' from) \<and> (\<forall>e. R' from = Some e \<longrightarrow> e_path e = from \<and> e_content e = CNone
          \<and> (e_base e = None \<or> e_base e = facts D t from))
     \<and> (\<forall>x. below x from \<longrightarrow> R' x = None \<or> R' x = R x \<and> (\<exists>e. R x = Some e \<and> \<not> e_present e))
     \<and> (\<forall>x. \<not> inside x from \<longrightarrow> \<not> inside x to \<longrightarrow> R' x = R x)
     \<and> (\<forall>x e i. \<not> inside x to \<longrightarrow> R x = Some e \<longrightarrow> e_content e = CLocal i \<longrightarrow> F' i = F i)
     \<and> (\<forall>i. F' i \<noteq> None \<longrightarrow> F i \<noteq> None)"

lemma relocatedI:
  assumes "R' to = Some e" "stands_for D t R F from to e" "is_dir (e_kind e) \<longrightarrow> e_opaque e"
    and "\<And>s. R' (to @ CHR ''/'' # s) = None \<and> look D t R F (from @ CHR ''/'' # s) = None
          \<or> (\<exists>e. R' (to @ CHR ''/'' # s) = Some e
               \<and> stands_for D t R F (from @ CHR ''/'' # s) (to @ CHR ''/'' # s) e)"
    and "gone_row t from (R' from)"
    and "\<And>e. R' from = Some e \<Longrightarrow> e_path e = from \<and> e_content e = CNone
          \<and> (e_base e = None \<or> e_base e = facts D t from)"
    and "\<And>x. below x from \<Longrightarrow> R' x = None \<or> R' x = R x \<and> (\<exists>e. R x = Some e \<and> \<not> e_present e)"
    and "\<And>x. \<not> inside x from \<Longrightarrow> \<not> inside x to \<Longrightarrow> R' x = R x"
    and "\<And>x e i. \<not> inside x to \<Longrightarrow> R x = Some e \<Longrightarrow> e_content e = CLocal i \<Longrightarrow> F' i = F i"
    and "\<And>i. F' i \<noteq> None \<Longrightarrow> F i \<noteq> None"
  shows "relocated D t from to R F R' F'"
  unfolding relocated_def using assms by auto

lemma relocated_at:
  assumes "relocated D t from to R F R' F'" and "inside x to"
  shows "R' x = None \<and> look D t R F (origin from to x) = None
    \<or> (\<exists>e. R' x = Some e \<and> stands_for D t R F (origin from to x) x e)"
  using assms unfolding relocated_def inside_iff by auto

lemma relocatedD:
  assumes "relocated D t from to R F R' F'"
  shows "\<exists>e. R' to = Some e \<and> stands_for D t R F from to e \<and> (is_dir (e_kind e) \<longrightarrow> e_opaque e)"
    and "gone_row t from (R' from)"
    and "R' from = Some e \<Longrightarrow> e_path e = from \<and> e_content e = CNone \<and> \<not> e_present e
           \<and> (e_base e = None \<or> e_base e = facts D t from)"
    and "below x from \<Longrightarrow> R' x = Some e \<Longrightarrow> R x = Some e \<and> \<not> e_present e"
    and "\<not> inside x from \<Longrightarrow> \<not> inside x to \<Longrightarrow> R' x = R x"
    and "\<not> inside x to \<Longrightarrow> R x = Some e \<Longrightarrow> e_content e = CLocal i \<Longrightarrow> F' i = F i"
    and "F' i \<noteq> None \<Longrightarrow> F i \<noteq> None"
proof -
  show g: "gone_row t from (R' from)" using assms by (simp add: relocated_def)
  show "R' from = Some e \<Longrightarrow> e_path e = from \<and> e_content e = CNone \<and> \<not> e_present e
           \<and> (e_base e = None \<or> e_base e = facts D t from)"
    using assms g by (simp add: relocated_def gone_row_def)
  have b: "below x from \<Longrightarrow> R' x = None \<or> R' x = R x \<and> (\<exists>e. R x = Some e \<and> \<not> e_present e)"
    using assms by (simp add: relocated_def)
  show "below x from \<Longrightarrow> R' x = Some e \<Longrightarrow> R x = Some e \<and> \<not> e_present e" using b by auto
qed (use assms in \<open>simp_all add: relocated_def\<close>)

lemma relocated_source_absent:
  "relocated D t from to R F R' F' \<Longrightarrow> inside x from \<Longrightarrow> R' x = Some e \<Longrightarrow> \<not> e_present e"
  using relocatedD(3,4) unfolding inside_def by blast

lemma stands_for_content:
  assumes reloc: "relocated D t from to R F R' F'" and dis: "\<not> inside to from" "\<not> inside from to"
    and x: "inside x to" and e: "stands_for D t R F (origin from to x) x e"
  shows "content_at D t F' e = content_at D t F e"
proof -
  have "\<not> inside (origin from to x) to" using dis x by (rule origin_outside)
  then have "F' i = F i" if "e_content e = CLocal i" for i
    using relocatedD(6) [OF reloc] e that unfolding stands_for_def by blast
  then show ?thesis by (auto simp: content_at_def split: content.splits)
qed

lemma look_relocated_outside:
  assumes reloc: "relocated D t from to R F R' F'" and x: "\<not> inside x from" "\<not> inside x to"
    and ne: "from \<noteq> []" "to \<noteq> []"
  shows "look D t R' F' x = look D t R F x"
proof (rule look_cong)
  have other: "R' y = R y" if "\<not> inside y from" "\<not> inside y to" for y
    using relocatedD(5) [OF reloc that] .
  show "R' x = R x" using other x by blast
  show "R' a = R a" if "a \<in> set (ancestors_of x)" for a
  proof (rule other)
    from that have "a = [] \<or> below x a" by (auto simp: ancestors_iff)
    then show "\<not> inside a from" "\<not> inside a to"
      using x ne inside_below by (auto simp: inside_def)
  qed
  show "F' i = F i" if "R x = Some e" "e_content e = CLocal i" for e i
    using relocatedD(6) [OF reloc x(2) that] .
qed

lemma look_relocated_source:
  assumes base: "base_ok D t" and reloc: "relocated D t from to R F R' F'" and "good_path from"
    and x: "inside x from"
  shows "look D t R' F' x = None"
proof (rule look_gone_within [OF base])
  show "gone_row t from (R' from)" using relocatedD(2) [OF reloc] .
  show "\<not> e_present e" if "below y from" "R' y = Some e" for y e
    using relocatedD(4) [OF reloc that] by simp
qed (use assms in \<open>auto simp: inside_def\<close>)

lemma relocated_not_blocked:
  assumes base: "base_ok D t" and ok: "view_ok D t R F nid" and reloc: "relocated D t from to R F R' F'"
    and dis: "\<not> inside to from" "\<not> inside from to" and good: "good_path from" "good_path to"
    and above: "\<And>a. below to a \<Longrightarrow> dir_at D t R F a"
    and x: "inside x to" "look D t R F (origin from to x) \<noteq> None"
  shows "\<not> blocked R' x"
proof
  assume "blocked R' x"
  then obtain a e where a: "a \<in> set (ancestors_of x)" "R' a = Some e" "blocking e"
    unfolding blocked_def by blast
  have other: "R' y = R y" if "\<not> inside y from" "\<not> inside y to" for y
    using relocatedD(5) [OF reloc that] .
  show False
  proof (cases "inside a to")
    case True
    with a(1) good(2) have xa: "below x a" by (auto simp: ancestors_iff inside_def)
    have "below (origin from to x) (origin from to a)"
      using xa x(1) True by (auto simp: inside_iff below_def)
    with look_closed [OF base ok] x(2) have dir: "dir_at D t R F (origin from to a)" by blast
    with relocated_at [OF reloc True] a(2) have "stands_for D t R F (origin from to a) a e"
      by (auto simp: dir_at_def)
    with dir a(3) show False by (auto simp: stands_for_def dir_at_def blocking_def)
  next
    case False
    from a(1) have "a = [] \<or> below x a" by (auto simp: ancestors_iff)
    with False x(1) have "a = [] \<or> below to a"
      using below_linear [of x a to] by (auto simp: inside_def)
    moreover have "\<not> inside a from"
      using calculation dis good(1) inside_below by (auto simp: inside_def)
    ultimately have "R a = Some e" "a = [] \<or> dir_at D t R F a" using other False a(2) above by auto
    with a(3) root_row [OF ok] show False by (auto simp: blocking_def dest: dir_at_row)
  qed
qed

lemma look_relocated_target:
  assumes base: "base_ok D t" and ok: "view_ok D t R F nid" and reloc: "relocated D t from to R F R' F'"
    and dis: "\<not> inside to from" "\<not> inside from to" and good: "good_path from" "good_path to"
    and above: "\<And>a. below to a \<Longrightarrow> dir_at D t R F a" and x: "inside x to"
  shows "look D t R' F' x = look D t R F (origin from to x)"
proof -
  have ne: "x \<noteq> []" using x good(2) by (auto simp: inside_def)
  from relocated_at [OF reloc x] show ?thesis
  proof (elim disjE exE conjE)
    fix e assume e: "R' x = Some e" "stands_for D t R F (origin from to x) x e"
    then have "\<not> blocked R' x"
      using relocated_not_blocked [OF base ok reloc dis good above x] by (simp add: stands_for_def)
    with e ne stands_for_content [OF reloc dis x e(2)] show ?thesis
      by (simp add: look_def resolves_def stands_for_def)
  next
    assume none: "R' x = None" "look D t R F (origin from to x) = None"
    obtain m where m: "R' to = Some m" "is_dir (e_kind m) \<longrightarrow> e_opaque m"
      using relocatedD(1) [OF reloc] by blast
    with none(1) x have "below x to" by (auto simp: inside_def)
    then have "to \<in> set (ancestors_of x)" by (auto simp: ancestors_iff)
    with m have "blocked R' x \<or> masked R' x"
      by (auto simp: blocked_def masked_def blocking_def)
    with none show ?thesis by (auto simp: look_def resolves_def)
  qed
qed

lemma relocated_row_ok:
  assumes base: "base_ok D t" and ok: "view_ok D t R F nid" and reloc: "relocated D t from to R F R' F'"
    and dis: "\<not> inside to from" "\<not> inside from to" and good: "good_path from" "good_path to"
    and x: "R' x = Some e"
  shows "row_ok D t F' nid x e"
proof -
  consider "inside x to" | "x = from" | "below x from" | "\<not> inside x from" "\<not> inside x to"
    by (auto simp: inside_def)
  then show ?thesis
  proof cases
    case 1
    with relocated_at [OF reloc] x have e: "stands_for D t R F (origin from to x) x e" by force
    then have "good_path (origin from to x)" using look_good [OF base ok] by (auto simp: stands_for_def)
    with 1 good have gx: "good_path x" by (auto simp: inside_iff good_append_iff)
    have "\<not> inside (origin from to x) to" using dis 1 by (rule origin_outside)
    then have "e_present e \<and> i < nid \<and> (\<exists>bs. F' i = Some bs \<and> length bs = e_size e)"
      if i: "e_content e = CLocal i" for i
    proof -
      from e i obtain q where q: "R (origin from to x) = Some q" "e_content q = CLocal i" "e_size q = e_size e"
        by (auto simp: stands_for_def)
      with relocatedD(6) [OF reloc \<open>\<not> inside (origin from to x) to\<close>] have "F' i = F i" by blast
      with view_okD(1) [OF ok q(1)] q e show ?thesis by (auto simp: row_ok_def stands_for_def)
    qed
    with e gx show ?thesis by (auto simp: row_ok_def stands_for_def)
  next
    case 2
    with relocatedD(3) [OF reloc] x have "e_path e = from" "e_content e = CNone"
        "e_base e = None \<or> e_base e = facts D t from" "\<not> e_present e"
      by blast+
    with 2 good show ?thesis by (simp add: row_ok_def)
  next
    case 3
    with relocatedD(4) [OF reloc] x have "R x = Some e" "\<not> e_present e" by blast+
    with view_okD(1) [OF ok this(1)] show ?thesis by (auto simp: row_ok_def)
  next
    case 4
    with relocatedD(5) [OF reloc] x have "R x = Some e" by simp
    moreover from relocatedD(6) [OF reloc 4(2) this] have "F' i = F i" if "e_content e = CLocal i" for i
      using that by blast
    ultimately show ?thesis using row_ok_files [OF view_okD(1) [OF ok]] by blast
  qed
qed

text \<open>Every local id of the new rows belonged to the row it came from.\<close>

lemma relocated_origin:
  assumes ok: "view_ok D t R F nid" and reloc: "relocated D t from to R F R' F'"
    and dis: "\<not> inside to from" "\<not> inside from to"
    and x: "R' x = Some e" "e_content e = CLocal i"
  shows "\<not> inside x from"
    and "\<exists>q. R (if inside x to then origin from to x else x) = Some q \<and> e_content q = CLocal i"
proof -
  show out: "\<not> inside x from"
  proof
    assume "inside x from"
    then consider "x = from" | "below x from" by (auto simp: inside_def)
    then show False
    proof cases
      case 1
      with relocatedD(3) [OF reloc] x show False by auto
    next
      case 2
      with relocatedD(4) [OF reloc] x have "R x = Some e" "\<not> e_present e" by blast+
      with view_okD(1) [OF ok this(1)] x(2) show False by (auto simp: row_ok_def)
    qed
  qed
  show "\<exists>q. R (if inside x to then origin from to x else x) = Some q \<and> e_content q = CLocal i"
  proof (cases "inside x to")
    case True
    with relocated_at [OF reloc True] x show ?thesis by (auto simp: stands_for_def)
  next
    case False
    from relocatedD(5) [OF reloc out False] x(1) have "R x = Some e" by simp
    with x(2) False show ?thesis by simp
  qed
qed

lemma relocated_unique:
  assumes ok: "view_ok D t R F nid" and reloc: "relocated D t from to R F R' F'"
    and dis: "\<not> inside to from" "\<not> inside from to"
  shows "unique_ids R'"
  unfolding unique_ids_def
proof (intro allI impI)
  fix x y e e' i assume x: "R' x = Some e" "e_content e = CLocal i" and y: "R' y = Some e'" "e_content e' = CLocal i"
  let ?o = "\<lambda>z. if inside z to then origin from to z else z"
  note ox = relocated_origin [OF ok reloc dis x] and oy = relocated_origin [OF ok reloc dis y]
  have eq: "?o x = ?o y"
    using view_okD(2) [OF ok] ox(2) oy(2) unfolding unique_ids_def by blast
  show "x = y"
  proof (cases "inside x to \<longleftrightarrow> inside y to")
    case True
    with eq show ?thesis by (auto dest: origin_inj split: if_splits)
  next
    case False
    with eq have "inside x to \<and> y = origin from to x \<or> inside y to \<and> x = origin from to y"
      by (auto split: if_splits)
    with ox(1) oy(1) origin_inside show ?thesis by blast
  qed
qed

text \<open>The view after a relocation, and the invariant.\<close>

definition moved_look :: "path \<Rightarrow> path \<Rightarrow> (path \<Rightarrow> 'n option) \<Rightarrow> path \<Rightarrow> 'n option" where
  "moved_look from to L x =
     (if inside x from then None else if inside x to then L (origin from to x) else L x)"

lemma look_relocated:
  assumes base: "base_ok D t" and ok: "view_ok D t R F nid" and reloc: "relocated D t from to R F R' F'"
    and dis: "\<not> inside to from" "\<not> inside from to" and good: "good_path from" "good_path to"
    and above: "\<And>a. below to a \<Longrightarrow> dir_at D t R F a"
  shows "look D t R' F' x = moved_look from to (look D t R F) x"
proof -
  have "from \<noteq> []" "to \<noteq> []" using good by auto
  then show ?thesis
    using look_relocated_source [OF base reloc good(1)] look_relocated_target [OF assms]
      look_relocated_outside [OF reloc]
    by (auto simp: moved_look_def)
qed

lemma view_ok_relocated:
  assumes base: "base_ok D t" and ok: "view_ok D t R F nid" and reloc: "relocated D t from to R F R' F'"
    and dis: "\<not> inside to from" "\<not> inside from to" and good: "good_path from" "good_path to"
    and above: "\<And>a. below to a \<Longrightarrow> dir_at D t R F a"
  shows "view_ok D t R' F' nid"
proof -
  note look = look_relocated [OF assms]
  have "dir_at D t R' F' a" if x: "R' x = Some e" "e_present e" "below x a" for x e a
  proof -
    have out: "\<not> inside x from" using relocated_source_absent [OF reloc _ x(1)] x(2) by blast
    then have outa: "\<not> inside a from" using inside_below x(3) by blast
    have "dir_at D t R F (if inside a to then origin from to a else a)"
    proof (cases "inside x to")
      case True
      from relocated_at [OF reloc True] x(1) obtain n where n: "look D t R F (origin from to x) = Some n"
        by (auto simp: stands_for_def)
      show ?thesis
      proof (cases "inside a to")
        case True
        with x(3) \<open>inside x to\<close> have "below (origin from to x) (origin from to a)"
          by (auto simp: inside_iff below_def)
        with look_closed [OF base ok n] True show ?thesis by simp
      next
        case False
        with True x(3) have "below to a" using below_linear [of x a to] by (auto simp: inside_def)
        with above False show ?thesis by simp
      qed
    next
      case False
      then have "\<not> inside a to" using inside_below x(3) by blast
      moreover have "R x = Some e" using relocatedD(5) [OF reloc out False] x(1) by simp
      ultimately show ?thesis using view_okD(3) [OF ok] x by (auto simp: closed_def)
    qed
    then show ?thesis using outa by (auto simp: dir_at_def look moved_look_def split: if_splits)
  qed
  moreover have "F' i \<noteq> None \<Longrightarrow> i < nid" for i
    using relocatedD(7) [OF reloc] view_okD(4) [OF ok] by blast
  ultimately show ?thesis
    using relocated_row_ok [OF base ok reloc dis good] relocated_unique [OF ok reloc dis]
    unfolding view_ok_def closed_def by blast
qed

section \<open>The model moves the same way\<close>

definition target_of :: "path \<Rightarrow> path \<Rightarrow> path \<Rightarrow> path" where
  "target_of from to p = to @ drop (length from) p"

lemma target_of_origin: "target_of from to p = origin to from p"
  by (simp add: target_of_def origin_def)

lemma origin_target_of: "inside p from \<Longrightarrow> origin from to (target_of from to p) = p"
  by (auto simp: inside_iff target_of_def)

lemma target_of_inside: "inside p from \<Longrightarrow> inside (target_of from to p) to"
  unfolding target_of_origin by (rule origin_inside)

lemma move_fold:
  assumes dis: "\<not> inside to from" "\<not> inside from to"
    and ms: "\<forall>p \<in> fst ` set ms. inside p from" "distinct (map fst ms)"
  shows "bt_get (fold (\<lambda>(p, n) acc. bt_insert (target_of from to p) n (bt_remove p acc)) ms acc) x =
    (if inside x from then (if x \<in> fst ` set ms then None else bt_get acc x)
     else if inside x to then
       (case map_of ms (origin from to x) of None \<Rightarrow> bt_get acc x | Some n \<Rightarrow> Some n)
     else bt_get acc x)"
  using ms
proof (induction ms arbitrary: acc)
  case (Cons pn ms)
  obtain p n where pn: "pn = (p, n)" by force
  have p: "inside p from" using Cons.prems(1) pn by simp
  then have ip: "inside (target_of from to p) to" "\<not> inside (target_of from to p) from" "\<not> inside p to"
    using target_of_inside inside_disjoint [OF dis] by blast+
  have dom: "map_of ms p = None" using Cons.prems(2) pn by (simp add: map_of_eq_None_iff)
  have IH: "bt_get (fold (\<lambda>(p, n) acc. bt_insert (target_of from to p) n (bt_remove p acc)) ms
      (bt_insert (target_of from to p) n (bt_remove p acc))) x =
    (if inside x from then (if x \<in> fst ` set ms then None
       else bt_get (bt_insert (target_of from to p) n (bt_remove p acc)) x)
     else if inside x to then
       (case map_of ms (origin from to x) of
          None \<Rightarrow> bt_get (bt_insert (target_of from to p) n (bt_remove p acc)) x | Some n \<Rightarrow> Some n)
     else bt_get (bt_insert (target_of from to p) n (bt_remove p acc)) x)"
    by (rule Cons.IH) (use Cons.prems in auto)
  consider "inside x from" | "\<not> inside x from" "inside x to" | "\<not> inside x from" "\<not> inside x to" by blast
  then show ?case
  proof cases
    case 1
    with ip have "x \<noteq> target_of from to p" by blast
    with 1 IH pn show ?thesis by auto
  next
    case 2
    then have "x \<noteq> p" using p by blast
    moreover have "x = target_of from to p \<longleftrightarrow> origin from to x = p"
      using 2 p origin_target_of ip(1) origin_inj by metis
    ultimately show ?thesis
      using 2 IH pn dom by (auto split: option.splits)
  next
    case 3
    then have "x \<noteq> p" "x \<noteq> target_of from to p" using p ip by blast+
    with 3 IH pn show ?thesis by simp
  qed
qed simp

lemma m_move_subtree_get:
  assumes ok: "bt_ok m" and dis: "\<not> inside to from" "\<not> inside from to" and ne: "from \<noteq> []" "to \<noteq> []"
  shows "bt_get (m_move_subtree from to m) = moved_look from to (bt_get m)"
    and "bt_ok (m_move_subtree from to m)"
proof -
  define m1 where "m1 = fold bt_remove (filter (\<lambda>p. is_within p to) (map fst m)) m"
  define ms where "ms = filter (\<lambda>(p, n). is_within p from) m1"
  have eq: "m_move_subtree from to m = fold (\<lambda>(p, n) acc. bt_insert (target_of from to p) n (bt_remove p acc)) ms m1"
    by (simp add: m_move_subtree_def m1_def ms_def target_of_def Let_def)
  have ok1: "bt_ok m1" unfolding m1_def by (rule bt.ok_fold_del [OF ok])
  have keys: "bt_get m x \<noteq> None \<longleftrightarrow> x \<in> set (map fst m)" for x
    by (metis map_of_eq_None_iff set_map)
  have m1: "bt_get m1 x = (if inside x to then None else bt_get m x)" for x
    unfolding m1_def using bt.get_fold_del [OF ok] keys [of x] is_within_inside [OF ne(2)]
    by (auto simp: map_of_eq_None_iff)
  have ms: "\<forall>p \<in> fst ` set ms. inside p from" "distinct (map fst ms)"
    using is_within_inside [OF ne(1)] bt_ok_distinct [OF ok1] distinct_map_filter by (auto simp: ms_def)
  have get_ms: "map_of ms y = (if inside y from then bt_get m1 y else None)" for y
    unfolding ms_def map_of_filter_key by (simp add: is_within_inside [OF ne(1)])
  show "bt_get (m_move_subtree from to m) = moved_look from to (bt_get m)"
  proof (rule ext)
    fix x
    have "x \<in> fst ` set ms \<or> bt_get m1 x = None" if "inside x from"
      using get_ms [of x] that by (metis map_of_eq_None_iff)
    moreover have "inside (origin from to x) from" "\<not> inside (origin from to x) to" if "inside x to"
      using that origin_inside origin_outside [OF dis] by blast+
    ultimately show "bt_get (m_move_subtree from to m) x = moved_look from to (bt_get m) x"
      unfolding eq move_fold [OF dis ms, where acc = m1 and x = x]
      by (auto simp: moved_look_def m1 get_ms split: option.splits)
  qed
  show "bt_ok (m_move_subtree from to m)"
    unfolding eq by (rule fold_invariant) (auto simp: ok1)
qed

section \<open>The rows rename writes\<close>

lemma shape_ok_cong:
  "e_content e' = e_content e \<Longrightarrow> e_symlink_target e' = e_symlink_target e \<Longrightarrow> e_kind e' = e_kind e \<Longrightarrow>
   shape_ok D t e' = shape_ok D t e"
  by (simp only: shape_ok_def)

text \<open>A present row, moved: path, base, times and opacity may change, the rest stays.\<close>

lemma stands_for_row:
  assumes ok: "view_ok D t R F nid" and y: "R y = Some q" "e_present q"
    and e: "e_present e" "e_kind e = e_kind q" "e_content e = e_content q"
      "e_symlink_target e = e_symlink_target q" "e_size e = e_size q" "e_path e = x"
      "e_base e = None \<or> e_base e = facts D t x"
  shows "stands_for D t R F y x e"
  unfolding stands_for_def
  using present_row_look [OF ok y] content_at_cong [OF e(3,4), of D t F] shape_ok_cong [OF e(3,4,2), of D t]
    view_okD(1) [OF ok y(1)] y e
  by (auto simp: row_ok_def)

text \<open>A base entry that shows, given a row of its own.\<close>

lemma stands_for_base:
  assumes base: "base_ok D t" and y: "y \<noteq> []" "resolves R y = Base" "bt_get t y = Some n"
      "from_entry_kind (bn_kind n) = Some k"
    and e: "e_present e" "e_kind e = k"
      "e_content e = (if is_dir k then CNone else CBase (git_oid D (bn_content n)))"
      "is_dir k \<Longrightarrow> e_symlink_target e = None" "e_path e = x" "e_base e = None \<or> e_base e = facts D t x"
  shows "stands_for D t R F y x e"
proof -
  have "content_at D t F e = bn_content n"
  proof (cases "is_dir k")
    case True
    with y(4) have "bn_kind n = Directory" by (auto simp: is_dir_def from_entry_kind_Some)
    with base_entryD [OF base y(3)] True e show ?thesis by (simp add: base_entry_ok_def content_at_def)
  next
    case False
    with e content_of_oid_base [OF base y(3)] show ?thesis by (simp add: content_at_def)
  qed
  moreover have "shape_ok D t e" using e y(3) by (auto simp: shape_ok_def in_base_def)
  ultimately show ?thesis
    using base y e by (auto simp: stands_for_def look_def base_node_of_eq)
qed

lemma moved_row_stands:
  assumes base: "base_ok D t" and ok: "view_ok D t (bt_get (entries ov)) F nid"
    and n: "look D t (bt_get (entries ov)) F from = Some n"
  shows "\<exists>e. moved_row from (ino_for from) (facts D t from) to (facts D t to) now ov = (Inr e, ov)
    \<and> stands_for D t (bt_get (entries ov)) F from to e \<and> e_opaque e = is_dir (e_kind e)"
proof (cases "bt_get (entries ov) from")
  case (Some q)
  then have q: "e_present q" using n by (auto simp: look_def resolves_def split: if_splits)
  let ?e = "q\<lparr>e_path := to, e_renamed_from := Some (case e_renamed_from q of None \<Rightarrow> from | Some z \<Rightarrow> z),
      e_base := facts D t to, e_ctime := now, e_opaque := is_dir (e_kind q)\<rparr>"
  have "stands_for D t (bt_get (entries ov)) F from to ?e"
    by (rule stands_for_row [OF ok Some q]) (use q in simp_all)
  with Some q show ?thesis by (intro exI [of _ ?e]) (simp add: moved_row_def)
next
  case None
  with n have f: "from \<noteq> []" "resolves (bt_get (entries ov)) from = Base" "base_node_of t from = Some n"
    by (auto simp: look_def resolves_def split: if_splits)
  from base f(3) obtain b where b: "bt_get t from = Some b" "from_entry_kind (bn_kind b) = Some (n_kind n)"
    by (rule base_node_ofE)
  let ?e = "\<lparr>e_path = to, e_present = True, e_kind = n_kind n, e_opaque = is_dir (n_kind n),
      e_ino = ino_for from,
      e_content = (if is_dir (n_kind n) then CNone else CBase (git_oid D (bn_content b))),
      e_symlink_target = None, e_size = length (bn_content b), e_mtime = now, e_ctime = now,
      e_renamed_from = Some from, e_base = facts D t to\<rparr>"
  have "stands_for D t (bt_get (entries ov)) F from to ?e"
    by (rule stands_for_base [OF base f(1,2) b]) simp_all
  with None b base show ?thesis
    by (intro exI [of _ ?e]) (simp add: moved_row_def facts_eq adopt_ino_def)
qed

lemma mover_changes_mem:
  assumes rows: "rows_ok ov" and ok: "view_ok D t (bt_get (entries ov)) F nid" and ne: "from \<noteq> []"
    and c: "c \<in> set (concat (map (mover_changes from to now) (rows_under (entries ov) from)))"
  shows "\<exists>s. c = Delete (from @ CHR ''/'' # s) \<and> bt_get (entries ov) (from @ CHR ''/'' # s) \<noteq> None
    \<or> (\<exists>e. c = Put e \<and> stands_for D t (bt_get (entries ov)) F (from @ CHR ''/'' # s) (to @ CHR ''/'' # s) e)"
proof -
  have bt: "bt_ok (entries ov)" using rows by (simp add: rows_ok_def)
  from c obtain q x where q: "bt_get (entries ov) x = Some q" "below x from"
      and c': "c \<in> set (mover_changes from to now q)"
    by (auto simp: set_rows_under [OF bt ne])
  from q(2) obtain s where s: "x = from @ CHR ''/'' # s" by (auto simp: below_def)
  have path: "e_path q = x" using view_okD(1) [OF ok q(1)] by (simp add: row_ok_def)
  from c' have pres: "e_present q" by (auto simp: mover_changes_def split: if_splits)
  let ?e = "q\<lparr>e_path := to @ drop (length from) (e_path q), e_ctime := now, e_opaque := is_dir (e_kind q),
      e_base := None\<rparr>"
  have "stands_for D t (bt_get (entries ov)) F x (to @ CHR ''/'' # s) ?e"
    by (rule stands_for_row [OF ok q(1) pres]) (use pres path s in simp_all)
  with c' q(1) pres path s show ?thesis by (auto simp: mover_changes_def)
qed

lemma mover_changes_keys:
  assumes rows: "rows_ok ov" and ok: "view_ok D t (bt_get (entries ov)) F nid" and ne: "from \<noteq> []"
    and q: "bt_get (entries ov) (from @ CHR ''/'' # s) = Some q" "e_present q"
  shows "{from @ CHR ''/'' # s, to @ CHR ''/'' # s}
    \<subseteq> change_key ` set (concat (map (mover_changes from to now) (rows_under (entries ov) from)))"
proof -
  have bt: "bt_ok (entries ov)" using rows by (simp add: rows_ok_def)
  have path: "e_path q = from @ CHR ''/'' # s" using view_okD(1) [OF ok q(1)] by (simp add: row_ok_def)
  have "q \<in> set (rows_under (entries ov) from)"
    using q(1) by (auto simp: set_rows_under [OF bt ne])
  then have "change_key ` set (mover_changes from to now q)
      \<subseteq> change_key ` set (concat (map (mover_changes from to now) (rows_under (entries ov) from)))"
    by auto
  moreover have "change_key ` set (mover_changes from to now q) = {from @ CHR ''/'' # s, to @ CHR ''/'' # s}"
    using q(2) path by (simp add: mover_changes_def)
  ultimately show ?thesis by simp
qed

text \<open>The states of the fold over the base descendants differ in the inode counter only.\<close>

definition only_ino :: "overlay \<Rightarrow> overlay \<Rightarrow> bool" where
  "only_ino ov ov' \<longleftrightarrow> (\<exists>i. ov' = ov\<lparr>next_ino := i\<rparr>)"

lemma only_ino_fields:
  "only_ino ov ov' \<Longrightarrow> entries ov' = entries ov \<and> children ov' = children ov \<and> files ov' = files ov
     \<and> next_content_id ov' = next_content_id ov"
  by (auto simp: only_ino_def)

text \<open>The row a base descendant gets.\<close>

definition desc_put :: "path \<Rightarrow> path \<Rightarrow> base_descendant \<Rightarrow> overlay \<Rightarrow> overlay_entry \<Rightarrow> bool" where
  "desc_put from to d ov e \<longleftrightarrow> resolve (entries ov) (from @ CHR ''/'' # bd_relative d) = Base
     \<and> from_entry_kind (bf_kind (bd_facts d)) = Some (e_kind e)
     \<and> e_path e = to @ CHR ''/'' # bd_relative d \<and> e_present e \<and> e_base e = None
     \<and> e_content e = (if is_dir (e_kind e) then CNone else CBase (bf_oid (bd_facts d)))
     \<and> e_symlink_target e = bd_symlink_target d"

definition desc_key :: "path \<Rightarrow> path \<Rightarrow> base_descendant \<Rightarrow> overlay \<Rightarrow> change list \<Rightarrow> bool" where
  "desc_key from to d ov ds \<longleftrightarrow>
     (resolve (entries ov) (from @ CHR ''/'' # bd_relative d) = Base \<longrightarrow>
      from_entry_kind (bf_kind (bd_facts d)) \<noteq> None \<longrightarrow>
      to @ CHR ''/'' # bd_relative d \<in> change_key ` set ds)"

lemma descendant_change_step:
  assumes "only_ino ov ov1"
  obtains ds ov2 where "descendant_change from to now d (cs, ov1) = (cs @ ds, ov2)" "only_ino ov ov2"
    "\<forall>c \<in> set ds. \<exists>e. c = Put e \<and> desc_put from to d ov e" "desc_key from to d ov ds"
proof -
  from assms obtain j where ov1: "ov1 = ov\<lparr>next_ino := j\<rparr>" by (auto simp: only_ino_def)
  show thesis
  proof (cases "resolve (entries ov) (from @ CHR ''/'' # bd_relative d) = Base
      \<and> from_entry_kind (bf_kind (bd_facts d)) \<noteq> None")
    case True
    then obtain k where k: "from_entry_kind (bf_kind (bd_facts d)) = Some k" by blast
    let ?e = "\<lparr>e_path = to @ ''/'' @ bd_relative d, e_present = True, e_kind = k,
        e_opaque = is_dir k, e_ino = j,
        e_content = (if is_dir k then CNone else CBase (bf_oid (bd_facts d))),
        e_symlink_target = bd_symlink_target d, e_size = bf_size (bd_facts d), e_mtime = now,
        e_ctime = now, e_renamed_from = Some (from @ ''/'' @ bd_relative d), e_base = None\<rparr>"
    from True k show thesis
      by (intro that [of "[Put ?e]" "ov\<lparr>next_ino := j + 1\<rparr>"])
        (auto simp: ov1 descendant_change_def allocate_ino_def only_ino_def desc_put_def desc_key_def Let_def)
  next
    case False
    then show thesis
      by (intro that [of "[]" ov1])
        (auto simp: ov1 descendant_change_def only_ino_def desc_key_def Let_def)
  qed
qed

lemma desc_key_append: "desc_key from to d ov ds \<or> desc_key from to d ov ds' \<Longrightarrow> desc_key from to d ov (ds @ ds')"
  unfolding desc_key_def set_append image_Un by blast

lemma descendant_fold:
  assumes "only_ino ov ov1"
  shows "\<exists>ds ov2. fold (descendant_change from to now) descs (cs, ov1) = (cs @ ds, ov2) \<and> only_ino ov ov2
    \<and> (\<forall>c \<in> set ds. \<exists>e. \<exists>d \<in> set descs. c = Put e \<and> desc_put from to d ov e)
    \<and> (\<forall>d \<in> set descs. desc_key from to d ov ds)"
  using assms
proof (induction descs arbitrary: cs ov1)
  case Nil
  then show ?case by (intro exI [of _ "[]"] exI [of _ ov1]) simp
next
  case (Cons d descs)
  from Cons.prems obtain ds1 ov2 where
    step: "descendant_change from to now d (cs, ov1) = (cs @ ds1, ov2)" "only_ino ov ov2"
    and ds1: "\<forall>c \<in> set ds1. \<exists>e. c = Put e \<and> desc_put from to d ov e" "desc_key from to d ov ds1"
    by (rule descendant_change_step)
  from Cons.IH [OF step(2), of "cs @ ds1"] obtain ds2 ov3 where
    rest: "fold (descendant_change from to now) descs (cs @ ds1, ov2) = ((cs @ ds1) @ ds2, ov3)" "only_ino ov ov3"
    and ds2: "\<forall>c \<in> set ds2. \<exists>e. \<exists>d \<in> set descs. c = Put e \<and> desc_put from to d ov e"
      "\<forall>d \<in> set descs. desc_key from to d ov ds2"
    by blast
  show ?case
  proof (intro exI [of _ "ds1 @ ds2"] exI [of _ ov3] conjI)
    show "fold (descendant_change from to now) (d # descs) (cs, ov1) = (cs @ ds1 @ ds2, ov3)"
      using step rest by simp
    show "only_ino ov ov3" by (rule rest(2))
    show "\<forall>c \<in> set (ds1 @ ds2). \<exists>e. \<exists>d' \<in> set (d # descs). c = Put e \<and> desc_put from to d' ov e"
      using ds1(1) ds2(1) by (simp only: set_append list.set) blast
    show "\<forall>d' \<in> set (d # descs). desc_key from to d' ov (ds1 @ ds2)"
      using ds1(2) ds2(2) by (auto intro: desc_key_append)
  qed
qed

text \<open>The members of the descendant list are the base entries below the directory.\<close>

definition base_descendant_of :: "digests \<Rightarrow> path \<Rightarrow> base_node \<Rightarrow> base_descendant" where
  "base_descendant_of D s n =
     BaseDescendant s (BaseFacts (git_oid D (bn_content n)) (bn_kind n) (length (bn_content n)))
       (if bn_kind n = Symlink then Some (bn_content n) else None)"

lemma descendants_mem:
  "d \<in> set (descendants D t dir) \<longleftrightarrow>
     (\<exists>s n. (dir @ CHR ''/'' # s, n) \<in> set t \<and> d = base_descendant_of D s n)"
proof -
  have list: "descendants D t dir = map (\<lambda>(p, n). base_descendant_of D (drop (length dir + 1) p) n)
      (filter (\<lambda>(p, n). starts_with p (dir @ ''/'')) t)"
    by (simp add: descendants_def base_descendant_of_def)
  have "d \<in> set (descendants D t dir) \<longleftrightarrow>
      (\<exists>p n. (p, n) \<in> set t \<and> starts_with p (dir @ ''/'') \<and> d = base_descendant_of D (drop (length dir + 1) p) n)"
    unfolding list set_map set_filter image_iff Bex_def split_paired_Ex by simp
  also have "\<dots> \<longleftrightarrow> (\<exists>s n. (dir @ CHR ''/'' # s, n) \<in> set t \<and> d = base_descendant_of D s n)"
  proof
    assume "\<exists>p n. (p, n) \<in> set t \<and> starts_with p (dir @ ''/'') \<and> d = base_descendant_of D (drop (length dir + 1) p) n"
    then obtain p n s where "(p, n) \<in> set t" "p = dir @ CHR ''/'' # s" "d = base_descendant_of D (drop (length dir + 1) p) n"
      by (auto simp: starts_with_iff)
    then show "\<exists>s n. (dir @ CHR ''/'' # s, n) \<in> set t \<and> d = base_descendant_of D s n" by auto
  next
    assume "\<exists>s n. (dir @ CHR ''/'' # s, n) \<in> set t \<and> d = base_descendant_of D s n"
    then obtain s n where "(dir @ CHR ''/'' # s, n) \<in> set t" "d = base_descendant_of D s n" by blast
    then show "\<exists>p n. (p, n) \<in> set t \<and> starts_with p (dir @ ''/'') \<and> d = base_descendant_of D (drop (length dir + 1) p) n"
      by (intro exI [of _ "dir @ CHR ''/'' # s"] exI [of _ n]) (auto simp: starts_with_iff)
  qed
  finally show ?thesis .
qed

section \<open>The changes are a relocation\<close>

text \<open>The changes below the source and the destination: movers, then base descendants.\<close>

definition subtree_changes ::
  "overlay \<Rightarrow> path \<Rightarrow> path \<Rightarrow> timestamp \<Rightarrow> change list \<Rightarrow> change list" where
  "subtree_changes ov from to now ds =
     concat (map (mover_changes from to now) (rows_under (entries ov) from)) @ ds"

definition descendant_puts ::
  "digests \<Rightarrow> base_tree \<Rightarrow> overlay \<Rightarrow> path \<Rightarrow> path \<Rightarrow> change list \<Rightarrow> bool" where
  "descendant_puts D t ov from to ds \<longleftrightarrow>
     (\<forall>c \<in> set ds. \<exists>e. \<exists>d \<in> set (descendants D t from). c = Put e \<and> desc_put from to d ov e)
     \<and> (\<forall>d \<in> set (descendants D t from). desc_key from to d ov ds)"

lemma desc_put_stands:
  assumes base: "base_ok D t" and d: "d \<in> set (descendants D t from)" "desc_put from to d ov e"
  shows "\<exists>s. stands_for D t (bt_get (entries ov)) F (from @ CHR ''/'' # s) (to @ CHR ''/'' # s) e"
proof -
  from d(1) obtain s n where n: "(from @ CHR ''/'' # s, n) \<in> set t" "d = base_descendant_of D s n"
    by (auto simp: descendants_mem)
  have bt: "bt_ok t" using base by (simp add: base_ok_def)
  have "stands_for D t (bt_get (entries ov)) F (from @ CHR ''/'' # s) (to @ CHR ''/'' # s) e"
  proof (rule stands_for_base [OF base])
    show "bt_get t (from @ CHR ''/'' # s) = Some n" using n(1) bt by (simp add: bt_get_iff_mem)
    show "from_entry_kind (bn_kind n) = Some (e_kind e)"
      using d(2) n(2) by (simp add: desc_put_def base_descendant_of_def)
    then show "e_symlink_target e = None" if "is_dir (e_kind e)"
      using that d(2) n(2) by (auto simp: desc_put_def base_descendant_of_def is_dir_def)
  qed (use d(2) n(2) in \<open>simp_all add: desc_put_def base_descendant_of_def resolve_eq\<close>)
  then show ?thesis ..
qed

lemma subtree_changes_mem:
  assumes base: "base_ok D t" and rows: "rows_ok ov" and ok: "view_ok D t (bt_get (entries ov)) F nid"
    and ne: "from \<noteq> []" and ds: "descendant_puts D t ov from to ds"
    and c: "c \<in> set (subtree_changes ov from to now ds)"
  shows "\<exists>s. c = Delete (from @ CHR ''/'' # s) \<and> bt_get (entries ov) (from @ CHR ''/'' # s) \<noteq> None
    \<or> (\<exists>e. c = Put e \<and> stands_for D t (bt_get (entries ov)) F (from @ CHR ''/'' # s) (to @ CHR ''/'' # s) e)"
proof (cases "c \<in> set ds")
  case True
  with ds obtain e d where e: "c = Put e" "d \<in> set (descendants D t from)" "desc_put from to d ov e"
    unfolding descendant_puts_def by blast
  with desc_put_stands [OF base e(2,3), where F = F] show ?thesis by blast
next
  case False
  with c mover_changes_mem [OF rows ok ne] show ?thesis by (simp add: subtree_changes_def)
qed

text \<open>Everything the view has below the source is given a key below the destination.\<close>

lemma subtree_changes_complete:
  assumes base: "base_ok D t" and rows: "rows_ok ov" and ok: "view_ok D t (bt_get (entries ov)) F nid"
    and ne: "from \<noteq> []" and ds: "descendant_puts D t ov from to ds"
    and y: "look D t (bt_get (entries ov)) F (from @ CHR ''/'' # s) = Some n"
  shows "to @ CHR ''/'' # s \<in> change_key ` set (subtree_changes ov from to now ds)"
    and "bt_get (entries ov) (from @ CHR ''/'' # s) \<noteq> None \<Longrightarrow>
      from @ CHR ''/'' # s \<in> change_key ` set (subtree_changes ov from to now ds)"
proof -
  let ?R = "bt_get (entries ov)" and ?y = "from @ CHR ''/'' # s"
  have pres: "e_present q" if "?R ?y = Some q" for q
    using y that by (auto simp: look_def resolves_def split: if_splits)
  have mk: "{?y, to @ CHR ''/'' # s} \<subseteq> change_key ` set (subtree_changes ov from to now ds)"
    if "?R ?y = Some q" for q
    using mover_changes_keys [OF rows ok ne that pres [OF that], of to now]
    unfolding subtree_changes_def set_append image_Un by blast
  then show "?R ?y \<noteq> None \<Longrightarrow> ?y \<in> change_key ` set (subtree_changes ov from to now ds)" by blast
  show "to @ CHR ''/'' # s \<in> change_key ` set (subtree_changes ov from to now ds)"
  proof (cases "?R ?y")
    case None
    with y have b: "resolves ?R ?y = Base" "base_node_of t ?y = Some n"
      by (auto simp: look_def resolves_def split: if_splits)
    from base b(2) obtain m where m: "bt_get t ?y = Some m" "from_entry_kind (bn_kind m) = Some (n_kind n)"
      by (rule base_node_ofE)
    have "base_descendant_of D s m \<in> set (descendants D t from)"
      using m(1) base by (auto simp: descendants_mem base_ok_def bt_get_iff_mem)
    with ds have "desc_key from to (base_descendant_of D s m) ov ds" unfolding descendant_puts_def by blast
    with b(1) m(2) have "to @ CHR ''/'' # s \<in> change_key ` set ds"
      by (simp add: desc_key_def base_descendant_of_def resolve_eq)
    then show ?thesis unfolding subtree_changes_def set_append image_Un by blast
  qed (use mk in blast)
qed

text \<open>The whole list: rows below the destination go, the source arrives, the source is hidden.\<close>

definition relocation_changes ::
  "overlay \<Rightarrow> path \<Rightarrow> path \<Rightarrow> timestamp \<Rightarrow> change list \<Rightarrow> overlay_entry \<Rightarrow> change \<Rightarrow> change list" where
  "relocation_changes ov from to now ds moved hid =
     Put moved # (if is_dir (e_kind moved) then subtree_changes ov from to now ds else []) @ [hid]"

definition arrivals ::
  "digests \<Rightarrow> base_tree \<Rightarrow> overlay \<Rightarrow> path \<Rightarrow> path \<Rightarrow> change list \<Rightarrow> overlay_entry \<Rightarrow> change \<Rightarrow> bool" where
  "arrivals D t ov from to ds moved hid \<longleftrightarrow>
     stands_for D t (bt_get (entries ov)) (bt_get (files ov)) from to moved
     \<and> e_opaque moved = is_dir (e_kind moved) \<and> descendant_puts D t ov from to ds
     \<and> change_key hid = from \<and> gone_row t from (change_val hid)
     \<and> (\<forall>e. change_val hid = Some e \<longrightarrow>
          e_path e = from \<and> e_content e = CNone \<and> (e_base e = None \<or> e_base e = facts D t from))"

lemma relocation_changes_mem:
  assumes base: "base_ok D t" and rows: "rows_ok ov" and ok: "view_ok D t (bt_get (entries ov)) (bt_get (files ov)) nid"
    and ne: "from \<noteq> []" and arr: "arrivals D t ov from to ds moved hid"
    and c: "c \<in> set (relocation_changes ov from to now ds moved hid)"
  shows "c = hid \<or> (\<exists>s. c = Delete (from @ CHR ''/'' # s) \<and> bt_get (entries ov) (from @ CHR ''/'' # s) \<noteq> None)
    \<or> c = Put moved \<or> (\<exists>s e. c = Put e \<and> stands_for D t (bt_get (entries ov)) (bt_get (files ov))
         (from @ CHR ''/'' # s) (to @ CHR ''/'' # s) e)"
proof -
  have "\<exists>s. c = Delete (from @ CHR ''/'' # s) \<and> bt_get (entries ov) (from @ CHR ''/'' # s) \<noteq> None \<or> (\<exists>e. c = Put e \<and> stands_for D t (bt_get (entries ov))
      (bt_get (files ov)) (from @ CHR ''/'' # s) (to @ CHR ''/'' # s) e)"
    if "c \<in> set (subtree_changes ov from to now ds)"
    using that arr by (intro subtree_changes_mem [OF base rows ok ne]) (simp_all add: arrivals_def)
  with c show ?thesis by (auto simp: relocation_changes_def split: if_splits)
qed

lemma relocation_changes_keys:
  assumes base: "base_ok D t" and rows: "rows_ok ov" and ok: "view_ok D t (bt_get (entries ov)) (bt_get (files ov)) nid"
    and ne: "from \<noteq> []" and arr: "arrivals D t ov from to ds moved hid"
    and c: "c \<in> set (relocation_changes ov from to now ds moved hid)"
  shows "inside (change_key c) from \<or> inside (change_key c) to"
  using relocation_changes_mem [OF assms] arr by (auto simp: inside_iff arrivals_def stands_for_def)

lemma relocation_changes_good:
  assumes base: "base_ok D t" and rows: "rows_ok ov" and ok: "view_ok D t (bt_get (entries ov)) (bt_get (files ov)) nid"
    and good: "good_path from" "good_path to" and arr: "arrivals D t ov from to ds moved hid"
    and c: "c \<in> set (relocation_changes ov from to now ds moved hid)"
  shows "good_path (change_key c)"
proof -
  have ne: "from \<noteq> []" using good by auto
  have "good_path (to @ CHR ''/'' # s)"
    if "stands_for D t (bt_get (entries ov)) (bt_get (files ov)) (from @ CHR ''/'' # s) (to @ CHR ''/'' # s) e" for s e
    using that look_good [OF base ok, of "from @ CHR ''/'' # s"] good by (auto simp: stands_for_def good_append_iff)
  moreover have "good_path x" if "bt_get (entries ov) x \<noteq> None" for x
    using that good_row [OF ok] by auto
  ultimately show ?thesis
    using relocation_changes_mem [OF base rows ok ne arr c] good arr
    by (elim disjE exE conjE) (auto simp: arrivals_def stands_for_def)
qed

lemma relocation_changes_complete:
  assumes base: "base_ok D t" and rows: "rows_ok ov" and ok: "view_ok D t (bt_get (entries ov)) (bt_get (files ov)) nid"
    and ne: "from \<noteq> []" and arr: "arrivals D t ov from to ds moved hid"
    and y: "look D t (bt_get (entries ov)) (bt_get (files ov)) (from @ CHR ''/'' # s) = Some n"
  shows "to @ CHR ''/'' # s \<in> change_key ` set (relocation_changes ov from to now ds moved hid)"
    and "bt_get (entries ov) (from @ CHR ''/'' # s) \<noteq> None \<Longrightarrow>
      from @ CHR ''/'' # s \<in> change_key ` set (relocation_changes ov from to now ds moved hid)"
proof -
  have "dir_at D t (bt_get (entries ov)) (bt_get (files ov)) from"
    by (rule look_closed [OF base ok y]) (auto simp: below_def)
  with arr have dir: "is_dir (e_kind moved)" by (auto simp: arrivals_def stands_for_def dir_at_def)
  have ds: "descendant_puts D t ov from to ds" using arr by (simp add: arrivals_def)
  note subtree_changes_complete [OF base rows ok ne ds y, of now]
  with dir show "to @ CHR ''/'' # s \<in> change_key ` set (relocation_changes ov from to now ds moved hid)"
    and "bt_get (entries ov) (from @ CHR ''/'' # s) \<noteq> None \<Longrightarrow>
      from @ CHR ''/'' # s \<in> change_key ` set (relocation_changes ov from to now ds moved hid)"
    by (auto simp: relocation_changes_def)
qed

lemma relocated_changes:
  assumes base: "base_ok D t" and rows: "rows_ok ov" and ok: "view_ok D t (bt_get (entries ov)) (bt_get (files ov)) nid"
    and dis: "\<not> inside to from" "\<not> inside from to" and ne: "from \<noteq> []" "to \<noteq> []"
    and arr: "arrivals D t ov from to ds moved hid"
    and R2: "look D t R2 (bt_get (files ov)) = look D t (bt_get (entries ov)) (bt_get (files ov))"
      "\<And>x. inside x from \<or> inside x to \<Longrightarrow> R2 x = bt_get (entries ov) x"
      "\<And>x e i. R2 x = Some e \<Longrightarrow> e_content e = CLocal i \<Longrightarrow> bt_get (entries ov) x = Some e"
    and rel: "\<And>i. i \<in> ids \<Longrightarrow> \<exists>x e. inside x to \<and> bt_get (entries ov) x = Some e \<and> e_content e = CLocal i"
    and R': "R' = fold upd (map (\<lambda>e. Delete (e_path e)) (rows_under (entries ov) to)
               @ relocation_changes ov from to now ds moved hid) R2"
    and F': "F' = (\<lambda>i. if i \<in> ids then None else bt_get (files ov) i)"
  shows "relocated D t from to R2 (bt_get (files ov)) R' F'"
proof -
  let ?R = "bt_get (entries ov)" and ?F = "bt_get (files ov)"
  let ?rest = "relocation_changes ov from to now ds moved hid"
  define R3 where "R3 = fold upd (map (\<lambda>e. Delete (e_path e)) (rows_under (entries ov) to)) R2"
  have R': "R' = fold upd ?rest R3" by (simp add: R' R3_def)
  have bt: "bt_ok (entries ov)" using rows by (simp add: rows_ok_def)
  have doomed: "e_path ` set (rows_under (entries ov) to) = {x. below x to \<and> ?R x \<noteq> None}"
    using view_okD(1) [OF ok] by (force simp: set_rows_under [OF bt ne(2)] row_ok_def image_iff)
  have R3: "R3 x = (if below x to then None else R2 x)" for x
  proof -
    have "R3 x = (if x \<in> set (map e_path (rows_under (entries ov) to)) then None else R2 x)"
      using fold_upd_deletes [of "map e_path (rows_under (entries ov) to)" R2 x] by (simp add: R3_def comp_def)
    then show ?thesis using doomed R2(2) [of x] by (auto simp: inside_def)
  qed
  note mem = relocation_changes_mem [OF base rows ok ne(1) arr]
  note complete = relocation_changes_complete [OF base rows ok ne(1) arr]
  have hid: "change_key hid = from" "gone_row t from (change_val hid)" using arr by (simp_all add: arrivals_def)
  have mv: "e_path moved = to" using arr by (simp add: arrivals_def stands_for_def)
  have disj: "\<not> (inside x from \<and> inside x to)" for x by (rule inside_disjoint [OF dis])
  have stands: "stands_for D t R2 ?F y x e = stands_for D t ?R ?F y x e" if "inside y from" for x y e
    using R2(2) [of y] that by (simp add: stands_for_def R2(1))
  have at_to: "R' to = Some moved"
  proof (rule fold_upd_cases [of to ?rest R3])
    fix c assume c: "c \<in> set ?rest" "change_key c = to" "fold upd ?rest R3 to = change_val c"
    have "from @ CHR ''/'' # s \<noteq> to" "from \<noteq> to" for s using dis(1) unfolding inside_iff by blast+
    with mem [OF c(1)] c(2) hid(1) have "c = Put moved"
      by (elim disjE exE conjE) (auto simp: stands_for_def)
    with c(3) show "R' to = Some moved" by (simp add: R')
  qed (auto simp: relocation_changes_def mv)
  have below_to: "R' (to @ CHR ''/'' # s) = None \<and> look D t R2 ?F (from @ CHR ''/'' # s) = None
      \<or> (\<exists>e. R' (to @ CHR ''/'' # s) = Some e
           \<and> stands_for D t R2 ?F (from @ CHR ''/'' # s) (to @ CHR ''/'' # s) e)" for s
  proof (rule fold_upd_cases [of "to @ CHR ''/'' # s" ?rest R3])
    assume "to @ CHR ''/'' # s \<notin> change_key ` set ?rest" "fold upd ?rest R3 (to @ CHR ''/'' # s) = R3 (to @ CHR ''/'' # s)"
    moreover from this(1) have "look D t ?R ?F (from @ CHR ''/'' # s) = None"
      using complete(1) [of s] by (cases "look D t ?R ?F (from @ CHR ''/'' # s)") blast+
    ultimately show ?thesis by (auto simp: R' R3 R2(1) below_def)
  next
    fix c assume c: "c \<in> set ?rest" "change_key c = to @ CHR ''/'' # s"
      "fold upd ?rest R3 (to @ CHR ''/'' # s) = change_val c"
    have "\<not> inside (to @ CHR ''/'' # s) from" using disj [of "to @ CHR ''/'' # s"] by (auto simp: inside_iff)
    then have "from \<noteq> to @ CHR ''/'' # s" "from @ CHR ''/'' # r \<noteq> to @ CHR ''/'' # s" for r
      unfolding inside_iff by metis+
    with mem [OF c(1)] c(2) hid(1) mv
    have "\<exists>e. c = Put e \<and> stands_for D t ?R ?F (from @ CHR ''/'' # s) (to @ CHR ''/'' # s) e"
      by (elim disjE exE conjE) (auto simp: stands_for_def)
    then obtain e where "c = Put e" "stands_for D t ?R ?F (from @ CHR ''/'' # s) (to @ CHR ''/'' # s) e"
      by blast
    moreover have "inside (from @ CHR ''/'' # s) from" by (auto simp: inside_iff)
    ultimately show ?thesis using c(3) stands by (auto simp: R')
  qed
  have at_from: "R' from = change_val hid"
    by (simp add: R' relocation_changes_def upd_def hid(1))
  have below_from: "R' x = None \<or> R' x = R2 x \<and> (\<exists>e. R2 x = Some e \<and> \<not> e_present e)" if x: "below x from" for x
  proof (rule fold_upd_cases [of x ?rest R3])
    assume nk: "x \<notin> change_key ` set ?rest" and eq: "fold upd ?rest R3 x = R3 x"
    from x obtain s where s: "x = from @ CHR ''/'' # s" by (auto simp: below_def)
    have R2x: "R2 x = ?R x" using R2(2) x by (auto simp: inside_def)
    have "\<not> e_present e" if "?R x = Some e" for e
      using present_row_look [OF ok that] complete(2) [of s] nk that s by auto
    with eq R2x x disj [of x] show ?thesis by (auto simp: R' R3 inside_def)
  next
    fix c assume c: "c \<in> set ?rest" "change_key c = x" "fold upd ?rest R3 x = change_val c"
    have "\<not> inside x to" "x \<noteq> from" using x disj [of x] by (auto simp: inside_def)
    with mem [OF c(1)] c(2) hid(1) mv have "change_val c = None"
      by (elim disjE exE conjE) (auto simp: inside_iff stands_for_def)
    with c(3) show ?thesis by (simp add: R')
  qed
  have outside: "R' x = R2 x" if "\<not> inside x from" "\<not> inside x to" for x
  proof -
    have "x \<notin> change_key ` set ?rest"
      using relocation_changes_keys [OF base rows ok ne(1) arr] that by blast
    then show ?thesis using that fold_upd_other [of x ?rest R3] by (simp add: R' R3 inside_def)
  qed
  have files: "F' i = ?F i" if "\<not> inside x to" "R2 x = Some e" "e_content e = CLocal i" for x e i
  proof -
    have "i \<notin> ids" using rel R2(3) [OF that(2,3)] that view_okD(2) [OF ok] unfolding unique_ids_def by blast
    then show ?thesis by (simp add: F')
  qed
  have "inside from from" by (simp add: inside_def)
  then have first: "stands_for D t R2 ?F from to moved" "is_dir (e_kind moved) \<longrightarrow> e_opaque moved"
    using arr stands by (simp_all add: arrivals_def)
  have whiteout: "e_path e = from \<and> e_content e = CNone \<and> (e_base e = None \<or> e_base e = facts D t from)"
    if "R' from = Some e" for e
    using that arr at_from by (simp add: arrivals_def)
  have kept: "F' i \<noteq> None \<Longrightarrow> ?F i \<noteq> None" for i by (simp add: F' split: if_splits)
  have "gone_row t from (R' from)" using at_from hid(2) by simp
  then show ?thesis
    by (rule relocatedI [OF at_to first below_to _ whiteout below_from outside files kept])
qed

section \<open>Rename refines the model\<close>

text \<open>The two parents a rename touches: a list of changes that leaves the view as it was.\<close>

definition harmless :: "digests \<Rightarrow> base_tree \<Rightarrow> row_map \<Rightarrow> file_map \<Rightarrow> nat \<Rightarrow> path set \<Rightarrow> change list \<Rightarrow> bool" where
  "harmless D t R F nid ds T \<longleftrightarrow> view_ok D t (fold upd T R) F nid \<and> look D t (fold upd T R) F = look D t R F
     \<and> (\<forall>c \<in> set T. change_key c \<in> ds \<and> good_path (change_key c))
     \<and> (\<forall>x e i. fold upd T R x = Some e \<longrightarrow> e_content e = CLocal i \<longrightarrow> R x = Some e)"

lemma harmless_touch:
  assumes base: "base_ok D t" and ok: "view_ok D t R F nid"
    and par: "d = [] \<or> dir_at D t R F d" and tch: "good_touch D t R d tch"
  shows "harmless D t R F nid {d} (touch_changes tch)"
proof -
  have "good_path (change_key c)" if c: "c \<in> set (touch_changes tch)" for c
  proof -
    from c tch par have "dir_at D t R F d" by (cases tch) (auto simp: touch_changes_def good_touch_def)
    then show ?thesis using look_good [OF base ok] touch_changes_key [OF tch c] by (auto simp: dir_at_def)
  qed
  moreover have "R x = Some e" if "fold upd (touch_changes tch) R x = Some e" "e_content e = CLocal i" for x e i
    using that tch by (cases tch) (auto simp: touch_changes_def good_touch_def touch_row_def split: if_splits)
  ultimately show ?thesis
    using touch_effect [OF base ok par tch] touch_changes_key [OF tch] by (auto simp: harmless_def)
qed

lemma harmless_append:
  assumes T: "harmless D t R F nid A T" and U: "harmless D t (fold upd T R) F nid B U"
  shows "harmless D t R F nid (A \<union> B) (T @ U)"
proof -
  have "R x = Some e" if "fold upd U (fold upd T R) x = Some e" "e_content e = CLocal i" for x e i
    using that T U unfolding harmless_def by blast
  then show ?thesis using T U by (auto simp: harmless_def)
qed

lemma rename_touches_harmless:
  assumes st: "R = bt_get (entries ov)" and base: "base_ok D t" and ok: "view_ok D t R F nid"
    and par: "parent_of from = [] \<or> dir_at D t R F (parent_of from)"
      "parent_of to = [] \<or> dir_at D t R F (parent_of to)"
  obtains T rt where "\<And>cs. rename_touches from (parent_for D t from) to (parent_for D t to) now ov cs = (cs @ T, rt cs, ov)"
    "harmless D t R F nid {parent_of from, parent_of to} T"
proof -
  obtain t1 where t1: "parent_touch from (parent_for D t from) now ov = (t1, ov)"
      and g1: "good_touch D t R (parent_of from) t1"
    using parent_touch_good [OF base ok [unfolded st] par(1) [unfolded st], of now] unfolding st by blast
  obtain t2 where t2: "parent_touch to (parent_for D t to) now ov = (t2, ov)"
      and g2: "good_touch D t R (parent_of to) t2"
    using parent_touch_good [OF base ok [unfolded st] par(2) [unfolded st], of now] unfolding st by blast
  note h1 = harmless_touch [OF base ok par(1) g1]
  let ?p1 = "\<lambda>cs. push_touch t1 now (cs, None)"
  let ?p2 = "\<lambda>cs. push_touch t2 now (?p1 cs)"
  have p1: "fst (?p1 cs) = cs @ touch_changes t1" for cs by (rule push_touch_changes)
  have p2: "fst (?p2 cs) = cs @ touch_changes t1 @ touch_changes t2" for cs
    using push_touch_changes [of t2 now "fst (?p1 cs)" "snd (?p1 cs)", unfolded prod.collapse] p1 [of cs] by simp
  show thesis
  proof (cases "parent_of from = parent_of to")
    case True
    have "rename_touches from (parent_for D t from) to (parent_for D t to) now ov cs
        = (cs @ touch_changes t1, snd (?p1 cs), ov)" for cs
      using p1 [of cs] True by (simp add: rename_touches_def t1 Let_def case_prod_beta)
    moreover have "harmless D t R F nid {parent_of from, parent_of to} (touch_changes t1)"
      using h1 True by simp
    ultimately show thesis using that [of "touch_changes t1" "\<lambda>cs. snd (?p1 cs)"] by blast
  next
    case False
    let ?R1 = "fold upd (touch_changes t1) R"
    have same: "?R1 (parent_of to) = R (parent_of to)"
      using False touch_changes_key [OF g1] by (intro fold_upd_other) auto
    have ok1: "view_ok D t ?R1 F nid" and look1: "look D t ?R1 F = look D t R F"
      using h1 by (auto simp: harmless_def)
    have "good_touch D t ?R1 (parent_of to) t2"
      using g2 same by (cases t2) (auto simp: good_touch_def touch_row_def)
    then have "harmless D t ?R1 F nid {parent_of to} (touch_changes t2)"
      using par(2) look1 by (intro harmless_touch [OF base ok1]) (simp_all add: dir_at_def)
    from harmless_append [OF h1 this]
    have h: "harmless D t R F nid {parent_of from, parent_of to} (touch_changes t1 @ touch_changes t2)"
      by (simp add: insert_commute)
    have "rename_touches from (parent_for D t from) to (parent_for D t to) now ov cs
        = (cs @ touch_changes t1 @ touch_changes t2, snd (?p2 cs), ov)" for cs
      using p2 [of cs] False by (simp add: rename_touches_def t1 t2 Let_def case_prod_beta)
    with h that [of "touch_changes t1 @ touch_changes t2" "\<lambda>cs. snd (?p2 cs)"] show thesis by blast
  qed
qed

lemma parent_inside: "good_path p \<Longrightarrow> d \<noteq> [] \<Longrightarrow> inside (parent_of p) d \<Longrightarrow> below p d"
proof -
  assume p: "good_path p" and d: "d \<noteq> []" "inside (parent_of p) d"
  then have "parent_of p \<noteq> []" by (auto simp: inside_iff)
  from good_parent_below [OF p this] d(2) show "below p d" unfolding inside_def using below_trans by blast
qed

text \<open>A commit of a relocation with its touches is a move in the view.\<close>

lemma relocation_commit_sim:
  assumes sim: "sim D t ov m" and good: "good_path from" "good_path to"
    and dis: "\<not> inside to from" "\<not> inside from to"
    and par: "parent_of to = [] \<or> dir_in D t ov (parent_of to)"
    and arr: "arrivals D t ov from to ds moved hid"
    and T: "harmless D t (bt_get (entries ov)) (bt_get (files ov)) (next_content_id ov)
              {parent_of from, parent_of to} T"
    and rel: "\<And>i. i \<in> set rel \<Longrightarrow> \<exists>x e. inside x to \<and> bt_get (entries ov) x = Some e \<and> e_content e = CLocal i"
    and cs: "cs = map (\<lambda>e. Delete (e_path e)) (rows_under (entries ov) to)
               @ relocation_changes ov from to now ds moved hid"
  shows "sim D t (commit (cs @ T) rel rt ov) (m_move_subtree from to m)"
proof -
  let ?R = "bt_get (entries ov)" and ?F = "bt_get (files ov)" and ?ov' = "commit (cs @ T) rel rt ov"
  let ?R2 = "fold upd T ?R" and ?R' = "fold upd cs (fold upd T ?R)"
  let ?F' = "\<lambda>i. if i \<in> set rel then None else ?F i"
  note base = simD(1) [OF sim] and rows = simD(3) [OF sim] and ok = simD(5) [OF sim]
  have ne: "from \<noteq> []" "to \<noteq> []" using good by auto
  have bt: "bt_ok (entries ov)" using rows by (simp add: rows_ok_def)
  have bm: "bt_ok m" using sim by (simp add: sim_def)
  have keys: "inside (change_key c) from \<or> inside (change_key c) to" if "c \<in> set cs" for c
    using that relocation_changes_keys [OF base rows ok ne(1) arr] view_okD(1) [OF ok]
    by (auto simp: cs set_rows_under [OF bt ne(2)] row_ok_def inside_def)
  have "\<not> inside (parent_of from) from" "\<not> inside (parent_of to) to"
      "\<not> inside (parent_of from) to" "\<not> inside (parent_of to) from"
    using parent_inside [OF good(1) ne(1)] parent_inside [OF good(2) ne(2)]
      parent_inside [OF good(1) ne(2)] parent_inside [OF good(2) ne(1)] dis
    by (auto simp: inside_def [of "from" to] inside_def [of to "from"])
  then have par_out: "x \<notin> {parent_of from, parent_of to}" if "inside x from \<or> inside x to" for x
    using that by blast
  have Tkeys: "change_key c \<in> {parent_of from, parent_of to} \<and> good_path (change_key c)" if "c \<in> set T" for c
    using T that by (auto simp: harmless_def)
  have disj: "change_key ` set cs \<inter> change_key ` set T = {}"
  proof -
    have "change_key c \<noteq> change_key c'" if "c \<in> set cs" "c' \<in> set T" for c c'
      using par_out [OF keys [OF that(1)]] Tkeys [OF that(2)] by metis
    then show ?thesis by blast
  qed
  have R2: "view_ok D t ?R2 ?F (next_content_id ov)" "look D t ?R2 ?F = look D t ?R ?F"
    "\<And>x e i. ?R2 x = Some e \<Longrightarrow> e_content e = CLocal i \<Longrightarrow> ?R x = Some e"
    using T by (auto simp: harmless_def)
  have R2in: "?R2 x = ?R x" if "inside x from \<or> inside x to" for x
    using par_out [OF that] Tkeys by (intro fold_upd_other) auto
  have reloc: "relocated D t from to ?R2 ?F ?R' ?F'"
    by (rule relocated_changes [OF base rows ok dis ne arr R2(2) R2in R2(3) rel]) (simp_all add: cs)
  have above: "dir_at D t ?R2 ?F a" if "below to a" for a
    using above_dirs [OF base ok good(2) par that] R2(2) by (simp add: dir_at_def)
  note ok' = view_ok_relocated [OF base R2(1) reloc dis good above]
    and look' = look_relocated [OF base R2(1) reloc dis good above]
  have gp: "good_path (change_key c)" if "c \<in> set (cs @ T)" for c
    using that Tkeys relocation_changes_good [OF base rows ok good arr] view_okD(1) [OF ok]
    by (auto simp: cs set_rows_under [OF bt ne(2)] row_ok_def)
  have "rows_ok ?ov'" unfolding commit_def by (rule rows_ok_commit [OF rows]) (use gp in blast)
  moreover have entries': "bt_get (entries ?ov') = ?R'"
    unfolding commit_def commit_entries using fold_upd_commute [OF disj] by simp
  moreover have files': "bt_get (files ?ov') = ?F'" by (rule ext) (simp add: commit_def)
  moreover have "next_content_id ?ov' = next_content_id ov" by (simp add: commit_def)
  ultimately have "overlay_ok D t ?ov'" using ok' by (simp add: overlay_ok_def)
  moreover have "lookup D t ?ov' = bt_get (m_move_subtree from to m)"
    using m_move_subtree_get(1) [OF bm dis ne] simD(4) [OF sim] look' R2(2)
    by (simp add: lookup_look entries' files' fun_eq_iff)
  ultimately show ?thesis
    using sim m_move_subtree_get(2) [OF bm dis ne] by (simp add: sim_def)
qed

text \<open>The committing half of \<open>rename\<close>, in the vocabulary above.\<close>

lemma released_mem:
  assumes "rows_ok ov" and "to \<noteq> []" and "i \<in> set (released ov to)"
  shows "\<exists>x e. inside x to \<and> bt_get (entries ov) x = Some e \<and> e_content e = CLocal i"
  using assms set_rows_under [of "entries ov" to] unfolding released_def inside_def rows_ok_def
  by (auto simp: row_ids_iff)

lemma hiding_gone:
  assumes base: "base_ok D t" and ok: "view_ok D t (bt_get (entries ov)) F nid"
  shows "change_key (hiding from (facts D t from) now (bt_get (entries ov) from)) = from"
    and "gone_row t from (change_val (hiding from (facts D t from) now (bt_get (entries ov) from)))"
    and "change_val (hiding from (facts D t from) now (bt_get (entries ov) from)) = Some e \<Longrightarrow>
      e_path e = from \<and> e_content e = CNone \<and> (e_base e = None \<or> e_base e = facts D t from)"
proof -
  have rb: "row_base (bt_get (entries ov) from) (facts D t from) = facts D t from"
  proof (cases "bt_get (entries ov) from")
    case (Some e)
    then show ?thesis using row_base_facts [OF view_okD(1) [OF ok Some]] by simp
  qed (simp add: row_base_def)
  have none: "facts D t from = None \<longleftrightarrow> bt_get t from = None" using base by (simp add: facts_eq)
  show "change_key (hiding from (facts D t from) now (bt_get (entries ov) from)) = from"
    and "gone_row t from (change_val (hiding from (facts D t from) now (bt_get (entries ov) from)))"
    and "change_val (hiding from (facts D t from) now (bt_get (entries ov) from)) = Some e \<Longrightarrow>
      e_path e = from \<and> e_content e = CNone \<and> (e_base e = None \<or> e_base e = facts D t from)"
    using none by (auto simp: hiding_def rb whiteout_def gone_row_def split: option.splits)
qed

lemma rename_commit_steps:
  assumes mv: "moved_row from from_ino from_base to to_base (fst (next_time ov)) (snd (next_time ov))
      = (Inr moved, snd (next_time ov))"
    and ds: "fold (descendant_change from to (fst (next_time ov))) descs
      (map (\<lambda>e. Delete (e_path e)) (rows_under (entries ov) to) @ [Put moved]
        @ concat (map (mover_changes from to (fst (next_time ov))) (rows_under (entries ov) from)), snd (next_time ov))
      = ((map (\<lambda>e. Delete (e_path e)) (rows_under (entries ov) to) @ [Put moved]
        @ concat (map (mover_changes from to (fst (next_time ov))) (rows_under (entries ov) from))) @ ds, ov2)"
    and ov3: "ov3 = (if is_dir (e_kind moved) then ov2 else snd (next_time ov))"
    and cs: "cs = map (\<lambda>e. Delete (e_path e)) (rows_under (entries ov) to)
      @ relocation_changes ov from to (fst (next_time ov)) ds moved (hiding from from_base (fst (next_time ov)) (bt_get (entries ov) from))"
    and tch: "rename_touches from from_par to to_par (fst (next_time ov)) ov3 cs = (cs @ T, rt, ov3)"
  shows "rename_commit from from_ino from_base from_par to to_base to_par descs ov =
    (if is_dir (e_kind moved) \<and>
        length (rows_under (entries ov) from) + length descs > max_rename_entries (snd (next_time ov))
     then (Inl QuotaExceeded, snd (next_time ov))
     else (Inr (), commit (cs @ T) (released ov to) rt ov3))"
proof -
  have fields: "entries (snd (next_time ov)) = entries ov" by (simp add: next_time_def Let_def)
  show ?thesis
    using tch ds mv ov3 cs
    by (cases "is_dir (e_kind moved)")
      (simp_all add: rename_commit_def relocation_changes_def subtree_changes_def fields case_prod_beta Let_def)
qed

lemma rename_commit_refines:
  assumes sim: "sim D t ov m" and good: "good_path from" "good_path to"
    and dis: "\<not> inside to from" "\<not> inside from to"
    and par: "parent_of to = [] \<or> dir_in D t ov (parent_of to)" and n: "bt_get m from = Some n"
  shows "refines D t m (Inr (m_move_subtree from to m))
    (rename_commit from (ino_for from) (facts D t from) (parent_for D t from)
       to (facts D t to) (parent_for D t to) (descendants D t from) ov)"
proof -
  let ?ov1 = "snd (next_time ov)" and ?now = "fst (next_time ov)"
  let ?hid = "hiding from (facts D t from) ?now (bt_get (entries ov) from)"
  have st: "entries ?ov1 = entries ov" "children ?ov1 = children ov" "files ?ov1 = files ov"
      "next_content_id ?ov1 = next_content_id ov" by (simp_all add: next_time_def Let_def)
  have sim1: "sim D t ?ov1 m" using sim st by (rule sim_fields)
  note base = simD(1) [OF sim] and ok = simD(5) [OF sim1]
  have look: "look D t (bt_get (entries ?ov1)) (bt_get (files ?ov1)) from = Some n"
    using n simD(4) [OF sim1] by (simp add: lookup_look)
  obtain moved where mv: "moved_row from (ino_for from) (facts D t from) to (facts D t to) ?now ?ov1 = (Inr moved, ?ov1)"
    and arrived: "stands_for D t (bt_get (entries ?ov1)) (bt_get (files ?ov1)) from to moved"
      "e_opaque moved = is_dir (e_kind moved)"
    using moved_row_stands [OF base ok look] by blast
  have "only_ino ?ov1 ?ov1" by (auto simp: only_ino_def intro: exI [of _ "next_ino ?ov1"])
  from descendant_fold [OF this] obtain ds ov2 where
    fold: "fold (descendant_change from to ?now) (descendants D t from)
      (map (\<lambda>e. Delete (e_path e)) (rows_under (entries ov) to) @ [Put moved]
        @ concat (map (mover_changes from to ?now) (rows_under (entries ov) from)), ?ov1)
      = ((map (\<lambda>e. Delete (e_path e)) (rows_under (entries ov) to) @ [Put moved]
        @ concat (map (mover_changes from to ?now) (rows_under (entries ov) from))) @ ds, ov2)"
    and ino: "only_ino ?ov1 ov2" and ds: "descendant_puts D t ?ov1 from to ds"
    unfolding descendant_puts_def by blast
  define ov3 where "ov3 = (if is_dir (e_kind moved) then ov2 else ?ov1)"
  have st3: "entries ov3 = entries ov" "children ov3 = children ov" "files ov3 = files ov"
      "next_content_id ov3 = next_content_id ov"
    using only_ino_fields [OF ino] st by (simp_all add: ov3_def)
  have sim3: "sim D t ov3 m" using sim st3 by (rule sim_fields)
  note ok3 = simD(5) [OF sim3]
  have hid: "change_key ?hid = from" "gone_row t from (change_val ?hid)"
      "change_val ?hid = Some e \<Longrightarrow> e_path e = from \<and> e_content e = CNone \<and> (e_base e = None \<or> e_base e = facts D t from)"
    for e using hiding_gone [OF base ok, of "from" ?now] st by simp_all
  have arr: "arrivals D t ov3 from to ds moved ?hid"
    using arrived ds hid st st3 by (simp add: arrivals_def descendant_puts_def desc_put_def desc_key_def)
  have pf: "parent_of from = [] \<or> dir_in D t ov3 (parent_of from)"
    using look_closed [OF base ok look] good_parent_below [OF good(1)] st st3 by auto
  have pt: "parent_of to = [] \<or> dir_in D t ov3 (parent_of to)" using par by (simp add: st3)
  obtain T rt where T: "\<And>cs. rename_touches from (parent_for D t from) to (parent_for D t to) ?now ov3 cs = (cs @ T, rt cs, ov3)"
    "harmless D t (bt_get (entries ov3)) (bt_get (files ov3)) (next_content_id ov3) {parent_of from, parent_of to} T"
    by (rule rename_touches_harmless [OF refl base ok3 pf pt, of ?now]) (rule that)
  let ?cs = "map (\<lambda>e. Delete (e_path e)) (rows_under (entries ov) to) @ relocation_changes ov from to ?now ds moved ?hid"
  have rel: "\<exists>x e. inside x to \<and> bt_get (entries ov3) x = Some e \<and> e_content e = CLocal i"
    if "i \<in> set (released ov to)" for i
  proof -
    have "to \<noteq> []" using good(2) by auto
    from released_mem [OF simD(3) [OF sim] this that] show ?thesis by (simp add: st3)
  qed
  have "sim D t (commit (?cs @ T) (released ov to) (rt ?cs) ov3) (m_move_subtree from to m)"
    by (rule relocation_commit_sim [OF sim3 good dis pt arr T(2) rel, where now = ?now])
      (simp_all add: st3 relocation_changes_def subtree_changes_def)
  then show ?thesis
    using sim1 by (simp add: rename_commit_steps [OF mv fold ov3_def refl T(1)] refines_def agrees_def)
qed

text \<open>
  The model and the overlay test the source and the destination's parent in opposite orders; with
  the source present the two agree.
\<close>

lemma rename_refines:
  assumes sim: "sim D t ov m" and ne: "from \<noteq> []" "to \<noteq> []"
    and cond: "path_condition from = Inr ()" "path_condition to = Inr ()"
    and src: "bt_get m from \<noteq> None \<or> from = to \<or> is_within to from \<or> m_check_parent m to = Inr ()"
  shows "refines D t m (m_rename from to m) (apply_to_overlay D t (Rename from to) ov)"
proof -
  note base = simD(1) [OF sim] and ok = simD(5) [OF sim]
  have good: "good_path from" "good_path to" using path_condition_good ne cond by blast+
  have ex: "existing ov p (facts D t p) = map_option (\<lambda>n. to_entry_kind (n_kind n)) (bt_get m p)" if "p \<noteq> []" for p
    using existing_model [OF sim that] .
  note unf = m_rename_def rename_def cond ne check_parent_model [OF sim] ex
  consider "from = to \<or> is_within to from" | c where "from \<noteq> to" "\<not> is_within to from" "m_check_parent m to = Inl c"
    | "from \<noteq> to" "\<not> is_within to from" "m_check_parent m to = Inr ()" "bt_get m from = None"
    | n where "from \<noteq> to" "\<not> is_within to from" "m_check_parent m to = Inr ()" "bt_get m from = Some n"
    by (cases "m_check_parent m to"; cases "bt_get m from") auto
  then show ?thesis
  proof cases
    case 4
    have dis: "\<not> inside to from" using 4(2) is_within_inside [OF ne(1)] by blast
    have par: "parent_of to = [] \<or> dir_in D t ov (parent_of to)"
      using 4(3) dir_in_model [OF sim] by (simp add: m_check_parent_ok)
    have look: "look D t (bt_get (entries ov)) (bt_get (files ov)) = bt_get m"
      using simD(4) [OF sim] by (simp add: lookup_look)
    have move: "refines D t m (Inr (m_move_subtree from to m))
        (rename_commit from (ino_for from) (facts D t from) (parent_for D t from)
          to (facts D t to) (parent_for D t to) (descendants D t from) ov)" if "\<not> below from to"
      using rename_commit_refines [OF sim good dis _ par 4(4)] that 4(1) by (simp add: inside_def)
    show ?thesis
    proof (cases "bt_get m to")
      case None
      then have "\<not> below from to"
        using look_closed [OF base ok, of "from"] 4(4) look by (fastforce simp: dir_at_def)
      from move [OF this] None 4 show ?thesis by (simp add: unf)
    next
      case (Some k)
      have "m_is_empty_dir m to \<longleftrightarrow> view_empty D t (bt_get (entries ov)) (bt_get (files ov)) to"
        using model_empty_dir [OF sim good(2)] .
      then have empty: "m_is_empty_dir m to \<Longrightarrow> \<not> below from to"
        using 4(4) by (auto simp: view_empty_def look)
      have merged: "merged_dir_is_empty ov to (child_names t to) \<longleftrightarrow> m_is_empty_dir m to" if "is_dir (n_kind k)"
        using merged_empty [OF simD(1,3,5) [OF sim]] model_empty_dir [OF sim good(2)] that Some
          dir_in_model [OF sim] by blast
      have leaf: "\<not> is_dir (n_kind k) \<Longrightarrow> \<not> below from to"
        using look_closed [OF base ok, of "from" n to] 4(4) look Some by (auto simp: dir_at_def)
      have "is_dir (n_kind k) \<and> m_is_empty_dir m to \<or> \<not> is_dir (n_kind k) \<Longrightarrow> refines D t m (Inr (m_move_subtree from to m))
        (rename_commit from (ino_for from) (facts D t from) (parent_for D t from)
          to (facts D t to) (parent_for D t to) (descendants D t from) ov)"
        using move empty leaf by blast
      with Some 4 merged sim show ?thesis
        by (cases "is_dir (n_kind n)"; cases "is_dir (n_kind k)"; cases "m_is_empty_dir m to")
          (simp_all add: unf refines_def agrees_def)
    qed
  next
    case 2
    with src have "bt_get m from \<noteq> None" by simp
    with 2 sim show ?thesis by (auto simp: unf refines_def agrees_def)
  qed (use sim in \<open>auto simp: unf refines_def agrees_def\<close>)
qed

end
