(* ===== verification/Gfs_Walk.thy ===== *)
theory Gfs_Walk
  imports Gfs_RefineRename
begin

text \<open>
  \<open>merged_view\<close>, the recursive reading of the overlay that the repository's state machine test
  compares with the model, is the lookup view as a map: the walk visits exactly what a lookup
  finds, within its fuel.
\<close>

section \<open>One directory\<close>

lemma node_of_content_at: "node_of D t ov e = Node (e_kind e) (content_at D t (bt_get (files ov)) e)"
  by (simp add: node_of_def content_at_def)

lemma list_children_mem:
  assumes rows: "rows_ok ov"
  shows "e \<in> set (list_children ov dir) \<longleftrightarrow> (\<exists>x. bt_get (entries ov) x = Some e \<and> parent_of x = dir)"
proof -
  let ?K = "{x \<in> dom (bt_get (entries ov)). parent_of x = dir}"
  have kids: "(case bt_get (children ov) dir of None \<Rightarrow> {} | Some s \<Rightarrow> s) = leaf ` ?K"
    using rows by (simp add: rows_ok_def kids_ok_def kids_def)
  have fin: "finite (leaf ` ?K)" using finite_dom_map_of [of "entries ov"] by simp
  have join: "join_path dir (leaf x) = x" if "x \<in> ?K" for x
    using that rows join_parent_leaf [of x] by (auto simp: rows_ok_def keyed_def dom_def)
  have "e \<in> set (list_children ov dir) \<longleftrightarrow> (\<exists>x \<in> ?K. bt_get (entries ov) (join_path dir (leaf x)) = Some e)"
    unfolding list_children_def kids using fin by (auto simp: map_filter_def image_iff) force+
  then show ?thesis using join by (auto simp: dom_def)
qed

text \<open>Every child the walk lists is there for a lookup, and the other way round.\<close>

lemma walk_children_mem:
  assumes base: "base_ok D t" and ov: "overlay_ok D t ov" and dir: "dir = [] \<or> good_path dir"
  shows "(\<lambda>(name, n). (join_path dir name, n)) ` set (walk_children D t ov dir)
    = {(x, n). lookup D t ov x = Some n \<and> parent_of x = dir}"
proof -
  let ?R = "bt_get (entries ov)" and ?names = "if masks_base (entries ov) dir then [] else child_names t dir"
  let ?pick = "\<lambda>name. case resolve (entries ov) (join_path dir name) of
      Absent \<Rightarrow> None | Overlay e \<Rightarrow> Some (name, node_of D t ov e)
    | Base \<Rightarrow> map_option (Pair name) (base_node_of t (join_path dir name))"
  let ?A = "{(x, n). bt_get t x \<noteq> None \<and> \<not> masks_base (entries ov) dir \<and> lookup D t ov x = Some n \<and> parent_of x = dir}"
  let ?B = "{(x, n). (\<exists>e. ?R x = Some e \<and> e_present e) \<and> leaf x \<notin> set ?names \<and> lookup D t ov x = Some n \<and> parent_of x = dir}"
  have rows: "rows_ok ov" and ok: "view_ok D t ?R (bt_get (files ov)) (next_content_id ov)"
    using ov by (simp_all add: overlay_ok_def)
  have bgood: "good_path x" if "bt_get t x \<noteq> None" for x
    using that base_entryD [OF base, of x] by (auto simp: base_entry_ok_def)
  have join: "join_path dir (leaf x) = x" if "good_path x" "parent_of x = dir" for x
    using join_parent_leaf [OF that(1)] that(2) by simp
  have pick: "?pick (leaf x) = map_option (Pair (leaf x)) (lookup D t ov x)" if "good_path x" "parent_of x = dir" for x
    using that(1) by (auto simp: join [OF that] lookup_def split: resolution.splits)
  have names: "set ?names = {leaf x | x. bt_get t x \<noteq> None \<and> \<not> masks_base (entries ov) dir \<and> parent_of x = dir}"
    using base_child_names [OF base dir] by simp
  have A: "(\<lambda>(name, n). (join_path dir name, n)) ` set (List.map_filter ?pick ?names) = ?A"
  proof -
    have "p \<in> set (List.map_filter ?pick ?names) \<longleftrightarrow>
        (\<exists>x n. p = (leaf x, n) \<and> (x, n) \<in> ?A)" for p
    proof -
      have "p \<in> set (List.map_filter ?pick ?names) \<longleftrightarrow> (\<exists>name \<in> set ?names. ?pick name = Some p)"
        by (auto simp: map_filter_def image_iff simp del: if_split)
      also have "\<dots> \<longleftrightarrow> (\<exists>x. bt_get t x \<noteq> None \<and> \<not> masks_base (entries ov) dir \<and> parent_of x = dir
          \<and> ?pick (leaf x) = Some p)"
        unfolding names by blast
      also have "\<dots> \<longleftrightarrow> (\<exists>x n. p = (leaf x, n) \<and> (x, n) \<in> ?A)"
      proof -
        have "?pick (leaf x) = Some p \<longleftrightarrow> (\<exists>n. p = (leaf x, n) \<and> lookup D t ov x = Some n)"
          if "bt_get t x \<noteq> None" "parent_of x = dir" for x
          unfolding pick [OF bgood [OF that(1)] that(2)] by auto
        then show ?thesis unfolding mem_Collect_eq case_prod_conv by blast
      qed
      finally show ?thesis .
    qed
    note mem = this
    have rejoin: "join_path dir (leaf y) = y" if "(y, n) \<in> ?A" for y n
      using that join bgood by blast
    have "(x, n) \<in> (\<lambda>(name, n). (join_path dir name, n)) ` set (List.map_filter ?pick ?names) \<longleftrightarrow> (x, n) \<in> ?A" for x n
    proof -
      have "(x, n) \<in> (\<lambda>(name, n). (join_path dir name, n)) ` set (List.map_filter ?pick ?names) \<longleftrightarrow>
          (\<exists>name. (name, n) \<in> set (List.map_filter ?pick ?names) \<and> x = join_path dir name)" by force
      also have "\<dots> \<longleftrightarrow> (\<exists>y. (y, n) \<in> ?A \<and> x = join_path dir (leaf y))" unfolding mem by blast
      also have "\<dots> \<longleftrightarrow> (x, n) \<in> ?A"
      proof
        assume "\<exists>y. (y, n) \<in> ?A \<and> x = join_path dir (leaf y)"
        then obtain y where y: "(y, n) \<in> ?A" "x = join_path dir (leaf y)" by blast
        with rejoin [OF y(1)] show "(x, n) \<in> ?A" by (simp only:)
      next
        assume x: "(x, n) \<in> ?A"
        show "\<exists>y. (y, n) \<in> ?A \<and> x = join_path dir (leaf y)"
          by (rule exI [of _ x]) (rule conjI [OF x rejoin [OF x, symmetric]])
      qed
      finally show ?thesis .
    qed
    then show ?thesis unfolding set_eq_iff split_paired_All by (intro allI) assumption
  qed
  have present: "lookup D t ov x = Some (node_of D t ov e)" if "?R x = Some e" "e_present e" for x e
    using present_row_look [OF ok that] by (simp add: lookup_look node_of_content_at)
  have B: "(\<lambda>(name, n). (join_path dir name, n)) ` set (map (\<lambda>e. (entry_name e, node_of D t ov e))
      (extra_children ov dir (set ?names))) = ?B"
  proof -
    have row: "entry_name e = leaf x \<and> good_path x" if "?R x = Some e" for x e
      using view_okD(1) [OF ok that] by (simp add: row_ok_def entry_name_leaf)
    have "e \<in> set (extra_children ov dir (set ?names)) \<longleftrightarrow>
        (\<exists>x. ?R x = Some e \<and> parent_of x = dir \<and> e_present e \<and> leaf x \<notin> set ?names)" for e
      unfolding extra_children_def set_filter mem_Collect_eq list_children_mem [OF rows] using row by metis
    then have set: "set (extra_children ov dir (set ?names)) =
        {e. \<exists>x. ?R x = Some e \<and> parent_of x = dir \<and> e_present e \<and> leaf x \<notin> set ?names}" by blast
    show ?thesis
    proof (rule set_eqI, clarify)
      fix x n
      have "(x, n) \<in> (\<lambda>(name, n). (join_path dir name, n)) ` set (map (\<lambda>e. (entry_name e, node_of D t ov e))
          (extra_children ov dir (set ?names))) \<longleftrightarrow>
          (\<exists>e y. ?R y = Some e \<and> parent_of y = dir \<and> e_present e \<and> leaf y \<notin> set ?names
             \<and> x = join_path dir (entry_name e) \<and> n = node_of D t ov e)"
        unfolding set_map set image_image case_prod_conv by blast
      also have "\<dots> \<longleftrightarrow> (\<exists>e. ?R x = Some e \<and> parent_of x = dir \<and> e_present e \<and> leaf x \<notin> set ?names \<and> n = node_of D t ov e)"
        using row join by metis
      also have "\<dots> \<longleftrightarrow> (x, n) \<in> ?B" using present by fastforce
      finally show "(x, n) \<in> (\<lambda>(name, n). (join_path dir name, n)) ` set (map (\<lambda>e. (entry_name e, node_of D t ov e))
          (extra_children ov dir (set ?names))) \<longleftrightarrow> (x, n) \<in> ?B" .
    qed
  qed
  have "lookup D t ov x = Some n \<and> parent_of x = dir \<longleftrightarrow> (x, n) \<in> ?A \<or> (x, n) \<in> ?B" for x n
  proof (cases "lookup D t ov x = Some n \<and> parent_of x = dir")
    case True
    then have x: "good_path x" using look_good [OF base ok] by (simp add: lookup_look)
    note look = child_look [OF ok x]
    have "(x, n) \<in> ?A \<or> (x, n) \<in> ?B"
    proof (cases "?R x")
      case None
      with True look have "\<not> masks_base (entries ov) dir" "base_node_of t x = Some n"
        by (auto simp: lookup_look split: if_splits)
      with True base show ?thesis by (auto simp: base_node_of_eq split: option.splits)
    next
      case (Some e)
      with True look have e: "e_present e" by (auto simp: lookup_look split: if_splits)
      show ?thesis
      proof (cases "leaf x \<in> set ?names")
        case mem: True
        then obtain y where y: "leaf x = leaf y" "bt_get t y \<noteq> None" "\<not> masks_base (entries ov) dir" "parent_of y = dir"
          unfolding names by blast
        then have "y = x" using parent_leaf_inj [of y x] bgood x True by simp
        with y True show ?thesis by blast
      qed (use True Some e in blast)
    qed
    with True show ?thesis by blast
  qed blast
  note both = this
  show ?thesis
    unfolding walk_children_def Let_def set_append image_Un A B set_eq_iff split_paired_All Un_iff
  proof (intro allI)
    show "((x, n) \<in> ?A \<or> (x, n) \<in> ?B) = ((x, n) \<in> {(x, n). lookup D t ov x = Some n \<and> parent_of x = dir})" for x n
      using both [of x n] by (simp only: mem_Collect_eq case_prod_conv)
  qed
qed

lemma walk_children_entry:
  assumes "base_ok D t" and "overlay_ok D t ov" and "dir = [] \<or> good_path dir"
  shows "(name, n) \<in> set (walk_children D t ov dir) \<Longrightarrow>
      lookup D t ov (join_path dir name) = Some n \<and> parent_of (join_path dir name) = dir"
    and "lookup D t ov y = Some n \<Longrightarrow> parent_of y = dir \<Longrightarrow>
      \<exists>name. (name, n) \<in> set (walk_children D t ov dir) \<and> join_path dir name = y"
proof -
  note eq = walk_children_mem [OF assms]
  assume "(name, n) \<in> set (walk_children D t ov dir)"
  then have "(join_path dir name, n) \<in> (\<lambda>(name, n). (join_path dir name, n)) ` set (walk_children D t ov dir)" by force
  then show "lookup D t ov (join_path dir name) = Some n \<and> parent_of (join_path dir name) = dir"
    unfolding eq by simp
next
  note eq = walk_children_mem [OF assms]
  assume "lookup D t ov y = Some n" "parent_of y = dir"
  then have "(y, n) \<in> (\<lambda>(name, n). (join_path dir name, n)) ` set (walk_children D t ov dir)" unfolding eq by simp
  then show "\<exists>name. (name, n) \<in> set (walk_children D t ov dir) \<and> join_path dir name = y" by force
qed

section \<open>The whole walk\<close>

text \<open>What lies strictly inside a directory; everything, for the root.\<close>

definition within :: "path \<Rightarrow> path \<Rightarrow> bool" where
  "within x dir \<longleftrightarrow> dir = [] \<or> below x dir"

definition reached :: "digests \<Rightarrow> base_tree \<Rightarrow> overlay \<Rightarrow> (path \<Rightarrow> bool) \<Rightarrow> live \<Rightarrow> live \<Rightarrow> bool" where
  "reached D t ov P out out' \<longleftrightarrow> (bt_ok out \<longrightarrow> bt_ok out') \<and>
     (\<forall>x. bt_get out' x = (if P x \<and> lookup D t ov x \<noteq> None then lookup D t ov x else bt_get out x))"

lemma reached_comp:
  "reached D t ov P out out' \<Longrightarrow> reached D t ov Q out' out'' \<Longrightarrow> reached D t ov (\<lambda>x. P x \<or> Q x) out out''"
  by (auto simp: reached_def)

lemma reached_cong:
  "reached D t ov P out out' \<Longrightarrow> (\<And>x n. lookup D t ov x = Some n \<Longrightarrow> P x = Q x) \<Longrightarrow> reached D t ov Q out out'"
  unfolding reached_def by (metis not_None_eq)

lemma top_on_way: "good_path x \<Longrightarrow> \<exists>y. parent_of y = [] \<and> inside x y"
proof (cases "CHR ''/'' \<in> set x")
  case True
  then obtain n r where "x = n @ CHR ''/'' # r" "CHR ''/'' \<notin> set n" by (meson split_list_first)
  then have "parent_of n = [] \<and> inside x n" by (auto simp: inside_iff parent_of_top)
  then show ?thesis ..
next
  case False
  then have "parent_of x = [] \<and> inside x x" by (simp add: inside_def parent_of_top)
  then show ?thesis ..
qed

lemma within_children:
  assumes base: "base_ok D t" and ov: "overlay_ok D t ov" and x: "lookup D t ov x = Some n"
  shows "within x dir \<longleftrightarrow> (\<exists>y m. lookup D t ov y = Some m \<and> parent_of y = dir \<and> inside x y)"
proof -
  have ok: "view_ok D t (bt_get (entries ov)) (bt_get (files ov)) (next_content_id ov)"
    using ov by (simp add: overlay_ok_def)
  have good: "good_path y" if "lookup D t ov y = Some m" for y m
    using look_good [OF base ok] that by (simp add: lookup_look)
  have ex: "\<exists>m. lookup D t ov y = Some m" if "inside x y" for y
    using look_closed [OF base ok, of x n y] x that by (auto simp: lookup_look inside_def dir_at_def)
  show ?thesis
  proof
    assume "within x dir"
    then have "\<exists>y. parent_of y = dir \<and> inside x y"
      using child_on_way [OF good [OF x]] top_on_way [OF good [OF x]] unfolding within_def inside_def by metis
    with ex show "\<exists>y m. lookup D t ov y = Some m \<and> parent_of y = dir \<and> inside x y" by blast
  next
    assume "\<exists>y m. lookup D t ov y = Some m \<and> parent_of y = dir \<and> inside x y"
    then obtain y m where y: "lookup D t ov y = Some m" "parent_of y = dir" "inside x y" by blast
    show "within x dir"
    proof (cases "dir = []")
      case False
      then have "below y dir" using good_parent_below [OF good [OF y(1)]] y(2) by simp
      then show ?thesis using y(3) below_trans by (auto simp: within_def inside_def)
    qed (simp add: within_def)
  qed
qed

text \<open>The loop over the children, when the recursive calls are right.\<close>

lemma walk_loop:
  assumes cs: "\<And>name n. (name, n) \<in> set cs \<Longrightarrow> lookup D t ov (join_path dir name) = Some n"
    and rec: "\<And>name n out. (name, n) \<in> set cs \<Longrightarrow> is_dir (n_kind n) \<Longrightarrow>
      reached D t ov (\<lambda>x. below x (join_path dir name)) out (W (join_path dir name) out)"
    and leafs: "\<And>name n x. (name, n) \<in> set cs \<Longrightarrow> \<not> is_dir (n_kind n) \<Longrightarrow> below x (join_path dir name) \<Longrightarrow>
      lookup D t ov x = None"
  shows "reached D t ov (\<lambda>x. \<exists>(name, n) \<in> set cs. inside x (join_path dir name)) out
    (fold (\<lambda>(name, node) out. let p = join_path dir name; out1 = bt_insert p node out
             in if is_dir (n_kind node) then W p out1 else out1) cs out)"
  using assms
proof (induction cs arbitrary: out)
  case Nil
  then show ?case by (simp add: reached_def)
next
  case (Cons c cs)
  obtain name n where c: "c = (name, n)" by force
  let ?p = "join_path dir name" and ?out1 = "bt_insert (join_path dir name) n out"
  have "lookup D t ov ?p = Some n" using Cons.prems(1) c by simp
  then have ins: "reached D t ov (\<lambda>x. x = ?p) out ?out1" by (auto simp: reached_def)
  have "reached D t ov (\<lambda>x. inside x ?p) out (if is_dir (n_kind n) then W ?p ?out1 else ?out1)"
  proof (cases "is_dir (n_kind n)")
    case True
    have "reached D t ov (\<lambda>x. below x ?p) ?out1 (W ?p ?out1)"
      by (rule Cons.prems(2) [of name n]) (use c True in simp_all)
    from reached_comp [OF ins this] True show ?thesis by (simp add: inside_def)
  next
    case False
    have "lookup D t ov x = None" if "below x ?p" for x
      by (rule Cons.prems(3) [of name n]) (use c False that in simp_all)
    then have "reached D t ov (\<lambda>x. inside x ?p) out ?out1"
      by (intro reached_cong [OF ins]) (auto simp: inside_def)
    with False show ?thesis by simp
  qed
  moreover have "reached D t ov (\<lambda>x. \<exists>(name, n) \<in> set cs. inside x (join_path dir name)) out2
    (fold (\<lambda>(name, node) out. let p = join_path dir name; out1 = bt_insert p node out
             in if is_dir (n_kind node) then W p out1 else out1) cs out2)" for out2
    by (rule Cons.IH) (rule Cons.prems; simp; fail)+
  ultimately have "reached D t ov (\<lambda>x. inside x ?p \<or> (\<exists>(name, n) \<in> set cs. inside x (join_path dir name))) out
    (fold (\<lambda>(name, node) out. let p = join_path dir name; out1 = bt_insert p node out
             in if is_dir (n_kind node) then W p out1 else out1) cs
       (if is_dir (n_kind n) then W ?p ?out1 else ?out1))"
    by (rule reached_comp)
  then show ?case by (simp add: c Let_def)
qed

lemma walk_reaches:
  assumes base: "base_ok D t" and ov: "overlay_ok D t ov"
    and bound: "\<And>x n. lookup D t ov x = Some n \<Longrightarrow> length x < fuel + length dir"
    and dir: "dir = [] \<or> (\<exists>n. lookup D t ov dir = Some n)"
  shows "reached D t ov (\<lambda>x. within x dir) out (walk fuel D t ov dir out)"
  using bound dir
proof (induction fuel arbitrary: dir out)
  case 0
  have "length x < length dir" if "lookup D t ov x = Some n" for x n using 0 that by force
  then have "lookup D t ov x = None" if "within x dir" for x
    using that by (cases "lookup D t ov x") (fastforce simp: within_def below_def)+
  then have "\<not> (within x dir \<and> lookup D t ov x \<noteq> None)" for x
    by (cases "within x dir") simp_all
  then show ?case by (simp only: reached_def walk.simps if_False simp_thms)
next
  case (Suc fuel)
  have ok: "view_ok D t (bt_get (entries ov)) (bt_get (files ov)) (next_content_id ov)"
    using ov by (simp add: overlay_ok_def)
  have gdir: "dir = [] \<or> good_path dir"
    using Suc.prems(2) look_good [OF base ok] by (auto simp: lookup_look)
  have child: "lookup D t ov (join_path dir name) = Some n \<and> parent_of (join_path dir name) = dir"
    if "(name, n) \<in> set (walk_children D t ov dir)" for name n
    using walk_children_entry [OF base ov gdir] that by blast
  have longer: "length dir < length x" if "lookup D t ov x = Some n" "parent_of x = dir" for x n
  proof -
    have "good_path x" using look_good [OF base ok] that by (auto simp: lookup_look)
    then have "x \<noteq> []" and "dir \<noteq> [] \<Longrightarrow> below x dir" using good_parent_below [of x] that(2) by auto
    then show ?thesis by (cases "dir = []") (auto simp: below_def)
  qed
  have "reached D t ov (\<lambda>x. \<exists>(name, n) \<in> set (walk_children D t ov dir). inside x (join_path dir name)) out
      (walk (Suc fuel) D t ov dir out)"
    unfolding walk.simps
  proof (rule walk_loop)
    fix name n assume mem: "(name, n) \<in> set (walk_children D t ov dir)"
    note c = child [OF mem]
    show "lookup D t ov (join_path dir name) = Some n" using c by simp
    show "reached D t ov (\<lambda>x. below x (join_path dir name)) out (walk fuel D t ov (join_path dir name) out)" for out
    proof -
      have "length x < fuel + length (join_path dir name)" if "lookup D t ov x = Some m" for x m
        using Suc.prems(1) [OF that] longer [of "join_path dir name" n] c by simp
      then have "reached D t ov (\<lambda>x. within x (join_path dir name)) out (walk fuel D t ov (join_path dir name) out)"
        by (rule Suc.IH) (use c in blast)+
      moreover have "join_path dir name \<noteq> []" using longer [of "join_path dir name" n] c by force
      ultimately show ?thesis by (simp add: within_def)
    qed
    show "lookup D t ov x = None" if "\<not> is_dir (n_kind n)" "below x (join_path dir name)" for x
      using look_below_none [OF base ok that(2)] that(1) c by (simp add: lookup_look dir_at_def)
  qed
  then show ?case
  proof (rule reached_cong)
    fix x n assume x: "lookup D t ov x = Some n"
    have "within x dir \<longleftrightarrow> (\<exists>y m. lookup D t ov y = Some m \<and> parent_of y = dir \<and> inside x y)"
      by (rule within_children [OF base ov x])
    also have "\<dots> \<longleftrightarrow> (\<exists>(name, n) \<in> set (walk_children D t ov dir). inside x (join_path dir name))"
      using walk_children_entry [OF base ov gdir] unfolding Bex_def split_paired_Ex case_prod_conv by metis
    finally show "(\<exists>(name, n) \<in> set (walk_children D t ov dir). inside x (join_path dir name)) = within x dir" ..
  qed
qed

lemma key_length: "bt_get m x = Some v \<Longrightarrow> length x \<le> sum_list (map (length \<circ> fst) m)"
  using member_le_sum_list [of "length x" "map (length \<circ> fst) m"] by (force dest: map_of_SomeD)

lemma merged_view_lookup:
  assumes base: "base_ok D t" and ov: "overlay_ok D t ov"
  shows "bt_get (merged_view D t ov) = lookup D t ov" and "bt_ok (merged_view D t ov)"
proof -
  have "length x < walk_fuel t ov" if "lookup D t ov x = Some n" for x n
  proof -
    have "bt_get (entries ov) x \<noteq> None \<or> bt_get t x \<noteq> None"
      using that base by (auto simp: lookup_look look_def resolves_def base_node_of_eq
          split: if_splits option.splits)
    then show ?thesis using key_length [of "entries ov" x] key_length [of t x] by (auto simp: walk_fuel_def)
  qed
  then have "reached D t ov (\<lambda>x. within x []) [] (merged_view D t ov)"
    unfolding merged_view_def by (intro walk_reaches [OF base ov]) auto
  then show "bt_get (merged_view D t ov) = lookup D t ov" "bt_ok (merged_view D t ov)"
    by (auto simp: reached_def within_def fun_eq_iff)
qed

end
