(* ===== verification/Gfs_Simulation.thy ===== *)
theory Gfs_Simulation
  imports Gfs_Walk "HOL-Library.Code_Target_Nat"
begin

text \<open>
  The overlay against the reference model, for sequences of operations. The interface
  \<open>step_simulation\<close> is what a single step has to promise; its client lemma extends the promise to
  runs. The interpretation instantiates it with the overlay and the model, whose step law is the
  collection of the refinement lemmas of the single operations.
\<close>

section \<open>Runs in lockstep\<close>

text \<open>
  The specification after one step: it stays when the implementation refused for a limit or the
  specification itself refuses.
\<close>

definition follow :: "'e \<Rightarrow> 'e + unit \<Rightarrow> 'e + 'a \<Rightarrow> 'a \<Rightarrow> 'a" where
  "follow limit r res a = (if r = Inl limit then a else case res of Inl _ \<Rightarrow> a | Inr a' \<Rightarrow> a')"

definition same_outcome :: "'e + unit \<Rightarrow> 'e + 'a \<Rightarrow> bool" where
  "same_outcome r res \<longleftrightarrow> r = (case res of Inl e \<Rightarrow> Inl e | Inr _ \<Rightarrow> Inr ())"

text \<open>At every point of the run the views are equal, and the outcomes agree up to the limit.\<close>

fun tracks :: "('c \<Rightarrow> 'a) \<Rightarrow> ('o \<Rightarrow> 'c \<Rightarrow> ('e + unit) \<times> 'c) \<Rightarrow> ('o \<Rightarrow> 'a \<Rightarrow> 'e + 'a) \<Rightarrow> 'e
    \<Rightarrow> 'o list \<Rightarrow> 'c \<Rightarrow> 'a \<Rightarrow> bool" where
  "tracks view impl spec limit [] c a = (view c = a)"
| "tracks view impl spec limit (x # xs) c a =
     (view c = a \<and> (let (r, c') = impl x c
        in (r = Inl limit \<or> same_outcome r (spec x a))
           \<and> tracks view impl spec limit xs c' (follow limit r (spec x a) a)))"

text \<open>Every operation of the run is admissible where it is applied.\<close>

fun admitted :: "('o \<Rightarrow> 'c \<Rightarrow> 'a \<Rightarrow> bool) \<Rightarrow> ('o \<Rightarrow> 'c \<Rightarrow> ('e + unit) \<times> 'c) \<Rightarrow> ('o \<Rightarrow> 'a \<Rightarrow> 'e + 'a) \<Rightarrow> 'e
    \<Rightarrow> 'o list \<Rightarrow> 'c \<Rightarrow> 'a \<Rightarrow> bool" where
  "admitted adm impl spec limit [] c a = True"
| "admitted adm impl spec limit (x # xs) c a =
     (adm x c a \<and> (let (r, c') = impl x c
        in admitted adm impl spec limit xs c' (follow limit r (spec x a) a)))"

locale step_simulation =
  fixes rel :: "'c \<Rightarrow> 'a \<Rightarrow> bool" and view :: "'c \<Rightarrow> 'a"
    and impl :: "'o \<Rightarrow> 'c \<Rightarrow> ('e + unit) \<times> 'c" and spec :: "'o \<Rightarrow> 'a \<Rightarrow> 'e + 'a"
    and adm :: "'o \<Rightarrow> 'c \<Rightarrow> 'a \<Rightarrow> bool" and limit :: "'e"
  assumes view_rel: "rel c a \<Longrightarrow> view c = a"
    and step_rel: "rel c a \<Longrightarrow> adm x c a \<Longrightarrow>
      (fst (impl x c) = Inl limit \<or> same_outcome (fst (impl x c)) (spec x a))
      \<and> rel (snd (impl x c)) (follow limit (fst (impl x c)) (spec x a) a)"
begin

lemma run_tracks: "rel c a \<Longrightarrow> admitted adm impl spec limit xs c a \<Longrightarrow> tracks view impl spec limit xs c a"
proof (induction xs arbitrary: c a)
  case (Cons x xs)
  obtain r c' where x: "impl x c = (r, c')" by force
  with Cons.prems have "adm x c a" and rest: "admitted adm impl spec limit xs c' (follow limit r (spec x a) a)"
    by simp_all
  with step_rel [OF Cons.prems(1)] x
  have "r = Inl limit \<or> same_outcome r (spec x a)" "rel c' (follow limit r (spec x a) a)" by force+
  with Cons.IH [OF this(2) rest] view_rel [OF Cons.prems(1)] x show ?case by simp
qed (simp add: view_rel)

end

section \<open>The overlay and the model\<close>

text \<open>
  When the comparison is meant: the paths are ones the file system accepts, a link target is
  proper, a write is not empty, fits the 64-bit offsets and the remaining room, and a rename has a
  source or at least a destination directory (the two sides report a missing source and a missing
  destination directory in different orders).
\<close>

definition usable :: "path \<Rightarrow> bool" where
  "usable p \<longleftrightarrow> p \<noteq> [] \<and> path_condition p = Inr ()"

fun admissible :: "op \<Rightarrow> overlay \<Rightarrow> live \<Rightarrow> bool" where
  "admissible (CreateFile p) ov m = usable p"
| "admissible (Mkdir p) ov m = usable p"
| "admissible (MkSymlink p target) ov m = (usable p \<and> target \<noteq> [] \<and> CHR 0x00 \<notin> set target)"
| "admissible (Write p offset data) ov m =
     (usable p \<and> data \<noteq> [] \<and> offset + length data \<le> u64_max \<and> quota_bytes ov \<le> u64_max
      \<and> (case bt_get m p of None \<Rightarrow> True
         | Some n \<Rightarrow> local_bytes ov + length (n_content n) + offset + length data \<le> quota_bytes ov))"
| "admissible (Truncate p sz) ov m = usable p"
| "admissible (SetExecutable p x) ov m = usable p"
| "admissible (Unlink p) ov m = (p \<noteq> [])"
| "admissible (Rmdir p) ov m = (p \<noteq> [])"
| "admissible (Rename from to) ov m =
     (usable from \<and> usable to
      \<and> (bt_get m from \<noteq> None \<or> from = to \<or> is_within to from \<or> m_check_parent m to = Inr ()))"

lemma create_file_refines:
  assumes sim: "sim D t ov m" and p: "p \<noteq> []" "path_condition p = Inr ()"
  shows "refines D t m (m_create_file p m) (apply_to_overlay D t (CreateFile p) ov)"
proof (cases "over_quota ov 0 \<and> m_check_parent m p = Inr () \<and> bt_get m p = None")
  case True
  then have "apply_to_overlay D t (CreateFile p) ov = (Inl QuotaExceeded, ov)"
    using p by (simp add: create_file_def check_parent_model [OF sim] existing_model [OF sim] outcome_def)
  with sim show ?thesis by (simp add: refines_def)
next
  case False
  show ?thesis
  proof (cases "over_quota ov 0")
    case True
    with False have "m_check_parent m p \<noteq> Inr () \<or> bt_get m p \<noteq> None" by argo
    with p sim show ?thesis
      by (cases "m_check_parent m p") (auto simp: create_file_def check_parent_model [OF sim] existing_model [OF sim]
          outcome_def m_create_file_def m_insert_new_def refines_def agrees_def)
  qed (use create_file_agrees [OF sim p] in \<open>simp add: refines_def\<close>)
qed

lemma agrees_refines: "agrees D t m res out \<Longrightarrow> refines D t m res out"
  by (simp add: refines_def)

lemma step_refines:
  assumes "sim D t ov m" and "admissible x ov m"
  shows "refines D t m (apply_to_model x m) (apply_to_overlay D t x ov)"
proof (cases x)
  case (Write p offset data)
  then show ?thesis
    using assms write_refines [OF assms(1), of p data offset] by (auto simp: usable_def split: option.splits)
qed (use assms create_file_refines mkdir_agrees [THEN agrees_refines] symlink_agrees [THEN agrees_refines]
      truncate_refines set_executable_agrees [THEN agrees_refines] unlink_agrees [THEN agrees_refines]
      rmdir_agrees [THEN agrees_refines] rename_refines in \<open>force simp: usable_def\<close>)+

lemma sim_merged_view: "sim D t ov m \<Longrightarrow> merged_view D t ov = m"
  by (rule bt_ext) (simp_all add: sim_def merged_view_lookup)

text \<open>The model has no limits.\<close>

lemma model_no_limit: "apply_to_model x m \<noteq> Inl QuotaExceeded"
  by (cases x)
    (auto simp: m_create_file_def m_mkdir_def m_symlink_def m_insert_new_def m_check_parent_def m_write_def
      m_truncate_def m_set_executable_def m_unlink_def m_rmdir_def m_rename_def Let_def split: option.splits)

interpretation overlay_run: step_simulation "sim D t" "merged_view D t" "apply_to_overlay D t" apply_to_model
    admissible QuotaExceeded for D t
proof unfold_locales
  fix ov m x assume s: "sim D t ov m" and adm: "admissible x ov m"
  show "(fst (apply_to_overlay D t x ov) = Inl QuotaExceeded
        \<or> same_outcome (fst (apply_to_overlay D t x ov)) (apply_to_model x m))
      \<and> sim D t (snd (apply_to_overlay D t x ov))
         (follow QuotaExceeded (fst (apply_to_overlay D t x ov)) (apply_to_model x m) m)"
    using step_refines [OF s adm] model_no_limit [of x m]
    by (auto simp: refines_def agrees_def same_outcome_def follow_def split: sum.splits)
qed (rule sim_merged_view)

text \<open>A fresh overlay shows the base tree, which is the model's initial map.\<close>

lemma model_new_fold:
  "distinct (map fst xs) \<Longrightarrow>
   bt_get (fold (\<lambda>(p, n) m. case from_entry_kind (bn_kind n) of None \<Rightarrow> m
                             | Some k \<Rightarrow> bt_insert p (Node k (bn_content n)) m) xs acc) x =
   (case map_of xs x of None \<Rightarrow> bt_get acc x
    | Some n \<Rightarrow> (case from_entry_kind (bn_kind n) of None \<Rightarrow> bt_get acc x | Some k \<Rightarrow> Some (Node k (bn_content n))))"
proof (induction xs arbitrary: acc)
  case (Cons pn xs)
  obtain p n where pn: "pn = (p, n)" by force
  have "map_of xs p = None" using Cons.prems pn by (simp add: map_of_eq_None_iff)
  with Cons pn show ?case by (auto split: option.splits)
qed simp

lemma model_new_get: "base_ok D t \<Longrightarrow> bt_get (model_new t) = base_node_of t"
  unfolding model_new_def
  by (rule ext, subst model_new_fold)
    (auto simp: base_node_of_eq base_ok_def bt_ok_distinct split: option.splits)

lemma model_new_ok: "bt_ok (model_new t)"
  unfolding model_new_def by (rule fold_invariant) (auto split: option.splits)

lemma fresh_sim:
  assumes base: "base_ok D t" and fresh: "entries ov = []" "children ov = []" "files ov = []"
  shows "sim D t ov (model_new t)"
proof -
  have "look D t (\<lambda>_. None) F x = base_node_of t x" for F x
    using base base_get_good [OF base, of "[]"]
    by (auto simp: look_def resolves_def blocked_def masked_def base_node_of_def base_get_def)
  then have "lookup D t ov = base_node_of t" by (auto simp: lookup_look fresh)
  moreover have "overlay_ok D t ov"
    by (simp add: overlay_ok_def fresh rows_ok_def keyed_def kids_ok_def kids_def view_ok_def unique_ids_def closed_def)
  ultimately show ?thesis using base model_new_get [OF base] model_new_ok by (simp add: sim_def)
qed

section \<open>Every branch\<close>

text \<open>
  What keeps the overlay's invariant, on every branch and for every argument: refused paths, writes the quota
  cuts short or refuses, renames without a source. Two requests of the interface break it when they are accepted,
  and \<open>spoils\<close> names them: a write of no bytes past the end of a file gives the row a size its file does not
  have, and a file, directory or link can be made at the empty path, for which \<open>remove\<close>, \<open>adopt\<close> and
  \<open>rename\<close> have a guard and the three creating operations have none.
\<close>

fun spoils :: "digests \<Rightarrow> base_tree \<Rightarrow> op \<Rightarrow> overlay \<Rightarrow> bool" where
  "spoils D t (Write p offset data) ov \<longleftrightarrow>
     data = [] \<and> fst (apply_to_overlay D t (Write p offset data) ov) = Inr ()
     \<and> (case lookup D t ov p of None \<Rightarrow> False | Some n \<Rightarrow> length (n_content n) < offset)"
| "spoils D t (CreateFile p) ov \<longleftrightarrow> p = [] \<and> fst (apply_to_overlay D t (CreateFile p) ov) = Inr ()"
| "spoils D t (Mkdir p) ov \<longleftrightarrow> p = [] \<and> fst (apply_to_overlay D t (Mkdir p) ov) = Inr ()"
| "spoils D t (MkSymlink p target) ov \<longleftrightarrow> p = [] \<and> fst (apply_to_overlay D t (MkSymlink p target) ov) = Inr ()"
| "spoils D t x ov \<longleftrightarrow> False"

text \<open>A write ends within the 64-bit offsets.\<close>

fun in_range :: "op \<Rightarrow> bool" where
  "in_range (Write p offset data) \<longleftrightarrow> offset + length data \<le> u64_max"
| "in_range x \<longleftrightarrow> True"

lemma resolve_row: "resolve rs p = Overlay e \<Longrightarrow> bt_get rs p = Some e \<and> e_present e"
  by (auto simp: resolve_eq resolves_def split: if_splits option.splits)

lemma local_row_file:
  assumes "row_ok D t F nid p e" and "local_id (e_content e) = Some i"
  shows "is_file (e_kind e)" "e_content e = CLocal i" "good_path p"
  using assms by (auto simp: row_ok_def shape_ok_def local_id_iff)

lemma h_materialize_any:
  assumes sim: "sim D t ov m"
  shows "(\<exists>c ov'. h_materialize D t p ino ov = (Inl c, ov') \<and> sim D t ov' m)
    \<or> (\<exists>n ov'. bt_get m p = Some n \<and> is_file (n_kind n) \<and> h_materialize D t p ino ov = (Inr (), ov')
         \<and> materialized D t m p n ov ov')"
proof (cases "usable p")
  case True
  then have p: "p \<noteq> []" "path_condition p = Inr ()" by (simp_all add: usable_def)
  note ref = h_materialize_refused [OF sim p, where ino = ino]
  show ?thesis
  proof (cases m p rule: model_cases)
    case (4 n)
    then show ?thesis using h_materialize_file [OF sim p 4, of ino] by blast
  qed (use ref sim in blast)+
next
  case False
  show ?thesis
  proof (cases "\<exists>e i. resolve (entries ov) p = Overlay e \<and> local_id (e_content e) = Some i")
    case True
    then obtain e i where e: "resolve (entries ov) p = Overlay e" "local_id (e_content e) = Some i" by blast
    note row = resolve_row [OF e(1)]
    then have ok: "row_ok D t (bt_get (files ov)) (next_content_id ov) p e" using simD(5) [OF sim] by (blast dest: view_okD(1))
    note isf = local_row_file [OF ok e(2)]
    from isf(3) have "p \<noteq> []" by auto
    then have n: "bt_get m p = Some (Node (e_kind e) (content_at D t (bt_get (files ov)) e))"
      using model_overlay(1) [OF sim _ e(1)] by simp
    moreover have "h_materialize D t p ino ov = (Inr (), ov)" using e by (simp add: h_materialize_def Let_def)
    moreover have "materialized D t m p (Node (e_kind e) (content_at D t (bt_get (files ov)) e)) ov ov"
      using sim row isf by (auto simp: materialized_def)
    ultimately show ?thesis using isf(1) by (metis node.sel(1))
  next
    case no_local: False
    have "\<exists>c. h_materialize D t p ino ov = (Inl c, ov)"
    proof (cases "path_condition p")
      case (Inl c)
      then show ?thesis using no_local
        by (auto simp: h_materialize_def Let_def materialize_def split: resolution.splits option.splits)
    next
      case (Inr u)
      with False have "p = []" by (simp add: usable_def)
      moreover from this have "bt_get (entries ov) p = None"
        using simD(5) [OF sim] by (cases "bt_get (entries ov) p") (auto dest: good_row)
      ultimately show ?thesis using resolve_row [of "entries ov" p]
        by (auto simp: h_materialize_def base_get_def split: resolution.splits)
    qed
    then show ?thesis using sim by blast
  qed
qed

lemma admit_prefix:
  assumes "admit_write ov current offset data = Inr d"
  shows "length d \<le> length data" "d = [] \<Longrightarrow> data = []"
  using assms by (auto simp: admit_write_def Let_def sat_sub_def split: if_splits)

lemma write_at_any:
  assumes mat: "materialized D t m p n ov0 ov" and n: "bt_get m p = Some n" "is_file (n_kind n)"
    and range: "offset + length data \<le> u64_max"
  shows "overlay_ok D t (snd (outcome (write_at p offset data ov))) \<longleftrightarrow>
    \<not> (data = [] \<and> fst (outcome (write_at p offset data ov)) = Inr () \<and> length (n_content n) < offset)"
proof -
  from mat obtain e i where sim: "sim D t ov m" and e: "bt_get (entries ov) p = Some e" "e_present e"
      "e_content e = CLocal i" "e_kind e = n_kind n"
    by (auto simp: materialized_def)
  note ok = simD(5) [OF sim]
  have row: "row_ok D t (bt_get (files ov)) (next_content_id ov) p e" by (rule view_okD(1) [OF ok e(1)])
  then obtain bs where bs: "bt_get (files ov) i = Some bs" "length bs = e_size e" and ep: "e_path e = p" "good_path p"
    using e(3) by (auto simp: row_ok_def)
  have c: "n_content n = bs"
    using present_row_look [OF ok e(1,2)] simD(4) [OF sim] n(1) e(3) bs(1) by (auto simp: lookup_look content_at_def)
  show ?thesis
  proof (cases "admit_write ov (e_size e) offset data")
    case (Inl c)
    then show ?thesis using e simD(2) [OF sim] by (simp add: write_at_def present_row_def outcome_def)
  next
    case (Inr d)
    let ?ov1 = "ov\<lparr>files := bt_insert i (pwrite offset d bs) (files ov)\<rparr>"
    let ?sz = "max (e_size e) (sat_add offset (length d))"
    let ?ov' = "note_written e ?sz None ?ov1"
    have out: "outcome (write_at p offset data ov) = (Inr (), ?ov')"
      using e bs Inr by (simp add: write_at_def present_row_def outcome_def Let_def)
    have sz: "?sz = max (length bs) (offset + length d)" using range admit_prefix(1) [OF Inr] bs(2) by (simp add: sat_add_exact)
    have ent: "bt_get (entries ?ov') p = Some (e\<lparr>e_size := ?sz, e_mtime := fst (next_time ?ov1), e_ctime := fst (next_time ?ov1)\<rparr>)"
      using ep(1) by (simp add: note_written_fields)
    have fil: "bt_get (files ?ov') i = Some (pwrite offset d bs)" by (simp add: note_written_fields)
    have "overlay_ok D t ?ov'" if fit: "length (pwrite offset d bs) = ?sz"
    proof -
      have "sim D t ?ov' (bt_insert p (Node (e_kind e) (pwrite offset d bs)) m)"
      proof (rule sim_rewrite [OF sim ep(2) e(1-3), where e' = "e\<lparr>e_size := ?sz,
            e_mtime := fst (next_time ?ov1), e_ctime := fst (next_time ?ov1)\<rparr>"])
        have "rows_ok ?ov1" using simD(3) [OF sim] by (rule rows_ok_fields) simp_all
        then show "rows_ok ?ov'" using e(1) ep(1) by (intro rows_ok_note_written) simp_all
      qed (use e n(2) ep fit in \<open>simp_all add: note_written_fields\<close>)
      then show ?thesis by (rule simD(2))
    qed
    moreover have "\<not> overlay_ok D t ?ov'" if "length (pwrite offset d bs) \<noteq> ?sz"
    proof
      assume "overlay_ok D t ?ov'"
      from view_okD(1) [OF this [unfolded overlay_ok_def, THEN conjunct2] ent] show False
        using that fil e(3) by (simp add: row_ok_def)
    qed
    moreover have "length (pwrite offset d bs) = ?sz \<longleftrightarrow> \<not> (data = [] \<and> length bs < offset)"
    proof (cases "d = []")
      case True
      then have "pwrite offset d bs = bs" "offset + length d = offset" by (simp_all add: pwrite_def)
      then show ?thesis using True admit_prefix(2) [OF Inr] unfolding sz by auto
    next
      case False
      moreover from this have "data \<noteq> []" using admit_prefix(1) [OF Inr] by auto
      ultimately show ?thesis by (simp add: sz pwrite_write_bytes length_write_bytes)
    qed
    ultimately show ?thesis using out c by auto
  qed
qed

lemma root_row_spoils: "bt_get (entries ov) [] \<noteq> None \<Longrightarrow> \<not> overlay_ok D t ov"
  by (auto simp: overlay_ok_def dest: good_row)

lemma root_commit:
  assumes "e_path e = []"
  shows "bt_get (entries (commit_touching [Put e] [] [] par now ov)) [] = Some e"
proof -
  have "parent_of [] = []" by (simp add: parent_of_def)
  then have "parent_touch [] par now ov = (TouchRoot, ov)" by (simp add: parent_touch_def)
  then show ?thesis using assms by (simp add: commit_touching_def commit_def)
qed

lemma root_created:
  assumes ok: "overlay_ok D t ov" and x: "x = CreateFile [] \<or> x = Mkdir [] \<or> x = MkSymlink [] target"
  shows "overlay_ok D t (snd (apply_to_overlay D t x ov)) \<longleftrightarrow> fst (apply_to_overlay D t x ov) \<noteq> Inr ()"
proof -
  have fresh: "bt_get (files ov) (next_content_id ov) = None"
    using ok view_okD(4) [of D t "bt_get (entries ov)" "bt_get (files ov)" "next_content_id ov" "next_content_id ov"]
    unfolding overlay_ok_def by (metis less_irrefl)
  define r where "r = apply_to_overlay D t x ov"
  have "(\<exists>c. r = (Inl c, ov)) \<or> (\<exists>e par now ov'. e_path e = [] \<and> r = (Inr (), commit_touching [Put e] [] [] par now ov'))"
    using x fresh unfolding r_def
    by (elim disjE; simp add: create_file_def mkdir_def symlink_def outcome_def adopt_ino_def allocate_ino_def
        allocate_content_id_def next_time_def Let_def split: sum.splits) force+
  then show ?thesis
  proof (elim disjE exE conjE)
    fix e par now ov' assume e: "e_path e = []" and r: "r = (Inr (), commit_touching [Put e] [] [] par now ov')"
    have "bt_get (entries (snd r)) [] \<noteq> None" using root_commit [OF e] r by simp
    then show ?thesis using root_row_spoils r unfolding r_def by simp
  qed (use ok r_def in simp)
qed

lemma rename_refused:
  assumes sim: "sim D t ov m" and r: "\<not> admissible (Rename a b) ov m"
  shows "snd (apply_to_overlay D t (Rename a b) ov) = ov"
proof (cases "usable a \<and> usable b")
  case True
  then have "existing ov a (facts D t a) = None" using r existing_model [OF sim, of a] by (auto simp: usable_def)
  then show ?thesis by (auto simp: rename_def split: sum.splits)
next
  case False
  then show ?thesis by (auto simp: usable_def rename_def split: sum.splits)
qed

lemma invariant_exact:
  assumes sim: "sim D t ov m" and range: "in_range x"
  shows "overlay_ok D t (snd (apply_to_overlay D t x ov)) \<longleftrightarrow> \<not> spoils D t x ov"
proof (cases "admissible x ov m")
  case True
  then have "overlay_ok D t (snd (apply_to_overlay D t x ov))" using overlay_run.step_rel [OF sim True] by (blast dest: simD(2))
  moreover have "\<not> spoils D t x ov" using True by (cases x) (simp_all add: usable_def)
  ultimately show ?thesis by blast
next
  case False
  note ok = simD(2) [OF sim]
  have snd_outcome: "snd (outcome r) = snd r" for r :: "'a result \<times> overlay" by (simp add: outcome_def)
  show ?thesis
  proof (cases x)
    case (Write p offset data)
    consider c ov' where "h_materialize D t p (ino_for p) ov = (Inl c, ov')" "sim D t ov' m"
      | n ov' where "bt_get m p = Some n" "is_file (n_kind n)" "h_materialize D t p (ino_for p) ov = (Inr (), ov')"
          "materialized D t m p n ov ov'"
      using h_materialize_any [OF sim, of p "ino_for p"] by blast
    then show ?thesis
    proof cases
      case 1
      then show ?thesis using simD(2) by (auto simp: Write)
    next
      case 2
      then have "lookup D t ov p = Some n" using simD(4) [OF sim] by simp
      then show ?thesis using write_at_any [OF 2(4,1,2), of offset data] 2(3) range by (simp add: Write)
    qed
  next
    case (Truncate p sz)
    consider c ov' where "h_materialize D t p (ino_for p) ov = (Inl c, ov')" "sim D t ov' m"
      | n ov' where "bt_get m p = Some n" "is_file (n_kind n)" "h_materialize D t p (ino_for p) ov = (Inr (), ov')"
          "materialized D t m p n ov ov'"
      using h_materialize_any [OF sim, of p "ino_for p"] by blast
    then show ?thesis
    proof cases
      case 1
      then show ?thesis using simD(2) by (auto simp: Truncate)
    next
      case 2
      then show ?thesis using truncate_sim [OF 2(4,1,2), of sz]
        by (auto simp: Truncate refines_def agrees_def dest: simD(2))
    qed
  next
    case (Rename a b)
    then show ?thesis using rename_refused [OF sim] False ok by simp
  next
    case (SetExecutable p y)
    then show ?thesis using False ok
      by (auto simp: usable_def set_executable_def adopt_def snd_outcome split: sum.splits)
  next
    case (CreateFile p)
    then show ?thesis using False ok root_created [OF ok, of x]
      by (cases "p = []") (auto simp: usable_def create_file_def snd_outcome split: sum.splits)
  next
    case (Mkdir p)
    then show ?thesis using False ok root_created [OF ok, of x]
      by (cases "p = []") (auto simp: usable_def mkdir_def snd_outcome split: sum.splits)
  next
    case (MkSymlink p target)
    then show ?thesis using False ok root_created [OF ok, of x target]
      by (cases "p = []") (auto simp: usable_def symlink_def snd_outcome split: sum.splits)
  qed (use False ok in \<open>simp_all add: remove_def\<close>)
qed

section \<open>A small repository\<close>

text \<open>
  A base tree, an injective digest and a fresh overlay, for evaluating the definitions.
\<close>

definition demo_digests :: digests where
  "demo_digests = \<lparr>sha1_digest = (\<lambda>bs. bs), sha256_digest = (\<lambda>bs. bs)\<rparr>"

definition demo_base :: base_tree where
  "demo_base = [(''a'', BaseNode Directory []), (''a/f'', BaseNode Regular ''hi''), (''b'', BaseNode Regular ''bb'')]"

definition demo_journal :: journal where
  "demo_journal = \<lparr>j_rows = [], j_vanished = {}, j_overflow = False, j_next_ino = OVERLAY_INO_BASE,
     j_next_content_id = 1, j_root_times = None, j_instance_id = 0, j_binding = None\<rparr>"

definition demo_overlay :: overlay where
  "demo_overlay = \<lparr>journal = demo_journal, entries = [], children = [], by_content = [],
     next_ino = OVERLAY_INO_BASE, next_content_id = 1, local_bytes = 0, clock = Timestamp 0 0,
     vanished = {}, vanished_overflow = False, root_times = None, dirty = {}, unsynced = {}, writers = [],
     sequence = 0, instance_id = 0, stamps = [], files = [], quota_bytes = 100, max_rename_entries = 10,
     snap = Timestamp 1600000000 0, wall = (\<lambda>_. Timestamp 1700000000 0), reads = 0\<rparr>"

lemma demo_base_ok: "base_ok demo_digests demo_base"
  by code_simp

lemma demo_fresh: "entries demo_overlay = []" "children demo_overlay = []" "files demo_overlay = []"
  by (simp_all add: demo_overlay_def)

lemma demo_overlay_ok: "overlay_ok demo_digests demo_base demo_overlay"
  using fresh_sim [OF demo_base_ok demo_fresh] by (rule simD(2))

section \<open>Properties\<close>

text \<open>C1. Any sequence of file system operations on a fresh overlay over a well-formed base tree tracks the
  reference model started on the same base: after every operation the merged view the overlay's own resolution
  and merge rules give is the model's map, and the outcome is the model's, error condition included, unless the
  overlay refused for its quota, in which case nothing changed.\<close>

theorem overlay_follows_model:
  assumes "base_ok D t" and "entries ov = []" and "children ov = []" and "files ov = []"
    and "admitted admissible (apply_to_overlay D t) apply_to_model QuotaExceeded ops ov (model_new t)"
  shows "tracks (merged_view D t) (apply_to_overlay D t) apply_to_model QuotaExceeded ops ov (model_new t)"
  by (rule overlay_run.run_tracks [OF fresh_sim [OF assms(1-4)] assms(5)])

theorem overlay_follows_model_witness:
  "tracks (merged_view demo_digests demo_base) (apply_to_overlay demo_digests demo_base) apply_to_model QuotaExceeded
     [Unlink ''b'', Mkdir ''b''] demo_overlay (model_new demo_base)"
  by (rule overlay_follows_model [OF demo_base_ok demo_fresh]) code_simp

text \<open>C2. The overlay's invariant (rows keyed by proper paths with directories above them, the children index
  exact, every local content id owned by one row and backed by a file of the row's size, base references
  resolvable) is kept by every operation, whatever its arguments and whichever branch it takes, except exactly
  the two requests \<open>spoils\<close> names when they are accepted: a write of no bytes past the end of a file, and a
  creation at the empty path. Writes are those that end within the 64-bit offsets.\<close>

theorem overlay_invariant:
  assumes "base_ok D t" and "overlay_ok D t ov" and "in_range x"
  shows "overlay_ok D t (snd (apply_to_overlay D t x ov)) \<longleftrightarrow> \<not> spoils D t x ov"
proof -
  have "sim D t ov (merged_view D t ov)"
    using assms(1,2) merged_view_lookup [OF assms(1,2)] by (simp add: sim_def)
  from invariant_exact [OF this assms(3)] show ?thesis .
qed

theorem overlay_invariant_witness:
  "overlay_ok demo_digests demo_base
     (snd (apply_to_overlay demo_digests demo_base (Write ''b'' 1 ''wxyz'') (demo_overlay\<lparr>quota_bytes := 4\<rparr>)))
   \<and> \<not> overlay_ok demo_digests demo_base (snd (apply_to_overlay demo_digests demo_base (Write ''b'' 5 []) demo_overlay))
   \<and> \<not> overlay_ok demo_digests demo_base (snd (apply_to_overlay demo_digests demo_base (Mkdir []) demo_overlay))"
proof -
  have ok: "overlay_ok demo_digests demo_base (demo_overlay\<lparr>quota_bytes := 4\<rparr>)"
    by (rule simD(2), rule fresh_sim [OF demo_base_ok]) (simp_all add: demo_overlay_def)
  have "\<not> spoils demo_digests demo_base (Write ''b'' 1 ''wxyz'') (demo_overlay\<lparr>quota_bytes := 4\<rparr>)"
    "spoils demo_digests demo_base (Write ''b'' 5 []) demo_overlay" "spoils demo_digests demo_base (Mkdir []) demo_overlay"
    by code_simp+
  then show ?thesis
    using overlay_invariant [OF demo_base_ok ok, of "Write ''b'' 1 ''wxyz''"]
      overlay_invariant [OF demo_base_ok demo_overlay_ok, of "Write ''b'' 5 []"]
      overlay_invariant [OF demo_base_ok demo_overlay_ok, of "Mkdir []"] by (simp add: u64_max_def)
qed

text \<open>C7. A rename that reports success moves exactly the subtree: nothing is left at or under the source, the
  destination shows at every path what the source showed at the corresponding one (whatever was there before is
  gone), and every other path reads as before.\<close>

theorem rename_moves_subtree:
  assumes "base_ok D t" and "overlay_ok D t ov" and "usable from" and "usable to" and "from \<noteq> to"
    and "lookup D t ov from \<noteq> None"
    and "fst (apply_to_overlay D t (Rename from to) ov) = Inr ()"
  shows "lookup D t (snd (apply_to_overlay D t (Rename from to) ov)) x =
    (if is_within x from then None
     else if is_within x to then lookup D t ov (from @ drop (length to) x)
     else lookup D t ov x)"
proof -
  let ?m = "merged_view D t ov"
  have s: "sim D t ov ?m" using assms(1,2) merged_view_lookup [OF assms(1,2)] by (simp add: sim_def)
  have ne: "from \<noteq> []" "to \<noteq> []" and src: "bt_get ?m from \<noteq> None"
    using assms(3,4,6) merged_view_lookup [OF assms(1,2)] by (simp_all add: usable_def)
  have adm: "admissible (Rename from to) ov ?m" using assms(3,4) src by simp
  from step_refines [OF s adm] assms(7) obtain m' where m': "m_rename from to ?m = Inr m'"
      "sim D t (snd (apply_to_overlay D t (Rename from to) ov)) m'"
    by (auto simp: refines_def agrees_def split: sum.splits)
  then have m'_eq: "m' = m_move_subtree from to ?m" and w: "\<not> is_within to from"
      and closed_to: "bt_get ?m to \<noteq> None \<Longrightarrow> dir_in D t ov to \<Longrightarrow> m_is_empty_dir ?m to"
    using assms(5) src dir_in_model [OF s, of to]
    by (auto simp: m_rename_def split: if_splits option.splits sum.splits)
  have good: "good_path to" using assms(4) path_condition_good by (simp add: usable_def)
  have "\<not> below from to"
  proof
    assume b: "below from to"
    with look_closed [OF simD(1,5) [OF s], of "from"] assms(6) have "dir_in D t ov to" by (auto simp: lookup_look)
    with closed_to dir_in_model [OF s] have "m_is_empty_dir ?m to" by auto
    with model_empty_dir [OF s good] b assms(6) show False by (auto simp: view_empty_def lookup_look)
  qed
  with w ne assms(5) have dis: "\<not> inside to from" "\<not> inside from to" by (auto simp: is_within_inside) (auto simp: inside_def)
  have "lookup D t (snd (apply_to_overlay D t (Rename from to) ov)) = moved_look from to (lookup D t ov)"
    using simD(4) [OF m'(2)] simD(4) [OF s] m_move_subtree_get(1) [OF merged_view_lookup(2) [OF assms(1,2)] dis ne] m'_eq
    by simp
  then show ?thesis using ne by (simp add: moved_look_def is_within_inside origin_def)
qed

theorem rename_moves_subtree_witness:
  "lookup demo_digests demo_base
     (snd (apply_to_overlay demo_digests demo_base (Rename ''b'' ''c'') demo_overlay)) ''c'' = Some (Node ORegular ''bb'')"
proof -
  have h: "usable ''b''" "usable ''c''" "''b'' \<noteq> ''c''" by code_simp+
  have src: "lookup demo_digests demo_base demo_overlay ''b'' = Some (Node ORegular ''bb'')" by code_simp
  have ok: "fst (apply_to_overlay demo_digests demo_base (Rename ''b'' ''c'') demo_overlay) = Inr ()" by code_simp
  from src have ne: "lookup demo_digests demo_base demo_overlay ''b'' \<noteq> None" by simp
  have "\<not> is_within ''c'' ''b''" "is_within ''c'' ''c''" by code_simp+
  then show ?thesis
    using rename_moves_subtree [OF demo_base_ok demo_overlay_ok h ne ok, of "''c''"] src by simp
qed

text \<open>C22. The two sides report a rename with a missing source and a destination under a file differently: the
  overlay tests the destination's parent first and answers NotDirectory, the reference model tests the source
  first and answers NoEntry.\<close>

theorem rename_error_order:
  assumes "sim D t ov m" and "usable from" and "usable to" and "from \<noteq> to" and "\<not> is_within to from"
    and "bt_get m from = None" and "m_check_parent m to = Inl NotDirectory"
  shows "apply_to_overlay D t (Rename from to) ov = (Inl NotDirectory, ov)
    \<and> apply_to_model (Rename from to) m = Inl NoEntry"
  using assms by (simp add: rename_def usable_def check_parent_model [OF assms(1)] m_rename_def)

theorem rename_error_order_witness:
  "apply_to_overlay demo_digests demo_base (Rename ''x'' ''b/y'') demo_overlay = (Inl NotDirectory, demo_overlay)
   \<and> apply_to_model (Rename ''x'' ''b/y'') (model_new demo_base) = Inl NoEntry"
  by (rule rename_error_order [OF fresh_sim [OF demo_base_ok demo_fresh]]) code_simp+

end
