(* ===== verification/Gfs_Durable.thy ===== *)
theory Gfs_Durable
  imports Gfs_Simulation
begin

text \<open>
  What the overlay keeps on disk while it runs: every row in memory has its row in the journal, equal to
  it up to the size and the times of a file that was written since its row was committed; the counters,
  the vanished paths and the root times agree; and every stored value fits its column. The invariant is
  kept by every operation of the harness, on every branch.
\<close>

section \<open>The invariant\<close>

text \<open>The stored row \<open>e'\<close> of the row \<open>e\<close>.\<close>

definition lag :: "overlay_entry \<Rightarrow> overlay_entry \<Rightarrow> bool" where
  "lag e' e \<longleftrightarrow> e' = e \<or> (local_id (e_content e) \<noteq> None \<and>
     e' = e\<lparr>e_size := e_size e', e_mtime := e_mtime e', e_ctime := e_ctime e'\<rparr>)"

definition stored_as :: "row option \<Rightarrow> overlay_entry option \<Rightarrow> bool" where
  "stored_as r v \<longleftrightarrow> (case v of None \<Rightarrow> r = None | Some e \<Rightarrow> \<exists>e'. r = Some (row_of e') \<and> entry_ok e' \<and> lag e' e)"

definition tick_ok :: "timestamp \<Rightarrow> bool" where
  "tick_ok t \<longleftrightarrow> nanos t < 2 ^ 32"

lemma next_tick_tick [simp]: "tick_ok (next_tick t)"
proof -
  have "nanos (next_tick t) < ns_per_sec" by (simp add: next_tick_def Let_def ns_per_sec_def)
  then show ?thesis by (simp add: tick_ok_def ns_per_sec_def)
qed

lemma overlay_time_tick: "tick_ok w \<Longrightarrow> tick_ok (overlay_time w s prior)"
  by (simp add: overlay_time_def Let_def max_def split: option.splits)

definition clock_fits :: "overlay \<Rightarrow> bool" where
  "clock_fits ov \<longleftrightarrow> (\<forall>n. tick_ok (wall ov n))"

definition saved :: "overlay \<Rightarrow> bool" where
  "saved ov \<longleftrightarrow> bt_ok (j_rows (journal ov))
     \<and> (\<forall>x. stored_as (bt_get (j_rows (journal ov)) x) (bt_get (entries ov) x))
     \<and> j_vanished (journal ov) = vanished ov \<and> j_overflow (journal ov) = vanished_overflow ov
     \<and> j_root_times (journal ov) = root_times ov \<and> (vanished_overflow ov \<longrightarrow> vanished ov = {})
     \<and> j_next_ino (journal ov) \<le> next_ino ov \<and> j_next_content_id (journal ov) \<le> next_content_id ov"

definition fits :: "nat \<Rightarrow> overlay_entry \<Rightarrow> bool" where
  "fits n e \<longleftrightarrow> entry_ok e \<and> (\<forall>i. e_content e = CLocal i \<longrightarrow> i < n)"

definition durable :: "string \<times> string \<Rightarrow> overlay \<Rightarrow> bool" where
  "durable bnd ov \<longleftrightarrow> clock_fits ov \<and> saved ov \<and> j_binding (journal ov) = Some bnd
     \<and> (\<forall>x e. bt_get (entries ov) x = Some e \<longrightarrow> fits (j_next_content_id (journal ov)) e)"

lemma durableD:
  assumes "durable bnd ov"
  shows "clock_fits ov" "saved ov" "j_binding (journal ov) = Some bnd" "bt_get (entries ov) x = Some e \<Longrightarrow> fits (j_next_content_id (journal ov)) e"
  using assms by (simp_all add: durable_def)

lemma fits_mono: "fits n e \<Longrightarrow> n \<le> m \<Longrightarrow> fits m e"
  by (auto simp: fits_def)

lemma durable_row: "durable bnd ov \<Longrightarrow> bt_get (entries ov) x = Some e \<Longrightarrow> fits (next_content_id ov) e"
  using fits_mono [of "j_next_content_id (journal ov)" e "next_content_id ov"] by (simp add: durable_def saved_def)

section \<open>Steps\<close>

text \<open>A step that only takes a time or a number.\<close>

definition quiet :: "overlay \<Rightarrow> overlay \<Rightarrow> bool" where
  "quiet ov ov' \<longleftrightarrow> journal ov' = journal ov \<and> entries ov' = entries ov \<and> vanished ov' = vanished ov
     \<and> vanished_overflow ov' = vanished_overflow ov \<and> root_times ov' = root_times ov
     \<and> next_ino ov \<le> next_ino ov' \<and> next_content_id ov \<le> next_content_id ov'
     \<and> snap ov' = snap ov \<and> wall ov' = wall ov \<and> (clock_fits ov \<longrightarrow> clock_fits ov')"

lemma quiet_refl [simp]: "quiet ov ov"
  by (simp add: quiet_def)

lemma quiet_trans: "quiet a b \<Longrightarrow> quiet b c \<Longrightarrow> quiet a c"
  by (auto simp: quiet_def)

lemma durable_quiet: "durable bnd ov \<Longrightarrow> quiet ov ov' \<Longrightarrow> durable bnd ov'"
  by (auto simp: durable_def saved_def quiet_def)

lemma next_time_quiet:
  assumes "next_time ov = (now, ov')"
  shows "quiet ov ov'" "clock_fits ov \<Longrightarrow> tick_ok now"
  using assms overlay_time_tick [of "wall ov (reads ov)" "snap ov" "Some (clock ov)"]
  by (auto simp: next_time_def Let_def quiet_def clock_fits_def)

lemma allocate_quiet:
  "quiet ov (snd (allocate_ino ov))" "quiet ov (snd (allocate_content_id ov))" "quiet ov (snd (adopt_ino i ov))"
  by (simp_all add: allocate_ino_def allocate_content_id_def adopt_ino_def quiet_def clock_fits_def)

lemma quiet_files [simp]: "quiet ov (ov\<lparr>files := F, unsynced := U\<rparr>)" "quiet ov (ov\<lparr>files := F\<rparr>)"
  by (simp_all add: quiet_def clock_fits_def)

text \<open>A commit writes exactly its changes to the journal.\<close>

lemma journal_rows_fold:
  "bt_ok rs \<Longrightarrow> bt_ok (fold journal_change cs rs) \<and>
   bt_get (fold journal_change cs rs) x =
     (case List.find (\<lambda>c. change_key c = x) (rev cs) of None \<Rightarrow> bt_get rs x
      | Some c \<Rightarrow> map_option row_of (change_val c))"
proof (induction cs arbitrary: rs rule: rev_induct)
  case (snoc c cs)
  then show ?case by (cases c) auto
qed simp

lemma fold_upd_find:
  "fold upd cs R x = (case List.find (\<lambda>c. change_key c = x) (rev cs) of None \<Rightarrow> R x | Some c \<Rightarrow> change_val c)"
  by (induction cs arbitrary: R rule: rev_induct) (auto simp: upd_def)

lemma commit_journal: "journal (commit_with cs rel rt st ov) =
    journal_apply cs (vanished_delta_of cs)
      (vanished_overflow ov \<or> card (vanished ov) + length (gone (vanished_delta_of cs)) > VANISHED_LIMIT)
      (next_ino ov) (next_content_id ov) rt (journal ov)"
  by (simp add: commit_with_def Let_def commit_simps)

lemma commit_rest:
  "vanished_overflow (commit_with cs rel rt st ov) = (vanished_overflow ov \<or>
     card (vanished ov) + length (gone (vanished_delta_of cs)) > VANISHED_LIMIT)"
  "root_times (commit_with cs rel rt st ov) = (case rt of None \<Rightarrow> root_times ov | Some t \<Rightarrow> Some t)"
  "vanished (commit_with cs rel rt st ov) = (if vanished_overflow (commit_with cs rel rt st ov) then {}
     else (vanished ov - set (returned (vanished_delta_of cs))) \<union> set (gone (vanished_delta_of cs)))"
proof -
  have keep: "vanished_overflow (apply_change s c ov) = vanished_overflow ov" "root_times (apply_change s c ov) = root_times ov"
    for s c ov by (cases c; simp add: apply_change.simps Let_def split: option.splits)+
  have keep': "vanished_overflow (store_remove i ov) = vanished_overflow ov" "root_times (store_remove i ov) = root_times ov"
    for i ov by (simp_all add: store_remove_def)
  note f = fold_keeps [of vanished_overflow "apply_change st", OF keep(1)] fold_keeps [of root_times "apply_change st", OF keep(2)]
    fold_keeps [of vanished_overflow store_remove, OF keep'(1)] fold_keeps [of root_times store_remove, OF keep'(2)]
  show "vanished_overflow (commit_with cs rel rt st ov) = (vanished_overflow ov \<or>
      card (vanished ov) + length (gone (vanished_delta_of cs)) > VANISHED_LIMIT)"
    "root_times (commit_with cs rel rt st ov) = (case rt of None \<Rightarrow> root_times ov | Some t \<Rightarrow> Some t)"
    by (simp_all add: commit_with_def Let_def f)
  then show "vanished (commit_with cs rel rt st ov) = (if vanished_overflow (commit_with cs rel rt st ov) then {}
      else (vanished ov - set (returned (vanished_delta_of cs))) \<union> set (gone (vanished_delta_of cs)))"
    by (simp add: commit_with_def Let_def commit_simps f)
qed

text \<open>The rows a list of changes puts.\<close>

definition puts_fit :: "nat \<Rightarrow> change list \<Rightarrow> bool" where
  "puts_fit n cs \<longleftrightarrow> (\<forall>e. Put e \<in> set cs \<longrightarrow> fits n e)"

lemma puts_fit_simps [simp]:
  "puts_fit n []" "puts_fit n (Put e # cs) \<longleftrightarrow> fits n e \<and> puts_fit n cs" "puts_fit n (Delete p # cs) \<longleftrightarrow> puts_fit n cs"
  "puts_fit n (cs @ ds) \<longleftrightarrow> puts_fit n cs \<and> puts_fit n ds" "puts_fit n (map (\<lambda>e. Delete (f e)) es)"
  by (auto simp: puts_fit_def)

lemma durable_commit:
  assumes "durable bnd ov" and "puts_fit (next_content_id ov) cs"
  shows "durable bnd (commit_with cs rel rt st ov)"
proof -
  let ?ov = "commit_with cs rel rt st ov"
  have s: "saved ov" by (rule durableD(2) [OF assms(1)])
  have rows: "stored_as (bt_get (j_rows (journal ?ov)) x) (bt_get (entries ?ov) x)" for x
  proof (cases "List.find (\<lambda>c. change_key c = x) (rev cs)")
    case None
    then show ?thesis
      using s journal_rows_fold [of "j_rows (journal ov)" cs x]
      by (simp add: saved_def commit_journal journal_apply_def fold_upd_find)
  next
    case (Some c)
    then have c: "c \<in> set cs" by (auto simp: find_Some_iff) (metis nth_mem length_rev set_rev)
    have "stored_as (map_option row_of (change_val c)) (change_val c)"
      by (cases c; use c assms(2) in \<open>auto simp: stored_as_def lag_def puts_fit_def fits_def\<close>)
    then show ?thesis
      using s journal_rows_fold [of "j_rows (journal ov)" cs x] Some
      by (simp add: saved_def commit_journal journal_apply_def fold_upd_find)
  qed
  have "saved ?ov"
    using s rows journal_rows_fold [of "j_rows (journal ov)" cs]
    by (auto simp: saved_def commit_rest commit_journal journal_apply_def split: option.splits)
  moreover have "fits (j_next_content_id (journal ?ov)) e" if "bt_get (entries ?ov) x = Some e" for x e
  proof -
    have n: "j_next_content_id (journal ?ov) = next_content_id ov" by (simp add: commit_journal journal_apply_def)
    from that have "fold upd cs (bt_get (entries ov)) x = Some e" by simp
    then show ?thesis
    proof (cases rule: fold_upd_cases [of x cs "bt_get (entries ov)"])
      case 1
      then show ?thesis using that durable_row [OF assms(1), of x e] n by simp
    next
      case (2 c)
      have "change_val c = Some e" using 2(3) that by simp
      then have "c = Put e" by (cases c) simp_all
      with 2(1) have "Put e \<in> set cs" by simp
      then show ?thesis using assms(2) n by (simp add: puts_fit_def)
    qed
  qed
  ultimately show ?thesis
    using durableD(1,3) [OF assms(1)] by (simp add: durable_def clock_fits_def commit_journal journal_apply_def)
qed

text \<open>A write moves the row in memory only.\<close>

lemma durable_note_written:
  assumes "durable bnd ov" and "bt_get (entries ov) (e_path e) = Some e" and "local_id (e_content e) \<noteq> None"
    and "sz < 2 ^ 64" and "\<And>t. mtime = Some t \<Longrightarrow> tick_ok t"
  shows "durable bnd (note_written e sz mtime ov)"
proof -
  obtain now ov1 where nt: "next_time ov = (now, ov1)" by force
  note q = next_time_quiet [OF nt]
  have d: "durable bnd ov1" using durable_quiet [OF assms(1) q(1)] .
  have now: "tick_ok now" using q(2) durableD(1) [OF assms(1)] by simp
  define e' where "e' = e\<lparr>e_size := sz, e_mtime := (case mtime of None \<Rightarrow> now | Some t \<Rightarrow> t), e_ctime := now\<rparr>"
  define ov2 where "ov2 = note_written e sz mtime ov"
  have same: "journal ov2 = journal ov1" "vanished ov2 = vanished ov1" "vanished_overflow ov2 = vanished_overflow ov1"
      "root_times ov2 = root_times ov1" "next_ino ov2 = next_ino ov1" "next_content_id ov2 = next_content_id ov1"
      "snap ov2 = snap ov1" "wall ov2 = wall ov1" "clock ov2 = clock ov1"
    and ent: "bt_get (entries ov2) = (bt_get (entries ov))(e_path e \<mapsto> e')"
    using q(1) by (simp_all add: ov2_def note_written_def nt Let_def replace_in_memory_def e'_def quiet_def)
  have f: "fits (j_next_content_id (journal ov)) e" by (rule durableD(4) [OF assms(1,2)])
  have ts: "nanos u < 2 ^ 32" if "tick_ok u" for u using that by (simp add: tick_ok_def)
  have f': "fits (j_next_content_id (journal ov)) e'"
    using f assms(4) ts [OF now] ts [OF assms(5)] by (auto simp: fits_def entry_ok_def e'_def split: option.splits)
  have st: "stored_as (bt_get (j_rows (journal ov)) x) (((bt_get (entries ov))(e_path e \<mapsto> e')) x)" for x
  proof (cases "x = e_path e")
    case True
    have "stored_as (bt_get (j_rows (journal ov)) (e_path e)) (bt_get (entries ov) (e_path e))"
      using durableD(2) [OF assms(1)] unfolding saved_def by blast
    then obtain e0 where "bt_get (j_rows (journal ov)) (e_path e) = Some (row_of e0)" "entry_ok e0" "lag e0 e"
      unfolding stored_as_def assms(2) option.case by blast
    moreover have "lag e0 e'"
    proof -
      have "e0 = e\<lparr>e_size := e_size e0, e_mtime := e_mtime e0, e_ctime := e_ctime e0\<rparr>"
        using \<open>lag e0 e\<close> unfolding lag_def by auto
      also have "\<dots> = e'\<lparr>e_size := e_size e0, e_mtime := e_mtime e0, e_ctime := e_ctime e0\<rparr>"
        by (simp add: e'_def)
      finally have "e0 = e'\<lparr>e_size := e_size e0, e_mtime := e_mtime e0, e_ctime := e_ctime e0\<rparr>" .
      moreover have "local_id (e_content e') \<noteq> None" using assms(3) by (simp add: e'_def)
      ultimately show ?thesis unfolding lag_def by (rule disjI2 [OF conjI, rotated])
    qed
    ultimately show ?thesis using True by (auto simp: stored_as_def)
  next
    case False
    then show ?thesis using durableD(2) [OF assms(1)] by (simp add: saved_def)
  qed
  have j: "journal ov1 = journal ov" using q(1) by (simp add: quiet_def)
  have "saved ov2" using durableD(2) [OF d] st by (simp add: saved_def same ent j)
  moreover have "clock_fits ov2" using durableD(1) [OF d] by (simp add: clock_fits_def same)
  moreover have "fits (j_next_content_id (journal ov2)) u" if "bt_get (entries ov2) x = Some u" for x u
    using that f' durableD(4) [OF assms(1)] by (auto simp: ent same j split: if_splits)
  moreover have "j_binding (journal ov2) = Some bnd" using durableD(3) [OF d] by (simp add: same)
  ultimately show ?thesis by (simp add: durable_def ov2_def)
qed

section \<open>What the operations put\<close>

definition facts_ok :: "base_facts option \<Rightarrow> bool" where
  "facts_ok b \<longleftrightarrow> (\<forall>f. b = Some f \<longrightarrow> base_facts_ok f)"

definition room :: "overlay \<Rightarrow> bool" where
  "room ov \<longleftrightarrow> next_ino ov \<le> 2 ^ 64 \<and> next_content_id ov \<le> 2 ^ 64"

lemma room_commit [simp]: "room (commit_with cs rel rt st ov) = room ov" "room (commit cs rel rt ov) = room ov"
  by (simp_all add: room_def commit_def)

lemma room_quiet: "quiet ov ov' \<Longrightarrow> room ov' \<Longrightarrow> room ov"
  by (auto simp: quiet_def room_def)

lemma tick_fits: "tick_ok t \<Longrightarrow> nanos t < 2 ^ 32"
  by (simp add: tick_ok_def)

lemma adopt_ino_fits: "adopt_ino i ov = (j, ov') \<Longrightarrow> i < 2 ^ 64 \<Longrightarrow> room ov' \<Longrightarrow> j < 2 ^ 64"
  by (auto simp: adopt_ino_def allocate_ino_def room_def split: if_splits)

lemma row_fits_update:
  "fits n e \<Longrightarrow> tick_ok m \<Longrightarrow> tick_ok c \<Longrightarrow> fits n (e\<lparr>e_mtime := m, e_ctime := c\<rparr>)"
  using tick_fits [of m] tick_fits [of c] by (simp add: fits_def entry_ok_def)

lemma parent_touch_fits:
  assumes pt: "parent_touch p par now ov = (tch, ov')" and ov: "durable bnd ov" "facts_ok (par_base par)" "par_ino par < 2 ^ 64"
    and now: "tick_ok now" and room: "room ov'"
  shows "quiet ov ov' \<and> puts_fit (next_content_id ov') (touch_changes tch)"
proof (cases "parent_of p = [] \<or> resolve (entries ov) (parent_of p) \<noteq> Base")
  case True
  then have "ov' = ov" and
      "tch = TouchRoot \<or> tch = TouchNothing \<or> (\<exists>e. resolve (entries ov) (parent_of p) = Overlay e \<and> tch = TouchRow (e\<lparr>e_mtime := now, e_ctime := now\<rparr>))"
    using pt by (auto simp: parent_touch_def Let_def split: if_splits resolution.splits)
  then show ?thesis
    using now by (auto simp: touch_changes_def dest!: resolve_row durable_row [OF ov(1)] intro: row_fits_update)
next
  case False
  show ?thesis
  proof (cases tch)
    case (TouchRow e)
    obtain f k ino where fk: "par_base par = Some f" "adopt_ino (par_ino par) ov = (ino, ov')"
        "e = \<lparr>e_path = parent_of p, e_present = True, e_kind = k, e_opaque = False, e_ino = ino, e_content = CNone,
          e_symlink_target = None, e_size = bf_size f, e_mtime = now, e_ctime = now, e_renamed_from = None, e_base = Some f\<rparr>"
      using pt False TouchRow by (auto simp: parent_touch_def Let_def split: if_splits resolution.splits option.splits prod.splits)
    have "quiet ov ov'" using allocate_quiet(3) [of ov "par_ino par"] fk(2) by simp
    moreover have "fits (next_content_id ov') e"
      using adopt_ino_fits [OF fk(2) ov(3) room] ov(2) fk(1) tick_fits [OF now]
      by (simp add: fits_def entry_ok_def fk(3) facts_ok_def base_facts_ok_def)
    ultimately show ?thesis using TouchRow by (simp add: touch_changes_def)
  next
    case TouchRoot
    then show ?thesis using pt False by (auto simp: parent_touch_def Let_def split: if_splits resolution.splits option.splits prod.splits)
  next
    case TouchNothing
    then have "ov' = ov"
      using pt False by (auto simp: parent_touch_def Let_def split: if_splits resolution.splits option.splits prod.splits)
    then show ?thesis using TouchNothing by (simp add: touch_changes_def)
  qed
qed

lemma puts_fit_mono: "puts_fit n cs \<Longrightarrow> n \<le> m \<Longrightarrow> puts_fit m cs"
  by (auto simp: puts_fit_def intro: fits_mono)

lemma commit_touching_room: "room (commit_touching cs rel p par now ov) \<Longrightarrow> room ov"
proof -
  have "quiet ov (snd (parent_touch p par now ov))"
    using allocate_quiet(3) [of ov "par_ino par"]
    by (auto simp: parent_touch_def Let_def split: resolution.splits option.splits prod.splits)
  then show "room (commit_touching cs rel p par now ov) \<Longrightarrow> room ov"
    by (auto simp: commit_touching_def dest: room_quiet split: prod.splits)
qed

lemma durable_touching:
  assumes ov: "durable bnd ov" "facts_ok (par_base par)" "par_ino par < 2 ^ 64" and now: "tick_ok now"
    and cs: "puts_fit (next_content_id ov) cs" and room: "room (commit_touching cs rel p par now ov)"
  shows "durable bnd (commit_touching cs rel p par now ov)"
proof -
  obtain tch ov1 where pt: "parent_touch p par now ov = (tch, ov1)" by force
  obtain rt where push: "push_touch tch now (cs, None) = (cs @ touch_changes tch, rt)"
    using push_touch_changes [of tch now cs None] by (metis prod.collapse)
  have eq: "commit_touching cs rel p par now ov = commit (cs @ touch_changes tch) rel rt ov1"
    by (simp add: commit_touching_def pt push)
  then have "room ov1" using room by simp
  from parent_touch_fits [OF pt ov now this] have q: "quiet ov ov1" "puts_fit (next_content_id ov1) (touch_changes tch)" by simp_all
  moreover have "puts_fit (next_content_id ov1) cs" using cs by (rule puts_fit_mono) (use q(1) in \<open>simp add: quiet_def\<close>)
  ultimately show ?thesis
    unfolding eq commit_def by (intro durable_commit durable_quiet [OF ov(1)]) simp_all
qed

section \<open>The operations\<close>

lemma durable_clock: "durable bnd ov \<Longrightarrow> next_time ov = (now, ov') \<Longrightarrow> durable bnd ov' \<and> tick_ok now"
  using durable_quiet next_time_quiet durableD(1) by blast

lemma fresh_row_fits:
  assumes "ino < 2 ^ 64" "sz < 2 ^ 64" "tick_ok now" "facts_ok base" "content_ok c" "\<And>i. c = CLocal i \<Longrightarrow> i < n"
  shows "fits n \<lparr>e_path = p, e_present = pr, e_kind = k, e_opaque = op, e_ino = ino, e_content = c,
    e_symlink_target = tg, e_size = sz, e_mtime = now, e_ctime = now, e_renamed_from = rf, e_base = base\<rparr>"
  using assms tick_fits [OF assms(3)] by (simp add: fits_def entry_ok_def facts_ok_def)

lemma create_file_durable:
  assumes "durable bnd ov" "facts_ok base" "facts_ok (par_base par)" "par_ino par < 2 ^ 64" "ino < 2 ^ 64"
    and room: "room (snd (create_file p base par ino x ov))"
  shows "durable bnd (snd (create_file p base par ino x ov))"
proof -
  obtain ino' ov1 where a: "adopt_ino ino ov = (ino', ov1)" by force
  obtain cid ov2 where b: "allocate_content_id ov1 = (cid, ov2)" by force
  define ov3 where "ov3 = ov2\<lparr>files := bt_insert cid [] (files ov2), unsynced := insert cid (unsynced ov2)\<rparr>"
  obtain now ov4 where n: "next_time ov3 = (now, ov4)" by force
  define e where "e = \<lparr>e_path = p, e_present = True, e_kind = (if x then OExecutable else ORegular), e_opaque = False,
    e_ino = ino', e_content = CLocal cid, e_symlink_target = None, e_size = 0, e_mtime = now, e_ctime = now,
    e_renamed_from = None, e_base = base\<rparr>"
  have q: "quiet ov ov1" "quiet ov1 ov2" "quiet ov2 ov3" "quiet ov3 ov4"
    using allocate_quiet(3) [of ov ino] allocate_quiet(2) [of ov1] next_time_quiet(1) [OF n] by (simp_all add: a b ov3_def)
  have dur: "durable bnd ov2" "durable bnd ov3" using durable_quiet q assms(1) by blast+
  note dur4 = durable_clock [OF dur(2) n]
  have res: "snd (create_file p base par ino x ov) \<in> {ov, ov2, commit_touching [Put e] [] p par now ov4}"
    by (auto simp: create_file_def a b ov3_def [symmetric] n Let_def e_def split: sum.splits)
  show ?thesis
  proof (cases "snd (create_file p base par ino x ov) = commit_touching [Put e] [] p par now ov4")
    case True
    have r4: "room ov4" using room True commit_touching_room by metis
    have cid: "cid < next_content_id ov4" "cid < 2 ^ 64" "ino' < 2 ^ 64"
      using b q r4 adopt_ino_fits [OF a assms(5)] room_quiet [OF quiet_trans [OF q(2) quiet_trans [OF q(3,4)]] r4]
      by (auto simp: allocate_content_id_def quiet_def room_def)
    have "fits (next_content_id ov4) e"
      unfolding e_def by (rule fresh_row_fits) (use cid dur4 assms(2) in simp_all)
    then show ?thesis
      unfolding True by (intro durable_touching) (use dur4 assms room True in simp_all)
  qed (use res dur assms(1) in auto)
qed

text \<open>\<open>mkdir\<close> and \<open>symlink\<close> adopt a number, take a time and put one row without content of its own.\<close>

lemma put_new_durable:
  assumes ov: "durable bnd ov" "facts_ok base" "facts_ok (par_base par)" "par_ino par < 2 ^ 64" "ino < 2 ^ 64" "sz < 2 ^ 64"
    and a: "adopt_ino ino ov = (ino', ov1)" and n: "next_time ov1 = (now, ov2)"
    and e: "e = \<lparr>e_path = p, e_present = True, e_kind = k, e_opaque = opq, e_ino = ino', e_content = CNone,
      e_symlink_target = tg, e_size = sz, e_mtime = now, e_ctime = now, e_renamed_from = None, e_base = base\<rparr>"
    and room: "room (commit_touching [Put e] [] p par now ov2)"
  shows "durable bnd (commit_touching [Put e] [] p par now ov2)"
proof -
  have q: "quiet ov ov1" "quiet ov1 ov2"
    using allocate_quiet(3) [of ov ino] next_time_quiet(1) [OF n] by (simp_all add: a)
  note d = durable_clock [OF durable_quiet [OF ov(1) q(1)] n]
  have "room ov1" using commit_touching_room [OF room] q(2) by (rule room_quiet [rotated])
  then have "fits (next_content_id ov2) e"
    unfolding e by (intro fresh_row_fits) (use adopt_ino_fits [OF a ov(5)] d ov in simp_all)
  then show ?thesis by (intro durable_touching) (use d ov room in simp_all)
qed

lemma mkdir_durable:
  assumes "durable bnd ov" "facts_ok base" "facts_ok (par_base par)" "par_ino par < 2 ^ 64" "ino < 2 ^ 64"
    and room: "room (snd (mkdir p base par ino ov))"
  shows "durable bnd (snd (mkdir p base par ino ov))"
proof -
  obtain ino' ov1 where a: "adopt_ino ino ov = (ino', ov1)" by force
  obtain now ov2 where n: "next_time ov1 = (now, ov2)" by force
  define e where "e = \<lparr>e_path = p, e_present = True, e_kind = ODirectory, e_opaque = True, e_ino = ino', e_content = CNone,
    e_symlink_target = None, e_size = 0, e_mtime = now, e_ctime = now, e_renamed_from = None, e_base = base\<rparr>"
  have "snd (mkdir p base par ino ov) = ov \<or> snd (mkdir p base par ino ov) = commit_touching [Put e] [] p par now ov2"
    by (auto simp: mkdir_def a n Let_def e_def split: sum.splits)
  then show ?thesis using put_new_durable [OF assms(1-5) _ a n e_def] room assms(1) by auto
qed

lemma symlink_durable:
  assumes "durable bnd ov" "facts_ok base" "facts_ok (par_base par)" "par_ino par < 2 ^ 64" "ino < 2 ^ 64" "length target < 2 ^ 64"
    and room: "room (snd (symlink p target base par ino ov))"
  shows "durable bnd (snd (symlink p target base par ino ov))"
proof -
  obtain ino' ov1 where a: "adopt_ino ino ov = (ino', ov1)" by force
  obtain now ov2 where n: "next_time ov1 = (now, ov2)" by force
  define e where "e = \<lparr>e_path = p, e_present = True, e_kind = OSymlink, e_opaque = False, e_ino = ino', e_content = CNone,
    e_symlink_target = Some target, e_size = length target, e_mtime = now, e_ctime = now, e_renamed_from = None, e_base = base\<rparr>"
  have "snd (symlink p target base par ino ov) = ov \<or>
      snd (symlink p target base par ino ov) = commit_touching [Put e] [] p par now ov2"
    by (auto simp: symlink_def a n Let_def e_def split: sum.splits)
  then show ?thesis using put_new_durable [OF assms(1-6) a n e_def] room assms(1) by auto
qed

lemma copy_up_durable:
  assumes "durable bnd ov" "facts_ok bf" "ino < 2 ^ 64" "\<And>bs. src = Reader bs \<Longrightarrow> length bs < 2 ^ 64"
    and room: "room (snd (copy_up p (k, tg, bf, ino, rf) src ov))"
  shows "durable bnd (snd (copy_up p (k, tg, bf, ino, rf) src ov))"
proof -
  obtain cid ov1 where b: "allocate_content_id ov = (cid, ov1)" by force
  define data where "data = (case src of Empty \<Rightarrow> [] | Reader bs \<Rightarrow> bs)"
  define ov2 where "ov2 = ov1\<lparr>files := bt_insert cid data (files ov1), unsynced := insert cid (unsynced ov1)\<rparr>"
  obtain now ov3 where n: "next_time ov2 = (now, ov3)" by force
  define e where "e = \<lparr>e_path = p, e_present = True, e_kind = k, e_opaque = False, e_ino = ino, e_content = CLocal cid,
    e_symlink_target = tg, e_size = length data, e_mtime = now, e_ctime = now, e_renamed_from = rf, e_base = bf\<rparr>"
  have q: "quiet ov ov1" "quiet ov1 ov2" "quiet ov2 ov3"
    using allocate_quiet(2) [of ov] next_time_quiet(1) [OF n] by (simp_all add: b ov2_def)
  note d1 = durable_quiet [OF assms(1) q(1)] and d3 = durable_clock [OF durable_quiet [OF durable_quiet [OF assms(1) q(1)] q(2)] n]
  have res: "snd (copy_up p (k, tg, bf, ino, rf) src ov) \<in> {ov1, commit [Put e] [] None ov3}"
    by (auto simp: copy_up_def b data_def [symmetric] ov2_def [symmetric] n Let_def e_def)
  show ?thesis
  proof (cases "snd (copy_up p (k, tg, bf, ino, rf) src ov) = commit [Put e] [] None ov3")
    case True
    then have "cid < next_content_id ov3" "cid < 2 ^ 64"
      using b q room by (auto simp: allocate_content_id_def quiet_def room_def commit_def)
    then have "fits (next_content_id ov3) e"
      unfolding e_def by (intro fresh_row_fits) (use assms d3 in \<open>simp_all add: data_def split: source.splits\<close>)
    then show ?thesis unfolding True commit_def by (intro durable_commit) (use d3 in simp_all)
  qed (use res d1 in auto)
qed

lemma materialize_durable:
  assumes "durable bnd ov" "facts_ok base" "ino < 2 ^ 64" "\<And>bs. src = Reader bs \<Longrightarrow> length bs < 2 ^ 64"
    and room: "room (snd (materialize p base ino src ov))"
  shows "durable bnd (snd (materialize p base ino src ov))"
proof -
  have row: "facts_ok (e_base e)" "e_ino e < 2 ^ 64" if "resolve (entries ov) p = Overlay e" for e
    using resolve_row [OF that] durable_row [OF assms(1)] by (auto simp: fits_def entry_ok_def facts_ok_def)
  have "snd (materialize p base ino src ov) = ov \<or>
      (\<exists>k tg bf ino' rf. snd (materialize p base ino src ov) = snd (copy_up p (k, tg, bf, ino', rf) src ov) \<and> facts_ok bf \<and> ino' < 2 ^ 64)"
    using row assms(2,3)
    by (force simp: materialize_def copy_up_of_row_def copy_up_of_base_def split: sum.splits resolution.splits option.splits if_splits)
  then show ?thesis using copy_up_durable assms room by metis
qed

lemma h_materialize_durable:
  assumes "durable bnd ov" "\<forall>p n. (p, n) \<in> set t \<longrightarrow> length (bn_content n) < 2 ^ 64" "facts_ok (facts D t p)" "ino < 2 ^ 64"
    and room: "room (snd (h_materialize D t p ino ov))"
  shows "durable bnd (snd (h_materialize D t p ino ov))"
proof -
  have base: "length (bn_content n) < 2 ^ 64" if "base_get t q = Some n" for q n
    using that assms(2) by (auto simp: base_get_def dest!: map_of_SomeD split: if_splits)
  have oid: "length bs < 2 ^ 64" if c: "content_of_oid D t oid = Some bs" for oid bs
  proof -
    obtain n where "List.find (\<lambda>n. git_oid D (bn_content n) = oid) (map snd t) = Some n" and bs: "bs = bn_content n"
      using c by (auto simp: content_of_oid_def)
    then have "n \<in> set (map snd t)" by (auto simp: find_Some_iff)
    then obtain p where "(p, n) \<in> set t" by auto
    then show ?thesis using assms(2) bs by blast
  qed
  define copy :: "bytes \<Rightarrow> unit result \<times> overlay" where
    "copy = (\<lambda>bs. case materialize p (facts D t p) ino (Reader bs) ov of (Inl c, ov1) \<Rightarrow> (Inl c, ov1) | (Inr _, ov1) \<Rightarrow> (Inr (), ov1))"
  have copy: "snd (copy bs) = snd (materialize p (facts D t p) ino (Reader bs) ov)" for bs
    by (simp add: copy_def split: prod.splits sum.splits)
  have "h_materialize D t p ino ov = (case resolve (entries ov) p of
       Absent \<Rightarrow> (Inl NoEntry, ov)
     | Overlay e \<Rightarrow>
         if local_id (e_content e) \<noteq> None then (Inr (), ov) else if is_dir (e_kind e) then (Inl IsDirectory, ov)
         else copy (case e_content e of CBase oid \<Rightarrow> (case content_of_oid D t oid of None \<Rightarrow> [] | Some bs \<Rightarrow> bs) | _ \<Rightarrow> [])
     | Base \<Rightarrow> (case base_get t p of None \<Rightarrow> (Inl NoEntry, ov)
         | Some n \<Rightarrow> if bn_kind n = Directory then (Inl IsDirectory, ov) else copy (bn_content n)))"
    by (simp only: h_materialize_def copy_def Let_def)
  moreover have "length (case c of CBase oid \<Rightarrow> (case content_of_oid D t oid of None \<Rightarrow> [] | Some bs \<Rightarrow> bs) | _ \<Rightarrow> []) < 2 ^ 64" for c
    using oid by (auto split: content.split option.split)
  ultimately have "snd (h_materialize D t p ino ov) = ov \<or> (\<exists>bs. snd (h_materialize D t p ino ov) = snd (copy bs) \<and> length bs < 2 ^ 64)"
    using base by (cases "resolve (entries ov) p"; cases "base_get t p") force+
  then show ?thesis using materialize_durable [OF assms(1,3,4)] assms(1) room copy by force
qed

lemma write_at_durable:
  assumes "durable bnd ov" "rows_ok ov"
  shows "durable bnd (snd (write_at p offset data ov))"
proof (cases "\<exists>n. fst (write_at p offset data ov) = Inr n")
  case True
  then obtain e i d content where e: "bt_get (entries ov) p = Some e" "local_id (e_content e) = Some i"
      and w: "snd (write_at p offset data ov) = note_written e (max (e_size e) (sat_add offset (length d))) None
        (ov\<lparr>files := bt_insert i (pwrite offset d content) (files ov)\<rparr>)"
    by (auto simp: write_at_def present_row_def Let_def split: option.splits sum.splits if_splits)
  have "e_path e = p" using e(1) assms(2) by (auto simp: rows_ok_def dest: keyedD)
  moreover have "e_size e < 2 ^ 64" using durable_row [OF assms(1) e(1)] by (simp add: fits_def entry_ok_def)
  moreover have "sat_add offset (length d) < 2 ^ 64" by (simp add: sat_add_def u64_max_def)
  ultimately show ?thesis
    unfolding w by (intro durable_note_written durable_quiet [OF assms(1)]) (use e in simp_all)
qed (use assms(1) in \<open>auto simp: write_at_def present_row_def Let_def split: option.splits sum.splits if_splits\<close>)

lemma truncate_durable:
  assumes "durable bnd ov" "sz < 2 ^ 64"
  shows "durable bnd (snd (Gfs_Overlay.truncate p sz ov))"
proof (cases "snd (Gfs_Overlay.truncate p sz ov) = ov")
  case False
  then obtain e F now ov2 where e: "bt_get (entries ov) p = Some e"
      and n: "next_time (ov\<lparr>files := F\<rparr>) = (now, ov2)"
      and t: "snd (Gfs_Overlay.truncate p sz ov) = commit [Put (e\<lparr>e_size := sz, e_mtime := now, e_ctime := now\<rparr>)] [] None ov2"
    by (auto simp: Gfs_Overlay.truncate_def present_row_def Let_def split: option.splits sum.splits if_splits prod.splits)
  note d = durable_clock [OF durable_quiet [OF assms(1) quiet_files(2)] n]
  have "fits (next_content_id ov) e" by (rule durable_row [OF assms(1) e])
  then have "fits (next_content_id ov2) (e\<lparr>e_size := sz, e_mtime := now, e_ctime := now\<rparr>)"
    using next_time_quiet(1) [OF n] assms(2) d tick_fits [of now] by (auto simp: fits_def entry_ok_def quiet_def)
  then show ?thesis unfolding t commit_def by (intro durable_commit) (use d in simp_all)
qed (use assms(1) in simp)

lemma adopt_durable:
  assumes "durable bnd ov" "facts_ok base" "ino < 2 ^ 64" and a: "adopt p base ino ov = (r, ov')"
  shows "durable bnd ov' \<and> (\<forall>e. r = Inr e \<longrightarrow> fits (next_content_id ov') e)"
proof (cases "ov' = ov \<and> (\<forall>e. r = Inr e \<longrightarrow> bt_get (entries ov) p = Some e)")
  case True
  then show ?thesis using assms(1) durable_row by blast
next
  case False
  then obtain f k now ov1 where f: "base = Some f" and n: "next_time ov = (now, ov1)"
      and r: "r = Inr \<lparr>e_path = p, e_present = True, e_kind = k, e_opaque = False, e_ino = ino,
        e_content = (if is_dir k then CNone else CBase (bf_oid f)), e_symlink_target = None, e_size = bf_size f,
        e_mtime = now, e_ctime = now, e_renamed_from = None, e_base = Some f\<rparr>"
      and ov': "ov' = commit [Put (projr r)] [] None ov1"
    using a by (auto simp: adopt_def Let_def dest: resolve_row split: sum.splits resolution.splits option.splits if_splits prod.splits)
  note d = durable_clock [OF assms(1) n]
  have "fits (next_content_id ov1) (projr r)"
    unfolding r sum.sel by (rule fresh_row_fits) (use assms d f in \<open>auto simp: facts_ok_def base_facts_ok_def split: if_splits\<close>)
  then show ?thesis
    using d by (auto simp: ov' r commit_def intro!: durable_commit)
qed

lemma set_executable_durable:
  assumes "durable bnd ov" "facts_ok base" "ino < 2 ^ 64"
  shows "durable bnd (snd (set_executable p base ino x ov))"
proof -
  obtain r ov1 where a: "adopt p base ino ov = (r, ov1)" by force
  note d = adopt_durable [OF assms a]
  show ?thesis
  proof (cases "snd (set_executable p base ino x ov) = ov1")
    case False
    then obtain e now ov2 where e: "r = Inr e" "next_time ov1 = (now, ov2)"
        and s: "snd (set_executable p base ino x ov) =
          commit [Put (e\<lparr>e_kind := (if x then OExecutable else ORegular), e_ctime := now\<rparr>)] [] None ov2"
      by (auto simp: set_executable_def a Let_def split: sum.splits if_splits prod.splits)
    note d2 = durable_clock [OF d [THEN conjunct1] e(2)]
    have "fits (next_content_id ov2) (e\<lparr>e_kind := (if x then OExecutable else ORegular), e_ctime := now\<rparr>)"
      using d e(1) next_time_quiet(1) [OF e(2)] d2 tick_fits [of now] by (auto simp: fits_def entry_ok_def quiet_def)
    then show ?thesis unfolding s commit_def by (intro durable_commit) (use d2 in simp_all)
  qed (use d in simp)
qed

lemma row_base_ok: "(\<And>e. row = Some e \<Longrightarrow> fits n e) \<Longrightarrow> facts_ok base \<Longrightarrow> facts_ok (row_base row base)"
  by (cases row) (auto simp: row_base_def facts_ok_def fits_def entry_ok_def split: option.splits)

lemma whiteout_fits: "base_facts_ok f \<Longrightarrow> ino < 2 ^ 64 \<Longrightarrow> tick_ok now \<Longrightarrow> fits n (whiteout p f ino now)"
  unfolding whiteout_def by (rule fresh_row_fits) (simp_all add: facts_ok_def)

lemma row_ino: "(\<And>e. row = Some e \<Longrightarrow> fits n e) \<Longrightarrow> (case row of None \<Rightarrow> 0 | Some e \<Rightarrow> e_ino e) < 2 ^ 64"
  by (cases row) (auto simp: fits_def entry_ok_def)

lemma remove_durable:
  assumes "durable bnd ov" "facts_ok base" "facts_ok (par_base par)" "par_ino par < 2 ^ 64"
    and room: "room (snd (remove p base par dir emp ov))"
  shows "durable bnd (snd (remove p base par dir emp ov))"
proof (cases "snd (remove p base par dir emp ov) = ov")
  case False
  define row where "row = bt_get (entries ov) p"
  have fit: "fits (next_content_id ov) e" if "row = Some e" for e using durable_row [OF assms(1)] that row_def by simp
  have p: "p \<noteq> []" using False by (auto simp: remove_def)
  obtain kind where k: "existing ov p base = Some kind" using False p by (cases "existing ov p base") (auto simp: remove_def)
  have "snd (remove p base par dir emp ov) = ov"
    if "dir \<and> \<not> is_dir_like kind \<or> \<not> dir \<and> is_dir_like kind \<or> is_dir_like kind \<and> \<not> emp"
    using that by (cases dir; cases "is_dir_like kind") (simp_all add: remove_def k p)
  then have g: "\<not> (dir \<and> \<not> is_dir_like kind)" "\<not> (\<not> dir \<and> is_dir_like kind)" "\<not> (is_dir_like kind \<and> \<not> emp)"
    using False by blast+
  define es where "es = (if is_dir_like kind then filter e_present (rows_under (entries ov) p) else [])"
  define rel where "rel = row_ids row @ concat (map (\<lambda>e. row_ids (Some e)) es)"
  obtain cs1 ov1 where cs: "(cs1, ov1) = (case row_base row base of
         Some f \<Rightarrow> (let (now, ov1) = next_time ov
                    in (map (\<lambda>e. Delete (e_path e)) es @ [Put (whiteout p f (case row of None \<Rightarrow> 0 | Some e \<Rightarrow> e_ino e) now)], ov1))
       | None \<Rightarrow> (map (\<lambda>e. Delete (e_path e)) es @ [Delete p], ov))" by (metis surj_pair)
  obtain now ov2 where n2: "next_time ov1 = (now, ov2)" by force
  have r: "snd (remove p base par dir emp ov) = commit_touching cs1 rel p par now ov2"
    unfolding remove_def k option.case if_not_P [OF p] if_not_P [OF g(1)] if_not_P [OF g(2)] if_not_P [OF g(3)]
    by (simp only: Let_def row_def [symmetric] es_def [symmetric] rel_def [symmetric] cs [unfolded Let_def, symmetric]
        case_prod_conv n2 snd_conv)
  have "durable bnd ov1 \<and> quiet ov ov1 \<and> puts_fit (next_content_id ov1) cs1"
  proof (cases "row_base row base")
    case None
    then show ?thesis using cs assms(1) by simp
  next
    case (Some f)
    obtain now1 ov1' where n1: "next_time ov = (now1, ov1')" by force
    have f: "base_facts_ok f" using row_base_ok [of row, OF fit assms(2)] Some by (simp add: facts_ok_def)
    show ?thesis
      using cs Some durable_clock [OF assms(1) n1] next_time_quiet(1) [OF n1] whiteout_fits [OF f row_ino [of row, OF fit]]
      by (simp add: n1)
  qed
  then have d: "durable bnd ov2" "tick_ok now" "puts_fit (next_content_id ov2) cs1"
    using durable_clock [of bnd ov1, OF _ n2] next_time_quiet(1) [OF n2] puts_fit_mono [of "next_content_id ov1" cs1] by (auto simp: quiet_def)
  show ?thesis using room unfolding r by (intro durable_touching) (use d assms in simp_all)
qed (use assms(1) in simp)

subsection \<open>Rename\<close>

lemma moved_row_fits:
  assumes "moved_row from ino fbase to tbase now ov = (r, ov')" and "durable bnd ov" "facts_ok fbase" "facts_ok tbase" "ino < 2 ^ 64"
    "tick_ok now" "room ov'"
  shows "quiet ov ov' \<and> (\<forall>e. r = Inr e \<longrightarrow> fits (next_content_id ov') e)"
proof (cases "\<exists>row. bt_get (entries ov) from = Some row \<and> e_present row")
  case True
  then obtain row where row: "bt_get (entries ov) from = Some row" "e_present row" by auto
  then show ?thesis
    using assms(1,4) durable_row [OF assms(2) row(1)] tick_fits [OF assms(6)]
    by (auto simp: moved_row_def fits_def entry_ok_def facts_ok_def)
next
  case False
  obtain ino' ov1 where a: "adopt_ino ino ov = (ino', ov1)" by force
  have q: "quiet ov ov1" using allocate_quiet(3) [of ov ino] a by simp
  show ?thesis
  proof (cases r)
    case (Inr e)
    then obtain f k where f: "fbase = Some f" and e: "ov' = ov1" "e = \<lparr>e_path = to, e_present = True, e_kind = k, e_opaque = is_dir k,
        e_ino = ino', e_content = (if is_dir k then CNone else CBase (bf_oid f)), e_symlink_target = None, e_size = bf_size f,
        e_mtime = now, e_ctime = now, e_renamed_from = Some from, e_base = tbase\<rparr>"
      using assms(1) False a by (auto simp: moved_row_def Let_def split: option.splits if_splits)
    have "fits (next_content_id ov1) e"
      unfolding e(2) by (rule fresh_row_fits)
        (use assms adopt_ino_fits [OF a] f e(1) in \<open>auto simp: facts_ok_def base_facts_ok_def split: if_splits\<close>)
    then show ?thesis using q e(1) Inr by simp
  next
    case (Inl c)
    then have "ov' = ov" using assms(1) False a by (auto simp: moved_row_def Let_def split: option.splits if_splits)
    then show ?thesis using Inl by simp
  qed
qed

lemma mover_changes_fit: "fits n row \<Longrightarrow> tick_ok now \<Longrightarrow> puts_fit n (mover_changes from to now row)"
  using tick_fits [of now] by (auto simp: mover_changes_def fits_def entry_ok_def)

lemma descendant_change_fits:
  assumes "descendant_change from to now d (cs, ov) = (cs', ov')" "puts_fit (next_content_id ov) cs" "base_facts_ok (bd_facts d)"
    "tick_ok now" "room ov'"
  shows "quiet ov ov' \<and> puts_fit (next_content_id ov') cs'"
proof (cases "(cs', ov') = (cs, ov)")
  case False
  obtain ino ov1 where a: "allocate_ino ov = (ino, ov1)" by force
  from False obtain k where k: "ov' = ov1" and cs': "cs' = cs @ [Put \<lparr>e_path = to @ ''/'' @ bd_relative d, e_present = True, e_kind = k,
      e_opaque = is_dir k, e_ino = ino, e_content = (if is_dir k then CNone else CBase (bf_oid (bd_facts d))),
      e_symlink_target = bd_symlink_target d, e_size = bf_size (bd_facts d), e_mtime = now, e_ctime = now,
      e_renamed_from = Some (from @ ''/'' @ bd_relative d), e_base = None\<rparr>]"
    using assms(1) a by (auto simp: descendant_change_def Let_def split: if_splits option.splits)
  have q: "quiet ov ov1" and n: "next_content_id ov1 = next_content_id ov" "ino < 2 ^ 64"
    using allocate_quiet(1) [of ov] a assms(5) k by (auto simp: allocate_ino_def room_def)
  then show ?thesis
    using assms(2,3,4) unfolding cs' k
    by (auto simp: facts_ok_def base_facts_ok_def intro!: fresh_row_fits split: if_splits)
qed (use assms in simp)

lemma descendants_quiet: "quiet a (snd (fold (descendant_change from to now) ds (c, a)))"
proof (induction ds arbitrary: c a)
  case (Cons x xs)
  obtain c' a' where x: "descendant_change from to now x (c, a) = (c', a')" by force
  have "quiet a a'" using x allocate_quiet(1) [of a] by (auto simp: descendant_change_def Let_def split: if_splits option.splits prod.splits)
  then show ?case using Cons.IH [of a' c'] x quiet_trans by auto
qed simp

lemma descendants_fit:
  assumes "fold (descendant_change from to now) ds (cs, ov) = (cs', ov')" "puts_fit (next_content_id ov) cs"
    "\<forall>d \<in> set ds. base_facts_ok (bd_facts d)" "tick_ok now" "room ov'"
  shows "quiet ov ov' \<and> puts_fit (next_content_id ov') cs'"
  using assms
proof (induction ds arbitrary: cs ov)
  case (Cons d ds)
  obtain cs1 ov1 where d: "descendant_change from to now d (cs, ov) = (cs1, ov1)" by force
  have q1: "quiet ov1 ov'" using descendants_quiet [of ov1 "from" to now ds cs1] Cons.prems(1) d by simp
  from descendant_change_fits [OF d Cons.prems(2) _ Cons.prems(4) room_quiet [OF q1 Cons.prems(5)]] Cons.prems(3)
  have "quiet ov ov1" "puts_fit (next_content_id ov1) cs1" by simp_all
  then show ?case using Cons.IH [of cs1 ov1] Cons.prems d quiet_trans by auto
qed simp

lemma parent_touch_quiet: "quiet ov (snd (parent_touch p par now ov))"
  using allocate_quiet(3) [of ov "par_ino par"]
  by (auto simp: parent_touch_def Let_def split: resolution.splits option.splits prod.splits)

lemma push_touch_eq: "\<exists>rt'. push_touch tch now (cs, rt) = (cs @ touch_changes tch, rt')"
  using push_touch_changes [of tch now cs rt] by (metis prod.collapse)

lemma rename_touches_fit:
  assumes "rename_touches from fpar to tpar now ov cs = (cs', rt, ov')" and "durable bnd ov" "puts_fit (next_content_id ov) cs"
    and "facts_ok (par_base fpar)" "par_ino fpar < 2 ^ 64" "facts_ok (par_base tpar)" "par_ino tpar < 2 ^ 64"
    and now: "tick_ok now" and room: "room ov'"
  shows "quiet ov ov' \<and> puts_fit (next_content_id ov') cs'"
proof -
  obtain t1 ov1 where p1: "parent_touch from fpar now ov = (t1, ov1)" by force
  obtain rt1 where r1: "push_touch t1 now (cs, None) = (cs @ touch_changes t1, rt1)" using push_touch_eq by blast
  obtain t2 ov2 where p2: "parent_touch to tpar now ov1 = (t2, ov2)" by force
  obtain rt2 where r2: "push_touch t2 now (cs @ touch_changes t1, rt1) = (cs @ touch_changes t1 @ touch_changes t2, rt2)"
    using push_touch_eq [of t2 now "cs @ touch_changes t1" rt1] by auto
  have q2: "quiet ov1 ov2" using parent_touch_quiet [of ov1 to tpar now] p2 by simp
  have res: "(cs', ov') = (if parent_of from \<noteq> parent_of to then (cs @ touch_changes t1 @ touch_changes t2, ov2) else (cs @ touch_changes t1, ov1))"
    using assms(1) by (auto simp: rename_touches_def p1 r1 p2 r2 split: if_splits)
  have "room ov1" using res room room_quiet [OF q2] by (auto split: if_splits)
  note f1 = parent_touch_fits [OF p1 assms(2,4,5) now this]
  have d1: "durable bnd ov1" using durable_quiet [OF assms(2)] f1 by blast
  have cs1: "puts_fit (next_content_id ov1) cs" using assms(3) by (rule puts_fit_mono) (use f1 in \<open>simp add: quiet_def\<close>)
  show ?thesis
  proof (cases "parent_of from = parent_of to")
    case True
    then show ?thesis using res f1 cs1 by simp
  next
    case False
    then have "room ov2" using res room by simp
    note f2 = parent_touch_fits [OF p2 d1 assms(6,7) now this]
    have "puts_fit (next_content_id ov2) (cs @ touch_changes t1)"
      by (rule puts_fit_mono [of "next_content_id ov1"]) (use f1 cs1 q2 in \<open>simp_all add: quiet_def\<close>)
    then show ?thesis using res False f1 f2 quiet_trans by auto
  qed
qed

lemma rows_under_fit:
  "durable bnd ov \<Longrightarrow> rows_ok ov \<Longrightarrow> d \<noteq> [] \<Longrightarrow> e \<in> set (rows_under (entries ov) d) \<Longrightarrow> fits (next_content_id ov) e"
  using set_rows_under [of "entries ov" d] durable_row [of bnd ov] by (auto simp: rows_ok_def)

lemma rename_commit_durable:
  assumes ov: "durable bnd ov" "rows_ok ov" "from \<noteq> []" and fb: "facts_ok fbase" "facts_ok tbase"
    and par: "facts_ok (par_base fpar)" "par_ino fpar < 2 ^ 64" "facts_ok (par_base tpar)" "par_ino tpar < 2 ^ 64"
    and ino: "ino < 2 ^ 64" and ds: "\<forall>d \<in> set ds. base_facts_ok (bd_facts d)"
    and room: "room (snd (rename_commit from ino fbase fpar to tbase tpar ds ov))"
  shows "durable bnd (snd (rename_commit from ino fbase fpar to tbase tpar ds ov))"
proof -
  define row where "row = bt_get (entries ov) from"
  obtain now ov1 where n: "next_time ov = (now, ov1)" by force
  define dels where "dels = map (\<lambda>e. Delete (e_path e)) (rows_under (entries ov) to)"
  obtain r ov2 where m: "moved_row from ino fbase to tbase now ov1 = (r, ov2)" by force
  note d1 = durable_clock [OF ov(1) n] and q1 = next_time_quiet(1) [OF n]
  show ?thesis
  proof (cases "snd (rename_commit from ino fbase fpar to tbase tpar ds ov) = ov2")
    case True
    have "durable bnd ov2" using moved_row_fits [OF m] d1 fb ino room True durable_quiet by metis
    then show ?thesis using True by simp
  next
    case False
    then obtain moved where r: "r = Inr moved"
      by (cases r) (auto simp: rename_commit_def n m Let_def)
    define dir where "dir = is_dir (e_kind moved)"
    define cs2 where "cs2 = dels @ [Put moved] @ (if dir then concat (map (mover_changes from to now) (rows_under (entries ov2) from)) else [])"
    obtain cs3 ov3 where c3: "(if dir then fold (descendant_change from to now) ds (cs2, ov2) else (cs2, ov2)) = (cs3, ov3)" by force
    obtain cs4 rt ov4 where c4: "rename_touches from fpar to tpar now ov3 (cs3 @ [hiding from fbase now row]) = (cs4, rt, ov4)" by (metis prod_cases3)
    have e: "snd (rename_commit from ino fbase fpar to tbase tpar ds ov) = commit cs4 (released ov to) rt ov4"
      using False c3 c4 by (auto simp: rename_commit_def n m r cs2_def dir_def dels_def row_def Let_def split: if_splits)
    have room4: "room ov4" using room e by simp
    have q34: "quiet ov3 ov4"
      using c4 parent_touch_quiet quiet_trans by (auto simp: rename_touches_def split: prod.splits if_splits) (metis snd_conv)+
    have room3: "room ov3" using room_quiet [OF q34 room4] .
    have q23: "quiet ov2 ov3"
      using c3 descendants_quiet [of ov2 "from" to now ds cs2] by (auto split: if_splits)
    have room2: "room ov2" using room_quiet [OF q23 room3] .
    have mv: "quiet ov1 ov2" "fits (next_content_id ov2) moved"
      using moved_row_fits [OF m d1 [THEN conjunct1] fb ino d1 [THEN conjunct2] room2] r by simp_all
    have d2: "durable bnd ov2" using durable_quiet d1 mv(1) by blast
    have ents: "entries ov2 = entries ov" "next_content_id ov \<le> next_content_id ov2"
      using q1 mv(1) by (simp_all add: quiet_def)
    have "puts_fit (next_content_id ov2) (mover_changes from to now e)" if "e \<in> set (rows_under (entries ov2) from)" for e
      using mover_changes_fit [OF fits_mono [OF rows_under_fit [OF ov(1,2,3)] ents(2)]] that ents(1) d1 by simp
    then have "puts_fit (next_content_id ov2) cs2"
      using mv(2) by (auto simp: cs2_def dels_def) (auto simp: puts_fit_def)
    then have c3f: "puts_fit (next_content_id ov3) cs3"
      using c3 descendants_fit [OF _ _ ds d1 [THEN conjunct2] room3] by (auto split: if_splits)
    have d3: "durable bnd ov3" by (rule durable_quiet [OF d2 q23])
    have hid: "puts_fit n [hiding from fbase now row]" for n
    proof -
      have fit: "fits (next_content_id ov) e" if "row = Some e" for e using durable_row [OF ov(1)] that row_def by simp
      show ?thesis
        using row_base_ok [of row, OF fit fb(1)] whiteout_fits row_ino [of row, OF fit] d1
        by (auto simp: hiding_def facts_ok_def split: option.splits)
    qed
    have "quiet ov3 ov4 \<and> puts_fit (next_content_id ov4) cs4"
      by (rule rename_touches_fit [OF c4 d3 _ par d1 [THEN conjunct2] room4]) (use c3f hid in simp)
    then show ?thesis unfolding e commit_def using durable_commit durable_quiet [OF d3] by blast
  qed
qed

lemma rename_durable:
  assumes "durable bnd ov" "rows_ok ov" "facts_ok fbase" "facts_ok tbase" "facts_ok (par_base fpar)" "par_ino fpar < 2 ^ 64"
    "facts_ok (par_base tpar)" "par_ino tpar < 2 ^ 64" "ino < 2 ^ 64" "\<forall>d \<in> set ds. base_facts_ok (bd_facts d)"
    and room: "room (snd (rename from ino fbase fpar to tbase tpar ds emp nr ov))"
  shows "durable bnd (snd (rename from ino fbase fpar to tbase tpar ds emp nr ov))"
proof (cases "snd (rename from ino fbase fpar to tbase tpar ds emp nr ov) = ov")
  case False
  then have "from \<noteq> []" "rename from ino fbase fpar to tbase tpar ds emp nr ov = rename_commit from ino fbase fpar to tbase tpar ds ov"
    by (auto simp: rename_def split: sum.splits option.splits if_splits)
  then show ?thesis using rename_commit_durable [OF assms(1,2) _ assms(3-10)] room by simp
qed (use assms(1) in simp)

section \<open>Every operation of the harness\<close>

definition base_fits :: "digests \<Rightarrow> base_tree \<Rightarrow> bool" where
  "base_fits D t \<longleftrightarrow> (\<forall>(p, n) \<in> set t. length (bn_content n) < 2 ^ 64 \<and> kind_ok (bn_kind n) \<and> oid_ok (git_oid D (bn_content n)))"

fun op_fits :: "op \<Rightarrow> bool" where
  "op_fits (MkSymlink p target) = (length target < 2 ^ 64)"
| "op_fits (Truncate p sz) = (sz < 2 ^ 64)"
| "op_fits _ = True"

lemma facts_fit: "base_fits D t \<Longrightarrow> facts_ok (facts D t p)"
  by (auto simp: base_fits_def facts_ok_def facts_def base_get_def base_facts_ok_def dest!: map_of_SomeD split: option.splits if_splits)

lemma ino_for_fits: "ino_for p < 2 ^ 64"
proof -
  have "ino_for p < OVERLAY_INO_BASE - 2 + 2" unfolding ino_for_def by (rule add_strict_right_mono) (simp add: OVERLAY_INO_BASE_def)
  then show ?thesis by (simp add: OVERLAY_INO_BASE_def)
qed

lemma parent_for_fits: "base_fits D t \<Longrightarrow> facts_ok (par_base (parent_for D t p)) \<and> par_ino (parent_for D t p) < 2 ^ 64"
  using ino_for_fits by (simp add: parent_for_def facts_fit)

lemma descendants_fit_base: "base_fits D t \<Longrightarrow> \<forall>d \<in> set (descendants D t p). base_facts_ok (bd_facts d)"
  by (auto simp: base_fits_def descendants_def base_facts_ok_def)

lemma h_materialize_rows_ok: "sim D t ov m \<Longrightarrow> rows_ok (snd (h_materialize D t p ino ov))"
  using h_materialize_any [of D t ov m p ino] by (auto simp: materialized_def dest: simD(3))

lemma durable_step:
  assumes base: "base_ok D t" "base_fits D t" and ov: "overlay_ok D t ov" "durable bnd ov"
    and adm: "op_fits x"
    and room: "room (snd (apply_to_overlay D t x ov))"
  shows "durable bnd (snd (apply_to_overlay D t x ov))"
proof -
  have sim: "sim D t ov (merged_view D t ov)"
    using base(1) ov(1) merged_view_lookup [OF base(1) ov(1)] by (simp add: sim_def)
  note rows = simD(3) [OF sim]
  note fits = facts_fit [OF base(2)] parent_for_fits [OF base(2), THEN conjunct1] parent_for_fits [OF base(2), THEN conjunct2]
    ino_for_fits descendants_fit_base [OF base(2)]
  have snd_outcome: "snd (outcome r) = snd r" for r :: "'a result \<times> overlay" by (simp add: outcome_def)
  have small: "\<forall>p n. (p, n) \<in> set t \<longrightarrow> length (bn_content n) < 2 ^ 64" using base(2) by (auto simp: base_fits_def)
  show ?thesis
  proof (cases x)
    case (Write p offset data)
    let ?mid = "snd (h_materialize D t p (ino_for p) ov)"
    have "rows_ok ?mid" by (rule h_materialize_rows_ok [OF sim])
    moreover have "room (snd (write_at p offset data ov'))  = room ov'" for ov'
      by (auto simp: write_at_def note_written_def next_time_def replace_in_memory_def room_def Let_def split: option.splits sum.splits)
    ultimately show ?thesis
      using room h_materialize_durable [OF ov(2) small fits(1) fits(4), of p p] write_at_durable
      by (auto simp: Write and_then_def snd_outcome split: sum.splits)
  next
    case (Truncate p sz)
    have "room (snd (Gfs_Overlay.truncate p sz ov')) = room ov'" for ov'
      by (auto simp: Gfs_Overlay.truncate_def commit_def next_time_def Let_def split: option.splits) (auto simp: room_def)
    then show ?thesis
      using room adm h_materialize_durable [OF ov(2) small fits(1) fits(4), of p p] truncate_durable
      by (auto simp: Truncate and_then_def snd_outcome split: sum.splits)
  next
    case (Rename a b)
    then show ?thesis using room rename_durable [OF ov(2) rows fits(1) fits(1) fits(2,3) fits(2,3) fits(4) fits(5)] by simp
  next
    case (MkSymlink p target)
    then show ?thesis using room adm symlink_durable [OF ov(2) fits(1-4)] by (simp add: snd_outcome)
  qed (use room create_file_durable [OF ov(2) fits(1-4)] mkdir_durable [OF ov(2) fits(1-4)] remove_durable [OF ov(2) fits(1-3)]
      set_executable_durable [OF ov(2) fits(1) fits(4)] in \<open>simp_all add: snd_outcome\<close>)
qed

end
