(* ===== verification/Gfs_Recovery.thy ===== *)
theory Gfs_Recovery
  imports Gfs_Durable
begin

text \<open>
  Opening an overlay with recovery (\<open>Overlay::open_with_store_root\<close> of \<open>crates/gfs-overlay/src/lib.rs\<close>,
  \<open>ContentStore::sweep\<close> of \<open>store.rs\<close>). The modification times the file system reports for content files are
  a parameter, as the host clock is. Staged temporary files are no part of the state, so the sweep's count of
  them is left out.

  The lemma \<open>reopen\<close> says what an open finds that follows the death of a process at a moment when the overlay
  was in a state with the two invariants: the same workspace, in a state with the two invariants.
\<close>

section \<open>The sweep\<close>

record sweep_report =
  orphan_files_removed :: nat
  orphan_bytes_removed :: nat
  missing_content :: "nat list"

definition content_sweep :: "nat set \<Rightarrow> (nat, bytes) btree \<Rightarrow> sweep_report \<times> (nat, bytes) btree" where
  "content_sweep referenced F =
     (let orphans = filter (\<lambda>(i, bs). i \<notin> referenced) F
      in (\<lparr>orphan_files_removed = length orphans,
           orphan_bytes_removed = sum_list (map (length \<circ> snd) orphans),
           missing_content = sorted_list_of_set (referenced - fst ` set F)\<rparr>,
          filter (\<lambda>(i, bs). i \<in> referenced) F))"

section \<open>Recovering the rows\<close>

record recovery =
  rc_clock :: timestamp
  rc_reads :: nat
  rc_bytes :: nat
  rc_corrections :: "change list"

text \<open>One row of the loop: the content file is the truth for its size and its modification time.\<close>

definition recover_row ::
  "(nat \<Rightarrow> timestamp option) \<Rightarrow> timestamp \<Rightarrow> (nat \<Rightarrow> timestamp) \<Rightarrow> (nat, bytes) btree \<Rightarrow> overlay_entry \<Rightarrow> recovery
   \<Rightarrow> overlay_entry \<times> recovery" where
  "recover_row modified snap0 wall0 F e rc =
     (case local_id (e_content e) of None \<Rightarrow> (e, rc)
      | Some i \<Rightarrow>
        (case bt_get F i of None \<Rightarrow> (e, rc)
         | Some bs \<Rightarrow>
           (let rc1 = rc\<lparr>rc_bytes := rc_bytes rc + length bs\<rparr>;
                file_mtime = (case modified i of None \<Rightarrow> e_mtime e
                              | Some t \<Rightarrow> clamp_requested_overlay_time t snap0)
            in if length bs \<noteq> e_size e \<or> file_mtime > e_mtime e
               then (let now = overlay_time (wall0 (rc_reads rc)) snap0 (Some (rc_clock rc));
                         e' = e\<lparr>e_size := length bs, e_mtime := max (e_mtime e) file_mtime, e_ctime := now\<rparr>
                     in (e', rc1\<lparr>rc_clock := now, rc_reads := rc_reads rc + 1,
                                 rc_corrections := rc_corrections rc @ [Put e']\<rparr>))
               else (e, rc1))))"

fun recover_rows ::
  "(nat \<Rightarrow> timestamp option) \<Rightarrow> timestamp \<Rightarrow> (nat \<Rightarrow> timestamp) \<Rightarrow> (nat, bytes) btree \<Rightarrow> overlay_entry list \<Rightarrow> recovery
   \<Rightarrow> overlay_entry list \<times> recovery" where
  "recover_rows modified snap0 wall0 F [] rc = ([], rc)"
| "recover_rows modified snap0 wall0 F (e # es) rc =
     (let (e', rc1) = recover_row modified snap0 wall0 F e rc;
          (es', rc2) = recover_rows modified snap0 wall0 F es rc1
      in (e' # es', rc2))"

section \<open>Opening\<close>

definition load_clock :: "timestamp \<Rightarrow> overlay_entry list \<Rightarrow> (timestamp \<times> timestamp) option \<Rightarrow> timestamp" where
  "load_clock snap0 es rt =
     (let c = fold (\<lambda>e c. max (max c (e_mtime e)) (e_ctime e)) es snap0
      in case rt of None \<Rightarrow> c | Some (m, ct) \<Rightarrow> max (max c m) ct)"

definition index_content :: "overlay_entry \<Rightarrow> (nat, path) btree \<Rightarrow> (nat, path) btree" where
  "index_content e ix = (case local_id (e_content e) of None \<Rightarrow> ix | Some i \<Rightarrow> bt_insert i (e_path e) ix)"

definition overlay_open ::
  "string \<times> string \<Rightarrow> timestamp \<Rightarrow> nat \<Rightarrow> nat \<Rightarrow> (nat \<Rightarrow> timestamp option) \<Rightarrow> (nat \<Rightarrow> timestamp)
   \<Rightarrow> journal \<Rightarrow> (nat, bytes) btree \<Rightarrow> (sweep_report \<times> overlay) result" where
  "overlay_open binding snap0 quota max_rename modified wall0 J F =
     (case journal_bind binding J of Inl c \<Rightarrow> Inl c
      | Inr J1 \<Rightarrow>
        (case journal_load J1 of Inl c \<Rightarrow> Inl c
         | Inr loaded \<Rightarrow>
           (let referenced = set (List.map_filter (\<lambda>e. local_id (e_content e)) loaded);
                (report, F1) = content_sweep referenced F;
                nino = max (j_next_ino J1) OVERLAY_INO_BASE;
                ncid = max (j_next_content_id J1) 1;
                J2 = J1\<lparr>j_instance_id := (j_instance_id J1 + 1) mod 2 ^ 64\<rparr>;
                (es, rc) = recover_rows modified snap0 wall0 F1 loaded
                  \<lparr>rc_clock = load_clock snap0 loaded (j_root_times J2), rc_reads = 0, rc_bytes = 0, rc_corrections = []\<rparr>;
                J3 = (if rc_corrections rc = [] then J2
                      else journal_apply (rc_corrections rc) (VanishedDelta [] []) (j_overflow J2) nino ncid None J2)
            in Inr (report,
                 \<lparr>journal = J3,
                  entries = fold (\<lambda>e. bt_insert (e_path e) e) es [],
                  children = fold (\<lambda>e. child_add (entry_parent e) (entry_name e)) es [],
                  by_content = fold index_content es [],
                  next_ino = nino, next_content_id = ncid, local_bytes = rc_bytes rc, clock = rc_clock rc,
                  vanished = j_vanished J2, vanished_overflow = j_overflow J2, root_times = j_root_times J2,
                  dirty = {}, unsynced = {}, writers = [], sequence = 0, instance_id = j_instance_id J2, stamps = [],
                  files = F1, quota_bytes = quota, max_rename_entries = max_rename, snap = snap0, wall = wall0,
                  reads = rc_reads rc\<rparr>))))"

section \<open>Rows that differ in their times only\<close>

definition same_row :: "overlay_entry \<Rightarrow> overlay_entry \<Rightarrow> bool" where
  "same_row e e' \<longleftrightarrow> e' = e\<lparr>e_mtime := e_mtime e', e_ctime := e_ctime e'\<rparr>"

lemma same_rowD:
  assumes "same_row e e'"
  shows "e_path e' = e_path e" "e_present e' = e_present e" "e_kind e' = e_kind e" "e_opaque e' = e_opaque e"
    "e_ino e' = e_ino e" "e_content e' = e_content e" "e_symlink_target e' = e_symlink_target e" "e_size e' = e_size e"
    "e_renamed_from e' = e_renamed_from e" "e_base e' = e_base e"
  using assms unfolding same_row_def by (metis overlay_entry.select_convs overlay_entry.surjective overlay_entry.update_convs)+

definition same_rows :: "row_map \<Rightarrow> row_map \<Rightarrow> bool" where
  "same_rows R R' \<longleftrightarrow> (\<forall>x. rel_option same_row (R x) (R' x))"

lemma same_rows_cases:
  assumes "same_rows R R'"
  obtains "R x = None" "R' x = None" | e e' where "R x = Some e" "R' x = Some e'" "same_row e e'"
  using assms unfolding same_rows_def by (metis option.rel_cases)

lemma same_rows_look:
  assumes rows: "same_rows R R'" and files: "\<And>x e i. R x = Some e \<Longrightarrow> e_content e = CLocal i \<Longrightarrow> F' i = F i"
  shows "look D t R' F' = look D t R F"
proof
  fix x
  have ex: "(\<exists>e. R' a = Some e \<and> P e) \<longleftrightarrow> (\<exists>e. R a = Some e \<and> P e)" if "\<And>e e'. same_row e e' \<Longrightarrow> P e' = P e" for a P
    using same_rows_cases [OF rows, of a] that by (metis option.distinct(1) option.inject)
  have b: "blocked R' x = blocked R x" "masked R' x = masked R x"
    unfolding blocked_def masked_def by (simp_all add: ex blocking_def same_rowD)
  have c: "content_at D t F' e' = content_at D t F e" if "R x = Some e" "same_row e e'" for e e'
    using files [OF that(1)] same_rowD [OF that(2)] by (simp add: content_at_def split: content.splits)
  show "look D t R' F' x = look D t R F x"
    using same_rows_cases [OF rows, of x]
    by (cases; simp add: look_def resolves_def b c same_rowD)
qed

lemma same_rows_ok:
  assumes rows: "same_rows R R'" and ok: "view_ok D t R F nid" and files: "\<And>x e i. R x = Some e \<Longrightarrow> e_content e = CLocal i \<Longrightarrow> F' i = F i"
    and ids: "\<And>x e i. R x = Some e \<Longrightarrow> e_content e = CLocal i \<Longrightarrow> i < nid'" "\<And>i. F' i \<noteq> None \<Longrightarrow> i < nid'"
  shows "view_ok D t R' F' nid'"
  unfolding view_ok_def
proof (intro conjI allI impI)
  have lk: "look D t R' F' = look D t R F" by (rule same_rows_look [OF rows]) (rule files)
  have orig: "\<exists>e. R x = Some e \<and> same_row e e'" if "R' x = Some e'" for x e'
    using that by (cases rule: same_rows_cases [OF rows, of x]) auto
  show "row_ok D t F' nid' x e'" if e': "R' x = Some e'" for x e'
  proof -
    obtain e where e: "R x = Some e" "same_row e e'" using orig [OF e'] by blast
    note r = view_okD(1) [OF ok e(1)]
    show ?thesis
      using r files [OF e(1)] ids(1) [OF e(1)] same_rowD [OF e(2)] by (auto simp: row_ok_def shape_ok_def split: content.splits)
  qed
  show "unique_ids R'"
    unfolding unique_ids_def
  proof (intro allI impI)
    fix x y e e' i
    assume e: "R' x = Some e" "R' y = Some e'" "e_content e = CLocal i" "e_content e' = CLocal i"
    obtain d where d: "R x = Some d" "same_row d e" using orig [OF e(1)] by blast
    obtain d' where d': "R y = Some d'" "same_row d' e'" using orig [OF e(2)] by blast
    have "e_content d = CLocal i" "e_content d' = CLocal i" using same_rowD(6) [OF d(2)] same_rowD(6) [OF d'(2)] e(3,4) by simp_all
    note this d(1) d'(1)
    then show "x = y" using view_okD(2) [OF ok] unfolding unique_ids_def by blast
  qed
  show "closed D t R' F'"
    unfolding closed_def dir_at_def lk
  proof (intro allI impI)
    fix x e' a assume "R' x = Some e'" "e_present e'" "below x a"
    moreover from this(1) obtain e where "R x = Some e" "same_row e e'" using orig by blast
    ultimately show "\<exists>n. look D t R F a = Some n \<and> is_dir (n_kind n)"
      using view_okD(3) [OF ok] same_rowD(2) unfolding closed_def dir_at_def by blast
  qed
  show "F' i \<noteq> None \<Longrightarrow> i < nid'" for i by (rule ids(2))
qed

section \<open>Loading\<close>

lemma journal_decode_rows:
  assumes "\<forall>(p, r) \<in> set rs. \<exists>e. r = row_of e \<and> entry_ok e \<and> e_path e = p"
  shows "\<exists>es. journal_decode rs = Inr es \<and> map e_path es = map fst rs \<and> map row_of es = map snd rs \<and> list_all entry_ok es"
  using assms
proof (induction rs)
  case (Cons pr rs)
  obtain p r where pr: "pr = (p, r)" by force
  then obtain e where e: "r = row_of e" "entry_ok e" "e_path e = p" using Cons.prems by auto
  obtain es where "journal_decode rs = Inr es" "map e_path es = map fst rs" "map row_of es = map snd rs" "list_all entry_ok es"
    using Cons by auto
  then show ?case using e by (simp add: pr decode_row_of)
qed simp

lemma lag_eq: "lag e0 e \<Longrightarrow> e0 = e\<lparr>e_size := e_size e0, e_mtime := e_mtime e0, e_ctime := e_ctime e0\<rparr>"
  by (auto simp: lag_def)

lemma lagD:
  assumes "lag e0 e"
  shows "e_path e0 = e_path e" "e_content e0 = e_content e"
proof -
  obtain sz m c where "e0 = e\<lparr>e_size := sz, e_mtime := m, e_ctime := c\<rparr>" using lag_eq [OF assms] by blast
  then show "e_path e0 = e_path e" "e_content e0 = e_content e" by simp_all
qed

text \<open>What is loaded: a row for every row in memory, with what it was stored as.\<close>

lemma load_saved:
  assumes d: "durable b ov" and r: "rows_ok ov"
  obtains es where "journal_load (journal ov) = Inr es" and "sorted_wrt (<) (map e_path es)" and "list_all entry_ok es"
    and "\<And>x. x \<notin> e_path ` set es \<Longrightarrow> bt_get (entries ov) x = None"
    and "\<And>e0. e0 \<in> set es \<Longrightarrow> \<exists>e. bt_get (entries ov) (e_path e0) = Some e \<and> lag e0 e"
    and "j_rows (journal ov) = map (\<lambda>e. (e_path e, row_of e)) es"
proof -
  let ?rs = "j_rows (journal ov)"
  have ok: "bt_ok ?rs" and st: "\<And>x. stored_as (bt_get ?rs x) (bt_get (entries ov) x)"
    using durableD(2) [OF d] by (simp_all add: saved_def)
  have row: "\<exists>e e0. bt_get (entries ov) p = Some e \<and> r = row_of e0 \<and> entry_ok e0 \<and> lag e0 e \<and> e_path e0 = p"
    if "(p, r) \<in> set ?rs" for p r
  proof -
    have "bt_get ?rs p = Some r" using that bt_get_iff_mem [OF ok] by simp
    then obtain e e0 where e: "bt_get (entries ov) p = Some e" "r = row_of e0" "entry_ok e0" "lag e0 e"
      using st [of p] by (auto simp: stored_as_def split: option.splits)
    have "e_path e = p" using e(1) r by (auto simp: rows_ok_def dest: keyedD)
    moreover have "e_path e0 = e_path e"
      by (rule lagD [OF e(4)])
    ultimately show ?thesis using e by blast
  qed
  then obtain es where es: "journal_decode ?rs = Inr es" "map e_path es = map fst ?rs" "map row_of es = map snd ?rs" "list_all entry_ok es"
    using journal_decode_rows [of ?rs] by blast
  have rs: "?rs = map (\<lambda>e. (e_path e, row_of e)) es"
    using zip_map_fst_snd [of ?rs] by (simp add: es(2,3) [symmetric] zip_map_map zip_same_conv_map o_def)
  show thesis
  proof (rule that)
    show "journal_load (journal ov) = Inr es" by (simp add: journal_load_def es(1))
    show "sorted_wrt (<) (map e_path es)" using ok by (simp add: es(2) bt_ok_def)
    show "bt_get (entries ov) x = None" if "x \<notin> e_path ` set es" for x
    proof -
      have "x \<notin> set (map fst ?rs)" using that es(2) by (metis set_map)
      then have "bt_get ?rs x = None" by (simp add: map_of_eq_None_iff)
      then show ?thesis using st [of x] by (auto simp: stored_as_def split: option.splits)
    qed
    show "\<exists>e. bt_get (entries ov) (e_path e0) = Some e \<and> lag e0 e" if e0: "e0 \<in> set es" for e0
    proof -
      have "(e_path e0, row_of e0) \<in> set ?rs"
        using e0 by (subst rs) simp
      then obtain e e1 where e: "bt_get (entries ov) (e_path e0) = Some e" "row_of e0 = row_of e1" "entry_ok e1" "lag e1 e"
        using row by blast
      moreover have "entry_ok e0" using es(4) e0 by (simp add: list_all_iff)
      ultimately have "e0 = e1" using row_codec.enc_eq_iff by blast
      then show ?thesis using e by blast
    qed
  qed (rule es(4) rs)+
qed

section \<open>What the loop does to a row\<close>

definition stored_file :: "(nat, bytes) btree \<Rightarrow> overlay_entry \<Rightarrow> bytes option" where
  "stored_file F e = (case local_id (e_content e) of None \<Rightarrow> None | Some i \<Rightarrow> bt_get F i)"

definition recovered :: "(nat, bytes) btree \<Rightarrow> overlay_entry \<Rightarrow> overlay_entry \<Rightarrow> bool" where
  "recovered F e e' \<longleftrightarrow> entry_ok e' \<and> (stored_file F e = None \<longrightarrow> e' = e)
     \<and> (\<forall>bs. stored_file F e = Some bs \<longrightarrow>
          e' = e\<lparr>e_size := length bs, e_mtime := e_mtime e', e_ctime := e_ctime e'\<rparr>)"

lemma recovered_path: "recovered F e e' \<Longrightarrow> e_path e' = e_path e \<and> e_content e' = e_content e"
proof (cases "stored_file F e")
  case (Some bs)
  assume "recovered F e e'"
  then have "e' = e\<lparr>e_size := length bs, e_mtime := e_mtime e', e_ctime := e_ctime e'\<rparr>" using Some by (simp add: recovered_def)
  then obtain m c where "e' = e\<lparr>e_size := length bs, e_mtime := m, e_ctime := c\<rparr>" by blast
  then show ?thesis by simp
qed (simp add: recovered_def)

lemma clamp_tick: "tick_ok t \<Longrightarrow> tick_ok (clamp_requested_overlay_time t s)"
  by (simp add: clamp_requested_overlay_time_def max_def)

lemma recovered_refl:
  assumes "entry_ok e" and "\<And>bs. stored_file F e = Some bs \<Longrightarrow> length bs = e_size e"
  shows "recovered F e e"
  unfolding recovered_def by (intro conjI allI impI refl assms(1)) (simp add: assms(2))

lemma recovered_update:
  assumes "stored_file F e = Some bs" and "entry_ok (e\<lparr>e_size := length bs, e_mtime := m, e_ctime := c\<rparr>)"
  shows "recovered F e (e\<lparr>e_size := length bs, e_mtime := m, e_ctime := c\<rparr>)"
  unfolding recovered_def by (intro conjI allI impI assms(2)) (simp_all add: assms(1))

lemma recover_row_some:
  assumes "local_id (e_content e) = Some i" and "bt_get F i = Some bs"
    and ft: "ft = (case modified i of None \<Rightarrow> e_mtime e | Some t \<Rightarrow> clamp_requested_overlay_time t snap0)"
    and now: "now = overlay_time (wall0 (rc_reads rc)) snap0 (Some (rc_clock rc))"
  shows "recover_row modified snap0 wall0 F e rc =
    (if length bs \<noteq> e_size e \<or> ft > e_mtime e
     then (e\<lparr>e_size := length bs, e_mtime := max (e_mtime e) ft, e_ctime := now\<rparr>,
           rc\<lparr>rc_clock := now, rc_reads := rc_reads rc + 1, rc_bytes := rc_bytes rc + length bs,
              rc_corrections := rc_corrections rc
                @ [Put (e\<lparr>e_size := length bs, e_mtime := max (e_mtime e) ft, e_ctime := now\<rparr>)]\<rparr>)
     else (e, rc\<lparr>rc_bytes := rc_bytes rc + length bs\<rparr>))"
  by (simp add: recover_row_def assms(1,2) ft [symmetric] now [symmetric] Let_def)

lemma recover_row_spec:
  assumes r: "recover_row modified snap0 wall0 F e rc = (e', rc')" and e: "entry_ok e"
    and mt: "\<And>i t. modified i = Some t \<Longrightarrow> tick_ok t" and wt: "\<And>n. tick_ok (wall0 n)"
    and small: "\<And>i bs. bt_get F i = Some bs \<Longrightarrow> length bs < 2 ^ 64"
  shows "recovered F e e' \<and> rc_corrections rc' = rc_corrections rc @ (if e' = e then [] else [Put e'])"
proof (cases "stored_file F e")
  case None
  then have "e' = e" "rc' = rc" using r by (auto simp: recover_row_def stored_file_def split: option.splits)
  then show ?thesis using None recovered_refl [OF e, of F] by simp
next
  case (Some bs)
  then obtain i where i: "local_id (e_content e) = Some i" "bt_get F i = Some bs"
    by (auto simp: stored_file_def split: option.splits)
  define ft where "ft = (case modified i of None \<Rightarrow> e_mtime e | Some t \<Rightarrow> clamp_requested_overlay_time t snap0)"
  define now where "now = overlay_time (wall0 (rc_reads rc)) snap0 (Some (rc_clock rc))"
  have ft: "tick_ok ft" using e mt clamp_tick by (auto simp: ft_def entry_ok_def tick_ok_def split: option.splits)
  have now: "tick_ok now" using wt overlay_time_tick by (simp add: now_def)
  note eq = recover_row_some [where ft = ft and now = now and modified = modified and rc = rc and ?wall0.0 = wall0, OF i ft_def now_def]
  show ?thesis
  proof (cases "length bs \<noteq> e_size e \<or> ft > e_mtime e")
    case True
    let ?e = "e\<lparr>e_size := length bs, e_mtime := max (e_mtime e) ft, e_ctime := now\<rparr>"
    have e': "e' = ?e" and c: "rc_corrections rc' = rc_corrections rc @ [Put ?e]"
      using r [unfolded eq if_P [OF True]] by auto
    have "e_size ?e \<noteq> e_size e \<or> e_mtime ?e \<noteq> e_mtime e" using True by (auto simp: max_def)
    then have "?e \<noteq> e" by metis
    moreover have "entry_ok ?e"
      using e small [OF i(2)] ft now by (simp add: entry_ok_def tick_ok_def max_def)
    ultimately show ?thesis using c e' recovered_update [OF Some] by simp
  next
    case False
    then have "e' = e" "rc_corrections rc' = rc_corrections rc" using r [unfolded eq if_not_P [OF False]] by auto
    then show ?thesis using False Some recovered_refl [OF e, of F] by simp
  qed
qed

lemma recover_rows_spec:
  assumes "recover_rows modified snap0 wall0 F es rc = (es', rc')" and "list_all entry_ok es"
    and "\<And>i t. modified i = Some t \<Longrightarrow> tick_ok t" "\<And>n. tick_ok (wall0 n)" "\<And>i bs. bt_get F i = Some bs \<Longrightarrow> length bs < 2 ^ 64"
  shows "list_all2 (recovered F) es es' \<and>
    rc_corrections rc' = rc_corrections rc @ map (\<lambda>(e, e'). Put e') (filter (\<lambda>(e, e'). e' \<noteq> e) (zip es es'))"
  using assms(1,2)
proof (induction es arbitrary: es' rc rc')
  case (Cons e es)
  obtain e1 rc1 where r: "recover_row modified snap0 wall0 F e rc = (e1, rc1)" by force
  obtain es1 rc2 where rs: "recover_rows modified snap0 wall0 F es rc1 = (es1, rc2)" by force
  have "es' = e1 # es1" "rc' = rc2" using Cons.prems r rs by simp_all
  then show ?case
    using Cons.IH [OF rs] recover_row_spec [OF r _ assms(3-5)] Cons.prems(2) by simp
qed simp

section \<open>The rebuilt indexes\<close>

lemma entries_fold_put:
  "entries (fold (apply_change s) (map Put es) ov) = fold (\<lambda>e. bt_insert (e_path e) e) es (entries ov)"
  by (induction es arbitrary: ov) (simp_all add: apply_change.simps Let_def)

lemma children_fold_put:
  "children (fold (apply_change s) (map Put es) ov) = fold (\<lambda>e. child_add (entry_parent e) (entry_name e)) es (children ov)"
  by (induction es arbitrary: ov) (simp_all add: apply_change.simps Let_def)

lemma rebuilt_rows:
  "bt_get (fold (\<lambda>e. bt_insert (e_path e) e) es m) x = (case List.find (\<lambda>e. e_path e = x) (rev es) of None \<Rightarrow> bt_get m x | Some e \<Rightarrow> Some e)"
  by (induction es arbitrary: m rule: rev_induct) auto

lemma find_key: "distinct (map f xs) \<Longrightarrow> x \<in> set xs \<Longrightarrow> List.find (\<lambda>y. f y = f x) xs = Some x"
  by (induction xs) auto

lemma rebuilt_distinct:
  assumes "distinct (map e_path es)"
  shows "e \<in> set es \<Longrightarrow> bt_get (fold (\<lambda>e. bt_insert (e_path e) e) es []) (e_path e) = Some e"
    and "x \<notin> e_path ` set es \<Longrightarrow> bt_get (fold (\<lambda>e. bt_insert (e_path e) e) es []) x = None"
proof -
  have "distinct (map e_path (rev es))" using assms by (simp add: rev_map [symmetric])
  then show "e \<in> set es \<Longrightarrow> bt_get (fold (\<lambda>e. bt_insert (e_path e) e) es []) (e_path e) = Some e"
    using find_key [of e_path "rev es" e] by (simp add: rebuilt_rows)
  show "bt_get (fold (\<lambda>e. bt_insert (e_path e) e) es []) x = None" if "x \<notin> e_path ` set es"
  proof -
    have "List.find (\<lambda>e. e_path e = x) (rev es) = None" using that by (auto simp: find_None_iff)
    then show ?thesis by (simp add: rebuilt_rows)
  qed
qed

lemma rebuilt_rows_ok:
  assumes "entries ov = fold (\<lambda>e. bt_insert (e_path e) e) es []"
    and "children ov = fold (\<lambda>e. child_add (entry_parent e) (entry_name e)) es []"
    and "\<forall>e \<in> set es. good_path (e_path e)"
  shows "rows_ok ov"
proof -
  let ?ov = "ov\<lparr>entries := [], children := []\<rparr>"
  have "rows_ok ?ov" by (simp add: rows_ok_def keyed_def kids_ok_def kids_def)
  then have "rows_ok (fold (apply_change False) (map Put es) ?ov)" by (rule rows_ok_fold) (use assms(3) in auto)
  moreover have "rows_ok (fold (apply_change False) (map Put es) ?ov) \<longleftrightarrow> rows_ok ov"
    by (rule rows_ok_cong) (simp_all add: entries_fold_put children_fold_put assms)
  ultimately show ?thesis by simp
qed

section \<open>Recovery\<close>

lemma bt_get_filter: "bt_get (filter (\<lambda>(i, bs). i \<in> S) F) i = (if i \<in> S then bt_get F i else None)"
  by (induction F) auto

lemma journal_bind_same: "j_binding J = Some b \<Longrightarrow> journal_bind b J = Inr J"
  by (simp add: journal_bind_def)

text \<open>The part of the opened state a reader can see, with the loop's result named.\<close>

lemma overlay_open_eq:
  assumes "j_binding J = Some b" and "journal_load J = Inr loaded"
    and "content_sweep (set (List.map_filter (\<lambda>e. local_id (e_content e)) loaded)) F = (report, F1)"
    and "recover_rows modified snap0 wall0 F1 loaded
      \<lparr>rc_clock = load_clock snap0 loaded (j_root_times J), rc_reads = 0, rc_bytes = 0, rc_corrections = []\<rparr> = (es, rc)"
  obtains ov' where "overlay_open b snap0 quota mr modified wall0 J F = Inr (report, ov')"
    and "entries ov' = fold (\<lambda>e. bt_insert (e_path e) e) es []"
    and "children ov' = fold (\<lambda>e. child_add (entry_parent e) (entry_name e)) es []"
    and "files ov' = F1" and "next_content_id ov' = max (j_next_content_id J) 1" and "next_ino ov' = max (j_next_ino J) OVERLAY_INO_BASE"
    and "vanished ov' = j_vanished J" and "vanished_overflow ov' = j_overflow J" and "root_times ov' = j_root_times J"
    and "wall ov' = wall0" and "snap ov' = snap0" and "clock ov' = rc_clock rc"
    and "journal ov' = (let J2 = J\<lparr>j_instance_id := (j_instance_id J + 1) mod 2 ^ 64\<rparr> in
       if rc_corrections rc = [] then J2
       else journal_apply (rc_corrections rc) (VanishedDelta [] []) (j_overflow J) (max (j_next_ino J) OVERLAY_INO_BASE)
              (max (j_next_content_id J) 1) None J2)"
proof -
  have "\<exists>ov'. overlay_open b snap0 quota mr modified wall0 J F = Inr (report, ov')"
    using assms by (simp add: overlay_open_def journal_bind_same Let_def)
  then obtain ov' where ov': "overlay_open b snap0 quota mr modified wall0 J F = Inr (report, ov')" by blast
  note u = ov' [unfolded overlay_open_def journal_bind_same [OF assms(1)] sum.case assms(2) Let_def assms(3) prod.case]
  note v = u [simplified, unfolded assms(4) prod.case, simplified]
  show thesis by (rule that [OF ov']) (use v in \<open>auto simp: Let_def\<close>)
qed

lemma find_changed:
  assumes "list_all2 (recovered F) es es'" and "distinct (map e_path es)"
    and "cs = map (\<lambda>(e, e'). Put e') (filter (\<lambda>(e, e'). e' \<noteq> e) (zip es es'))" and "(e, e') \<in> set (zip es es')"
  shows "List.find (\<lambda>c. change_key c = e_path e) (rev cs) = (if e' = e then None else Some (Put e'))"
proof -
  have len: "length es = length es'" and rec: "\<And>d d'. (d, d') \<in> set (zip es es') \<Longrightarrow> recovered F d d'"
    using assms(1) by (auto simp: list_all2_iff)
  have "distinct (map (e_path \<circ> fst) (zip es es'))" using assms(2) len by (simp flip: map_map)
  then have inj: "inj_on (e_path \<circ> fst) (set (zip es es'))" by (simp add: distinct_map)
  have key: "d = e \<and> d' = e'" if "(d, d') \<in> set (zip es es')" "e_path d' = e_path e" for d d'
    using inj_onD [OF inj _ that(1) assms(4)] that recovered_path [OF rec [OF that(1)]] by simp
  have cs: "c \<in> set cs \<longleftrightarrow> (\<exists>d d'. c = Put d' \<and> (d, d') \<in> set (zip es es') \<and> d' \<noteq> d)" for c using assms(3) by force
  show ?thesis
  proof (cases "List.find (\<lambda>c. change_key c = e_path e) (rev cs)")
    case None
    then have "Put e' \<notin> set cs" using recovered_path [OF rec [OF assms(4)]] by (auto simp: find_None_iff)
    then have "e' = e" using cs assms(4) by blast
    then show ?thesis using None by simp
  next
    case (Some c)
    then have "c \<in> set cs" and k: "change_key c = e_path e" by (auto simp: find_Some_iff) (metis nth_mem length_rev set_rev)
    then obtain d d' where d: "c = Put d'" "(d, d') \<in> set (zip es es')" "d' \<noteq> d" using cs by blast
    then show ?thesis using key [OF d(2)] k Some by simp
  qed
qed

text \<open>The rebuilt map holds, at each loaded path, the recovered row.\<close>

lemma rebuilt_get:
  assumes rec: "list_all2 (recovered F) es es'" and d: "distinct (map e_path es)"
  shows "x \<notin> e_path ` set es \<Longrightarrow> bt_get (fold (\<lambda>e. bt_insert (e_path e) e) es' []) x = None"
    and "(e, e') \<in> set (zip es es') \<Longrightarrow> bt_get (fold (\<lambda>e. bt_insert (e_path e) e) es' []) (e_path e) = Some e'"
proof -
  have m: "map e_path es' = map e_path es"
    using rec by (induction rule: list_all2_induct) (auto dest: recovered_path)
  then have d': "distinct (map e_path es')" and set_m: "e_path ` set es' = e_path ` set es"
    using d by (simp, metis list.set_map)
  show "bt_get (fold (\<lambda>e. bt_insert (e_path e) e) es' []) x = None" if "x \<notin> e_path ` set es"
    using rebuilt_distinct(2) [OF d'] that set_m by simp
  show "bt_get (fold (\<lambda>e. bt_insert (e_path e) e) es' []) (e_path e) = Some e'" if p: "(e, e') \<in> set (zip es es')"
  proof -
    have "e_path e' = e_path e" using rec p recovered_path by (auto simp: list_all2_iff)
    then show ?thesis using rebuilt_distinct(1) [OF d' set_zip_rightD [OF p]] by simp
  qed
qed

text \<open>The journal after the corrections holds exactly the recovered rows.\<close>

lemma corrected_rows:
  assumes rec: "list_all2 (recovered F) es es'" and d: "distinct (map e_path es)" and ok: "bt_ok rs"
    and rs: "\<And>x. x \<notin> e_path ` set es \<Longrightarrow> bt_get rs x = None" "\<And>e. e \<in> set es \<Longrightarrow> bt_get rs (e_path e) = Some (row_of e)"
    and cs: "cs = map (\<lambda>(e, e'). Put e') (filter (\<lambda>(e, e'). e' \<noteq> e) (zip es es'))"
  shows "bt_get (fold journal_change cs rs) x = map_option row_of (bt_get (fold (\<lambda>e. bt_insert (e_path e) e) es' []) x)"
proof (cases "x \<in> e_path ` set es")
  case True
  then obtain e where e: "e \<in> set es" "e_path e = x" by blast
  have "length es = length es'" using rec by (simp add: list_all2_iff)
  then obtain e' where p: "(e, e') \<in> set (zip es es')" using e(1) by (metis in_set_impl_in_set_zip1)
  then show ?thesis
    using journal_rows_fold [OF ok, of cs x] find_changed [OF rec d cs p] rebuilt_get(2) [OF rec d p] rs(2) [OF e(1)] e(2) by auto
next
  case False
  have "\<forall>c \<in> set cs. change_key c \<in> e_path ` set es"
    using rec cs recovered_path by (fastforce simp: list_all2_iff dest: set_zip_leftD)
  then have "List.find (\<lambda>c. change_key c = x) (rev cs) = None" using False by (auto simp: find_None_iff)
  then show ?thesis using journal_rows_fold [OF ok, of cs x] rebuilt_get(1) [OF rec d False] rs(1) [OF False] by simp
qed

text \<open>The rows in memory and the rows the loop leaves differ in their times only.\<close>

lemma recovered_same:
  assumes lag: "lag e0 e" and rec: "recovered F e0 e'" and ok: "row_ok D t G nid x e"
    and F: "\<And>i. e_content e = CLocal i \<Longrightarrow> bt_get F i = G i"
  shows "same_row e e'"
proof (cases "local_id (e_content e)")
  case None
  then have "e0 = e" using lag by (simp add: lag_def)
  then have "e' = e" using None rec by (simp add: recovered_def stored_file_def)
  then show ?thesis by (simp add: same_row_def)
next
  case (Some i)
  then have c: "e_content e = CLocal i" by (simp add: local_id_iff)
  then obtain bs where bs: "G i = Some bs" "length bs = e_size e" using ok by (auto simp: row_ok_def)
  have "stored_file F e0 = Some bs" using F [OF c] bs(1) Some lagD(2) [OF lag] by (simp add: stored_file_def)
  then have "e' = e0\<lparr>e_size := e_size e, e_mtime := e_mtime e', e_ctime := e_ctime e'\<rparr>" using rec bs(2) by (simp add: recovered_def)
  moreover obtain sz m k where "e0 = e\<lparr>e_size := sz, e_mtime := m, e_ctime := k\<rparr>" using lag_eq [OF lag] by blast
  ultimately obtain m' k' where "e' = e\<lparr>e_size := e_size e, e_mtime := m', e_ctime := k'\<rparr>" by auto
  then show ?thesis by (simp add: same_row_def)
qed

text \<open>What survives a crash: everything but the clock.\<close>

definition survives :: "digests \<Rightarrow> base_tree \<Rightarrow> overlay \<Rightarrow> overlay \<Rightarrow> bool" where
  "survives D t ov ov' \<longleftrightarrow> lookup D t ov' = lookup D t ov \<and> same_rows (bt_get (entries ov)) (bt_get (entries ov'))
     \<and> vanished ov' = vanished ov \<and> vanished_overflow ov' = vanished_overflow ov \<and> root_times ov' = root_times ov"

text \<open>The files a process can leave: at least the file of every row, whatever else is there.\<close>

definition left_over :: "overlay \<Rightarrow> (nat, bytes) btree \<Rightarrow> bool" where
  "left_over ov F \<longleftrightarrow>
     (\<forall>(x, e) \<in> set (entries ov). case local_id (e_content e) of None \<Rightarrow> True | Some i \<Rightarrow> bt_get F i = bt_get (files ov) i)
     \<and> (\<forall>(i, bs) \<in> set F. length bs < 2 ^ 64)"

lemma left_overD:
  assumes "left_over ov F"
  shows "bt_get (entries ov) x = Some e \<Longrightarrow> e_content e = CLocal i \<Longrightarrow> bt_get F i = bt_get (files ov) i"
    and "bt_get F i = Some bs \<Longrightarrow> length bs < 2 ^ 64"
  using assms by (auto simp: left_over_def dest!: map_of_SomeD)

lemma distinct_path_map:
  assumes "distinct (map e_path es)"
  shows "x \<notin> e_path ` set es \<Longrightarrow> bt_get (map (\<lambda>e. (e_path e, row_of e)) es) x = None"
    and "e \<in> set es \<Longrightarrow> bt_get (map (\<lambda>e. (e_path e, row_of e)) es) (e_path e) = Some (row_of e)"
  using assms by (induction es) (auto simp: image_iff)

lemma opened_durable:
  assumes d: "durable b ov" and wall': "wall ov' = wall0" "\<And>n. tick_ok (wall0 n)"
    and J: "journal ov' = (if cs = [] then J2 else journal_apply cs (VanishedDelta [] []) (j_overflow (journal ov)) nino ncid None J2)"
    and J2: "J2 = (journal ov)\<lparr>j_instance_id := k\<rparr>"
    and n: "ncid = next_content_id ov'" "j_next_content_id (journal ov) \<le> ncid" "nino = next_ino ov'" "j_next_ino (journal ov) \<le> nino"
    and v: "vanished ov' = vanished ov" "vanished_overflow ov' = vanished_overflow ov" "root_times ov' = root_times ov"
    and rows: "\<And>x. bt_get (fold journal_change cs (j_rows (journal ov))) x = map_option row_of (bt_get (entries ov') x)"
    and ent: "\<And>x e. bt_get (entries ov') x = Some e \<Longrightarrow> fits (j_next_content_id (journal ov)) e"
  shows "durable b ov'"
proof -
  note s = durableD(2) [OF d, unfolded saved_def]
  have r: "j_rows (journal ov') = fold journal_change cs (j_rows (journal ov))"
    by (cases "cs = []") (simp_all add: J J2 journal_apply_def)
  have "stored_as (map_option row_of v) v" if "\<And>e. v = Some e \<Longrightarrow> entry_ok e" for v
    using that by (auto simp: stored_as_def lag_def split: option.splits)
  then have "stored_as (bt_get (j_rows (journal ov')) x) (bt_get (entries ov') x)" for x
    unfolding r rows using ent by (simp add: fits_def)
  moreover have "bt_ok (j_rows (journal ov'))" using s journal_rows_fold [of "j_rows (journal ov)" cs] by (simp add: r)
  moreover have "j_next_content_id (journal ov) \<le> j_next_content_id (journal ov')" using n by (simp add: J J2 journal_apply_def)
  moreover have "j_vanished (journal ov') = vanished ov' \<and> j_overflow (journal ov') = vanished_overflow ov'
      \<and> j_root_times (journal ov') = root_times ov' \<and> (vanished_overflow ov' \<longrightarrow> vanished ov' = {})
      \<and> j_next_ino (journal ov') \<le> next_ino ov' \<and> j_next_content_id (journal ov') \<le> next_content_id ov'"
    using s n v by (auto simp: J J2 journal_apply_def)
  moreover have "fits (j_next_content_id (journal ov')) e" if "bt_get (entries ov') x = Some e" for x e
    using ent [OF that] calculation(3) by (rule fits_mono)
  ultimately show ?thesis using wall' durableD(3) [OF d] by (simp add: durable_def saved_def clock_fits_def J J2 journal_apply_def)
qed

definition loads :: "overlay \<Rightarrow> overlay_entry list \<Rightarrow> bool" where
  "loads ov es \<longleftrightarrow> journal_load (journal ov) = Inr es \<and> distinct (map e_path es) \<and> list_all entry_ok es
     \<and> (\<forall>x. x \<notin> e_path ` set es \<longrightarrow> bt_get (entries ov) x = None)
     \<and> (\<forall>e0 \<in> set es. \<exists>e. bt_get (entries ov) (e_path e0) = Some e \<and> lag e0 e)
     \<and> j_rows (journal ov) = map (\<lambda>e. (e_path e, row_of e)) es"

lemma loads_exist:
  assumes "durable b ov" and "rows_ok ov"
  shows "\<exists>es. loads ov es"
proof (rule load_saved [OF assms])
  fix es
  assume es: "journal_load (journal ov) = Inr es" "sorted_wrt (<) (map e_path es)" "list_all entry_ok es"
    and out: "\<And>x. x \<notin> e_path ` set es \<Longrightarrow> bt_get (entries ov) x = None"
    and mem: "\<And>e0. e0 \<in> set es \<Longrightarrow> \<exists>e. bt_get (entries ov) (e_path e0) = Some e \<and> lag e0 e"
    and rows: "j_rows (journal ov) = map (\<lambda>e. (e_path e, row_of e)) es"
  have "distinct (map e_path es)" using es(2) strict_sorted_iff by blast
  then have "loads ov es" unfolding loads_def using es(1,3) out mem rows by blast
  then show ?thesis by blast
qed

lemma loadsD:
  assumes "loads ov es"
  shows "journal_load (journal ov) = Inr es" "distinct (map e_path es)" "list_all entry_ok es"
    "x \<notin> e_path ` set es \<Longrightarrow> bt_get (entries ov) x = None"
    "e0 \<in> set es \<Longrightarrow> \<exists>e. bt_get (entries ov) (e_path e0) = Some e \<and> lag e0 e"
    "j_rows (journal ov) = map (\<lambda>e. (e_path e, row_of e)) es"
  using assms by (simp_all add: loads_def)

text \<open>The ids the loaded rows refer to are those of the rows in memory.\<close>

lemma referenced_ids:
  assumes ld: "loads ov es"
  shows "i \<in> set (List.map_filter (\<lambda>e. local_id (e_content e)) es) \<longleftrightarrow>
    (\<exists>x e. bt_get (entries ov) x = Some e \<and> e_content e = CLocal i)"
proof -
  have "i \<in> set (List.map_filter (\<lambda>e. local_id (e_content e)) es) \<longleftrightarrow> (\<exists>e0 \<in> set es. local_id (e_content e0) = Some i)"
    by (force simp: List.map_filter_def)
  also have "\<dots> \<longleftrightarrow> (\<exists>x e. bt_get (entries ov) x = Some e \<and> e_content e = CLocal i)"
  proof
    assume "\<exists>e0 \<in> set es. local_id (e_content e0) = Some i"
    then obtain e0 where e0: "e0 \<in> set es" "local_id (e_content e0) = Some i" by blast
    obtain e where e: "bt_get (entries ov) (e_path e0) = Some e" "lag e0 e" using loadsD(5) [OF ld e0(1)] by blast
    have "e_content e = CLocal i" using e0(2) lagD(2) [OF e(2)] by (simp add: local_id_iff)
    then show "\<exists>x e. bt_get (entries ov) x = Some e \<and> e_content e = CLocal i" using e(1) by blast
  next
    assume "\<exists>x e. bt_get (entries ov) x = Some e \<and> e_content e = CLocal i"
    then obtain x e where e: "bt_get (entries ov) x = Some e" "e_content e = CLocal i" by blast
    have "x \<in> e_path ` set es" using e(1) loadsD(4) [OF ld, of x] by fastforce
    then obtain e0 where e0: "e0 \<in> set es" "e_path e0 = x" by blast
    then have "local_id (e_content e0) = Some i" using loadsD(5) [OF ld e0(1)] e lagD(2) by fastforce
    then show "\<exists>e0 \<in> set es. local_id (e_content e0) = Some i" using e0(1) by blast
  qed
  finally show ?thesis .
qed

text \<open>The sweep keeps the file of every row and nothing else, and misses none.\<close>

lemma sweep_rows:
  assumes ld: "loads ov es" and ok: "overlay_ok D t ov" and F: "left_over ov F"
    and sw: "content_sweep (set (List.map_filter (\<lambda>e. local_id (e_content e)) es)) F = (rep, F1)"
  shows "missing_content rep = []"
    and "bt_get (entries ov) x = Some e \<Longrightarrow> e_content e = CLocal i \<Longrightarrow> bt_get F1 i = bt_get (files ov) i"
    and "bt_get F1 i \<noteq> None \<Longrightarrow> \<exists>x e. bt_get (entries ov) x = Some e \<and> e_content e = CLocal i"
    and "bt_get F1 i = Some bs \<Longrightarrow> length bs < 2 ^ 64"
proof -
  define ref where "ref = set (List.map_filter (\<lambda>e. local_id (e_content e)) es)"
  have ref: "i \<in> ref \<longleftrightarrow> (\<exists>x e. bt_get (entries ov) x = Some e \<and> e_content e = CLocal i)" for i
    unfolding ref_def by (rule referenced_ids [OF ld])
  have F1: "F1 = filter (\<lambda>(i, bs). i \<in> ref) F" and miss: "missing_content rep = sorted_list_of_set (ref - fst ` set F)"
    using sw unfolding ref_def [symmetric] by (auto simp: content_sweep_def Let_def)
  have disk: "bt_get F i = bt_get (files ov) i" "bt_get F i \<noteq> None" if e: "bt_get (entries ov) x = Some e" "e_content e = CLocal i" for x e i
  proof -
    have "row_ok D t (bt_get (files ov)) (next_content_id ov) x e" using ok e(1) by (auto simp: overlay_ok_def dest: view_okD(1))
    then show "bt_get F i = bt_get (files ov) i" "bt_get F i \<noteq> None" using left_overD(1) [OF F e] e(2) by (auto simp: row_ok_def)
  qed
  have "ref \<subseteq> fst ` set F"
  proof
    fix i assume "i \<in> ref"
    then obtain x e where "bt_get (entries ov) x = Some e" "e_content e = CLocal i" using ref by blast
    from disk(2) [OF this] show "i \<in> fst ` set F" by (simp add: map_of_eq_None_iff)
  qed
  then show "missing_content rep = []" by (simp add: miss Diff_eq_empty_iff [THEN iffD2])
  show "bt_get F1 i = bt_get (files ov) i" if "bt_get (entries ov) x = Some e" "e_content e = CLocal i"
    using ref disk(1) [OF that] that unfolding F1 bt_get_filter by auto
  show "\<exists>x e. bt_get (entries ov) x = Some e \<and> e_content e = CLocal i" if "bt_get F1 i \<noteq> None"
    using that unfolding F1 bt_get_filter ref [of i, symmetric] by (simp split: if_splits)
  show "length bs < 2 ^ 64" if "bt_get F1 i = Some bs"
    using that left_overD(2) [OF F] by (simp add: F1 bt_get_filter split: if_splits)
qed

lemma recovered_rows:
  assumes ld: "loads ov es" and ok: "overlay_ok D t ov" and rec: "list_all2 (recovered F1) es es'"
    and F1: "\<And>x e i. bt_get (entries ov) x = Some e \<Longrightarrow> e_content e = CLocal i \<Longrightarrow> bt_get F1 i = bt_get (files ov) i"
    and R: "R = bt_get (fold (\<lambda>e. bt_insert (e_path e) e) es' [])"
  shows "same_rows (bt_get (entries ov)) R \<and> (\<forall>x e. R x = Some e \<longrightarrow> entry_ok e)"
proof -
  have "rel_option (\<lambda>e e'. same_row e e' \<and> entry_ok e') (bt_get (entries ov) x) (R x)" for x
  proof (cases "x \<in> e_path ` set es")
    case False
    then show ?thesis using loadsD(4) [OF ld False] rebuilt_get(1) [OF rec loadsD(2) [OF ld] False] by (simp add: R)
  next
    case True
    then obtain e0 where e0: "e0 \<in> set es" "e_path e0 = x" by blast
    have "length es = length es'" using rec by (simp add: list_all2_iff)
    then obtain e' where p: "(e0, e') \<in> set (zip es es')" using e0(1) by (metis in_set_impl_in_set_zip1)
    then have r: "recovered F1 e0 e'" using rec by (auto simp: list_all2_iff)
    obtain e where e: "bt_get (entries ov) (e_path e0) = Some e" "lag e0 e" using loadsD(5) [OF ld e0(1)] by blast
    have "row_ok D t (bt_get (files ov)) (next_content_id ov) (e_path e0) e" using ok e(1) by (auto simp: overlay_ok_def dest: view_okD(1))
    from recovered_same [OF e(2) r this F1 [OF e(1)]] have "same_row e e'" .
    moreover have "entry_ok e'" using r by (simp add: recovered_def)
    ultimately show ?thesis using e(1) e0(2) rebuilt_get(2) [OF rec loadsD(2) [OF ld] p] by (simp add: R)
  qed
  note * = this
  have "same_rows (bt_get (entries ov)) R"
    unfolding same_rows_def by (rule allI, rule option.rel_mono_strong [OF *]) simp
  moreover have "entry_ok e" if "R x = Some e" for x e using * [of x] that by (auto simp: option.rel_sel)
  ultimately show ?thesis by blast
qed

lemma reopen:
  assumes ok: "overlay_ok D t ov" and d: "durable b ov" and F: "left_over ov F"
    and mt: "\<And>i t. modified i = Some t \<Longrightarrow> tick_ok t" and wt: "\<And>n. tick_ok (wall0 n)"
  obtains rep ov' where "overlay_open b snap0 quota mr modified wall0 (journal ov) F = Inr (rep, ov')"
    and "missing_content rep = []" and "survives D t ov ov'" and "overlay_ok D t ov'" and "durable b ov'"
proof -
  have rows: "rows_ok ov" and view: "view_ok D t (bt_get (entries ov)) (bt_get (files ov)) (next_content_id ov)"
    using ok by (simp_all add: overlay_ok_def)
  note s = durableD(2) [OF d, unfolded saved_def]
  obtain loaded where ld: "loads ov loaded" using loads_exist [OF d rows] by blast
  obtain rep F1 where sw: "content_sweep (set (List.map_filter (\<lambda>e. local_id (e_content e)) loaded)) F = (rep, F1)" by force
  note swept = sweep_rows [OF ld ok F sw]
  obtain es rc where rr: "recover_rows modified snap0 wall0 F1 loaded
      \<lparr>rc_clock = load_clock snap0 loaded (j_root_times (journal ov)), rc_reads = 0, rc_bytes = 0, rc_corrections = []\<rparr> = (es, rc)" by force
  have rec: "list_all2 (recovered F1) loaded es"
    and cs: "rc_corrections rc = map (\<lambda>(e, e'). Put e') (filter (\<lambda>(e, e'). e' \<noteq> e) (zip loaded es))"
    using recover_rows_spec [OF rr loadsD(3) [OF ld] mt wt swept(4)] by simp_all
  obtain ov' where op: "overlay_open b snap0 quota mr modified wall0 (journal ov) F = Inr (rep, ov')"
    and o: "entries ov' = fold (\<lambda>e. bt_insert (e_path e) e) es []"
      "children ov' = fold (\<lambda>e. child_add (entry_parent e) (entry_name e)) es []"
      "files ov' = F1" "next_content_id ov' = max (j_next_content_id (journal ov)) 1" "next_ino ov' = max (j_next_ino (journal ov)) OVERLAY_INO_BASE"
      "vanished ov' = j_vanished (journal ov)" "vanished_overflow ov' = j_overflow (journal ov)" "root_times ov' = j_root_times (journal ov)"
      "wall ov' = wall0"
    and J: "journal ov' = (let J2 = (journal ov)\<lparr>j_instance_id := (j_instance_id (journal ov) + 1) mod 2 ^ 64\<rparr> in
       if rc_corrections rc = [] then J2
       else journal_apply (rc_corrections rc) (VanishedDelta [] []) (j_overflow (journal ov)) (max (j_next_ino (journal ov)) OVERLAY_INO_BASE)
              (max (j_next_content_id (journal ov)) 1) None J2)"
    by (rule overlay_open_eq [OF durableD(3) [OF d] loadsD(1) [OF ld] sw rr, of quota mr]) (rule that; assumption)
  have same: "same_rows (bt_get (entries ov)) (bt_get (entries ov'))" and fit: "\<And>x e. bt_get (entries ov') x = Some e \<Longrightarrow> entry_ok e"
    using recovered_rows [OF ld ok rec swept(2) refl] by (simp_all add: o(1))
  have ids: "i < j_next_content_id (journal ov)" if "bt_get (entries ov) x = Some e" "e_content e = CLocal i" for x e i
    using durableD(4) [OF d that(1)] that(2) by (simp add: fits_def)
  have "\<forall>x \<in> e_path ` set loaded. good_path x" using loadsD(5) [OF ld] rows keyedD by (fastforce simp: rows_ok_def)
  moreover have "map e_path es = map e_path loaded" using rec by (induction rule: list_all2_induct) (auto dest: recovered_path)
  ultimately have "\<forall>e \<in> set es. good_path (e_path e)" by (metis image_eqI list.set_map)
  then have "rows_ok ov'" by (rule rebuilt_rows_ok [OF o(1,2)])
  moreover have "view_ok D t (bt_get (entries ov')) (bt_get (files ov')) (next_content_id ov')"
  proof (rule same_rows_ok [OF same view])
    show "i < next_content_id ov'" if "bt_get (files ov') i \<noteq> None" for i
      using swept(3) [of i] that ids by (fastforce simp: o(3,4))
  qed (use swept(2) ids in \<open>auto simp: o(3,4) less_max_iff_disj\<close>)
  moreover have "lookup D t ov' = lookup D t ov"
    unfolding lookup_look by (rule same_rows_look [OF same]) (simp add: o(3) swept(2))
  then have "survives D t ov ov'" using s same o(6-8) by (simp add: survives_def)
  moreover have "durable b ov'"
  proof (rule opened_durable [OF d o(9) wt J [unfolded Let_def] refl])
    show "bt_get (fold journal_change (rc_corrections rc) (j_rows (journal ov))) x = map_option row_of (bt_get (entries ov') x)" for x
      unfolding o(1) by (rule corrected_rows [OF rec loadsD(2) [OF ld] _ _ _ cs])
        (use s distinct_path_map [OF loadsD(2) [OF ld]] in \<open>simp_all add: loadsD(6) [OF ld]\<close>)
    show "fits (j_next_content_id (journal ov)) e'" if e': "bt_get (entries ov') x = Some e'" for x e'
    proof -
      obtain e where "bt_get (entries ov) x = Some e" "same_row e e'" using e' by (cases rule: same_rows_cases [OF same, of x]) auto
      then show ?thesis using fit [OF e'] ids same_rowD(6) by (auto simp: fits_def)
    qed
  qed (use s in \<open>simp_all add: o\<close>)
  ultimately show thesis using that op swept(1) by (simp add: overlay_ok_def)
qed

end
