(* ===== verification/Gfs_Crash.thy ===== *)
theory Gfs_Crash
  imports Gfs_Recovery
begin

text \<open>
  Lives of an overlay. A process opens an empty directory, applies operations, and may die at any moment between
  two of the durable effects of an operation: before the first, after the copy-up a write begins with, after the
  content file of a truncation was resized and before its row is committed, after \<open>set_executable\<close> adopted its
  path and before the mode is committed, or after the last. Content files are published before the commit that
  names them and removed after the commit that drops them, so a death between a file and its commit leaves what a
  death at the commit leaves, with files no row refers to: \<open>left_over\<close> allows any such files. The next process
  opens what it finds, with whatever the host reports for clocks and file times.
\<close>

section \<open>The durable effects of an operation\<close>

text \<open>The database \<open>Journal::open\<close> creates.\<close>

definition blank_journal :: journal where
  "blank_journal = \<lparr>j_rows = [], j_vanished = {}, j_overflow = False, j_next_ino = 0, j_next_content_id = 0,
     j_root_times = None, j_instance_id = 0, j_binding = None\<rparr>"

text \<open>
  What is on disk after the first \<open>k\<close> durable effects of an operation, as the journal and the files of a state:
  the memory dies with the process. A truncation resizes the file in place and then commits, so before the commit
  the disk has the files of the finished operation and the journal of the copy-up.
\<close>

fun progress :: "digests \<Rightarrow> base_tree \<Rightarrow> op \<Rightarrow> nat \<Rightarrow> overlay \<Rightarrow> overlay" where
  "progress D t (Write p offset data) k ov =
     (if k = 0 then ov
      else if k = 1 then snd (h_materialize D t p (ino_for p) ov)
      else snd (apply_to_overlay D t (Write p offset data) ov))"
| "progress D t (Truncate p sz) k ov =
     (let mid = snd (h_materialize D t p (ino_for p) ov); fin = snd (apply_to_overlay D t (Truncate p sz) ov)
      in if k = 0 then ov else if k = 1 then mid else if k = 2 then mid\<lparr>files := files fin\<rparr> else fin)"
| "progress D t (SetExecutable p x) k ov =
     (if k = 0 then ov
      else if k = 1 then snd (adopt p (facts D t p) (ino_for p) ov)
      else snd (apply_to_overlay D t (SetExecutable p x) ov))"
| "progress D t x k ov = (if k = 0 then ov else snd (apply_to_overlay D t x ov))"

text \<open>The effect from which on a reader sees the operation done: the write, the resized file, the commit of the mode.\<close>

fun shown_at :: "op \<Rightarrow> nat" where
  "shown_at (Write p offset data) = 2"
| "shown_at (Truncate p sz) = 2"
| "shown_at (SetExecutable p x) = 2"
| "shown_at x = 1"

text \<open>
  The requests of a life: every argument and every outcome, but for the two requests that break the invariant
  (\<open>spoils\<close>) and for numbers that leave their 64 bits.
\<close>

definition sound :: "digests \<Rightarrow> base_tree \<Rightarrow> op \<Rightarrow> overlay \<Rightarrow> bool" where
  "sound D t x ov \<longleftrightarrow> in_range x \<and> op_fits x \<and> \<not> spoils D t x ov \<and> room (snd (apply_to_overlay D t x ov))"

text \<open>Every time the host can report has its nanoseconds in 32 bits.\<close>

definition times_fit :: "(nat \<Rightarrow> timestamp option) \<Rightarrow> (nat \<Rightarrow> timestamp) \<Rightarrow> bool" where
  "times_fit modified wall0 \<longleftrightarrow> (\<forall>i t. modified i = Some t \<longrightarrow> tick_ok t) \<and> (\<forall>n. tick_ok (wall0 n))"

declare times_fit_def [code del]

inductive lives :: "string \<times> string \<Rightarrow> digests \<Rightarrow> base_tree \<Rightarrow> overlay \<Rightarrow> bool" for b D t where
  born: "times_fit modified wall0 \<Longrightarrow> overlay_open b snap0 quota mr modified wall0 blank_journal [] = Inr (rep, ov)
    \<Longrightarrow> lives b D t ov"
| acts: "lives b D t ov \<Longrightarrow> sound D t x ov \<Longrightarrow> lives b D t (snd (apply_to_overlay D t x ov))"
| dies: "lives b D t ov \<Longrightarrow> sound D t x ov \<Longrightarrow> left_over (progress D t x k ov) F \<Longrightarrow> times_fit modified wall0
    \<Longrightarrow> overlay_open b snap0 quota mr modified wall0 (journal (progress D t x k ov)) F = Inr (rep, ov')
    \<Longrightarrow> lives b D t ov'"

section \<open>What is on disk is a good state\<close>

definition safe :: "string \<times> string \<Rightarrow> digests \<Rightarrow> base_tree \<Rightarrow> overlay \<Rightarrow> bool" where
  "safe b D t ov \<longleftrightarrow> base_ok D t \<and> base_fits D t \<and> overlay_ok D t ov \<and> durable b ov"

lemma safe_sim: "safe b D t ov \<Longrightarrow> sim D t ov (merged_view D t ov)"
  using merged_view_lookup by (simp add: safe_def sim_def)

lemma left_over_iff:
  assumes "bt_ok (entries ov)"
  shows "left_over ov F \<longleftrightarrow> (\<forall>x e i. bt_get (entries ov) x = Some e \<longrightarrow> e_content e = CLocal i \<longrightarrow> bt_get F i = bt_get (files ov) i)
    \<and> (\<forall>(i, bs) \<in> set F. length bs < 2 ^ 64)"
  using bt_get_iff_mem [OF assms] unfolding left_over_def
  by (auto simp: local_id_iff split: option.splits)

text \<open>\<open>ov\<close> has on disk what the state \<open>u\<close> has, and a reader of \<open>u\<close> sees what a reader of \<open>v\<close> sees.\<close>

definition stands_for :: "string \<times> string \<Rightarrow> digests \<Rightarrow> base_tree \<Rightarrow> overlay \<Rightarrow> overlay \<Rightarrow> overlay \<Rightarrow> bool" where
  "stands_for b D t v ov u \<longleftrightarrow> safe b D t u \<and> journal ov = journal u \<and> vanished ov = vanished u
     \<and> (\<forall>F. left_over ov F \<longrightarrow> left_over u F) \<and> lookup D t u = lookup D t v"

lemma stands_for_self: "safe b D t u \<Longrightarrow> lookup D t u = lookup D t v \<Longrightarrow> stands_for b D t v u u"
  by (simp add: stands_for_def)

lemma sim_same_view: "sim D t u m \<Longrightarrow> sim D t v m \<Longrightarrow> lookup D t u = lookup D t v"
  by (simp add: sim_def)

lemma step_safe:
  assumes s: "safe b D t ov" and x: "sound D t x ov"
  shows "safe b D t (snd (apply_to_overlay D t x ov))"
  using durable_step [of D t ov b x] invariant_exact [OF safe_sim [OF s]] s x
  by (simp add: safe_def sound_def)

lemma copy_up_safe:
  assumes s: "safe b D t ov" and room: "room (snd (h_materialize D t p (ino_for p) ov))"
  shows "safe b D t (snd (h_materialize D t p (ino_for p) ov))"
    and "lookup D t (snd (h_materialize D t p (ino_for p) ov)) = lookup D t ov"
proof -
  have base: "base_fits D t" and d: "durable b ov" using s by (simp_all add: safe_def)
  have "\<forall>q n. (q, n) \<in> set t \<longrightarrow> length (bn_content n) < 2 ^ 64" using base by (auto simp: base_fits_def)
  from h_materialize_durable [OF d this facts_fit [OF base] ino_for_fits room]
  have "durable b (snd (h_materialize D t p (ino_for p) ov))" .
  moreover have "sim D t (snd (h_materialize D t p (ino_for p) ov)) (merged_view D t ov)"
    using h_materialize_any [OF safe_sim [OF s], of p "ino_for p"] by (auto simp: materialized_def)
  ultimately show "safe b D t (snd (h_materialize D t p (ino_for p) ov))"
    and "lookup D t (snd (h_materialize D t p (ino_for p) ov)) = lookup D t ov"
    using s sim_same_view [OF _ safe_sim [OF s]] by (auto simp: safe_def dest: simD(2))
qed

lemma adopted_safe:
  assumes s: "safe b D t ov"
  shows "safe b D t (snd (adopt p (facts D t p) (ino_for p) ov))"
    and "lookup D t (snd (adopt p (facts D t p) (ino_for p) ov)) = lookup D t ov"
proof -
  have "sim D t (snd (adopt p (facts D t p) (ino_for p) ov)) (merged_view D t ov)"
  proof (cases "usable p")
    case True
    then have p: "p \<noteq> []" "path_condition p = Inr ()" by (simp_all add: usable_def)
    show ?thesis
    proof (cases "bt_get (merged_view D t ov) p")
      case None
      then show ?thesis using adopt_missing [OF safe_sim [OF s] p] safe_sim [OF s] by simp
    next
      case (Some n)
      from adopt_sim [OF safe_sim [OF s] p Some, of "ino_for p"] show ?thesis by (metis snd_conv)
    qed
  qed (use safe_sim [OF s] in \<open>auto simp: usable_def adopt_def split: sum.splits\<close>)
  moreover have "durable b (snd (adopt p (facts D t p) (ino_for p) ov))"
    using adopt_durable [of b ov "facts D t p" "ino_for p" p] s facts_fit ino_for_fits
    by (cases "adopt p (facts D t p) (ino_for p) ov") (simp add: safe_def)
  ultimately show "safe b D t (snd (adopt p (facts D t p) (ino_for p) ov))"
    and "lookup D t (snd (adopt p (facts D t p) (ino_for p) ov)) = lookup D t ov"
    using s sim_same_view [OF _ safe_sim [OF s]] by (auto simp: safe_def dest: simD(2))
qed


text \<open>
  Between the two effects of a truncation the disk has what a write leaves that only touched the row in memory:
  the file of the new length, and the row the copy-up committed.
\<close>

lemma truncate_cases:
  assumes mat: "materialized D t m p n ov0 ov" and n: "bt_get m p = Some n" "is_file (n_kind n)"
  obtains "outcome (Gfs_Overlay.truncate p sz ov) = (Inl QuotaExceeded, ov)"
  | e i bs where "bt_get (entries ov) p = Some e" "e_present e" "e_content e = CLocal i" "is_file (e_kind e)" "e_path e = p"
      "good_path p" "n = Node (e_kind e) bs" "fst (outcome (Gfs_Overlay.truncate p sz ov)) = Inr ()"
      "files (snd (outcome (Gfs_Overlay.truncate p sz ov))) = bt_insert i (resize sz bs) (files ov)"
proof -
  from mat obtain e i where sim: "sim D t ov m" and e: "bt_get (entries ov) p = Some e" "e_present e"
      "e_content e = CLocal i" "e_kind e = n_kind n"
    by (auto simp: materialized_def)
  note ok = simD(5) [OF sim]
  have row: "row_ok D t (bt_get (files ov)) (next_content_id ov) p e" by (rule view_okD(1) [OF ok e(1)])
  then obtain bs where bs: "bt_get (files ov) i = Some bs" and ep: "e_path e = p" "good_path p"
    using e(3) by (auto simp: row_ok_def)
  have c: "n_content n = bs"
    using present_row_look [OF ok e(1,2)] simD(4) [OF sim] n(1) e(3) bs(1) by (auto simp: lookup_look content_at_def)
  have nn: "n = Node (e_kind e) bs" using c e(4) by (cases n) simp
  have k: "\<not> is_dir (e_kind e)" "is_file (e_kind e)" using n(2) e(4) by (auto simp: is_file_def is_dir_def)
  have files_put: "files (commit_with [Put e'] [] rt st ov') = files ov'" for e' rt st ov'
    by (simp add: commit_with_def Let_def apply_change.simps)
  show thesis
  proof (cases "sz > e_size e \<and> over_quota ov (sz - e_size e)")
    case True
    then show ?thesis using e bs k by (intro that(1)) (simp add: Gfs_Overlay.truncate_def present_row_def outcome_def)
  next
    case False
    then have "fst (outcome (Gfs_Overlay.truncate p sz ov)) = Inr ()"
      "files (snd (outcome (Gfs_Overlay.truncate p sz ov))) = bt_insert i (resize sz bs) (files ov)"
      using e bs k by (auto simp: Gfs_Overlay.truncate_def present_row_def outcome_def next_time_def commit_def files_put
          resize_def Let_def)
    from that(2) [OF e(1-3) k(2) ep nn this] show ?thesis .
  qed
qed

lemma resized_stands:
  assumes s: "safe b D t ov" and x: "sound D t (Truncate p sz) ov"
    and fin: "fin = snd (apply_to_overlay D t (Truncate p sz) ov)" and mid: "mid = snd (h_materialize D t p (ino_for p) ov)"
    and smid: "safe b D t mid"
  shows "\<exists>u. stands_for b D t fin (mid\<lparr>files := files fin\<rparr>) u"
proof -
  note sim = safe_sim [OF s]
  consider c where "h_materialize D t p (ino_for p) ov = (Inl c, mid)"
    | n where "bt_get (merged_view D t ov) p = Some n" "is_file (n_kind n)" "h_materialize D t p (ino_for p) ov = (Inr (), mid)"
        "materialized D t (merged_view D t ov) p n ov mid"
    using h_materialize_any [OF sim, of p "ino_for p"] unfolding mid by auto
  then show ?thesis
  proof cases
    case 1
    then have "fin = mid" by (simp add: fin)
    then have "mid\<lparr>files := files fin\<rparr> = mid" by simp
    then show ?thesis using stands_for_self [OF smid] \<open>fin = mid\<close> by metis
  next
    case 2
    then have fin: "fin = snd (outcome (Gfs_Overlay.truncate p sz mid))" by (simp add: fin)
    show ?thesis
    proof (cases rule: truncate_cases [OF 2(4,1,2), of sz])
      case 1
      then have "fin = mid" by (simp add: fin)
      then have "mid\<lparr>files := files fin\<rparr> = mid" by simp
      then show ?thesis using stands_for_self [OF smid] \<open>fin = mid\<close> by metis
    next
      case (2 e i bs)
      let ?m = "merged_view D t ov"
      let ?w = "mid\<lparr>files := files fin\<rparr>"
      define u where "u = note_written e sz None ?w"
      have simm: "sim D t mid ?m" using \<open>materialized D t ?m p n ov mid\<close> by (simp add: materialized_def)
      have f: "files fin = bt_insert i (resize sz bs) (files mid)" using 2(9) by (simp add: fin)
      have "sim D t u (bt_insert p (Node (e_kind e) (resize sz bs)) ?m)"
      proof (rule sim_rewrite [OF simm 2(6) 2(1-4), where e' = "e\<lparr>e_size := sz,
            e_mtime := fst (next_time ?w), e_ctime := fst (next_time ?w)\<rparr>"])
        have "rows_ok ?w" using simD(3) [OF simm] by (rule rows_ok_fields) simp_all
        then show "rows_ok u" unfolding u_def using 2(1,5) by (intro rows_ok_note_written) simp_all
      qed (use 2 f in \<open>simp_all add: u_def note_written_fields resize_def\<close>)
      moreover have "sim D t fin (bt_insert p (Node (e_kind e) (resize sz bs)) ?m)"
        using truncate_sim [OF \<open>materialized D t ?m p n ov mid\<close> \<open>bt_get ?m p = Some n\<close> \<open>is_file (n_kind n)\<close>, of sz] 2(7,8)
        by (simp add: refines_def agrees_def fin)
      ultimately have view: "lookup D t u = lookup D t fin" "overlay_ok D t u" by (auto simp: sim_def)
      have "durable b ?w" using smid durable_quiet [OF _ quiet_files(2)] by (simp add: safe_def)
      then have "durable b u"
        unfolding u_def by (rule durable_note_written) (use 2(1,3,5) x in \<open>simp_all add: sound_def\<close>)
      then have "safe b D t u" using view(2) s by (simp add: safe_def)
      moreover have jv: "journal u = journal mid" "vanished u = vanished mid"
        by (simp_all add: u_def note_written_def next_time_def replace_in_memory_def Let_def)
      moreover have "left_over u F" if "left_over ?w F" for F
      proof -
        have ok: "bt_ok (entries u)" "bt_ok (entries ?w)" using view(2) smid by (auto simp: overlay_ok_def rows_ok_def safe_def)
        have "bt_get F j = bt_get (files u) j" if "bt_get (entries u) y = Some d" "e_content d = CLocal j" for y d j
        proof -
          have "\<exists>d'. bt_get (entries mid) y = Some d' \<and> e_content d' = CLocal j"
            using that 2(1,3,5) by (auto simp: u_def note_written_fields split: if_splits)
          then show ?thesis using \<open>left_over ?w F\<close> unfolding left_over_iff [OF ok(2)] by (auto simp: u_def note_written_fields)
        qed
        then show ?thesis using that unfolding left_over_iff [OF ok(1)] left_over_iff [OF ok(2)] by blast
      qed
      ultimately have "stands_for b D t fin ?w u" using view(1) by (simp add: stands_for_def)
      then show ?thesis by blast
    qed
  qed
qed

lemma room_write: "room (snd (write_at p off data ov)) = room ov"
  by (auto simp: write_at_def note_written_def next_time_def replace_in_memory_def room_def Let_def split: option.splits sum.splits)

lemma room_truncate: "room (snd (Gfs_Overlay.truncate p sz ov)) = room ov"
  by (auto simp: Gfs_Overlay.truncate_def commit_def next_time_def Let_def split: option.splits) (auto simp: room_def)

lemma progress_stands:
  assumes s: "safe b D t ov" and x: "sound D t x ov"
  shows "\<exists>u. stands_for b D t (if k < shown_at x then ov else snd (apply_to_overlay D t x ov)) (progress D t x k ov) u"
proof (cases k)
  case 0
  have "0 < shown_at x" by (cases x) simp_all
  moreover have "progress D t x 0 ov = ov" by (cases x) (simp_all add: Let_def)
  ultimately show ?thesis using stands_for_self [OF s refl] by (auto simp: 0)
next
  case (Suc j)
  note full = stands_for_self [OF step_safe [OF s x] refl]
  have room: "room (snd (apply_to_overlay D t x ov))" using x by (simp add: sound_def)
  have room_mid: "room (snd (h_materialize D t p (ino_for p) ov))" if "x = Write p off data \<or> x = Truncate p sz" for p off data sz
    using that room by (auto simp: and_then_def outcome_def room_write room_truncate split: sum.splits)
  show ?thesis
  proof (cases x)
    case (Write p off data)
    note mid = copy_up_safe [OF s, of p] room_mid [of p off data]
    show ?thesis using mid full stands_for_self [of b D t "snd (h_materialize D t p (ino_for p) ov)" ov] by (auto simp: Suc Write)
  next
    case (Truncate p sz)
    note mid = copy_up_safe [OF s room_mid [of p _ _ sz]]
    consider "j = 0" | "j = 1" | "j > 1" by linarith
    then show ?thesis
    proof cases
      case 1
      then show ?thesis using mid stands_for_self [of b D t "snd (h_materialize D t p (ino_for p) ov)" ov] by (auto simp: Suc Truncate)
    next
      case 2
      then show ?thesis
        using resized_stands [OF s x [unfolded Truncate] refl refl] mid by (auto simp: Suc Truncate Let_def)
    qed (use full in \<open>auto simp: Suc Truncate Let_def\<close>)
  next
    case (SetExecutable p y)
    then show ?thesis using full adopted_safe [OF s, of p] stands_for_self [of b D t "snd (adopt p (facts D t p) (ino_for p) ov)" ov]
      by (auto simp: Suc)
  qed (use full in \<open>auto simp: Suc\<close>)
qed

text \<open>Opening what a dead process left.\<close>

lemma after_death:
  assumes s: "safe b D t ov" and x: "sound D t x ov" and F: "left_over (progress D t x k ov) F" and w: "times_fit modified wall0"
  obtains rep ov' where "overlay_open b snap0 quota mr modified wall0 (journal (progress D t x k ov)) F = Inr (rep, ov')"
    and "missing_content rep = []" and "safe b D t ov'" and "vanished ov' = vanished (progress D t x k ov)"
    and "lookup D t ov' = lookup D t (if k < shown_at x then ov else snd (apply_to_overlay D t x ov))"
proof -
  obtain u where u: "stands_for b D t (if k < shown_at x then ov else snd (apply_to_overlay D t x ov)) (progress D t x k ov) u"
    using progress_stands [OF s x] by blast
  then have su: "overlay_ok D t u" "durable b u" "left_over u F" using F by (auto simp: stands_for_def safe_def)
  obtain rep ov' where "overlay_open b snap0 quota mr modified wall0 (journal u) F = Inr (rep, ov')"
    "missing_content rep = []" "survives D t u ov'" "overlay_ok D t ov'" "durable b ov'"
    by (rule reopen [OF su, of modified wall0 snap0 quota mr]) (use w in \<open>simp_all add: times_fit_def\<close>)
  then show thesis using that u s by (auto simp: stands_for_def survives_def safe_def)
qed

text \<open>The first open of an empty directory.\<close>

lemma first_open:
  assumes base: "base_ok D t" "base_fits D t" and w: "times_fit modified wall0"
    and o: "overlay_open b snap0 quota mr modified wall0 blank_journal [] = Inr (rep, ov)"
  shows "safe b D t ov"
proof -
  from o have f: "entries ov = []" "children ov = []" "files ov = []" "wall ov = wall0" "vanished ov = {}" "vanished_overflow ov = False"
      "root_times ov = None" "next_ino ov = OVERLAY_INO_BASE" "next_content_id ov = 1"
      "journal ov = blank_journal\<lparr>j_binding := Some b, j_next_ino := OVERLAY_INO_BASE, j_next_content_id := 1, j_instance_id := 1\<rparr>"
    by (auto simp: overlay_open_def journal_bind_def blank_journal_def journal_load_def content_sweep_def Let_def)
  have "overlay_ok D t ov" using fresh_sim [OF base(1) f(1-3)] by (rule simD(2))
  moreover have "durable b ov"
    using w by (simp add: durable_def saved_def clock_fits_def stored_as_def f blank_journal_def bt_ok_def times_fit_def)
  ultimately show ?thesis using base by (simp add: safe_def)
qed

lemma lives_safe:
  assumes "base_ok D t" "base_fits D t" "lives b D t ov"
  shows "safe b D t ov"
  using assms(3)
proof (induction rule: lives.induct)
  case (born modified wall0 snap0 quota mr rep ov)
  then show ?case using first_open [OF assms(1,2)] by blast
next
  case (acts ov x)
  then show ?case using step_safe by blast
next
  case (dies ov x k F modified wall0 snap0 quota mr rep ov')
  obtain rep' ov'' where "overlay_open b snap0 quota mr modified wall0 (journal (progress D t x k ov)) F = Inr (rep', ov'')" "safe b D t ov''"
    by (rule after_death [OF dies.IH dies.hyps(2-4), of snap0 quota mr])
  then show ?case using dies.hyps(5) by simp
qed

text \<open>A surviving overlay goes on as the reference model started on what it shows.\<close>

lemma survivor_follows_model:
  assumes "base_ok D t" "base_fits D t" "lives b D t ov"
    and "admitted admissible (apply_to_overlay D t) apply_to_model QuotaExceeded ops ov (merged_view D t ov)"
  shows "tracks (merged_view D t) (apply_to_overlay D t) apply_to_model QuotaExceeded ops ov (merged_view D t ov)"
  by (rule overlay_run.run_tracks [OF safe_sim [OF lives_safe [OF assms(1-3)]] assms(4)])

section \<open>A repository with object names of the right length\<close>

definition padded :: "nat \<Rightarrow> bytes \<Rightarrow> bytes" where
  "padded n bs = take n (bs @ replicate n (CHR 0x00))"

definition crash_digests :: digests where
  "crash_digests = \<lparr>sha1_digest = padded 20, sha256_digest = padded 32\<rparr>"

definition crash_start :: overlay where
  "crash_start = (case overlay_open (''repo'', ''commit'') (Timestamp 1600000000 0) 100 10 (\<lambda>_. None)
      (\<lambda>_. Timestamp 1700000000 0) blank_journal [] of Inr (_, ov) \<Rightarrow> ov)"

text \<open>A truncation that grows the file, cut between the resized file and the commit of its row.\<close>

definition crash_files :: "(nat, bytes) btree" where
  "crash_files = [(1, ''bb'' @ replicate 3 (CHR 0x00)), (2, ''orphan'')]"

lemma crash_base_ok: "base_ok crash_digests demo_base"
  by code_simp

lemma crash_base_fits: "base_fits crash_digests demo_base"
  by code_simp

lemma crash_opened: "overlay_open (''repo'', ''commit'') (Timestamp 1600000000 0) 100 10 (\<lambda>_. None)
    (\<lambda>_. Timestamp 1700000000 0) blank_journal [] = Inr (\<lparr>orphan_files_removed = 0, orphan_bytes_removed = 0, missing_content = []\<rparr>, crash_start)"
  by (simp add: crash_start_def overlay_open_def journal_bind_def blank_journal_def journal_load_def content_sweep_def Let_def)

lemma crash_lives: "lives (''repo'', ''commit'') crash_digests demo_base crash_start"
  by (rule lives.born [OF _ crash_opened]) (simp add: times_fit_def tick_ok_def)

lemma crash_sound: "sound crash_digests demo_base (Truncate ''b'' 5) crash_start"
  by code_simp

lemma crash_left: "left_over (progress crash_digests demo_base (Truncate ''b'' 5) 2 crash_start) crash_files"
  by code_simp

section \<open>Properties\<close>

text \<open>C3. No edit is lost or half done after the death of a process. Whatever an overlay has been through since its
  directory was empty (operations with any arguments and outcomes, short and refused writes included, and deaths
  of the process at any point), when the process dies in an operation after any number of its durable effects,
  with any unreferenced content files left behind and any clock readings: the next open succeeds, misses no
  content, keeps the vanished paths and the invariant, and shows exactly what was shown before the operation or,
  from the effect on that makes it visible, what is shown after it. Out of the requests, only the two that break
  the invariant itself and those that leave the 64-bit columns are excluded.\<close>

theorem edits_survive_crashes:
  assumes "base_ok D t" and "base_fits D t" and "lives b D t ov" and "sound D t x ov"
    and "left_over (progress D t x k ov) F" and "times_fit modified wall0"
  shows "\<exists>rep ov'. overlay_open b snap0 quota mr modified wall0 (journal (progress D t x k ov)) F = Inr (rep, ov')
    \<and> missing_content rep = [] \<and> overlay_ok D t ov' \<and> vanished ov' = vanished (progress D t x k ov)
    \<and> merged_view D t ov' = merged_view D t (if k < shown_at x then ov else snd (apply_to_overlay D t x ov))"
proof -
  note s = lives_safe [OF assms(1-3)]
  obtain rep ov' where o: "overlay_open b snap0 quota mr modified wall0 (journal (progress D t x k ov)) F = Inr (rep, ov')"
    "missing_content rep = []" "safe b D t ov'" "vanished ov' = vanished (progress D t x k ov)"
    "lookup D t ov' = lookup D t (if k < shown_at x then ov else snd (apply_to_overlay D t x ov))"
    by (rule after_death [OF s assms(4-6), of snap0 quota mr])
  have "safe b D t (if k < shown_at x then ov else snd (apply_to_overlay D t x ov))" using s step_safe [OF s assms(4)] by simp
  from safe_sim [OF this] safe_sim [OF o(3)] o(5) have "merged_view D t ov' = merged_view D t (if k < shown_at x then ov else snd (apply_to_overlay D t x ov))"
    by (auto simp: sim_def intro: bt_ext)
  then show ?thesis using o by (auto simp: safe_def)
qed

theorem edits_survive_crashes_witness:
  "\<exists>rep ov'. overlay_open (''repo'', ''commit'') (Timestamp 1600000000 0) 100 10 (\<lambda>_. Some (Timestamp 1800000000 0))
      (\<lambda>_. Timestamp 5 0) (journal (progress crash_digests demo_base (Truncate ''b'' 5) 2 crash_start)) crash_files = Inr (rep, ov')
    \<and> missing_content rep = [] \<and> bt_get (merged_view crash_digests demo_base ov') ''b'' = Some (Node ORegular (''bb'' @ replicate 3 (CHR 0x00)))"
proof -
  have t: "times_fit (\<lambda>_. Some (Timestamp 1800000000 0)) (\<lambda>_. Timestamp 5 0)" by (simp add: times_fit_def tick_ok_def)
  have "bt_get (merged_view crash_digests demo_base (snd (apply_to_overlay crash_digests demo_base (Truncate ''b'' 5) crash_start))) ''b''
      = Some (Node ORegular (''bb'' @ replicate 3 (CHR 0x00)))" by code_simp
  then show ?thesis
    using edits_survive_crashes [OF crash_base_ok crash_base_fits crash_lives crash_sound crash_left t,
      of "Timestamp 1600000000 0" 100 10] by auto
qed

text \<open>C36. The clock recovery leaves can lie behind the file times it restores: when a content file is newer than
  every stored time and than the clock of the host (which was set back), the row takes the file's time but the
  clock does not, and the next operation is stamped before it.\<close>

theorem recovered_clock_behind:
  assumes "local_id (e_content e) = Some i" and "bt_get F i = Some bs" and "modified i = Some t" and "e_mtime e < t"
    and "recover_row modified snap0 wall0 F e rc = (e', rc')"
    and "overlay_time w snap0 (Some (overlay_time (wall0 (rc_reads rc)) snap0 (Some (rc_clock rc)))) < t"
  shows "overlay_time w snap0 (Some (rc_clock rc')) < e_mtime e'"
proof -
  have "t \<le> clamp_requested_overlay_time t snap0" by (simp add: clamp_requested_overlay_time_def)
  moreover from this have "e_mtime e < clamp_requested_overlay_time t snap0" using assms(4) by (rule less_le_trans [rotated])
  ultimately show ?thesis
    using assms(5,6) by (auto simp: recover_row_def assms(1-3) Let_def max_def dest: less_le_trans)
qed

theorem recovered_clock_behind_witness:
  "overlay_time (Timestamp 2000000000 0) (Timestamp 1600000000 0) (Some (Timestamp 2000000000 0)) < Timestamp 2100000000 0"
proof -
  define e where "e = \<lparr>e_path = ''f'', e_present = True, e_kind = ORegular, e_opaque = False, e_ino = 1, e_content = CLocal 1,
    e_symlink_target = None, e_size = 1, e_mtime = Timestamp 1900000000 0, e_ctime = Timestamp 1900000000 0, e_renamed_from = None, e_base = None\<rparr>"
  define rc where "rc = \<lparr>rc_clock = Timestamp 1900000000 0, rc_reads = 0, rc_bytes = 0, rc_corrections = []\<rparr>"
  let ?r = "recover_row (\<lambda>_. Some (Timestamp 2100000000 0)) (Timestamp 1600000000 0) (\<lambda>_. Timestamp 2000000000 0) [(1, ''ab'')] e rc"
  have r: "e_mtime (fst ?r) = Timestamp 2100000000 0" "rc_clock (snd ?r) = Timestamp 2000000000 0"
    unfolding e_def rc_def by code_simp+
  have "overlay_time (Timestamp 2000000000 0) (Timestamp 1600000000 0) (Some (rc_clock (snd ?r))) < e_mtime (fst ?r)"
    by (rule recovered_clock_behind [of e 1 "[(1, ''ab'')]" "''ab''" "\<lambda>_. Some (Timestamp 2100000000 0)" "Timestamp 2100000000 0"
          "Timestamp 1600000000 0" "\<lambda>_. Timestamp 2000000000 0" rc "fst ?r" "snd ?r" "Timestamp 2000000000 0"])
      (unfold e_def rc_def, (code_simp | simp)+)
  then show ?thesis unfolding r .
qed

end
