(* ===== verification/Gfs_Repin.thy ===== *)
theory Gfs_Repin
  imports Gfs_Recovery
begin

text \<open>
  Pointing an overlay at a new base commit (\<open>Overlay::rebind\<close> of \<open>crates/gfs-overlay/src/lib.rs\<close>): the rows a
  plan keeps with their new base facts, the directories made for them, and the journal rebound in one
  transaction. Freed content files are unlinked at once; the code hands them to a thread.
\<close>

section \<open>Re-pinning\<close>

record carried =
  cd_path :: path
  cd_base :: "base_facts option"
  cd_opaque :: bool
  cd_report :: bool
  cd_rehome :: "object_id option"

record carry =
  cy_rows :: "carried list"
  cy_directories :: "(path \<times> nat) list"
  cy_sequence :: nat

definition keep_row :: "overlay \<Rightarrow> carried \<Rightarrow> overlay_entry \<Rightarrow> overlay_entry" where
  "keep_row ov row e =
     (let kept = e\<lparr>e_base := cd_base row, e_opaque := cd_opaque row\<rparr>
      in case cd_rehome row of None \<Rightarrow> kept
         | Some oid \<Rightarrow>
           if (case local_id (e_content e) of None \<Rightarrow> False
               | Some i \<Rightarrow> (case bt_get (writers ov) i of None \<Rightarrow> False | Some n \<Rightarrow> n > 0))
           then kept else kept\<lparr>e_content := CBase oid, e_renamed_from := None\<rparr>)"

fun keep_rows :: "overlay \<Rightarrow> carried list \<Rightarrow> overlay_entry list result" where
  "keep_rows ov [] = Inr []"
| "keep_rows ov (row # rows) =
     (case bt_get (entries ov) (cd_path row) of None \<Rightarrow> Inl Invalid
      | Some e \<Rightarrow> (case keep_rows ov rows of Inl c \<Rightarrow> Inl c | Inr kept \<Rightarrow> Inr (keep_row ov row e # kept)))"

fun make_directories :: "(path \<times> nat) list \<Rightarrow> overlay \<Rightarrow> overlay_entry list \<times> overlay" where
  "make_directories [] ov = ([], ov)"
| "make_directories ((p, i) # ds) ov =
     (let (ino, ov1) = adopt_ino i ov;
          (now, ov2) = next_time ov1;
          (es, ov3) = make_directories ds ov2
      in (\<lparr>e_path = p, e_present = True, e_kind = ODirectory, e_opaque = True, e_ino = ino, e_content = CNone,
           e_symlink_target = None, e_size = 0, e_mtime = now, e_ctime = now, e_renamed_from = None, e_base = None\<rparr> # es, ov3))"

text \<open>The memory half of \<open>rebind\<close>, once the rows to keep and the paths to report are decided.\<close>

definition install_kept ::
  "string \<times> string \<Rightarrow> overlay_entry list \<Rightarrow> path list \<Rightarrow> overlay \<Rightarrow> overlay" where
  "install_kept binding kept report ov =
     (let rt = (if kept = [] then None else root_times ov);
          ix = fold index_content kept [];
          owned = set (map fst ix)
      in ov\<lparr>journal := journal_rebind binding kept rt (journal ov),
            entries := fold (\<lambda>e. bt_insert (e_path e) e) kept [],
            children := fold (\<lambda>e. child_add (entry_parent e) (entry_name e)) kept [],
            by_content := ix,
            local_bytes := fold (\<lambda>e b. if local_id (e_content e) = None then b else sat_add b (e_size e)) kept 0,
            vanished := {}, vanished_overflow := False, root_times := rt,
            stamps := fold (\<lambda>p. bt_insert p 1) report [],
            sequence := (if report = [] then 0 else 1),
            dirty := {},
            writers := filter (\<lambda>(i, n). i \<in> owned) (writers ov),
            unsynced := unsynced ov \<inter> owned,
            files := filter (\<lambda>(i, bs). i \<notin> set (map fst (by_content ov)) \<or> i \<in> owned) (files ov)\<rparr>)"

definition rebind :: "string \<times> string \<Rightarrow> carry option \<Rightarrow> overlay \<Rightarrow> unit result \<times> overlay" where
  "rebind binding carry ov =
     (case carry of None \<Rightarrow> (Inr (), install_kept binding [] [] ov)
      | Some c \<Rightarrow>
        if sequence ov \<noteq> cy_sequence c then (Inl Invalid, ov)
        else (case keep_rows ov (cy_rows c) of Inl e \<Rightarrow> (Inl e, ov)
          | Inr kept \<Rightarrow>
            (let (dirs, ov1) = make_directories (cy_directories c) ov
             in (Inr (), install_kept binding (kept @ dirs)
                   (map cd_path (filter cd_report (cy_rows c)) @ map fst (cy_directories c)) ov1))))"

section \<open>The journal after a re-pin\<close>

lemma rebound_journal:
  "bt_get (fold (\<lambda>e rs. journal_change (Put e) rs) es []) x = map_option row_of (bt_get (fold (\<lambda>e. bt_insert (e_path e) e) es []) x)"
  by (induction es rule: rev_induct) auto

lemma rebound_journal_ok: "bt_ok (fold (\<lambda>e rs. journal_change (Put e) rs) es [])"
  by (rule fold_invariant) simp_all

lemma install_durable:
  assumes d: "durable b ov" and fit: "\<forall>e \<in> set kept. fits (j_next_content_id (journal ov)) e"
  shows "durable b' (install_kept b' kept report ov)"
proof -
  let ?ov = "install_kept b' kept report ov"
  have j: "j_rows (journal ?ov) = fold (\<lambda>e rs. journal_change (Put e) rs) kept []"
    and e: "entries ?ov = fold (\<lambda>e. bt_insert (e_path e) e) kept []"
    by (simp_all add: install_kept_def Let_def journal_rebind_def)
  have fits: "fits (j_next_content_id (journal ov)) r" if "bt_get (entries ?ov) x = Some r" for x r
  proof -
    have "List.find (\<lambda>e. e_path e = x) (rev kept) = Some r" using that by (simp add: e rebuilt_rows split: option.splits)
    then have "r \<in> set (rev kept)" unfolding find_Some_iff using nth_mem by blast
    then show ?thesis using fit by simp
  qed
  have "stored_as (map_option row_of v) v" if "\<And>r. v = Some r \<Longrightarrow> entry_ok r" for v
    using that by (auto simp: stored_as_def lag_def split: option.splits)
  then have "stored_as (bt_get (j_rows (journal ?ov)) x) (bt_get (entries ?ov) x)" for x
    unfolding j e rebound_journal using fits by (simp add: fits_def e)
  moreover have "bt_ok (j_rows (journal ?ov))" unfolding j by (rule rebound_journal_ok)
  ultimately have "saved ?ov"
    using durableD(2) [OF d] by (simp add: saved_def install_kept_def Let_def journal_rebind_def)
  then show ?thesis
    using durableD(1) [OF d] fits by (simp add: durable_def clock_fits_def install_kept_def Let_def journal_rebind_def)
qed

definition carry_fits :: "carry \<Rightarrow> bool" where
  "carry_fits c \<longleftrightarrow> (\<forall>k \<in> set (cy_rows c). facts_ok (cd_base k) \<and> (\<forall>oid. cd_rehome k = Some oid \<longrightarrow> oid_ok oid))
     \<and> (\<forall>(p, i) \<in> set (cy_directories c). 0 < i \<and> i < 2 ^ 64)"

lemma keep_row_fits:
  assumes "fits n e" and "facts_ok (cd_base k)" and "\<And>oid. cd_rehome k = Some oid \<Longrightarrow> oid_ok oid"
  shows "fits n (keep_row ov k e)"
  using assms by (auto simp: keep_row_def Let_def fits_def entry_ok_def facts_ok_def split: option.splits)

lemma keep_rows_fit:
  assumes "keep_rows ov ks = Inr kept" and "\<And>x e. bt_get (entries ov) x = Some e \<Longrightarrow> fits n e"
    and "\<forall>k \<in> set ks. facts_ok (cd_base k) \<and> (\<forall>oid. cd_rehome k = Some oid \<longrightarrow> oid_ok oid)"
  shows "\<forall>e \<in> set kept. fits n e"
  using assms(1,3)
proof (induction ks arbitrary: kept)
  case (Cons k ks)
  obtain e kept' where e: "bt_get (entries ov) (cd_path k) = Some e" and r: "keep_rows ov ks = Inr kept'" and k: "kept = keep_row ov k e # kept'"
    using Cons.prems(1) by (auto split: option.splits sum.splits)
  have "fits n (keep_row ov k e)" by (rule keep_row_fits [OF assms(2) [OF e]]) (use Cons.prems(2) in auto)
  then show ?case using Cons.IH [OF r] Cons.prems(2) by (simp add: k)
qed simp

lemma make_directories_durable:
  assumes "make_directories ds ov = (dirs, ov1)" and "durable b ov" and "\<forall>(p, i) \<in> set ds. 0 < i \<and> i < 2 ^ 64"
  shows "durable b ov1 \<and> journal ov1 = journal ov \<and> (\<forall>e \<in> set dirs. fits n e)"
  using assms
proof (induction ds arbitrary: dirs ov ov1)
  case (Cons x ds)
  obtain p i where x: "x = (p, i)" by force
  obtain now ovb where t: "next_time ov = (now, ovb)" by force
  obtain es ovc where r: "make_directories ds ovb = (es, ovc)" by force
  have a: "adopt_ino i ov = (i, ov)" using Cons.prems(3) x by (simp add: adopt_ino_def)
  have out: "ov1 = ovc" "dirs = \<lparr>e_path = p, e_present = True, e_kind = ODirectory, e_opaque = True, e_ino = i, e_content = CNone,
      e_symlink_target = None, e_size = 0, e_mtime = now, e_ctime = now, e_renamed_from = None, e_base = None\<rparr> # es"
    using Cons.prems(1) by (simp_all add: x a t r)
  note d = durable_clock [OF Cons.prems(2) t]
  have "journal ovb = journal ov" using next_time_quiet(1) [OF t] by (simp add: quiet_def)
  then show ?case
    using Cons.IH [OF r d [THEN conjunct1]] Cons.prems(3) d [THEN conjunct2] tick_fits [of now]
    by (auto simp: out x fits_def entry_ok_def)
qed simp

text \<open>The journal a re-pin writes, against the overlay it leaves in memory: row by row the same, sizes and times
  included, which \<open>durable\<close> alone would let differ for a file with local content.\<close>

definition journal_exact :: "string \<times> string \<Rightarrow> overlay \<Rightarrow> bool" where
  "journal_exact b ov \<longleftrightarrow> bt_ok (j_rows (journal ov))
     \<and> (\<forall>x. bt_get (j_rows (journal ov)) x = map_option row_of (bt_get (entries ov) x))
     \<and> j_binding (journal ov) = Some b
     \<and> j_vanished (journal ov) = {} \<and> vanished ov = {} \<and> \<not> j_overflow (journal ov) \<and> \<not> vanished_overflow ov
     \<and> j_root_times (journal ov) = root_times ov"

lemma install_exact: "journal_exact b (install_kept b kept report ov)"
  using rebound_journal [of kept] rebound_journal_ok [of kept] by (simp add: journal_exact_def install_kept_def Let_def journal_rebind_def)

lemma install_counters:
  "j_next_ino (journal (install_kept b kept report ov)) = j_next_ino (journal ov)"
  "j_next_content_id (journal (install_kept b kept report ov)) = j_next_content_id (journal ov)"
  "j_instance_id (journal (install_kept b kept report ov)) = j_instance_id (journal ov)"
  by (simp_all add: install_kept_def Let_def journal_rebind_def)

text \<open>C6. A re-pin that succeeds leaves a journal that is bound to the new commit and whose rows are, path by
  path and column by column, the encoding of the rows in memory; the vanished paths are forgotten on both sides,
  the root times agree, the journal's counters and instance number are kept, and the overlay is durable again
  (every stored value fits, every local content number is below the saved counter). One that is refused leaves
  everything as it was.\<close>

theorem rebind_exact:
  assumes "durable b ov" and "\<And>c. plan = Some c \<Longrightarrow> carry_fits c"
  shows "case rebind b' plan ov of
      (Inr _, ov') \<Rightarrow> journal_exact b' ov' \<and> durable b' ov'
        \<and> j_next_ino (journal ov') = j_next_ino (journal ov) \<and> j_next_content_id (journal ov') = j_next_content_id (journal ov)
        \<and> j_instance_id (journal ov') = j_instance_id (journal ov)
    | (Inl _, ov') \<Rightarrow> ov' = ov"
proof (cases plan)
  case None
  then show ?thesis using install_durable [OF assms(1), of "[]"] by (simp add: rebind_def install_exact install_counters)
next
  case (Some c)
  have cf: "carry_fits c" by (rule assms(2) [OF Some])
  obtain ds ov1 where md: "make_directories (cy_directories c) ov = (ds, ov1)" by force
  have m: "durable b ov1 \<and> journal ov1 = journal ov \<and> (\<forall>e \<in> set ds. fits (j_next_content_id (journal ov)) e)"
    by (rule make_directories_durable [OF md assms(1)]) (use cf in \<open>simp add: carry_fits_def\<close>)
  have "durable b' (install_kept b' (kept @ ds) report ov1)" if "keep_rows ov (cy_rows c) = Inr kept" for kept report
  proof (rule install_durable)
    have "\<forall>e \<in> set kept. fits (j_next_content_id (journal ov)) e"
      by (rule keep_rows_fit [OF that durableD(4) [OF assms(1)]]) (use cf in \<open>simp_all add: carry_fits_def\<close>)
    then show "\<forall>e \<in> set (kept @ ds). fits (j_next_content_id (journal ov1)) e" using m by auto
  qed (use m in blast)
  then show ?thesis using m by (auto simp: rebind_def Some md install_exact install_counters split: sum.splits)
qed

text \<open>An overlay whose file was written after its row was committed: the journal still says two bytes, memory says
  five. The re-pin journals the five.\<close>

definition lagging_row :: "nat \<Rightarrow> overlay_entry" where
  "lagging_row n = sample_entry\<lparr>e_path := ''f'', e_kind := ORegular, e_content := CLocal 1, e_symlink_target := None,
     e_size := n, e_renamed_from := None, e_base := None\<rparr>"

definition lagging_overlay :: overlay where
  "lagging_overlay = demo_overlay\<lparr>entries := [(''f'', lagging_row 5)], children := [([], {''f''})], by_content := [(1, ''f'')],
     local_bytes := 5, next_content_id := 2,
     journal := demo_journal\<lparr>j_rows := [(''f'', row_of (lagging_row 2))], j_next_content_id := 2, j_binding := Some (''repo'', ''old'')\<rparr>\<rparr>"

theorem rebind_exact_witness:
  "case rebind (''repo'', ''new'')
      (Some \<lparr>cy_rows = [\<lparr>cd_path = ''f'', cd_base = None, cd_opaque = False, cd_report = True, cd_rehome = None\<rparr>],
             cy_directories = [(''d'', 7)], cy_sequence = 0\<rparr>) lagging_overlay of
      (Inr _, ov') \<Rightarrow> journal_exact (''repo'', ''new'') ov' \<and> durable (''repo'', ''new'') ov'
        \<and> j_next_ino (journal ov') = j_next_ino (journal lagging_overlay)
        \<and> j_next_content_id (journal ov') = j_next_content_id (journal lagging_overlay)
        \<and> j_instance_id (journal ov') = j_instance_id (journal lagging_overlay)
    | (Inl _, ov') \<Rightarrow> ov' = lagging_overlay"
proof (rule rebind_exact)
  have ok: "entry_ok (lagging_row 2)" "entry_ok (lagging_row 5)"
    by (simp_all add: lagging_row_def sample_entry_def entry_ok_def)
  have "lag (lagging_row 2) (lagging_row 5)" by (simp add: lag_def lagging_row_def sample_entry_def)
  then have "stored_as (Some (row_of (lagging_row 2))) (Some (lagging_row 5))" using ok by (auto simp: stored_as_def)
  then show "durable (''repo'', ''old'') lagging_overlay"
    using ok by (simp add: durable_def saved_def clock_fits_def tick_ok_def lagging_overlay_def demo_overlay_def demo_journal_def
        bt_ok_def stored_as_def fits_def lagging_row_def split: if_splits)
qed (auto simp: carry_fits_def facts_ok_def)

end
