(* ===== verification/Gfs_Carry.thy ===== *)
theory Gfs_Carry
  imports Gfs_Repin
begin

text \<open>
  What a switch keeps of the workspace: \<open>Mount::plan_carry\<close> of \<open>crates/gfs-mount/src/mount.rs\<close>, the decision
  for every row of the overlay when it is pointed from the pinned commit to another one, judged against the
  workspace's own \<open>HEAD\<close>. The lookups in the three commits (libgit2) and the numbers of the inode table are
  parameters; a conflict is its kind and its paths, without the message.
\<close>

section \<open>Commits\<close>

type_synonym commit_tree = "path \<Rightarrow> base_facts option"

record commits =
  adopting :: bool
  at_from :: commit_tree
  at_head :: commit_tree
  at_to :: commit_tree
  changed_paths :: "path list"
  files_under :: "path \<Rightarrow> path list"
  number_of :: "path \<Rightarrow> nat"

datatype conflict =
    NeverWritten path
  | NotADirectory path
  | Untracked path
  | ChangedOnBoth path
  | RenameSource path path
  | FileInTheWay path path

text \<open>The paths looked up in the target: every row's, a present row's directories, a rename's source.\<close>

definition wanted :: "overlay_entry list \<Rightarrow> path set" where
  "wanted rs = (\<Union>e \<in> set rs. {e_path e} \<union> (if e_present e then set (ancestors_of (e_path e)) - {[]} else {})
     \<union> (case e_renamed_from e of None \<Rightarrow> {} | Some s \<Rightarrow> {s}))"

definition target_at :: "commits \<Rightarrow> overlay_entry list \<Rightarrow> path \<Rightarrow> base_facts option" where
  "target_at c rs p = (if p \<in> wanted rs then at_to c p else None)"

definition head_at :: "commits \<Rightarrow> overlay_entry \<Rightarrow> base_facts option" where
  "head_at c e = (if adopting c then at_head c (e_path e) else e_base e)"

definition same_entry :: "base_facts option \<Rightarrow> base_facts option \<Rightarrow> bool" where
  "same_entry a b = (case (a, b) of (None, None) \<Rightarrow> True
     | (Some f, Some g) \<Rightarrow> bf_oid f = bf_oid g \<and> bf_kind f = bf_kind g
     | _ \<Rightarrow> False)"

section \<open>Hashing\<close>

definition blob_oid_of_file :: "digests \<Rightarrow> bytes \<Rightarrow> nat \<Rightarrow> object_id" where
  "blob_oid_of_file D bs sz = ObjectId Sha1 (sha1_digest D (''blob '' @ dec_string sz @ CHR 0x00 # bs))"

definition to_hash :: "commits \<Rightarrow> overlay_entry \<Rightarrow> bool" where
  "to_hash c e \<longleftrightarrow> adopting c \<and> e_present e \<and> is_file (e_kind e) \<and> local_id (e_content e) \<noteq> None
     \<and> (case head_at c e of None \<Rightarrow> False
        | Some h \<Rightarrow> bf_size h = e_size e \<and> (case e_base e of None \<Rightarrow> True | Some b \<Rightarrow> bf_oid b \<noteq> bf_oid h))"

definition hashed :: "commits \<Rightarrow> digests \<Rightarrow> (nat, bytes) btree \<Rightarrow> overlay_entry \<Rightarrow> object_id option" where
  "hashed c D F e =
     (if to_hash c e
      then (case local_id (e_content e) of None \<Rightarrow> None
            | Some i \<Rightarrow> map_option (\<lambda>bs. blob_oid_of_file D bs (e_size e)) (bt_get F i))
      else None)"

section \<open>The verdict on a row\<close>

datatype verdict = Carried carried | Orphaned | Discarded | Refused conflict

definition keep_as :: "overlay_entry \<Rightarrow> base_facts option \<Rightarrow> bool \<Rightarrow> bool \<Rightarrow> carried" where
  "keep_as e base opaque report =
     \<lparr>cd_path = e_path e, cd_base = base, cd_opaque = opaque, cd_report = report, cd_rehome = None\<rparr>"

definition is_directory :: "base_facts \<Rightarrow> bool" where
  "is_directory f \<longleftrightarrow> bf_kind f = Directory"

definition as_adopted :: "commits \<Rightarrow> rows \<Rightarrow> overlay_entry \<Rightarrow> bool" where
  "as_adopted c rs e \<longleftrightarrow>
     (case head_at c e of None \<Rightarrow> False | Some h \<Rightarrow> is_directory h)
     \<and> (\<not> e_opaque e \<or> (adopting c \<and>
          list_all (\<lambda>f. case bt_get rs f of None \<Rightarrow> False | Some r \<Rightarrow> e_present r) (files_under c (e_path e))))"

definition judge_directory :: "commits \<Rightarrow> rows \<Rightarrow> overlay_entry \<Rightarrow> verdict" where
  "judge_directory c rs e =
     (let there = target_at c (map snd rs) (e_path e); h = head_at c e
      in if as_adopted c rs e then
           (case there of None \<Rightarrow> Orphaned
            | Some f \<Rightarrow> if is_directory f then Carried (keep_as e (Some f) False False) else Refused (NotADirectory (e_path e)))
         else if h = None then
           (case there of None \<Rightarrow> Carried (keep_as e None (e_opaque e) True)
            | Some f \<Rightarrow> if is_directory f then Carried (keep_as e (Some f) False True) else Refused (Untracked (e_path e)))
         else if same_entry h there then Carried (keep_as e h (e_opaque e) True)
         else Refused (ChangedOnBoth (e_path e)))"

text \<open>The object id of what the working tree has at a file's or a link's path, where it is known.\<close>

definition known_oid :: "commits \<Rightarrow> digests \<Rightarrow> (nat, bytes) btree \<Rightarrow> overlay_entry \<Rightarrow> object_id option" where
  "known_oid c D F e =
     (case e_content e of CBase oid \<Rightarrow> Some oid
      | CLocal i \<Rightarrow> hashed c D F e
      | CNone \<Rightarrow> map_option (git_oid D) (e_symlink_target e))"

definition clean_row :: "commits \<Rightarrow> digests \<Rightarrow> (nat, bytes) btree \<Rightarrow> overlay_entry \<Rightarrow> bool" where
  "clean_row c D F e =
     (case head_at c e of None \<Rightarrow> \<not> e_present e
      | Some h \<Rightarrow> e_present e \<and> from_entry_kind (bf_kind h) = Some (e_kind e) \<and> known_oid c D F e = Some (bf_oid h))"

definition judge_file :: "commits \<Rightarrow> digests \<Rightarrow> (nat, bytes) btree \<Rightarrow> rows \<Rightarrow> overlay_entry \<Rightarrow> verdict" where
  "judge_file c D F rs e =
     (let there = target_at c (map snd rs) (e_path e); h = head_at c e
      in if clean_row c D F e then
           (case h of None \<Rightarrow> Discarded
            | Some f \<Rightarrow>
              if e_present e \<and> same_entry h there
              then Carried ((keep_as e h (e_opaque e) False)
                \<lparr>cd_rehome := (if (e_content e \<noteq> CBase (bf_oid f) \<or> e_renamed_from e \<noteq> None) \<and> is_file (e_kind e)
                               then Some (bf_oid f) else None)\<rparr>)
              else Discarded)
         else if \<not> e_present e \<and> there = None then Discarded
         else if \<not> same_entry h there then
           Refused (if h = None \<and> there \<noteq> None then Untracked (e_path e) else ChangedOnBoth (e_path e))
         else (case e_renamed_from e of
             Some source \<Rightarrow>
               if same_entry (at_from c source) (target_at c (map snd rs) source)
               then Carried (keep_as e h (e_opaque e) True)
               else Refused (RenameSource (e_path e) source)
           | None \<Rightarrow>
             (case (e_content e, there) of
                (CBase oid, Some f) \<Rightarrow> if bf_oid f \<noteq> oid then Refused (NeverWritten (e_path e))
                                      else Carried (keep_as e h (e_opaque e) True)
              | _ \<Rightarrow> Carried (keep_as e h (e_opaque e) True))))"

definition judge :: "commits \<Rightarrow> digests \<Rightarrow> (nat, bytes) btree \<Rightarrow> rows \<Rightarrow> overlay_entry \<Rightarrow> verdict" where
  "judge c D F rs e = (if e_present e \<and> is_dir (e_kind e) then judge_directory c rs e else judge_file c D F rs e)"

fun judge_rows :: "commits \<Rightarrow> digests \<Rightarrow> (nat, bytes) btree \<Rightarrow> rows \<Rightarrow> overlay_entry list
    \<Rightarrow> carried list \<times> overlay_entry list \<times> conflict list" where
  "judge_rows c D F rs [] = ([], [], [])"
| "judge_rows c D F rs (e # es) =
     (let (kept, orphans, conflicts) = judge_rows c D F rs es
      in case judge c D F rs e of
           Carried k \<Rightarrow> (k # kept, orphans, conflicts)
         | Orphaned \<Rightarrow> (kept, e # orphans, conflicts)
         | Discarded \<Rightarrow> (kept, orphans, conflicts)
         | Refused x \<Rightarrow> (kept, orphans, x # conflicts))"

section \<open>Directories of what is kept\<close>

definition present_at :: "rows \<Rightarrow> path \<Rightarrow> bool" where
  "present_at rs p = (case bt_get rs p of None \<Rightarrow> False | Some e \<Rightarrow> e_present e)"

definition under_kept :: "rows \<Rightarrow> carried list \<Rightarrow> path set" where
  "under_kept rs kept = (\<Union>k \<in> set (filter (\<lambda>k. present_at rs (cd_path k)) kept). set (ancestors_of (cd_path k)))"

definition with_orphans :: "rows \<Rightarrow> carried list \<Rightarrow> overlay_entry list \<Rightarrow> carried list" where
  "with_orphans rs kept orphans =
     kept @ map (\<lambda>e. keep_as e None True True) (filter (\<lambda>e. e_path e \<in> under_kept rs kept) orphans)"

text \<open>The directories above one kept path, nearest the root first, up to the first that is a file in the target.\<close>

fun missing_directories :: "(path \<Rightarrow> base_facts option) \<Rightarrow> path set \<Rightarrow> path \<Rightarrow> path list \<Rightarrow> path set \<times> conflict list
    \<Rightarrow> path set \<times> conflict list" where
  "missing_directories there kept p [] acc = acc"
| "missing_directories there kept p (d # ds) (made, missing) =
     (if d = [] \<or> d \<in> kept \<or> d \<in> made then missing_directories there kept p ds (made, missing)
      else case there d of
          None \<Rightarrow> missing_directories there kept p ds (insert d made, missing)
        | Some f \<Rightarrow> if is_directory f then missing_directories there kept p ds (made, missing)
                    else (made, missing @ [FileInTheWay p d]))"

fun all_missing :: "(path \<Rightarrow> base_facts option) \<Rightarrow> rows \<Rightarrow> path set \<Rightarrow> carried list \<Rightarrow> path set \<times> conflict list
    \<Rightarrow> path set \<times> conflict list" where
  "all_missing there rs kept [] acc = acc"
| "all_missing there rs kept (k # ks) acc =
     all_missing there rs kept ks
       (if present_at rs (cd_path k) then missing_directories there kept (cd_path k) (ancestors_of (cd_path k)) acc else acc)"

section \<open>The plan\<close>

definition refuse_or :: "conflict list \<Rightarrow> 'a \<Rightarrow> conflict list + 'a" where
  "refuse_or conflicts plan = (if conflicts = [] then Inr plan else Inl conflicts)"

definition unwritten :: "commits \<Rightarrow> rows \<Rightarrow> conflict list" where
  "unwritten c rs =
     (if adopting c
      then map NeverWritten (filter (\<lambda>p. bt_get rs p = None \<and> resolve rs p = Base) (changed_paths c))
      else [])"

definition plan_carry :: "commits \<Rightarrow> digests \<Rightarrow> overlay \<Rightarrow> conflict list + carry option" where
  "plan_carry c D ov =
     (let rs = entries ov; es = map snd rs
      in if es = [] \<and> \<not> adopting c then Inr None
         else if es = [] then refuse_or (unwritten c rs) None
         else
           (let (kept0, orphans, conflicts) = judge_rows c D (files ov) rs es;
                kept = with_orphans rs kept0 orphans;
                (made, missing) = all_missing (target_at c es) rs (set (map cd_path kept)) kept ({}, [])
            in refuse_or (unwritten c rs @ conflicts @ missing)
                 (Some \<lparr>cy_rows = kept, cy_directories = map (\<lambda>d. (d, number_of c d)) (sorted_list_of_set made),
                        cy_sequence = sequence ov\<rparr>)))"

end
