(* ===== verification/Gfs_Switch.thy ===== *)
theory Gfs_Switch
  imports Gfs_Carry
begin

text \<open>
  What a switch does to the workspace as Git sees it. A plan without conflicts, carried out by \<open>rebind\<close>, leaves
  at every path what Git's own rule for \<open>git switch\<close> says: the target's version where the working tree agreed
  with \<open>HEAD\<close>, and what the working tree had where it did not.
\<close>

section \<open>The working tree as Git sees it\<close>

definition row_oid :: "digests \<Rightarrow> (nat, bytes) btree \<Rightarrow> overlay_entry \<Rightarrow> object_id option" where
  "row_oid D F e =
     (case e_content e of CBase oid \<Rightarrow> Some oid
      | CLocal i \<Rightarrow> map_option (git_oid D) (bt_get F i)
      | CNone \<Rightarrow> map_option (git_oid D) (e_symlink_target e))"

definition tracked :: "commit_tree \<Rightarrow> path \<Rightarrow> (overlay_kind \<times> object_id) option" where
  "tracked T p =
     (case T p of None \<Rightarrow> None
      | Some f \<Rightarrow> (case from_entry_kind (bf_kind f) of None \<Rightarrow> None
                  | Some k \<Rightarrow> if is_dir k then None else Some (k, bf_oid f)))"

text \<open>The files and links of a working tree; Git tracks no directories.\<close>

definition git_seen :: "commit_tree \<Rightarrow> digests \<Rightarrow> overlay \<Rightarrow> path \<Rightarrow> (overlay_kind \<times> object_id) option" where
  "git_seen T D ov p =
     (case resolve (entries ov) p of
        Absent \<Rightarrow> None
      | Overlay e \<Rightarrow> if is_dir (e_kind e) then None else map_option (Pair (e_kind e)) (row_oid D (files ov) e)
      | Base \<Rightarrow> tracked T p)"

definition hides :: "overlay_entry \<Rightarrow> bool" where
  "hides e \<longleftrightarrow> blocking e \<or> e_opaque e"

definition hidden :: "row_map \<Rightarrow> path \<Rightarrow> bool" where
  "hidden R p \<longleftrightarrow> (\<exists>a e. below p a \<and> R a = Some e \<and> hides e)"

section \<open>Hypotheses\<close>

text \<open>A tree: every kind can be held, and above every entry are directories.\<close>

definition tree_ok :: "commit_tree \<Rightarrow> bool" where
  "tree_ok T \<longleftrightarrow> (\<forall>p f. T p = Some f \<longrightarrow> from_entry_kind (bf_kind f) \<noteq> None)
     \<and> (\<forall>p f a. T p = Some f \<longrightarrow> below p a \<longrightarrow> a \<noteq> [] \<longrightarrow> (\<exists>g. T a = Some g \<and> is_directory g))"

text \<open>What is relied on of Git: a directory's id determines what is below it, the two walks list what they say.\<close>

definition commits_ok :: "commits \<Rightarrow> bool" where
  "commits_ok c \<longleftrightarrow> tree_ok (at_from c) \<and> tree_ok (at_head c) \<and> tree_ok (at_to c)
     \<and> (\<forall>a f g p. at_head c a = Some f \<longrightarrow> at_to c a = Some g \<longrightarrow> is_directory f \<longrightarrow> bf_oid f = bf_oid g \<longrightarrow>
          below p a \<longrightarrow> at_head c p = at_to c p)
     \<and> (if adopting c
        then (\<forall>p. tracked (at_from c) p \<noteq> tracked (at_head c) p \<longrightarrow> p \<in> set (changed_paths c))
          \<and> (\<forall>a p. below p a \<longrightarrow> tracked (at_head c) p \<noteq> None \<longrightarrow> p \<in> set (files_under c a))
        else at_head c = at_from c)"

definition content_known :: "(nat, bytes) btree \<Rightarrow> overlay_entry \<Rightarrow> bool" where
  "content_known F e \<longleftrightarrow>
     (case e_content e of CBase oid \<Rightarrow> True
      | CLocal i \<Rightarrow> (\<exists>bs. bt_get F i = Some bs \<and> length bs = e_size e)
      | CNone \<Rightarrow> e_symlink_target e \<noteq> None)"

text \<open>
  A workspace over the pin: rows by proper paths, directories above a present row, content that is there, and
  base facts that are what the commit has.
\<close>

definition workspace_ok :: "commits \<Rightarrow> overlay \<Rightarrow> bool" where
  "workspace_ok c ov \<longleftrightarrow> bt_ok (entries ov) \<and> keyed (bt_get (entries ov))
     \<and> (\<forall>x e. bt_get (entries ov) x = Some e \<longrightarrow> head_at c e = at_head c x)
     \<and> (\<forall>x e. bt_get (entries ov) x = Some e \<longrightarrow> e_present e \<longrightarrow>
          (is_dir (e_kind e) \<or> content_known (files ov) e)
          \<and> (\<forall>a. below x a \<longrightarrow> (case bt_get (entries ov) a of
               Some d \<Rightarrow> e_present d \<and> is_dir (e_kind d)
             | None \<Rightarrow> (\<exists>f. at_from c a = Some f \<and> is_directory f) \<and> \<not> hidden (bt_get (entries ov)) a)))"

lemma workspaceD:
  assumes "workspace_ok c ov"
  shows "bt_ok (entries ov)" "keyed (bt_get (entries ov))"
    and "bt_get (entries ov) x = Some e \<Longrightarrow> head_at c e = at_head c x"
    and "bt_get (entries ov) x = Some e \<Longrightarrow> e_present e \<Longrightarrow> \<not> is_dir (e_kind e) \<Longrightarrow> content_known (files ov) e"
    and "bt_get (entries ov) x = Some e \<Longrightarrow> e_present e \<Longrightarrow> below x a \<Longrightarrow> bt_get (entries ov) a = Some d \<Longrightarrow>
      e_present d \<and> is_dir (e_kind d)"
    and "bt_get (entries ov) x = Some e \<Longrightarrow> e_present e \<Longrightarrow> below x a \<Longrightarrow> bt_get (entries ov) a = None \<Longrightarrow>
      (\<exists>f. at_from c a = Some f \<and> is_directory f) \<and> \<not> hidden (bt_get (entries ov)) a"
  using assms unfolding workspace_ok_def by (blast | force)+

section \<open>The loops\<close>

lemma judge_rows_eq:
  "judge_rows c D F rs es =
     (concat (map (\<lambda>e. case judge c D F rs e of Carried k \<Rightarrow> [k] | _ \<Rightarrow> []) es),
      filter (\<lambda>e. judge c D F rs e = Orphaned) es,
      concat (map (\<lambda>e. case judge c D F rs e of Refused x \<Rightarrow> [x] | _ \<Rightarrow> []) es))"
  by (induction es) (auto split: verdict.splits)

lemma judge_path: "judge c D F rs e = Carried k \<Longrightarrow> cd_path k = e_path e"
  by (auto simp: judge_def judge_directory_def judge_file_def keep_as_def Let_def
      split: if_splits option.splits content.splits)

lemma missing_directories_spec:
  "missing_directories there kept p ds (made, missing) = (made', missing') \<Longrightarrow> missing' = [] \<Longrightarrow>
     missing = [] \<and> made \<subseteq> made' \<and> (finite made \<longrightarrow> finite made')
     \<and> (\<forall>d \<in> set ds. d = [] \<or> d \<in> kept \<or> d \<in> made' \<or> (\<exists>f. there d = Some f \<and> is_directory f))
     \<and> (\<forall>d \<in> made' - made. d \<in> set ds \<and> d \<noteq> [] \<and> d \<notin> kept \<and> there d = None)"
proof (induction ds arbitrary: made missing)
  case (Cons d ds)
  show ?case
  proof (cases "d = [] \<or> d \<in> kept \<or> d \<in> made")
    case True
    then have "missing_directories there kept p ds (made, missing) = (made', missing')" using Cons.prems(1) by simp
    from Cons.IH [OF this Cons.prems(2)] True show ?thesis by auto
  next
    case False
    show ?thesis
    proof (cases "there d")
      case None
      then have "missing_directories there kept p ds (insert d made, missing) = (made', missing')" using Cons.prems(1) False by simp
      from Cons.IH [OF this Cons.prems(2)] False None show ?thesis by auto
    next
      case (Some f)
      then have "is_directory f" and "missing_directories there kept p ds (made, missing) = (made', missing')"
        using Cons.prems False by (auto split: if_splits)
      with Cons.IH [OF this(2) Cons.prems(2)] Some show ?thesis by auto
    qed
  qed
qed simp

lemma all_missing_spec:
  "all_missing there rs kept ks (made, missing) = (made', missing') \<Longrightarrow> missing' = [] \<Longrightarrow>
     missing = [] \<and> made \<subseteq> made' \<and> (finite made \<longrightarrow> finite made')
     \<and> (\<forall>k \<in> set ks. present_at rs (cd_path k) \<longrightarrow> (\<forall>d \<in> set (ancestors_of (cd_path k)).
          d = [] \<or> d \<in> kept \<or> d \<in> made' \<or> (\<exists>f. there d = Some f \<and> is_directory f)))
     \<and> (\<forall>d \<in> made' - made. d \<noteq> [] \<and> d \<notin> kept \<and> there d = None
          \<and> (\<exists>k \<in> set ks. present_at rs (cd_path k) \<and> d \<in> set (ancestors_of (cd_path k))))"
proof (induction ks arbitrary: made missing)
  case (Cons k ks)
  obtain m1 s1 where step: "(if present_at rs (cd_path k)
      then missing_directories there kept (cd_path k) (ancestors_of (cd_path k)) (made, missing) else (made, missing)) = (m1, s1)"
    by force
  then have "all_missing there rs kept ks (m1, s1) = (made', missing')" using Cons.prems(1) by simp
  note ih = Cons.IH [OF this Cons.prems(2)]
  show ?case
  proof (cases "present_at rs (cd_path k)")
    case False
    then show ?thesis using ih step by auto
  next
    case True
    then have "missing_directories there kept (cd_path k) (ancestors_of (cd_path k)) (made, missing) = (m1, s1)" using step by simp
    from missing_directories_spec [OF this] ih True show ?thesis by (intro conjI ballI impI) (auto; blast)+
  qed
qed simp

section \<open>The plan as a function of the path\<close>

definition verdict_at :: "commits \<Rightarrow> digests \<Rightarrow> overlay \<Rightarrow> overlay_entry \<Rightarrow> verdict" where
  "verdict_at c D ov e = judge c D (files ov) (entries ov) e"

definition kept_rows :: "commits \<Rightarrow> digests \<Rightarrow> overlay \<Rightarrow> carried list" where
  "kept_rows c D ov = concat (map (\<lambda>e. case verdict_at c D ov e of Carried k \<Rightarrow> [k] | _ \<Rightarrow> []) (map snd (entries ov)))"

definition orphaned_rows :: "commits \<Rightarrow> digests \<Rightarrow> overlay \<Rightarrow> overlay_entry list" where
  "orphaned_rows c D ov = filter (\<lambda>e. verdict_at c D ov e = Orphaned) (map snd (entries ov))"

definition all_kept :: "commits \<Rightarrow> digests \<Rightarrow> overlay \<Rightarrow> carried list" where
  "all_kept c D ov = with_orphans (entries ov) (kept_rows c D ov) (orphaned_rows c D ov)"

definition carried_at :: "carry \<Rightarrow> path \<Rightarrow> carried option" where
  "carried_at cy x = List.find (\<lambda>k. cd_path k = x) (cy_rows cy)"

lemma row_member:
  assumes m: "bt_ok m" "keyed (bt_get m)"
  shows "e \<in> set (map snd m) \<longleftrightarrow> bt_get m (e_path e) = Some e"
proof
  assume "e \<in> set (map snd m)"
  then obtain p where "bt_get m p = Some e" using bt_get_iff_mem [OF m(1)] by fastforce
  then show "bt_get m (e_path e) = Some e" using keyedD [OF m(2)] by metis
next
  assume "bt_get m (e_path e) = Some e"
  then have "(e_path e, e) \<in> set m" using bt_get_iff_mem [OF m(1)] by blast
  then show "e \<in> set (map snd m)" by force
qed

lemma rows_distinct:
  assumes m: "bt_ok m" "keyed (bt_get m)"
  shows "distinct (map e_path (map snd m))"
proof -
  have "e_path (snd pe) = fst pe" if "pe \<in> set m" for pe
    using that bt_get_iff_mem [OF m(1), of "fst pe" "snd pe"] keyedD [OF m(2)] by simp
  then have "map (e_path \<circ> snd) m = map fst m" by simp
  then show ?thesis using bt_ok_distinct [OF m(1)] by (simp del: map_eq_conv)
qed

lemma wanted_row: "e \<in> set es \<Longrightarrow> target_at c es (e_path e) = at_to c (e_path e)"
  by (auto simp: target_at_def wanted_def)

lemma wanted_above: "e \<in> set es \<Longrightarrow> e_present e \<Longrightarrow> a \<in> set (ancestors_of (e_path e)) \<Longrightarrow> a \<noteq> [] \<Longrightarrow> target_at c es a = at_to c a"
  by (auto simp: target_at_def wanted_def)

text \<open>A plan that is not refused.\<close>

lemma plan_shape:
  assumes "plan_carry c D ov = Inr (Some cy)"
    and "all_missing (target_at c (map snd (entries ov))) (entries ov) (set (map cd_path (all_kept c D ov))) (all_kept c D ov) ({}, [])
      = (made, missing)"
  shows "cy = \<lparr>cy_rows = all_kept c D ov, cy_directories = map (\<lambda>d. (d, number_of c d)) (sorted_list_of_set made),
      cy_sequence = sequence ov\<rparr>"
    and "unwritten c (entries ov) = []" and "missing = []"
    and "e \<in> set (map snd (entries ov)) \<Longrightarrow> verdict_at c D ov e \<noteq> Refused z"
proof -
  have "judge_rows c D (files ov) (entries ov) (map snd (entries ov)) = (kept_rows c D ov, orphaned_rows c D ov,
      concat (map (\<lambda>e. case verdict_at c D ov e of Refused x \<Rightarrow> [x] | _ \<Rightarrow> []) (map snd (entries ov))))"
    unfolding judge_rows_eq kept_rows_def orphaned_rows_def verdict_at_def ..
  note p = assms(1) [unfolded plan_carry_def Let_def this prod.case all_kept_def [symmetric] assms(2) refuse_or_def]
  show "cy = \<lparr>cy_rows = all_kept c D ov, cy_directories = map (\<lambda>d. (d, number_of c d)) (sorted_list_of_set made),
      cy_sequence = sequence ov\<rparr>" "unwritten c (entries ov) = []" "missing = []"
    using p by (auto split: if_splits)
  show "verdict_at c D ov e \<noteq> Refused z" if "e \<in> set (map snd (entries ov))"
    using p that by (force split: if_splits)
qed

lemma carried_mem:
  "k \<in> set (concat (map (\<lambda>e. case V e of Carried k \<Rightarrow> [k] | _ \<Rightarrow> []) es)) \<longleftrightarrow> (\<exists>e \<in> set es. V e = Carried k)"
  by (induction es) (auto split: verdict.splits)

lemma orphan_mem:
  "k \<in> set (map (\<lambda>e. keep_as e None True True) (filter P (filter Q es))) \<longleftrightarrow> (\<exists>e \<in> set es. Q e \<and> P e \<and> k = keep_as e None True True)"
  by auto

lemma all_kept_mem:
  "k \<in> set (all_kept c D ov) \<longleftrightarrow> (\<exists>e \<in> set (map snd (entries ov)). verdict_at c D ov e = Carried k
      \<or> (verdict_at c D ov e = Orphaned \<and> e_path e \<in> under_kept (entries ov) (kept_rows c D ov) \<and> k = keep_as e None True True))"
proof -
  have "k \<in> set (kept_rows c D ov) \<longleftrightarrow> (\<exists>e \<in> set (map snd (entries ov)). verdict_at c D ov e = Carried k)"
    unfolding kept_rows_def by (rule carried_mem)
  then show ?thesis unfolding all_kept_def with_orphans_def orphaned_rows_def set_append Un_iff orphan_mem by blast
qed

lemma kept_path: "verdict_at c D ov e = Carried k \<or> k = keep_as e b z r \<Longrightarrow> cd_path k = e_path e"
  by (auto simp: verdict_at_def keep_as_def dest: judge_path)

lemma kept_paths_distinct:
  assumes "distinct (map e_path es)"
  shows "distinct (map cd_path (concat (map (\<lambda>e. case verdict_at c D ov e of Carried k \<Rightarrow> [k] | _ \<Rightarrow> []) es)
      @ map (\<lambda>e. keep_as e None True True) (filter P (filter (\<lambda>e. verdict_at c D ov e = Orphaned) es))))"
  using assms
proof (induction es)
  case (Cons e es)
  let ?l = "concat (map (\<lambda>e. case verdict_at c D ov e of Carried k \<Rightarrow> [k] | _ \<Rightarrow> []) es)"
  let ?r = "map (\<lambda>e. keep_as e None True True) (filter P (filter (\<lambda>e. verdict_at c D ov e = Orphaned) es))"
  have ih: "distinct (map cd_path (?l @ ?r))" using Cons by simp
  have from_es: "cd_path k \<in> e_path ` set es" if k: "k \<in> set ?l \<or> k \<in> set ?r" for k
  proof -
    from k obtain d where "d \<in> set es" "verdict_at c D ov d = Carried k \<or> k = keep_as d None True True"
      unfolding carried_mem orphan_mem by blast
    then show ?thesis using kept_path [of c D ov d k] by auto
  qed
  have new: "e_path e \<notin> e_path ` set es" using Cons.prems by simp
  have fresh: "e_path e \<notin> cd_path ` set ?l" "e_path e \<notin> cd_path ` set ?r"
    by (rule notI, erule imageE, drule from_es [OF disjI1] from_es [OF disjI2], use new in metis)+
  show ?case
  proof (cases "verdict_at c D ov e")
    case (Carried k)
    have "cd_path k = e_path e" using kept_path Carried by blast
    moreover have "map cd_path (concat (map (\<lambda>e. case verdict_at c D ov e of Carried k \<Rightarrow> [k] | _ \<Rightarrow> []) (e # es))
        @ map (\<lambda>e. keep_as e None True True) (filter P (filter (\<lambda>e. verdict_at c D ov e = Orphaned) (e # es))))
      = cd_path k # map cd_path (?l @ ?r)" by (simp add: Carried)
    ultimately show ?thesis using ih fresh by (simp only: distinct.simps set_map set_append image_Un Un_iff) blast
  next
    case Orphaned
    have "cd_path (keep_as e None True True) = e_path e" by (simp add: keep_as_def)
    then have o: "map cd_path (concat (map (\<lambda>e. case verdict_at c D ov e of Carried k \<Rightarrow> [k] | _ \<Rightarrow> []) (e # es))
        @ map (\<lambda>e. keep_as e None True True) (filter P (filter (\<lambda>e. verdict_at c D ov e = Orphaned) (e # es))))
      = map cd_path ?l @ (if P e then [e_path e] else []) @ map cd_path ?r" by (simp add: Orphaned)
    show ?thesis unfolding o using ih fresh by (simp only: map_append distinct_append) auto
  qed (use ih in simp_all)
qed simp

lemma carried_at_spec:
  assumes ok: "bt_ok (entries ov)" "keyed (bt_get (entries ov))" and cy: "cy_rows cy = all_kept c D ov"
  shows "k \<in> set (cy_rows cy) \<longleftrightarrow> carried_at cy (cd_path k) = Some k"
    and "carried_at cy x = Some k \<Longrightarrow> \<exists>e. bt_get (entries ov) x = Some e \<and> cd_path k = x
      \<and> (verdict_at c D ov e = Carried k \<or> verdict_at c D ov e = Orphaned \<and> k = keep_as e None True True)"
    and "bt_get (entries ov) x = Some e \<Longrightarrow> verdict_at c D ov e = Carried k \<Longrightarrow> carried_at cy x = Some k"
proof -
  have "distinct (map cd_path (all_kept c D ov))"
    unfolding all_kept_def with_orphans_def kept_rows_def orphaned_rows_def
    by (rule kept_paths_distinct [OF rows_distinct [OF ok]])
  note distinct = this
  have find: "List.find (\<lambda>k. cd_path k = cd_path k') (all_kept c D ov) = Some k'" if "k' \<in> set (all_kept c D ov)" for k'
    by (rule find_key [OF distinct that])
  show "k \<in> set (cy_rows cy) \<longleftrightarrow> carried_at cy (cd_path k) = Some k"
    using find by (auto simp: carried_at_def cy find_Some_iff)
  show "\<exists>e. bt_get (entries ov) x = Some e \<and> cd_path k = x
      \<and> (verdict_at c D ov e = Carried k \<or> verdict_at c D ov e = Orphaned \<and> k = keep_as e None True True)"
    if "carried_at cy x = Some k"
  proof -
    have k: "k \<in> set (all_kept c D ov)" "cd_path k = x" using that by (auto simp: carried_at_def cy find_Some_iff)
    then obtain e where e: "e \<in> set (map snd (entries ov))"
        "verdict_at c D ov e = Carried k \<or> verdict_at c D ov e = Orphaned \<and> k = keep_as e None True True"
      unfolding all_kept_mem by blast
    then have "cd_path k = e_path e" using kept_path by blast
    then show ?thesis using e k(2) row_member [OF ok] by metis
  qed
  show "carried_at cy x = Some k" if "bt_get (entries ov) x = Some e" "verdict_at c D ov e = Carried k"
  proof -
    have p: "e_path e = x" using that(1) ok by (auto dest: keyedD)
    then have "e \<in> set (map snd (entries ov))" using that(1) row_member [OF ok] by simp
    then have k: "k \<in> set (all_kept c D ov)" using that(2) unfolding all_kept_mem by blast
    have "cd_path k = x" using kept_path [of c D ov e k] that(2) p by simp
    then show ?thesis using find [OF k] by (simp add: carried_at_def cy)
  qed
qed

section \<open>The rows after the switch\<close>

lemma keep_rows_eq:
  "keep_rows ov ks = Inr kept \<Longrightarrow> kept = map (\<lambda>k. keep_row ov k (the (bt_get (entries ov) (cd_path k)))) ks"
  by (induction ks arbitrary: kept) (auto split: option.splits sum.splits)

lemma keep_row_same:
  "e_path (keep_row ov k e) = e_path e" "e_present (keep_row ov k e) = e_present e" "e_kind (keep_row ov k e) = e_kind e"
  "e_opaque (keep_row ov k e) = cd_opaque k" "e_symlink_target (keep_row ov k e) = e_symlink_target e"
  "e_size (keep_row ov k e) = e_size e"
  by (simp_all add: keep_row_def Let_def split: option.splits)

lemma keep_row_content:
  "e_content (keep_row ov k e) = e_content e \<or> (\<exists>oid. cd_rehome k = Some oid \<and> e_content (keep_row ov k e) = CBase oid)"
  by (simp add: keep_row_def Let_def split: option.splits)

lemma make_directories_spec:
  "make_directories ds ov = (dirs, ov1) \<Longrightarrow> map e_path dirs = map fst ds
     \<and> (\<forall>d \<in> set dirs. e_present d \<and> e_kind d = ODirectory \<and> e_opaque d \<and> e_content d = CNone \<and> e_base d = None)
     \<and> entries ov1 = entries ov \<and> files ov1 = files ov \<and> by_content ov1 = by_content ov"
proof (induction ds arbitrary: dirs ov ov1)
  case (Cons x ds)
  obtain p i where x: "x = (p, i)" by force
  obtain ino ova where a: "adopt_ino i ov = (ino, ova)" by force
  obtain now ovb where b: "next_time ova = (now, ovb)" by force
  obtain es ovc where r: "make_directories ds ovb = (es, ovc)" by force
  have "entries ovb = entries ov \<and> files ovb = files ov \<and> by_content ovb = by_content ov"
    using a b by (auto simp: adopt_ino_def allocate_ino_def next_time_def Let_def split: if_splits)
  with Cons.IH [OF r] Cons.prems show ?case by (auto simp: x a b r)
qed simp

lemma index_content_get:
  "bt_get (fold index_content es ix) i \<noteq> None \<longleftrightarrow> bt_get ix i \<noteq> None \<or> (\<exists>e \<in> set es. local_id (e_content e) = Some i)"
  by (induction es arbitrary: ix) (auto simp: index_content_def split: option.splits)

lemma get_filter_ids: "bt_get (filter (\<lambda>(i, bs). P i) F) i = (if P i then bt_get F i else None)"
  by (induction F) auto

lemma rebound_rows:
  assumes ok: "bt_ok (entries ov)" "keyed (bt_get (entries ov))" and cy: "cy_rows cy = all_kept c D ov"
    and dirs: "cy_directories cy = map (\<lambda>d. (d, num d)) (sorted_list_of_set made)" "finite made"
    and new: "\<And>d. d \<in> made \<Longrightarrow> carried_at cy d = None"
    and re: "rebind b (Some cy) ov = (Inr (), ov')"
  shows "carried_at cy x = Some k \<Longrightarrow> bt_get (entries ov) x = Some e \<Longrightarrow> bt_get (entries ov') x = Some (keep_row ov k e)"
    and "x \<in> made \<Longrightarrow> \<exists>d. bt_get (entries ov') x = Some d \<and> e_present d \<and> e_kind d = ODirectory \<and> e_opaque d \<and> e_base d = None"
    and "carried_at cy x = None \<Longrightarrow> x \<notin> made \<Longrightarrow> bt_get (entries ov') x = None"
    and "bt_get (entries ov') x = Some e' \<Longrightarrow> e_content e' = CLocal i \<Longrightarrow> bt_get (files ov') i = bt_get (files ov) i"
    and "bt_get (entries ov') x = Some e' \<Longrightarrow> e_path e' = x"
proof -
  obtain kept where kr: "keep_rows ov (cy_rows cy) = Inr kept"
    using re by (auto simp: rebind_def split: if_splits sum.splits)
  obtain ds ov1 where md: "make_directories (cy_directories cy) ov = (ds, ov1)" by force
  have ov': "entries ov' = fold (\<lambda>e. bt_insert (e_path e) e) (kept @ ds) []"
    "files ov' = filter (\<lambda>(i, bs). i \<notin> set (map fst (by_content ov1)) \<or> i \<in> set (map fst (fold index_content (kept @ ds) []))) (files ov1)"
    using re kr md by (auto simp: rebind_def install_kept_def Let_def split: if_splits)
  have kept: "kept = map (\<lambda>k. keep_row ov k (the (bt_get (entries ov) (cd_path k)))) (cy_rows cy)" by (rule keep_rows_eq [OF kr])
  note spec = carried_at_spec [OF ok cy] and mds = make_directories_spec [OF md]
  have dist: "distinct (map cd_path (cy_rows cy))"
    unfolding cy all_kept_def with_orphans_def kept_rows_def orphaned_rows_def by (rule kept_paths_distinct [OF rows_distinct [OF ok]])
  have row: "bt_get (entries ov) (cd_path k) = Some e \<and> e_path e = cd_path k"
    if k: "k \<in> set (cy_rows cy)" and e: "e = the (bt_get (entries ov) (cd_path k))" for k e
  proof -
    obtain e' where "bt_get (entries ov) (cd_path k) = Some e'" using spec(2) [of "cd_path k" k] spec(1) [of k] k by blast
    then show ?thesis using e keyedD [OF ok(2)] by simp
  qed
  have kp: "map e_path kept = map cd_path (cy_rows cy)" using row unfolding kept by (simp add: keep_row_same)
  have dp: "map e_path ds = sorted_list_of_set made" using mds dirs by (simp add: o_def)
  have "x \<notin> made" if "x \<in> set (map cd_path (cy_rows cy))" for x using new spec(1) that by fastforce
  then have dist': "distinct (map e_path (kept @ ds))" using dist dp dirs(2) kp by (auto simp: set_map [symmetric] simp del: set_map)
  note get = rebuilt_distinct [OF dist', folded ov'(1)]
  show "bt_get (entries ov') x = Some e' \<Longrightarrow> e_path e' = x"
    by (auto simp: ov'(1) rebuilt_rows find_Some_iff simp del: fold_append rev_append split: option.splits)
  show "bt_get (entries ov') x = Some (keep_row ov k e)" if "carried_at cy x = Some k" "bt_get (entries ov) x = Some e"
  proof -
    have k: "k \<in> set (cy_rows cy)" "cd_path k = x" using spec(1,2) that(1) by blast+
    then have "keep_row ov k e \<in> set kept" using that(2) unfolding kept by force
    moreover have "e_path (keep_row ov k e) = x" using keyedD [OF ok(2) that(2)] by (simp add: keep_row_same)
    ultimately show ?thesis using get(1) [of "keep_row ov k e"] by simp
  qed
  show "\<exists>d. bt_get (entries ov') x = Some d \<and> e_present d \<and> e_kind d = ODirectory \<and> e_opaque d \<and> e_base d = None" if "x \<in> made"
  proof -
    have "x \<in> set (map e_path ds)" using that dp dirs(2) by simp
    then obtain d where "d \<in> set ds" "e_path d = x" by auto
    then show ?thesis using get(1) [of d] mds by auto
  qed
  show "bt_get (entries ov') x = None" if "carried_at cy x = None" "x \<notin> made"
  proof (rule get(2))
    have "x \<notin> set (map cd_path (cy_rows cy))"
    proof
      assume "x \<in> set (map cd_path (cy_rows cy))"
      then obtain k where "k \<in> set (cy_rows cy)" "cd_path k = x" by auto
      then show False using spec(1) that(1) by fastforce
    qed
    then show "x \<notin> e_path ` set (kept @ ds)" using that(2) dp dirs(2) kp by (metis Un_iff image_Un list.set_map set_append set_sorted_list_of_set)
  qed
  show "bt_get (files ov') i = bt_get (files ov) i" if e': "bt_get (entries ov') x = Some e'" "e_content e' = CLocal i"
  proof -
    have "e' \<in> set (kept @ ds)"
      using e'(1) get by (cases "x \<in> e_path ` set (kept @ ds)") (auto 0 3)
    then have "bt_get (fold index_content (kept @ ds) []) i \<noteq> None" using e'(2) unfolding index_content_get by force
    then have "i \<in> set (map fst (fold index_content (kept @ ds) []))" by (simp add: map_of_eq_None_iff)
    then show ?thesis unfolding ov'(2) get_filter_ids using mds by (simp del: fold_append)
  qed
qed

section \<open>Verdicts\<close>

text \<open>A plan that was not refused, with its made directories.\<close>

lemma planned:
  assumes plan: "plan_carry c D ov = Inr (Some cy)" and ws: "workspace_ok c ov"
  obtains made where "finite made" and "cy_directories cy = map (\<lambda>d. (d, number_of c d)) (sorted_list_of_set made)"
    and "cy_rows cy = all_kept c D ov" and "unwritten c (entries ov) = []"
    and "\<And>x e z. bt_get (entries ov) x = Some e \<Longrightarrow> verdict_at c D ov e \<noteq> Refused z"
    and "\<And>d. d \<in> made \<Longrightarrow> carried_at cy d = None \<and> at_to c d = None
        \<and> (\<exists>x e. bt_get (entries ov) x = Some e \<and> e_present e \<and> below x d \<and> carried_at cy x \<noteq> None)"
    and "\<And>x e k d. bt_get (entries ov) x = Some e \<Longrightarrow> e_present e \<Longrightarrow> carried_at cy x = Some k \<Longrightarrow> below x d \<Longrightarrow>
        carried_at cy d \<noteq> None \<or> d \<in> made \<or> (\<exists>f. at_to c d = Some f \<and> is_directory f)"
proof -
  let ?es = "map snd (entries ov)"
  note ok = workspaceD(1,2) [OF ws]
  obtain made missing where am: "all_missing (target_at c ?es) (entries ov) (set (map cd_path (all_kept c D ov))) (all_kept c D ov) ({}, [])
      = (made, missing)" by force
  note shape = plan_shape [OF plan am]
  note am' = all_missing_spec [OF am shape(3)]
  then have complete: "\<forall>k \<in> set (all_kept c D ov). present_at (entries ov) (cd_path k) \<longrightarrow> (\<forall>d \<in> set (ancestors_of (cd_path k)).
      d = [] \<or> d \<in> set (map cd_path (all_kept c D ov)) \<or> d \<in> made \<or> (\<exists>f. target_at c ?es d = Some f \<and> is_directory f))"
    by (elim conjE)
  have cy: "cy_rows cy = all_kept c D ov" using shape(1) by simp
  note spec = carried_at_spec [OF ok cy]
  have at: "at_to c d = target_at c ?es d" "below x d" if e: "bt_get (entries ov) x = Some e" "e_present e" and d: "d \<in> set (ancestors_of x)" "d \<noteq> []" for x e d
  proof -
    have "e_path e = x" using keyedD [OF ok(2) e(1)] by simp
    then have "e \<in> set ?es" "d \<in> set (ancestors_of (e_path e))" using row_member [OF ok] e(1) d(1) by simp_all
    then show "at_to c d = target_at c ?es d" using wanted_above e(2) d(2) by simp
    show "below x d" using d by (simp add: ancestors_iff)
  qed
  have pres: "present_at (entries ov) x \<longleftrightarrow> (\<exists>e. bt_get (entries ov) x = Some e \<and> e_present e)" for x
    by (simp add: present_at_def split: option.splits)
  have kept: "d \<in> set (map cd_path (all_kept c D ov)) \<longleftrightarrow> carried_at cy d \<noteq> None" for d
    using spec(1,2) cy by fastforce
  show thesis
  proof (rule that [of made])
    show "finite made" using am' by simp
    show "cy_directories cy = map (\<lambda>d. (d, number_of c d)) (sorted_list_of_set made)" using shape(1) by simp
    show "verdict_at c D ov e \<noteq> Refused z" if "bt_get (entries ov) x = Some e" for x e z
      using shape(4) row_member [OF ok, of e] keyedD [OF ok(2) that] that by simp
    show "carried_at cy d = None \<and> at_to c d = None
        \<and> (\<exists>x e. bt_get (entries ov) x = Some e \<and> e_present e \<and> below x d \<and> carried_at cy x \<noteq> None)" if d: "d \<in> made" for d
    proof -
      from am' d obtain k where k: "d \<noteq> []" "d \<notin> set (map cd_path (all_kept c D ov))" "target_at c ?es d = None"
          "k \<in> set (all_kept c D ov)" "present_at (entries ov) (cd_path k)" "d \<in> set (ancestors_of (cd_path k))" by blast
      from k(5) obtain e where e: "bt_get (entries ov) (cd_path k) = Some e" "e_present e" using pres by blast
      have "carried_at cy (cd_path k) = Some k" using spec(1) cy k(4) by simp
      then show ?thesis using at [OF e k(6,1)] k(2,3) kept e by auto
    qed
    show "carried_at cy d \<noteq> None \<or> d \<in> made \<or> (\<exists>f. at_to c d = Some f \<and> is_directory f)"
      if e: "bt_get (entries ov) x = Some e" "e_present e" and k: "carried_at cy x = Some k" and b: "below x d" for x e k d
    proof -
      have x: "cd_path k = x" using spec(2) [OF k] by blast
      have x': "k \<in> set (all_kept c D ov)" using spec(1) [of k] k x cy by simp
      have d: "d \<in> set (ancestors_of x)" "d \<noteq> []" using b good_below_not_Nil keyedD [OF ok(2) e(1)] by (auto simp: ancestors_iff)
      have "present_at (entries ov) (cd_path k)" using pres x e by blast
      with complete x x' d(1) have "d = [] \<or> d \<in> set (map cd_path (all_kept c D ov)) \<or> d \<in> made
          \<or> (\<exists>f. target_at c ?es d = Some f \<and> is_directory f)" by blast
      then show ?thesis using d(2) unfolding kept at(1) [OF e d] by blast
    qed
  qed (use shape cy in auto)
qed

lemma target_row: "bt_ok m \<Longrightarrow> keyed (bt_get m) \<Longrightarrow> bt_get m x = Some e \<Longrightarrow> target_at c (map snd m) (e_path e) = at_to c x"
  using wanted_row [of e "map snd m" c] row_member [of m e] keyedD [of "bt_get m" x e] by simp

lemma carried_directory:
  assumes "workspace_ok c ov" and "bt_get (entries ov) x = Some e" and "e_present e" "is_dir (e_kind e)"
    and "verdict_at c D ov e = Carried k \<or> verdict_at c D ov e = Orphaned \<and> k = keep_as e None True True"
  shows "at_to c x = None \<or> \<not> cd_opaque k \<and> (\<exists>f. at_to c x = Some f \<and> is_directory f)
    \<or> same_entry (at_head c x) (at_to c x) \<and> at_head c x \<noteq> None \<and> cd_opaque k = e_opaque e"
  using assms(3-) target_row [OF workspaceD(1,2) [OF assms(1)] assms(2), of c] workspaceD(3) [OF assms(1,2)]
  by (auto simp: verdict_at_def judge_def judge_directory_def Let_def keep_as_def split: option.splits if_splits)

lemma carried_file:
  assumes "workspace_ok c ov" and "bt_get (entries ov) x = Some e" and "\<not> (e_present e \<and> is_dir (e_kind e))"
    and "verdict_at c D ov e = Carried k"
  shows "same_entry (at_head c x) (at_to c x) \<and> (cd_rehome k = None
    \<or> (\<exists>f. at_head c x = Some f \<and> cd_rehome k = Some (bf_oid f) \<and> clean_row c D (files ov) e))"
  using assms(3-) target_row [OF workspaceD(1,2) [OF assms(1)] assms(2), of c] workspaceD(3) [OF assms(1,2)]
  by (auto simp: verdict_at_def judge_def judge_file_def Let_def keep_as_def split: option.splits if_splits content.splits)

lemma not_orphaned: "\<not> (e_present e \<and> is_dir (e_kind e)) \<Longrightarrow> verdict_at c D ov e \<noteq> Orphaned"
  by (auto simp: verdict_at_def judge_def judge_file_def Let_def split: option.splits if_splits content.splits)

lemma discarded_file:
  assumes "workspace_ok c ov" and "bt_get (entries ov) x = Some e" and "\<not> (e_present e \<and> is_dir (e_kind e))"
    and "verdict_at c D ov e = Discarded"
  shows "clean_row c D (files ov) e \<and> (at_head c x = None \<or> \<not> same_entry (at_head c x) (at_to c x))
    \<or> \<not> e_present e \<and> at_to c x = None"
  using assms(3-) target_row [OF workspaceD(1,2) [OF assms(1)] assms(2), of c] workspaceD(3) [OF assms(1,2)]
  by (auto simp: verdict_at_def judge_def judge_file_def clean_row_def Let_def keep_as_def split: option.splits if_splits content.splits)

lemma discarded_directory: "e_present e \<Longrightarrow> is_dir (e_kind e) \<Longrightarrow> verdict_at c D ov e \<noteq> Discarded"
  by (auto simp: verdict_at_def judge_def judge_directory_def Let_def split: option.splits if_splits)

section \<open>What is hidden\<close>

lemma keyed_root: "keyed R \<Longrightarrow> R [] = None"
  by (metis keyedD good_not_Nil option.exhaust)

lemma row_above: "keyed R \<Longrightarrow> (\<exists>a \<in> set (ancestors_of p). \<exists>e. R a = Some e \<and> P e) \<longleftrightarrow> (\<exists>a e. below p a \<and> R a = Some e \<and> P e)"
  using keyed_root [of R] unfolding Bex_def ancestors_iff by (metis below_Nil option.distinct(1))

lemma hidden_eq: "keyed R \<Longrightarrow> hidden R p \<longleftrightarrow> blocked R p \<or> masked R p"
  unfolding hidden_def blocked_def masked_def hides_def using row_above [of R p blocking] row_above [of R p e_opaque] by blast

lemma blocked_below: "keyed R \<Longrightarrow> blocked R p \<longleftrightarrow> (\<exists>a e. below p a \<and> R a = Some e \<and> blocking e)"
  unfolding blocked_def by (rule row_above)

lemma git_seen_cases:
  assumes "keyed (bt_get (entries ov))"
  shows "bt_get (entries ov) p = None \<Longrightarrow>
      git_seen T D ov p = (if hidden (bt_get (entries ov)) p then None else tracked T p)"
    and "bt_get (entries ov) p = Some e \<Longrightarrow> \<not> e_present e \<or> is_dir (e_kind e) \<Longrightarrow> git_seen T D ov p = None"
    and "bt_get (entries ov) p = Some e \<Longrightarrow> e_present e \<Longrightarrow> \<not> is_dir (e_kind e) \<Longrightarrow> \<not> blocked (bt_get (entries ov)) p \<Longrightarrow>
      git_seen T D ov p = map_option (Pair (e_kind e)) (row_oid D (files ov) e)"
  using hidden_eq [OF assms, of p] by (auto simp: git_seen_def resolve_eq resolves_def)

lemma tree_above: "tree_ok T \<Longrightarrow> below p a \<Longrightarrow> a \<noteq> [] \<Longrightarrow> \<not> (\<exists>f. T a = Some f \<and> is_directory f) \<Longrightarrow> T p = None"
  unfolding tree_ok_def by (metis option.exhaust)

lemma commitsD:
  assumes "commits_ok c"
  shows "tree_ok (at_from c)" "tree_ok (at_head c)" "tree_ok (at_to c)"
    and "same_entry (at_head c a) (at_to c a) \<Longrightarrow> below p a \<Longrightarrow> a \<noteq> [] \<Longrightarrow> at_to c p = None \<or> at_to c p = at_head c p"
    and "\<not> adopting c \<Longrightarrow> at_head c = at_from c"
    and "adopting c \<Longrightarrow> tracked (at_from c) p \<noteq> tracked (at_head c) p \<Longrightarrow> p \<in> set (changed_paths c)"
    and "adopting c \<Longrightarrow> below p a \<Longrightarrow> tracked (at_head c) p \<noteq> None \<Longrightarrow> p \<in> set (files_under c a)"
proof -
  show "tree_ok (at_from c)" "tree_ok (at_head c)" and to: "tree_ok (at_to c)" using assms by (simp_all add: commits_ok_def)
  show "at_to c p = None \<or> at_to c p = at_head c p" if s: "same_entry (at_head c a) (at_to c a)" and p: "below p a" "a \<noteq> []"
  proof (cases "\<exists>g. at_to c a = Some g \<and> is_directory g")
    case True
    then obtain f g where fg: "at_head c a = Some f" "at_to c a = Some g" "is_directory f" "bf_oid f = bf_oid g"
      using s by (auto simp: same_entry_def is_directory_def split: option.splits)
    have "\<forall>a f g p. at_head c a = Some f \<longrightarrow> at_to c a = Some g \<longrightarrow> is_directory f \<longrightarrow> bf_oid f = bf_oid g \<longrightarrow>
          below p a \<longrightarrow> at_head c p = at_to c p" using assms by (simp add: commits_ok_def)
    with fg p(1) have "at_head c p = at_to c p" by blast
    then show ?thesis by simp
  next
    case False
    then show ?thesis using tree_above [OF to p] by blast
  qed
  show "\<not> adopting c \<Longrightarrow> at_head c = at_from c" using assms by (simp add: commits_ok_def)
  show "adopting c \<Longrightarrow> tracked (at_from c) p \<noteq> tracked (at_head c) p \<Longrightarrow> p \<in> set (changed_paths c)"
    using assms by (simp add: commits_ok_def)
  show "adopting c \<Longrightarrow> below p a \<Longrightarrow> tracked (at_head c) p \<noteq> None \<Longrightarrow> p \<in> set (files_under c a)"
    using assms unfolding commits_ok_def by metis
qed

text \<open>The relation between the rows before and after.\<close>

definition switched :: "commits \<Rightarrow> digests \<Rightarrow> overlay \<Rightarrow> carry \<Rightarrow> path set \<Rightarrow> overlay \<Rightarrow> bool" where
  "switched c D ov cy made ov' \<longleftrightarrow>
     (\<forall>x k e. carried_at cy x = Some k \<longrightarrow> bt_get (entries ov) x = Some e \<longrightarrow> bt_get (entries ov') x = Some (keep_row ov k e))
     \<and> (\<forall>x. x \<in> made \<longrightarrow> (\<exists>d. bt_get (entries ov') x = Some d \<and> e_present d \<and> e_kind d = ODirectory \<and> e_opaque d \<and> e_base d = None))
     \<and> (\<forall>x. carried_at cy x = None \<longrightarrow> x \<notin> made \<longrightarrow> bt_get (entries ov') x = None)
     \<and> (\<forall>x e' i. bt_get (entries ov') x = Some e' \<longrightarrow> e_content e' = CLocal i \<longrightarrow> bt_get (files ov') i = bt_get (files ov) i)
     \<and> (\<forall>x k. carried_at cy x = Some k \<longrightarrow> (\<exists>e. bt_get (entries ov) x = Some e
          \<and> (verdict_at c D ov e = Carried k \<or> verdict_at c D ov e = Orphaned \<and> k = keep_as e None True True)))
     \<and> (\<forall>x e k. bt_get (entries ov) x = Some e \<longrightarrow> verdict_at c D ov e = Carried k \<longrightarrow> carried_at cy x = Some k)
     \<and> (\<forall>x e z. bt_get (entries ov) x = Some e \<longrightarrow> verdict_at c D ov e \<noteq> Refused z)
     \<and> (\<forall>d \<in> made. carried_at cy d = None \<and> at_to c d = None
        \<and> (\<exists>x e. bt_get (entries ov) x = Some e \<and> e_present e \<and> below x d \<and> carried_at cy x \<noteq> None))
     \<and> (\<forall>x e k d. bt_get (entries ov) x = Some e \<longrightarrow> e_present e \<longrightarrow> carried_at cy x = Some k \<longrightarrow> below x d \<longrightarrow>
        carried_at cy d \<noteq> None \<or> d \<in> made \<or> (\<exists>f. at_to c d = Some f \<and> is_directory f))
     \<and> unwritten c (entries ov) = []
     \<and> (\<forall>x e'. bt_get (entries ov') x = Some e' \<longrightarrow> e_path e' = x)"

lemma switched_exists:
  assumes "plan_carry c D ov = Inr (Some cy)" and ws: "workspace_ok c ov" and "rebind b (Some cy) ov = (Inr (), ov')"
  shows "\<exists>made. switched c D ov cy made ov'"
proof (rule planned [OF assms(1,2)])
  fix made
  assume fin: "finite made" and dirs: "cy_directories cy = map (\<lambda>d. (d, number_of c d)) (sorted_list_of_set made)"
    and cy: "cy_rows cy = all_kept c D ov" and un: "unwritten c (entries ov) = []"
    and ref: "\<And>x e z. bt_get (entries ov) x = Some e \<Longrightarrow> verdict_at c D ov e \<noteq> Refused z"
    and made: "\<And>d. d \<in> made \<Longrightarrow> carried_at cy d = None \<and> at_to c d = None
        \<and> (\<exists>x e. bt_get (entries ov) x = Some e \<and> e_present e \<and> below x d \<and> carried_at cy x \<noteq> None)"
    and comp: "\<And>x e k d. bt_get (entries ov) x = Some e \<Longrightarrow> e_present e \<Longrightarrow> carried_at cy x = Some k \<Longrightarrow> below x d \<Longrightarrow>
        carried_at cy d \<noteq> None \<or> d \<in> made \<or> (\<exists>f. at_to c d = Some f \<and> is_directory f)"
  note ok = workspaceD(1,2) [OF ws]
  have new: "\<And>d. d \<in> made \<Longrightarrow> carried_at cy d = None" using made by blast
  note rows = rebound_rows [OF ok cy dirs fin new assms(3)] and spec = carried_at_spec [OF ok cy]
  have "switched c D ov cy made ov'"
    unfolding switched_def
  proof (intro conjI)
    show "\<forall>x k. carried_at cy x = Some k \<longrightarrow> (\<exists>e. bt_get (entries ov) x = Some e
          \<and> (verdict_at c D ov e = Carried k \<or> verdict_at c D ov e = Orphaned \<and> k = keep_as e None True True))"
      using spec(2) by blast
    show "\<forall>x k e. carried_at cy x = Some k \<longrightarrow> bt_get (entries ov) x = Some e \<longrightarrow> bt_get (entries ov') x = Some (keep_row ov k e)"
      using rows(1) by simp
    show "\<forall>x. x \<in> made \<longrightarrow> (\<exists>d. bt_get (entries ov') x = Some d \<and> e_present d \<and> e_kind d = ODirectory \<and> e_opaque d \<and> e_base d = None)"
      using rows(2) by simp
    show "\<forall>x. carried_at cy x = None \<longrightarrow> x \<notin> made \<longrightarrow> bt_get (entries ov') x = None" using rows(3) by simp
    show "\<forall>x e' i. bt_get (entries ov') x = Some e' \<longrightarrow> e_content e' = CLocal i \<longrightarrow> bt_get (files ov') i = bt_get (files ov) i"
      using rows(4) by simp
    show "\<forall>x e k. bt_get (entries ov) x = Some e \<longrightarrow> verdict_at c D ov e = Carried k \<longrightarrow> carried_at cy x = Some k"
      using spec(3) by simp
    show "\<forall>x e k d. bt_get (entries ov) x = Some e \<longrightarrow> e_present e \<longrightarrow> carried_at cy x = Some k \<longrightarrow> below x d \<longrightarrow>
        carried_at cy d \<noteq> None \<or> d \<in> made \<or> (\<exists>f. at_to c d = Some f \<and> is_directory f)" using comp by simp
    show "\<forall>x e'. bt_get (entries ov') x = Some e' \<longrightarrow> e_path e' = x" using rows(5) by simp
  qed (use ref made un in simp_all)
  then show ?thesis by blast
qed

lemma switchedD:
  assumes "switched c D ov cy made ov'"
  shows "carried_at cy x = Some k \<Longrightarrow> bt_get (entries ov) x = Some e \<Longrightarrow> bt_get (entries ov') x = Some (keep_row ov k e)"
    and "x \<in> made \<Longrightarrow> \<exists>d. bt_get (entries ov') x = Some d \<and> e_present d \<and> e_kind d = ODirectory \<and> e_opaque d \<and> e_base d = None"
    and "carried_at cy x = None \<Longrightarrow> x \<notin> made \<Longrightarrow> bt_get (entries ov') x = None"
    and "bt_get (entries ov') x = Some e' \<Longrightarrow> e_content e' = CLocal i \<Longrightarrow> bt_get (files ov') i = bt_get (files ov) i"
    and "carried_at cy x = Some k \<Longrightarrow> \<exists>e. bt_get (entries ov) x = Some e
          \<and> (verdict_at c D ov e = Carried k \<or> verdict_at c D ov e = Orphaned \<and> k = keep_as e None True True)"
    and "bt_get (entries ov) x = Some e \<Longrightarrow> verdict_at c D ov e = Carried k \<Longrightarrow> carried_at cy x = Some k"
    and "bt_get (entries ov) x = Some e \<Longrightarrow> verdict_at c D ov e \<noteq> Refused z"
    and "d \<in> made \<Longrightarrow> carried_at cy d = None \<and> at_to c d = None
        \<and> (\<exists>x e. bt_get (entries ov) x = Some e \<and> e_present e \<and> below x d \<and> carried_at cy x \<noteq> None)"
    and "bt_get (entries ov) x = Some e \<Longrightarrow> e_present e \<Longrightarrow> carried_at cy x = Some k \<Longrightarrow> below x d \<Longrightarrow>
        carried_at cy d \<noteq> None \<or> d \<in> made \<or> (\<exists>f. at_to c d = Some f \<and> is_directory f)"
    and "unwritten c (entries ov) = []"
    and "bt_get (entries ov') x = Some e' \<Longrightarrow> e_path e' = x"
proof -
  note s = assms [unfolded switched_def]
  show "carried_at cy x = Some k \<Longrightarrow> bt_get (entries ov) x = Some e \<Longrightarrow> bt_get (entries ov') x = Some (keep_row ov k e)"
    using s [THEN conjunct1] by blast
  show "x \<in> made \<Longrightarrow> \<exists>d. bt_get (entries ov') x = Some d \<and> e_present d \<and> e_kind d = ODirectory \<and> e_opaque d \<and> e_base d = None"
    using s [THEN conjunct2, THEN conjunct1] by blast
  show "carried_at cy x = None \<Longrightarrow> x \<notin> made \<Longrightarrow> bt_get (entries ov') x = None"
    using s [THEN conjunct2, THEN conjunct2, THEN conjunct1] by blast
  show "bt_get (entries ov') x = Some e' \<Longrightarrow> e_content e' = CLocal i \<Longrightarrow> bt_get (files ov') i = bt_get (files ov) i"
    using s [THEN conjunct2, THEN conjunct2, THEN conjunct2, THEN conjunct1] by blast
  show "carried_at cy x = Some k \<Longrightarrow> \<exists>e. bt_get (entries ov) x = Some e
          \<and> (verdict_at c D ov e = Carried k \<or> verdict_at c D ov e = Orphaned \<and> k = keep_as e None True True)"
    using s [THEN conjunct2, THEN conjunct2, THEN conjunct2, THEN conjunct2, THEN conjunct1] by blast
  show "bt_get (entries ov) x = Some e \<Longrightarrow> verdict_at c D ov e = Carried k \<Longrightarrow> carried_at cy x = Some k"
    using s [THEN conjunct2, THEN conjunct2, THEN conjunct2, THEN conjunct2, THEN conjunct2, THEN conjunct1] by blast
  show "bt_get (entries ov) x = Some e \<Longrightarrow> verdict_at c D ov e \<noteq> Refused z"
    using s [THEN conjunct2, THEN conjunct2, THEN conjunct2, THEN conjunct2, THEN conjunct2, THEN conjunct2, THEN conjunct1] by blast
  show "d \<in> made \<Longrightarrow> carried_at cy d = None \<and> at_to c d = None
        \<and> (\<exists>x e. bt_get (entries ov) x = Some e \<and> e_present e \<and> below x d \<and> carried_at cy x \<noteq> None)"
    using s [THEN conjunct2, THEN conjunct2, THEN conjunct2, THEN conjunct2, THEN conjunct2, THEN conjunct2, THEN conjunct2, THEN conjunct1] by blast
  show "bt_get (entries ov) x = Some e \<Longrightarrow> e_present e \<Longrightarrow> carried_at cy x = Some k \<Longrightarrow> below x d \<Longrightarrow>
        carried_at cy d \<noteq> None \<or> d \<in> made \<or> (\<exists>f. at_to c d = Some f \<and> is_directory f)"
    using s [THEN conjunct2, THEN conjunct2, THEN conjunct2, THEN conjunct2, THEN conjunct2, THEN conjunct2, THEN conjunct2, THEN conjunct2, THEN conjunct1] by blast
  show "unwritten c (entries ov) = []"
    using s [THEN conjunct2, THEN conjunct2, THEN conjunct2, THEN conjunct2, THEN conjunct2, THEN conjunct2, THEN conjunct2, THEN conjunct2, THEN conjunct2, THEN conjunct1] by blast
  show "bt_get (entries ov') x = Some e' \<Longrightarrow> e_path e' = x"
    using s [THEN conjunct2, THEN conjunct2, THEN conjunct2, THEN conjunct2, THEN conjunct2, THEN conjunct2, THEN conjunct2, THEN conjunct2, THEN conjunct2, THEN conjunct2] by blast
qed

text \<open>The row after the switch comes from a row before it, or is a directory that was made.\<close>

lemma switched_row:
  assumes sw: "switched c D ov cy made ov'" and e': "bt_get (entries ov') x = Some e'"
  obtains k e where "carried_at cy x = Some k" "bt_get (entries ov) x = Some e" "e' = keep_row ov k e"
      "verdict_at c D ov e = Carried k \<or> verdict_at c D ov e = Orphaned \<and> k = keep_as e None True True"
    | "x \<in> made" "e_present e'" "e_kind e' = ODirectory" "e_opaque e'" "e_base e' = None"
proof (cases "carried_at cy x")
  case (Some k)
  from switchedD(5) [OF sw Some] obtain e where e: "bt_get (entries ov) x = Some e"
    "verdict_at c D ov e = Carried k \<or> verdict_at c D ov e = Orphaned \<and> k = keep_as e None True True" by blast
  then show thesis using that(1) [OF Some e(1) _ e(2)] switchedD(1) [OF sw Some e(1)] e' by simp
next
  case None
  then have "x \<in> made" using switchedD(3) [OF sw None] e' by (metis option.distinct(1))
  then show thesis using that(2) switchedD(2) [OF sw] e' by fastforce
qed

lemma switched_keyed:
  assumes sw: "switched c D ov cy made ov'" and ws: "workspace_ok c ov"
  shows "keyed (bt_get (entries ov'))"
  unfolding keyed_def
proof (intro allI impI conjI)
  fix x e' assume e': "bt_get (entries ov') x = Some e'"
  show "e_path e' = x" by (rule switchedD(11) [OF sw e'])
  from sw e' show "good_path x"
  proof (cases rule: switched_row)
    case (1 k e)
    then show ?thesis using keyedD [OF workspaceD(2) [OF ws]] by blast
  next
    case 2
    then obtain y e where "bt_get (entries ov) y = Some e" "below y x" using switchedD(8) [OF sw] by blast
    then show ?thesis using keyedD [OF workspaceD(2) [OF ws]] good_below by blast
  qed
qed

section \<open>What the switch hides\<close>

lemma row_path: "workspace_ok c ov \<Longrightarrow> bt_get (entries ov) x = Some e \<Longrightarrow> x \<noteq> []"
  using keyedD [OF workspaceD(2)] good_not_Nil by blast

lemma same_entry_directory: "same_entry a b \<Longrightarrow> (\<exists>f. a = Some f \<and> is_directory f) \<longleftrightarrow> (\<exists>f. b = Some f \<and> is_directory f)"
  by (auto simp: same_entry_def is_directory_def split: option.splits)

lemma hidden_after:
  assumes sw: "switched c D ov cy made ov'" and ws: "workspace_ok c ov" and cok: "commits_ok c" and h: "hidden (bt_get (entries ov')) p"
  shows "at_to c p = None \<or> at_to c p = at_head c p \<and> hidden (bt_get (entries ov)) p"
proof -
  from h obtain a e' where a: "below p a" "bt_get (entries ov') a = Some e'" "hides e'" by (auto simp: hidden_def)
  from sw a(2) show ?thesis
  proof (cases rule: switched_row)
    case (1 k e)
    have ne: "a \<noteq> []" by (rule row_path [OF ws 1(2)])
    have "at_to c a = None \<or> same_entry (at_head c a) (at_to c a) \<and> hides e"
    proof (cases "e_present e \<and> is_dir (e_kind e)")
      case True
      then have "cd_opaque k" using a(3) 1(3) by (simp add: hides_def blocking_def keep_row_same)
      then show ?thesis using carried_directory [OF ws 1(2) True [THEN conjunct1] True [THEN conjunct2] 1(4)] by (auto simp: hides_def)
    next
      case False
      then have "hides e" by (simp add: hides_def blocking_def)
      moreover have "verdict_at c D ov e = Carried k" using 1(4) not_orphaned [OF False] by blast
      ultimately show ?thesis using carried_file [OF ws 1(2) False] by blast
    qed
    moreover have "at_to c p = None" if "at_to c a = None" using tree_above [OF commitsD(3) [OF cok] a(1) ne] that by simp
    moreover have "hidden (bt_get (entries ov)) p" if "hides e" using a(1) 1(2) that by (auto simp: hidden_def)
    ultimately show ?thesis using commitsD(4) [OF cok _ a(1) ne] by blast
  next
    case 2
    then obtain x e where x: "at_to c a = None" "bt_get (entries ov) x = Some e" "below x a" using switchedD(8) [OF sw] by blast
    have "a \<noteq> []" using x(2,3) keyedD [OF workspaceD(2) [OF ws]] good_below_not_Nil by blast
    then show ?thesis using tree_above [OF commitsD(3) [OF cok] a(1)] x(1) by simp
  qed
qed

lemma clean_head: "clean_row c D F e \<Longrightarrow> head_at c e = Some h \<Longrightarrow> is_directory h \<Longrightarrow> e_present e \<and> is_dir (e_kind e)"
  by (auto simp: clean_row_def is_directory_def is_dir_def)

lemma hidden_before:
  assumes sw: "switched c D ov cy made ov'" and ws: "workspace_ok c ov" and cok: "commits_ok c" and h: "hidden (bt_get (entries ov)) p"
    and p: "bt_get (entries ov) p = None" "tracked (at_head c) p \<noteq> None"
  shows "hidden (bt_get (entries ov')) p \<or> at_to c p = None"
proof -
  from h obtain a e where a: "below p a" "bt_get (entries ov) a = Some e" "hides e" by (auto simp: hidden_def)
  have ne: "a \<noteq> []" by (rule row_path [OF ws a(2)])
  have "at_head c p \<noteq> None" using p(2) by (auto simp: tracked_def split: option.splits)
  then obtain h where hd: "at_head c a = Some h" "is_directory h" using tree_above [OF commitsD(2) [OF cok] a(1) ne] by metis
  have head: "head_at c e = Some h" using workspaceD(3) [OF ws a(2)] hd(1) by simp
  have nref: "verdict_at c D ov e \<noteq> Refused z" for z by (rule switchedD(7) [OF sw a(2)])
  have kept: "hidden (bt_get (entries ov')) p" if "verdict_at c D ov e = Carried k" "hides (keep_row ov k e)" for k
    using switchedD(1) [OF sw switchedD(6) [OF sw a(2) that(1)] a(2)] that(2) a(1) by (auto simp: hidden_def)
  have to_p: "at_to c p = None" if "at_to c a = None" using tree_above [OF commitsD(3) [OF cok] a(1) ne] that by simp
  show ?thesis
  proof (cases "e_present e \<and> is_dir (e_kind e)")
    case True
    then have op: "e_opaque e" using a(3) by (simp add: hides_def blocking_def)
    have "\<not> as_adopted c (entries ov) e"
    proof
      assume "as_adopted c (entries ov) e"
      then have ad: "adopting c" and l: "list_all (\<lambda>f. case bt_get (entries ov) f of None \<Rightarrow> False | Some r \<Rightarrow> e_present r) (files_under c (e_path e))"
        using op by (simp_all add: as_adopted_def)
      have "p \<in> set (files_under c (e_path e))" using commitsD(7) [OF cok ad a(1) p(2)] keyedD [OF workspaceD(2) [OF ws] a(2)] by simp
      then show False using l p(1) by (auto simp: list_all_iff)
    qed
    then have "verdict_at c D ov e = (if same_entry (Some h) (target_at c (map snd (entries ov)) (e_path e))
        then Carried (keep_as e (Some h) True True) else Refused (ChangedOnBoth (e_path e)))"
      using head op True by (simp add: verdict_at_def judge_def judge_directory_def Let_def)
    then have "\<exists>k. verdict_at c D ov e = Carried k \<and> cd_opaque k"
      using nref [of "ChangedOnBoth (e_path e)"] by (auto simp: keep_as_def split: if_splits)
    then show ?thesis using kept by (auto simp: hides_def keep_row_same)
  next
    case False
    then have blk: "hides (keep_row ov k e)" for k by (simp add: hides_def blocking_def keep_row_same)
    consider k where "verdict_at c D ov e = Carried k" | "verdict_at c D ov e = Discarded"
      using nref not_orphaned [OF False] by (cases "verdict_at c D ov e") auto
    then show ?thesis
    proof cases
      case 1
      then show ?thesis using kept blk by blast
    next
      case 2
      have "\<not> clean_row c D (files ov) e" using clean_head [OF _ head hd(2)] False by blast
      then show ?thesis using discarded_file [OF ws a(2) False 2] to_p by metis
    qed
  qed
qed

section \<open>Content\<close>

lemma known_row_oid: "content_known F e \<Longrightarrow> known_oid c D F e = Some oid \<Longrightarrow> row_oid D F e = Some oid"
  by (auto simp: content_known_def known_oid_def row_oid_def hashed_def blob_oid_of_file_def git_oid_def git_frame_def
      split: content.splits if_splits option.splits)

lemma content_row_oid: "content_known F e \<Longrightarrow> row_oid D F e \<noteq> None"
  by (auto simp: content_known_def row_oid_def split: content.splits)

lemma clean_seen:
  assumes "clean_row c D F e" and "e_present e" and "content_known F e" and "head_at c e = at_head c x" and "\<not> is_dir (e_kind e)"
  shows "\<exists>h. at_head c x = Some h \<and> row_oid D F e = Some (bf_oid h) \<and> tracked (at_head c) x = Some (e_kind e, bf_oid h)"
  using assms known_row_oid [OF assms(3)] by (auto simp: clean_row_def tracked_def split: option.splits)

lemma tracked_same: "same_entry (T x) (U x) \<Longrightarrow> tracked T x = tracked U x"
  by (auto simp: same_entry_def tracked_def split: option.splits)

lemma kept_row_oid:
  assumes sw: "switched c D ov cy made ov'" and ws: "workspace_ok c ov" and e: "bt_get (entries ov) x = Some e"
    and k: "carried_at cy x = Some k" "verdict_at c D ov e = Carried k" and p: "e_present e" "\<not> is_dir (e_kind e)"
  shows "row_oid D (files ov') (keep_row ov k e) = row_oid D (files ov) e"
proof -
  have e': "bt_get (entries ov') x = Some (keep_row ov k e)" by (rule switchedD(1) [OF sw k(1) e])
  have known: "content_known (files ov) e" by (rule workspaceD(4) [OF ws e p])
  have leaf: "\<not> (e_present e \<and> is_dir (e_kind e))" using p by simp
  consider "e_content (keep_row ov k e) = e_content e" | oid where "cd_rehome k = Some oid" "e_content (keep_row ov k e) = CBase oid"
    using keep_row_content by blast
  then show ?thesis
  proof cases
    case 1
    have "\<And>i. e_content e = CLocal i \<Longrightarrow> bt_get (files ov') i = bt_get (files ov) i" using switchedD(4) [OF sw e'] 1 by simp
    then show ?thesis by (simp add: row_oid_def 1 keep_row_same split: content.splits)
  next
    case 2
    obtain f where f: "at_head c x = Some f" "cd_rehome k = Some (bf_oid f)" "clean_row c D (files ov) e"
      using carried_file [OF ws e leaf k(2)] 2(1) by auto
    have "row_oid D (files ov) e = Some (bf_oid f)"
      using clean_seen [OF f(3) p(1) known workspaceD(3) [OF ws e] p(2)] f(1) by auto
    then show ?thesis using 2 f(2) by (simp add: row_oid_def)
  qed
qed

section \<open>The rule, path by path\<close>

lemma rule_no_row:
  assumes sw: "switched c D ov cy made ov'" and ws: "workspace_ok c ov" and cok: "commits_ok c" and ws': "keyed (bt_get (entries ov'))"
    and p: "bt_get (entries ov) p = None"
  shows "git_seen (at_to c) D ov' p = (if git_seen (at_from c) D ov p = tracked (at_head c) p then tracked (at_to c) p
    else git_seen (at_from c) D ov p)"
proof -
  note seen = git_seen_cases [OF workspaceD(2) [OF ws]] and seen' = git_seen_cases [OF ws']
  have nk: "carried_at cy p = None" using switchedD(5) [OF sw] p by (metis option.distinct(1) option.exhaust)
  show ?thesis
  proof (cases "p \<in> made")
    case True
    then obtain x e where x: "at_to c p = None" "bt_get (entries ov) x = Some e" "e_present e" "below x p" using switchedD(8) [OF sw] by blast
    obtain f where f: "at_from c p = Some f" "is_directory f" using workspaceD(6) [OF ws x(2,3,4) p] by blast
    have "git_seen (at_from c) D ov p = None" using f by (simp add: seen(1) [OF p] tracked_def is_directory_def is_dir_def)
    moreover have "git_seen (at_to c) D ov' p = None" using switchedD(2) [OF sw True] seen'(2) by (auto simp: is_dir_def)
    ultimately show ?thesis using x(1) by (simp add: tracked_def)
  next
    case False
    have p': "bt_get (entries ov') p = None" by (rule switchedD(3) [OF sw nk False])
    show ?thesis
    proof (cases "hidden (bt_get (entries ov)) p")
      case True
      have none: "git_seen (at_from c) D ov p = None" using True by (simp add: seen(1) [OF p])
      show ?thesis
      proof (cases "tracked (at_head c) p")
        case None
        then show ?thesis using none hidden_after [OF sw ws cok, of p] by (auto simp: seen'(1) [OF p'] tracked_def)
      next
        case (Some v)
        then show ?thesis using none hidden_before [OF sw ws cok True p] by (auto simp: seen'(1) [OF p'] tracked_def)
      qed
    next
      case False
      have from_eq: "git_seen (at_from c) D ov p = tracked (at_from c) p" using False by (simp add: seen(1) [OF p])
      have "tracked (at_from c) p = tracked (at_head c) p"
      proof (cases "adopting c")
        case True
        have "resolve (entries ov) p = Base"
          using False p hidden_eq [OF workspaceD(2) [OF ws], of p] by (simp add: resolve_eq resolves_def)
        then have "p \<notin> set (changed_paths c)" using switchedD(10) [OF sw] True p by (auto simp: unwritten_def filter_empty_conv)
        then show ?thesis using commitsD(6) [OF cok True] by blast
      next
        case False
        then show ?thesis using commitsD(5) [OF cok] by simp
      qed
      then show ?thesis
        using from_eq hidden_after [OF sw ws cok, of p] False by (auto simp: seen'(1) [OF p'] tracked_def)
    qed
  qed
qed

lemma rule_directory:
  assumes sw: "switched c D ov cy made ov'" and ws: "workspace_ok c ov" and ws': "keyed (bt_get (entries ov'))"
    and e: "bt_get (entries ov) p = Some e" "e_present e" "is_dir (e_kind e)"
  shows "git_seen (at_to c) D ov' p = (if git_seen (at_from c) D ov p = tracked (at_head c) p then tracked (at_to c) p
    else git_seen (at_from c) D ov p)"
proof -
  have none: "git_seen (at_from c) D ov p = None" using git_seen_cases(2) [OF workspaceD(2) [OF ws] e(1)] e(3) by simp
  have dir_none: "tracked T p = None" if "T p = None \<or> (\<exists>f. T p = Some f \<and> is_directory f)" for T
    using that by (auto simp: tracked_def is_directory_def is_dir_def)
  show ?thesis
  proof (cases "carried_at cy p")
    case (Some k)
    have "bt_get (entries ov') p = Some (keep_row ov k e)" by (rule switchedD(1) [OF sw Some e(1)])
    then have after: "git_seen (at_to c) D ov' p = None" using git_seen_cases(2) [OF ws'] e(3) by (simp add: keep_row_same)
    obtain e2 where "bt_get (entries ov) p = Some e2" "verdict_at c D ov e2 = Carried k \<or> verdict_at c D ov e2 = Orphaned \<and> k = keep_as e2 None True True"
      using switchedD(5) [OF sw Some] by blast
    then have "verdict_at c D ov e = Carried k \<or> verdict_at c D ov e = Orphaned \<and> k = keep_as e None True True" using e(1) by simp
    from carried_directory [OF ws e this]
    consider "at_to c p = None \<or> (\<exists>f. at_to c p = Some f \<and> is_directory f)" | "same_entry (at_head c p) (at_to c p)" by blast
    then show ?thesis using after none dir_none tracked_same [of "at_head c" p "at_to c"] by cases auto
  next
    case None
    then have "verdict_at c D ov e = Orphaned"
      using switchedD(6,7) [OF sw e(1)] discarded_directory [OF e(2,3)] by (cases "verdict_at c D ov e") auto
    then have "at_to c p = None"
      using e target_row [OF workspaceD(1,2) [OF ws] e(1), of c]
      by (auto simp: verdict_at_def judge_def judge_directory_def Let_def split: option.splits if_splits)
    moreover from this have "git_seen (at_to c) D ov' p = None"
    proof (cases "p \<in> made")
      case True
      then show ?thesis using switchedD(2) [OF sw True] git_seen_cases(2) [OF ws'] by (auto simp: is_dir_def)
    next
      case False
      then show ?thesis using git_seen_cases(1) [OF ws' switchedD(3) [OF sw None False]] \<open>at_to c p = None\<close> by (simp add: tracked_def)
    qed
    ultimately show ?thesis using none by (simp add: tracked_def)
  qed
qed

lemma kept_not_blocked:
  assumes sw: "switched c D ov cy made ov'" and ws: "workspace_ok c ov" and e: "bt_get (entries ov) x = Some e" "e_present e"
  shows "\<not> blocked (bt_get (entries ov')) x" "\<not> blocked (bt_get (entries ov)) x"
proof -
  have no: "\<not> blocking d" if "below x a" "bt_get (entries ov) a = Some d" for a d
    using workspaceD(5) [OF ws e that] by (simp add: blocking_def)
  then show "\<not> blocked (bt_get (entries ov)) x" using blocked_below [OF workspaceD(2) [OF ws]] by blast
  show "\<not> blocked (bt_get (entries ov')) x"
  proof
    assume "blocked (bt_get (entries ov')) x"
    then obtain a d' where a: "below x a" "bt_get (entries ov') a = Some d'" "blocking d'"
      using blocked_below [OF switched_keyed [OF sw ws]] by blast
    from sw a(2) show False
    proof (cases rule: switched_row)
      case (1 k d)
      then show ?thesis using no [OF a(1) 1(2)] a(3) by (simp add: blocking_def keep_row_same)
    next
      case 2
      then show ?thesis using a(3) by (simp add: blocking_def is_dir_def)
    qed
  qed
qed

lemma rule_file:
  assumes sw: "switched c D ov cy made ov'" and ws: "workspace_ok c ov" and cok: "commits_ok c"
    and e: "bt_get (entries ov) p = Some e" "\<not> (e_present e \<and> is_dir (e_kind e))"
  shows "git_seen (at_to c) D ov' p = (if git_seen (at_from c) D ov p = tracked (at_head c) p then tracked (at_to c) p
    else git_seen (at_from c) D ov p)"
proof -
  note ws' = switched_keyed [OF sw ws]
  note seen = git_seen_cases [OF workspaceD(2) [OF ws]] and seen' = git_seen_cases [OF ws']
  have before: "git_seen (at_from c) D ov p = (if e_present e then map_option (Pair (e_kind e)) (row_oid D (files ov) e) else None)"
    using seen(2) [OF e(1)] seen(3) [OF e(1)] kept_not_blocked(2) [OF sw ws e(1)] e(2) by auto
  consider k where "verdict_at c D ov e = Carried k" | "verdict_at c D ov e = Discarded"
    using switchedD(7) [OF sw e(1)] not_orphaned [OF e(2)] by (cases "verdict_at c D ov e") auto
  then show ?thesis
  proof cases
    case (1 k)
    have k: "carried_at cy p = Some k" by (rule switchedD(6) [OF sw e(1) 1])
    have e': "bt_get (entries ov') p = Some (keep_row ov k e)" by (rule switchedD(1) [OF sw k e(1)])
    have "git_seen (at_to c) D ov' p = git_seen (at_from c) D ov p"
    proof (cases "e_present e")
      case True
      then have nd: "\<not> is_dir (e_kind e)" using e(2) by simp
      show ?thesis
        using seen'(3) [OF e'] kept_not_blocked(1) [OF sw ws e(1) True] True nd kept_row_oid [OF sw ws e(1) k 1 True nd] before
        by (simp add: keep_row_same)
    next
      case False
      then show ?thesis using seen'(2) [OF e'] before by (simp add: keep_row_same)
    qed
    moreover have "tracked (at_head c) p = tracked (at_to c) p" using carried_file [OF ws e 1] tracked_same by blast
    ultimately show ?thesis by simp
  next
    case 2
    have nk: "carried_at cy p = None"
      using switchedD(5) [OF sw, of p] e(1) 2 by (cases "carried_at cy p") auto
    have "p \<notin> made"
    proof
      assume "p \<in> made"
      then obtain x d where "bt_get (entries ov) x = Some d" "e_present d" "below x p" using switchedD(8) [OF sw] by blast
      then show False using workspaceD(5) [OF ws _ _ _ e(1)] e(2) by blast
    qed
    then have p': "bt_get (entries ov') p = None" by (rule switchedD(3) [OF sw nk])
    from discarded_file [OF ws e 2] consider
        "clean_row c D (files ov) e" "at_head c p = None \<or> \<not> same_entry (at_head c p) (at_to c p)"
      | "\<not> e_present e" "at_to c p = None" by auto
    then show ?thesis
    proof cases
      case 1
      have eq: "git_seen (at_from c) D ov p = tracked (at_head c) p"
      proof (cases "e_present e")
        case True
        then have nd: "\<not> is_dir (e_kind e)" using e(2) by simp
        show ?thesis
          using clean_seen [OF 1(1) True workspaceD(4) [OF ws e(1) True nd] workspaceD(3) [OF ws e(1)] nd] before True by auto
      next
        case False
        then have "at_head c p = None" using 1(1) workspaceD(3) [OF ws e(1)] by (auto simp: clean_row_def split: option.splits)
        then show ?thesis using before False by (simp add: tracked_def)
      qed
      have "tracked (at_to c) p = None" if "hidden (bt_get (entries ov')) p"
      proof -
        have "at_to c p = None \<or> at_to c p = at_head c p" using hidden_after [OF sw ws cok that] by blast
        then show ?thesis using 1(2) by (auto simp: tracked_def same_entry_def split: option.splits)
      qed
      then show ?thesis using eq by (auto simp: seen'(1) [OF p'])
    next
      case 2
      then have "git_seen (at_to c) D ov' p = None" by (simp add: seen'(1) [OF p'] tracked_def)
      then show ?thesis using 2 before by (simp add: tracked_def)
    qed
  qed
qed

section \<open>The workspace after the switch\<close>

definition after_switch :: "commits \<Rightarrow> commits" where
  "after_switch c = c\<lparr>adopting := False, at_from := at_to c, at_head := at_to c\<rparr>"

text \<open>The base a kept row is given is what the target has.\<close>

lemma carried_base:
  assumes ws: "workspace_ok c ov" and e: "bt_get (entries ov) x = Some e"
    and v: "verdict_at c D ov e = Carried k \<or> verdict_at c D ov e = Orphaned \<and> k = keep_as e None True True"
    and facts: "\<And>x. same_entry (at_head c x) (at_to c x) \<Longrightarrow> at_head c x = at_to c x"
  shows "cd_base k = at_to c x"
proof -
  note t = target_row [OF workspaceD(1,2) [OF ws] e, of c] and h = workspaceD(3) [OF ws e]
  show ?thesis
    using v facts [of x]
    by (auto simp: verdict_at_def judge_def judge_directory_def judge_file_def Let_def keep_as_def t h
        split: option.splits if_splits content.splits)
qed

lemma keep_row_base [simp]: "e_base (keep_row ov k e) = cd_base k"
  by (simp add: keep_row_def Let_def split: option.splits)

lemma kept_known:
  assumes sw: "switched c D ov cy made ov'" and ws: "workspace_ok c ov" and e: "bt_get (entries ov) x = Some e"
    and k: "carried_at cy x = Some k" and p: "e_present e" "\<not> is_dir (e_kind e)"
  shows "content_known (files ov') (keep_row ov k e)"
proof -
  have e': "bt_get (entries ov') x = Some (keep_row ov k e)" by (rule switchedD(1) [OF sw k e])
  have known: "content_known (files ov) e" by (rule workspaceD(4) [OF ws e p])
  consider "e_content (keep_row ov k e) = e_content e" | oid where "e_content (keep_row ov k e) = CBase oid"
    using keep_row_content by blast
  then show ?thesis
  proof cases
    case 1
    have "\<And>i. e_content e = CLocal i \<Longrightarrow> bt_get (files ov') i = bt_get (files ov) i" using switchedD(4) [OF sw e'] 1 by simp
    then show ?thesis using known by (simp add: content_known_def 1 keep_row_same split: content.splits)
  qed (simp add: content_known_def)
qed

text \<open>Everything above a row that was kept, or above a directory that was made for one, is a directory.\<close>

lemma above_kept:
  assumes sw: "switched c D ov cy made ov'" and ws: "workspace_ok c ov" and cok: "commits_ok c"
    and y: "bt_get (entries ov) y = Some e" "e_present e" "carried_at cy y = Some k" and a: "below y a"
  shows "case bt_get (entries ov') a of Some d \<Rightarrow> e_present d \<and> is_dir (e_kind d)
    | None \<Rightarrow> (\<exists>f. at_to c a = Some f \<and> is_directory f) \<and> \<not> hidden (bt_get (entries ov')) a"
proof (cases "bt_get (entries ov') a")
  case (Some d')
  from sw Some have "e_present d' \<and> is_dir (e_kind d')"
  proof (cases rule: switched_row)
    case (1 k' d)
    then show ?thesis using workspaceD(5) [OF ws y(1,2) a 1(2)] by (simp add: keep_row_same)
  qed (simp add: is_dir_def)
  then show ?thesis using Some by simp
next
  case None
  have nk: "carried_at cy a = None" using switchedD(1,5) [OF sw, of a] None by (cases "carried_at cy a") fastforce+
  have "a \<notin> made" using switchedD(2) [OF sw, of a] None by auto
  then have to: "\<exists>f. at_to c a = Some f \<and> is_directory f" using switchedD(9) [OF sw y(1,2,3) a] nk by blast
  have "\<not> hidden (bt_get (entries ov')) a"
  proof
    assume "hidden (bt_get (entries ov')) a"
    then have h: "hidden (bt_get (entries ov)) a" using hidden_after [OF sw ws cok] to by fastforce
    show False
    proof (cases "bt_get (entries ov) a")
      case None
      then show False using workspaceD(6) [OF ws y(1,2) a] h by blast
    next
      case (Some d)
      have d: "e_present d" "is_dir (e_kind d)" using workspaceD(5) [OF ws y(1,2) a Some] by simp_all
      have "verdict_at c D ov d = Orphaned"
        using switchedD(6,7) [OF sw Some] discarded_directory [OF d] nk by (cases "verdict_at c D ov d") auto
      then have "at_to c a = None"
        using d target_row [OF workspaceD(1,2) [OF ws] Some, of c]
        by (auto simp: verdict_at_def judge_def judge_directory_def Let_def split: option.splits if_splits)
      then show False using to by simp
    qed
  qed
  then show ?thesis using None to by simp
qed

lemma switched_workspace:
  assumes sw: "switched c D ov cy made ov'" and ws: "workspace_ok c ov" and cok: "commits_ok c" and ok: "bt_ok (entries ov')"
    and facts: "\<And>x. same_entry (at_head c x) (at_to c x) \<Longrightarrow> at_head c x = at_to c x"
  shows "workspace_ok (after_switch c) ov'"
  unfolding workspace_ok_def
proof (intro conjI allI impI)
  show "bt_ok (entries ov')" by (rule ok)
  show "keyed (bt_get (entries ov'))" by (rule switched_keyed [OF sw ws])
  show "head_at (after_switch c) e' = at_head (after_switch c) x" if "bt_get (entries ov') x = Some e'" for x e'
    using sw that
  proof (cases rule: switched_row)
    case (1 k e)
    then show ?thesis using carried_base [OF ws 1(2,4) facts] by (simp add: after_switch_def head_at_def)
  next
    case 2
    then show ?thesis using switchedD(8) [OF sw] by (simp add: after_switch_def head_at_def)
  qed
  show "is_dir (e_kind e') \<or> content_known (files ov') e'" if "bt_get (entries ov') x = Some e'" "e_present e'" for x e'
    using sw that(1)
  proof (cases rule: switched_row)
    case (1 k e)
    then show ?thesis using kept_known [OF sw ws 1(2,1)] that(2) by (auto simp: keep_row_same)
  qed (simp add: is_dir_def)
  show "case bt_get (entries ov') a of Some d \<Rightarrow> e_present d \<and> is_dir (e_kind d)
      | None \<Rightarrow> (\<exists>f. at_from (after_switch c) a = Some f \<and> is_directory f) \<and> \<not> hidden (bt_get (entries ov')) a"
    if e': "bt_get (entries ov') x = Some e'" "e_present e'" and a: "below x a" for x e' a
  proof -
    obtain y e k where y: "bt_get (entries ov) y = Some e" "e_present e" "carried_at cy y = Some k" "below y a"
      using sw e'(1)
    proof (cases rule: switched_row)
      case (1 k e)
      then show thesis using that [of x e k] e'(2) a by (simp add: keep_row_same)
    next
      case 2
      then obtain y e k where "bt_get (entries ov) y = Some e" "e_present e" "below y x" "carried_at cy y = Some k"
        using switchedD(8) [OF sw] by blast
      then show thesis using that [of y e k] below_trans a by blast
    qed
    then show ?thesis using above_kept [OF sw ws cok y] by (simp add: after_switch_def split: option.splits)
  qed
qed

lemma rebound_bt_ok:
  assumes "rebind b (Some cy) ov = (Inr (), ov')"
  shows "bt_ok (entries ov')"
proof -
  obtain kept report ov1 where "ov' = install_kept b kept report ov1"
    using assms by (auto simp: rebind_def Let_def split: if_splits sum.splits prod.splits)
  then have "entries ov' = fold (\<lambda>e. bt_insert (e_path e) e) kept []" by (simp add: install_kept_def Let_def)
  moreover have "bt_ok (fold (\<lambda>e. bt_insert (e_path e) e) kept [])" by (rule fold_invariant) simp_all
  ultimately show ?thesis by simp
qed

section \<open>A small switch\<close>

definition demo_oid :: "bytes \<Rightarrow> object_id" where
  "demo_oid bs = git_oid demo_digests bs"

definition demo_facts :: "bytes \<Rightarrow> base_facts" where
  "demo_facts bs = BaseFacts (demo_oid bs) Regular (length bs)"

text \<open>The target changes \<open>a\<close>; the workspace has an edit of \<open>b\<close> and a new file \<open>n\<close>.\<close>

definition demo_commits :: commits where
  "demo_commits = \<lparr>adopting = False, at_from = map_of [(''a'', demo_facts ''1''), (''b'', demo_facts ''2'')],
     at_head = map_of [(''a'', demo_facts ''1''), (''b'', demo_facts ''2'')],
     at_to = map_of [(''a'', demo_facts ''one''), (''b'', demo_facts ''2'')],
     changed_paths = [], files_under = (\<lambda>_. []), number_of = (\<lambda>_. 7)\<rparr>"

definition demo_row :: "path \<Rightarrow> nat \<Rightarrow> base_facts option \<Rightarrow> overlay_entry" where
  "demo_row p i base = \<lparr>e_path = p, e_present = True, e_kind = ORegular, e_opaque = False, e_ino = i, e_content = CLocal i,
     e_symlink_target = None, e_size = 4, e_mtime = Timestamp 1700000000 0, e_ctime = Timestamp 1700000000 0,
     e_renamed_from = None, e_base = base\<rparr>"

definition demo_workspace :: overlay where
  "demo_workspace = demo_overlay
     \<lparr>entries := [(''b'', demo_row ''b'' 1 (Some (demo_facts ''2''))), (''n'', demo_row ''n'' 2 None)],
      children := [([], {''b'', ''n''})], by_content := [(1, ''b''), (2, ''n'')], files := [(1, ''edit''), (2, ''new!'')]\<rparr>"

definition demo_carry :: carry where
  "demo_carry = (case plan_carry demo_commits demo_digests demo_workspace of Inr (Some cy) \<Rightarrow> cy)"

lemma demo_plan: "plan_carry demo_commits demo_digests demo_workspace = Inr (Some demo_carry)"
  by code_simp

lemma demo_rebind: "fst (rebind (''repo'', ''to'') (Some demo_carry) demo_workspace) = Inr ()"
  by code_simp

lemma below_single: "CHR ''/'' \<notin> set p \<Longrightarrow> \<not> below p a"
  by (auto simp: below_def)

lemma demo_commits_ok: "commits_ok demo_commits"
proof -
  have tree: "tree_ok [''b'' \<mapsto> BaseFacts y Regular m, ''a'' \<mapsto> BaseFacts x Regular n]" for x y m n
    by (auto simp: tree_ok_def below_single split: if_splits)
  then show ?thesis
    by (auto simp: commits_ok_def demo_commits_def is_directory_def demo_facts_def below_single split: if_splits)
qed

lemma demo_workspace_ok: "workspace_ok demo_commits demo_workspace"
proof -
  have "good_path ''b''" "good_path ''n''" by code_simp+
  then show ?thesis
    by (auto simp: workspace_ok_def demo_workspace_def demo_row_def demo_commits_def keyed_def head_at_def bt_ok_def
        content_known_def below_single demo_facts_def split: if_splits)
qed

section \<open>Properties\<close>

text \<open>C4. A switch follows Git's rule, path by path: when the plan made against \<open>HEAD\<close> is not refused and the
  overlay did not move in between, then afterwards, at every path, Git sees the target commit's file where the
  working tree agreed with \<open>HEAD\<close> (an edit since committed included), and exactly the file, link or deletion the
  working tree had where it did not. No edit is lost or mixed, whatever directories were created, removed, moved or
  hidden.\<close>

theorem switch_follows_git_rule:
  assumes "commits_ok c" and "workspace_ok c ov" and "plan_carry c D ov = Inr (Some cy)"
    and "rebind b (Some cy) ov = (Inr (), ov')"
  shows "git_seen (at_to c) D ov' p =
    (if git_seen (at_from c) D ov p = tracked (at_head c) p then tracked (at_to c) p else git_seen (at_from c) D ov p)"
proof -
  obtain made where sw: "switched c D ov cy made ov'" using switched_exists [OF assms(3,2,4)] by blast
  show ?thesis
  proof (cases "bt_get (entries ov) p")
    case None
    then show ?thesis by (rule rule_no_row [OF sw assms(2,1) switched_keyed [OF sw assms(2)]])
  next
    case (Some e)
    then show ?thesis
      using rule_directory [OF sw assms(2) switched_keyed [OF sw assms(2)]] rule_file [OF sw assms(2,1)] by blast
  qed
qed

theorem switch_follows_git_rule_witness:
  "git_seen (at_to demo_commits) demo_digests (snd (rebind (''repo'', ''to'') (Some demo_carry) demo_workspace)) ''a''
     = Some (ORegular, demo_oid ''one'')
   \<and> git_seen (at_to demo_commits) demo_digests (snd (rebind (''repo'', ''to'') (Some demo_carry) demo_workspace)) ''b''
     = Some (ORegular, demo_oid ''edit'')"
proof -
  have re: "rebind (''repo'', ''to'') (Some demo_carry) demo_workspace
      = (Inr (), snd (rebind (''repo'', ''to'') (Some demo_carry) demo_workspace))"
    using demo_rebind by (metis prod.collapse)
  note rule = switch_follows_git_rule [OF demo_commits_ok demo_workspace_ok demo_plan re]
  show ?thesis unfolding rule by code_simp
qed

text \<open>C5. A switch leaves a workspace that the next switch can be planned on: every kept row has the target's
  entry as its base facts, its content is there, and everything above a kept file is a directory again, of the
  target, carried, or made for it, and not hidden by another row.\<close>

theorem switch_keeps_workspace:
  assumes "commits_ok c" and "workspace_ok c ov" and "plan_carry c D ov = Inr (Some cy)"
    and "rebind b (Some cy) ov = (Inr (), ov')"
    and "\<And>x. same_entry (at_head c x) (at_to c x) \<Longrightarrow> at_head c x = at_to c x"
  shows "workspace_ok (after_switch c) ov'"
proof -
  obtain made where sw: "switched c D ov cy made ov'" using switched_exists [OF assms(3,2,4)] by blast
  show ?thesis by (rule switched_workspace [OF sw assms(2,1) rebound_bt_ok [OF assms(4)] assms(5)])
qed

theorem switch_keeps_workspace_witness:
  "workspace_ok (after_switch demo_commits) (snd (rebind (''repo'', ''to'') (Some demo_carry) demo_workspace))"
proof -
  have re: "rebind (''repo'', ''to'') (Some demo_carry) demo_workspace
      = (Inr (), snd (rebind (''repo'', ''to'') (Some demo_carry) demo_workspace))"
    using demo_rebind by (metis prod.collapse)
  have ne: "demo_oid ''1'' \<noteq> demo_oid ''one''" by code_simp
  have "at_head demo_commits x = at_to demo_commits x" if "same_entry (at_head demo_commits x) (at_to demo_commits x)" for x
    using that ne by (auto simp: demo_commits_def same_entry_def demo_facts_def split: if_splits)
  from switch_keeps_workspace [OF demo_commits_ok demo_workspace_ok demo_plan re this] show ?thesis .
qed

text \<open>C37. An edit made while a clean workspace is being switched is discarded: the plan of an overlay without rows
  is to carry nothing, and carrying nothing is not tied to the moment of the plan, so whatever the overlay holds by
  then is dropped without a refusal. A plan that carries something is refused once the overlay has moved.\<close>

theorem unseen_edit_discarded:
  assumes "entries ov = []" and "\<not> adopting c"
  shows "plan_carry c D ov = Inr None
    \<and> fst (rebind b None ov') = Inr () \<and> entries (snd (rebind b None ov')) = []
    \<and> (sequence ov' = cy_sequence cy \<or> rebind b (Some cy) ov' = (Inl Invalid, ov'))"
  using assms by (simp add: plan_carry_def rebind_def install_kept_def Let_def)

theorem unseen_edit_discarded_witness:
  "plan_carry demo_commits demo_digests demo_overlay = Inr None
   \<and> lookup demo_digests demo_base demo_workspace ''n'' \<noteq> None
   \<and> entries (snd (rebind (''repo'', ''to'') None demo_workspace)) = []"
proof -
  have "entries demo_overlay = []" "\<not> adopting demo_commits" by (simp_all add: demo_fresh demo_commits_def)
  note * = unseen_edit_discarded [OF this, of demo_digests "(''repo'', ''to'')" demo_workspace]
  have "lookup demo_digests demo_base demo_workspace ''n'' = Some (Node ORegular ''new!'')" by code_simp
  then show ?thesis using * by simp
qed

end
