(* ===== verification/Gfs_Glob.thy ===== *)
theory Gfs_Glob
  imports Gfs_Prelude
begin

text \<open>
  The byte-oriented path glob of \<open>crates/gfs-types/src/glob.rs\<close>: compilation of a pattern into
  tokens, which is total, and the backtracking matcher. \<open>token_lang\<close> is what the matcher accepts token by token,
  a double star being any run of bytes there, as in the code; the documented grammar, where a double star stands
  for whole components, is \<open>doc_matches\<close>, on the abstract syntax \<open>pattern\<close> that \<open>spell\<close> writes down. Patterns
  without a double star are matched exactly as documented; with one, everything documented is matched, and more
  (\<open>double_star_ends_inside_component\<close>).
\<close>

section \<open>Tokens and compilation\<close>

datatype token =
    Byte char
  | AnyByte
  | Star
  | DoubleStar
  | Class bool "(char \<times> char) list"

record glob =
  g_tokens :: "token list"
  name_only :: bool
  directory_only :: bool
  g_source :: bytes

text \<open>
  The loop of \<open>parse_class\<close> from the first byte of the class on: the ranges and how many bytes they
  take, or nothing when the class is not terminated.
\<close>

fun class_ranges :: "bytes \<Rightarrow> ((char \<times> char) list \<times> nat) option" where
  "class_ranges [] = None"
| "class_ranges (lo # rest) =
     (if lo = CHR '']'' then Some ([], 0)
      else case rest of
        d # hi # rest' \<Rightarrow>
          if d = CHR ''-'' \<and> hi \<noteq> CHR '']''
          then map_option (\<lambda>(rs, n). ((lo, hi) # rs, n + 3)) (class_ranges rest')
          else map_option (\<lambda>(rs, n). ((lo, lo) # rs, n + 1)) (class_ranges rest)
      | _ \<Rightarrow> map_option (\<lambda>(rs, n). ((lo, lo) # rs, n + 1)) (class_ranges rest))"

definition byte_get :: "bytes \<Rightarrow> nat \<Rightarrow> char option" where
  "byte_get bs i = (if i < length bs then Some (bs ! i) else None)"

definition parse_class :: "bytes \<Rightarrow> (token \<times> nat) option" where
  "parse_class input =
     (let negated = (byte_get input 1 = Some (CHR ''!'') \<or> byte_get input 1 = Some (CHR ''^''));
          i = (if negated then 2 else 1);
          literal = (byte_get input i = Some (CHR '']''));
          j = (if literal then i + 1 else i)
      in map_option (\<lambda>(rs, n). (Class negated ((if literal then [(CHR '']'', CHR '']'')] else []) @ rs), j + n + 1))
           (class_ranges (drop j input)))"

lemma parse_class_pos: "parse_class input = Some (tok, n) \<Longrightarrow> 0 < n"
  by (auto simp: parse_class_def Let_def)

text \<open>The loop of \<open>from_bytes\<close> over the pattern's body.\<close>

function glob_tokens :: "bytes \<Rightarrow> token list" where
  "glob_tokens [] = []"
| "glob_tokens (b # rest) =
     (if b = CHR 0x5C \<and> rest \<noteq> [] then Byte (hd rest) # glob_tokens (tl rest)
      else if b = CHR ''?'' then AnyByte # glob_tokens rest
      else if b = CHR ''*'' then
        (case rest of
           [] \<Rightarrow> [Star]
         | c # rest' \<Rightarrow>
             if c = CHR ''*''
             then DoubleStar # glob_tokens (case rest' of [] \<Rightarrow> [] | d # r \<Rightarrow> if d = CHR ''/'' then r else rest')
             else Star # glob_tokens rest)
      else if b = CHR ''['' then
        (case parse_class (b # rest) of
           Some (tok, n) \<Rightarrow> tok # glob_tokens (drop n (b # rest))
         | None \<Rightarrow> Byte (CHR ''['') # glob_tokens rest)
      else Byte b # glob_tokens rest)"
  by pat_completeness auto
termination
  by (relation "measure length") (auto dest: parse_class_pos split: list.splits)

definition from_bytes :: "bytes \<Rightarrow> glob" where
  "from_bytes pattern =
     (let dir = (pattern \<noteq> [] \<and> last pattern = CHR ''/'');
          body0 = (if dir then butlast pattern else pattern);
          body = (case strip_prefix ''/'' body0 of Some r \<Rightarrow> r | None \<Rightarrow> body0);
          anchored = (length body \<noteq> length pattern - (if dir then 1 else 0))
      in \<lparr>g_tokens = glob_tokens body, name_only = (\<not> anchored \<and> CHR ''/'' \<notin> set body),
          directory_only = dir, g_source = pattern\<rparr>)"

section \<open>Matching\<close>

definition in_ranges :: "(char \<times> char) list \<Rightarrow> char \<Rightarrow> bool" where
  "in_ranges ranges b = list_ex (\<lambda>(lo, hi). lo \<le> b \<and> b \<le> hi) ranges"

text \<open>The two loops try the suffixes of the input, the one for a single star up to a separator.\<close>

fun star_suffixes :: "bytes \<Rightarrow> bytes list" where
  "star_suffixes [] = []"
| "star_suffixes (b # bs) = (if b = CHR ''/'' then [] else bs # star_suffixes bs)"

fun any_suffixes :: "bytes \<Rightarrow> bytes list" where
  "any_suffixes [] = []"
| "any_suffixes (b # bs) = bs # any_suffixes bs"

fun matches_tokens :: "token list \<Rightarrow> bytes \<Rightarrow> bool" where
  "matches_tokens [] input = (input = [])"
| "matches_tokens (DoubleStar # ts) input =
     (matches_tokens ts input \<or> list_ex (matches_tokens ts) (any_suffixes input))"
| "matches_tokens (Star # ts) input =
     (matches_tokens ts input \<or> list_ex (matches_tokens ts) (star_suffixes input))"
| "matches_tokens (AnyByte # ts) input =
     (case input of [] \<Rightarrow> False | b # bs \<Rightarrow> b \<noteq> CHR ''/'' \<and> matches_tokens ts bs)"
| "matches_tokens (Byte want # ts) input =
     (case input of [] \<Rightarrow> False | b # bs \<Rightarrow> b = want \<and> matches_tokens ts bs)"
| "matches_tokens (Class negated ranges # ts) input =
     (case input of [] \<Rightarrow> False
      | b # bs \<Rightarrow> b \<noteq> CHR ''/'' \<and> in_ranges ranges b \<noteq> negated \<and> matches_tokens ts bs)"

text \<open>The loop over the directory prefixes: every boundary before a separator.\<close>

fun prefix_matches :: "token list \<Rightarrow> bytes \<Rightarrow> bytes \<Rightarrow> bool" where
  "prefix_matches ts seen [] = False"
| "prefix_matches ts seen (b # rest) =
     (b = CHR ''/'' \<and> matches_tokens ts seen \<or> prefix_matches ts (seen @ [b]) rest)"

definition glob_matches :: "glob \<Rightarrow> bytes \<Rightarrow> bool" where
  "glob_matches g path =
     (let parts = split_on (CHR ''/'') path
      in if name_only g then
           (if directory_only g then list_ex (matches_tokens (g_tokens g)) (take (length parts - 1) parts)
            else list_ex (matches_tokens (g_tokens g)) parts)
         else if directory_only g then matches_tokens (g_tokens g) path \<or> prefix_matches (g_tokens g) [] path
         else matches_tokens (g_tokens g) path)"

section \<open>The language of a pattern\<close>

fun token_lang :: "token \<Rightarrow> bytes \<Rightarrow> bool" where
  "token_lang (Byte want) s = (s = [want])"
| "token_lang AnyByte s = (\<exists>b. s = [b] \<and> b \<noteq> CHR ''/'')"
| "token_lang Star s = (CHR ''/'' \<notin> set s)"
| "token_lang DoubleStar s = True"
| "token_lang (Class negated ranges) s = (\<exists>b. s = [b] \<and> b \<noteq> CHR ''/'' \<and> in_ranges ranges b \<noteq> negated)"

definition tokens_lang :: "token list \<Rightarrow> bytes \<Rightarrow> bool" where
  "tokens_lang ts s \<longleftrightarrow> (\<exists>ps. list_all2 token_lang ts ps \<and> s = concat ps)"

lemma tokens_lang_Nil [simp]: "tokens_lang [] s \<longleftrightarrow> s = []"
  by (auto simp: tokens_lang_def)

lemma tokens_lang_Cons: "tokens_lang (t # ts) s \<longleftrightarrow> (\<exists>p r. s = p @ r \<and> token_lang t p \<and> tokens_lang ts r)"
proof
  assume "tokens_lang (t # ts) s"
  then obtain p ps where "token_lang t p" "list_all2 token_lang ts ps" "s = p @ concat ps"
    by (auto simp: tokens_lang_def list_all2_Cons1)
  then show "\<exists>p r. s = p @ r \<and> token_lang t p \<and> tokens_lang ts r" unfolding tokens_lang_def by blast
next
  assume "\<exists>p r. s = p @ r \<and> token_lang t p \<and> tokens_lang ts r"
  then obtain p ps where "token_lang t p" "list_all2 token_lang ts ps" "s = p @ concat ps"
    unfolding tokens_lang_def by blast
  then show "tokens_lang (t # ts) s" unfolding tokens_lang_def by (intro exI [of _ "p # ps"]) simp
qed

lemma any_suffixes_mem: "r \<in> set (any_suffixes s) \<longleftrightarrow> (\<exists>p. p \<noteq> [] \<and> s = p @ r)"
  by (induction s) (auto simp: Cons_eq_append_conv)

lemma star_suffixes_mem: "r \<in> set (star_suffixes s) \<longleftrightarrow> (\<exists>p. p \<noteq> [] \<and> CHR ''/'' \<notin> set p \<and> s = p @ r)"
  by (induction s) (auto simp: Cons_eq_append_conv)

lemma tokens_lang_byte:
  "(\<And>p. token_lang tok p \<longleftrightarrow> (\<exists>b. p = [b] \<and> P b)) \<Longrightarrow>
   tokens_lang (tok # ts) s \<longleftrightarrow> (case s of [] \<Rightarrow> False | b # bs \<Rightarrow> P b \<and> tokens_lang ts bs)"
proof (cases s)
  case (Cons a rest)
  assume lang: "\<And>p. token_lang tok p \<longleftrightarrow> (\<exists>b. p = [b] \<and> P b)"
  have "tokens_lang (tok # ts) (a # rest) \<longleftrightarrow> (\<exists>p r. a # rest = p @ r \<and> (\<exists>b. p = [b] \<and> P b) \<and> tokens_lang ts r)"
    by (simp only: tokens_lang_Cons lang)
  also have "\<dots> \<longleftrightarrow> P a \<and> tokens_lang ts rest"
  proof
    assume "P a \<and> tokens_lang ts rest"
    then show "\<exists>p r. a # rest = p @ r \<and> (\<exists>b. p = [b] \<and> P b) \<and> tokens_lang ts r"
      by (intro exI [of _ "[a]"] exI [of _ rest]) simp
  qed auto
  finally show ?thesis using Cons by simp
qed (auto simp: tokens_lang_Cons)

lemma suffix_split:
  "Q [] \<Longrightarrow> (\<exists>r. (\<exists>p. Q p \<and> s = p @ r) \<and> P r) \<longleftrightarrow> P s \<or> (\<exists>r. (\<exists>p. p \<noteq> [] \<and> Q p \<and> s = p @ r) \<and> P r)"
  by (metis append_Nil)

lemma matches_tokens_lang: "matches_tokens ts s \<longleftrightarrow> tokens_lang ts s"
proof (induction ts arbitrary: s)
  case (Cons tok ts)
  show ?case
  proof (cases tok)
    case DoubleStar
    have "matches_tokens (DoubleStar # ts) s \<longleftrightarrow> (\<exists>r. (\<exists>p. s = p @ r) \<and> tokens_lang ts r)"
      unfolding suffix_split [where Q = "\<lambda>_. True", simplified] using Cons.IH
      by (auto simp: list_ex_iff any_suffixes_mem)
    with DoubleStar show ?thesis by (auto simp: tokens_lang_Cons)
  next
    case Star
    have "matches_tokens (Star # ts) s \<longleftrightarrow> (\<exists>r. (\<exists>p. CHR ''/'' \<notin> set p \<and> s = p @ r) \<and> tokens_lang ts r)"
      unfolding suffix_split [where Q = "\<lambda>p. CHR ''/'' \<notin> set p", simplified] using Cons.IH
      by (auto simp: list_ex_iff star_suffixes_mem)
    with Star show ?thesis by (auto simp: tokens_lang_Cons)
  next
    case (Byte w)
    with Cons.IH show ?thesis using tokens_lang_byte [of tok "\<lambda>b. b = w"] by (simp split: list.splits)
  next
    case AnyByte
    with Cons.IH show ?thesis using tokens_lang_byte [of tok "\<lambda>b. b \<noteq> CHR ''/''"] by (simp split: list.splits)
  next
    case (Class neg rs)
    with Cons.IH show ?thesis
      using tokens_lang_byte [of tok "\<lambda>b. b \<noteq> CHR ''/'' \<and> in_ranges rs b \<noteq> neg"] by (simp split: list.splits)
  qed
qed simp

section \<open>Properties\<close>

text \<open>
  The documented grammar, by its abstract syntax: a pattern is a list of components, each a list of pieces or a
  double star; it may be rooted by a leading separator and restricted to directories by a trailing one.
  \<open>spell\<close> writes it down, \<open>doc_matches\<close> is the table of the module comment read component by component.
\<close>

datatype piece = Plain char | Escaped char | One | Run | OneOf bool "(char \<times> char) list"

datatype segment = Comp "piece list" | Dirs

record pattern =
  rooted :: bool
  segments :: "segment list"
  for_dirs :: bool

fun spell_range :: "char \<times> char \<Rightarrow> bytes" where
  "spell_range (lo, hi) = (if lo = hi then [lo] else [lo, CHR ''-'', hi])"

fun spell_piece :: "piece \<Rightarrow> bytes" where
  "spell_piece (Plain c) = [c]"
| "spell_piece (Escaped c) = [CHR 0x5C, c]"
| "spell_piece One = ''?''"
| "spell_piece Run = ''*''"
| "spell_piece (OneOf negated rs) = ''['' @ (if negated then ''!'' else []) @ concat (map spell_range rs) @ '']''"

fun spell_segment :: "segment \<Rightarrow> bytes" where
  "spell_segment (Comp ps) = concat (map spell_piece ps)"
| "spell_segment Dirs = ''**''"

definition spell :: "pattern \<Rightarrow> bytes" where
  "spell g = (if rooted g then ''/'' else []) @ join_with (CHR ''/'') (map spell_segment (segments g))
     @ (if for_dirs g then ''/'' else [])"

fun piece_means :: "piece \<Rightarrow> bytes \<Rightarrow> bool" where
  "piece_means (Plain c) s = (s = [c])"
| "piece_means (Escaped c) s = (s = [c])"
| "piece_means One s = (length s = 1)"
| "piece_means Run s = True"
| "piece_means (OneOf negated rs) s = (\<exists>b. s = [b] \<and> (\<exists>(lo, hi) \<in> set rs. lo \<le> b \<and> b \<le> hi) \<noteq> negated)"

definition component_means :: "piece list \<Rightarrow> bytes \<Rightarrow> bool" where
  "component_means ps c \<longleftrightarrow> (\<exists>parts. list_all2 piece_means ps parts \<and> c = concat parts)"

text \<open>A double star stands for zero or more whole components.\<close>

fun segments_match :: "segment list \<Rightarrow> bytes list \<Rightarrow> bool" where
  "segments_match [] cs \<longleftrightarrow> cs = []"
| "segments_match (Comp ps # gs) [] \<longleftrightarrow> False"
| "segments_match (Comp ps # gs) (c # cs) \<longleftrightarrow> component_means ps c \<and> segments_match gs cs"
| "segments_match (Dirs # gs) [] \<longleftrightarrow> segments_match gs []"
| "segments_match (Dirs # gs) (c # cs) \<longleftrightarrow> segments_match gs (c # cs) \<or> segments_match (Dirs # gs) cs"


text \<open>Spellings that say what they mean: a plain byte is none of the special ones, no separator is quoted or put in
  a class, a class has a range and none of its bytes can be taken for its syntax, two stars do not meet, a
  component is not empty and the last segment is a component.\<close>

fun piece_ok :: "piece \<Rightarrow> bool" where
  "piece_ok (Plain c) = (c \<notin> set ''/*?['' \<and> c \<noteq> CHR 0x5C)"
| "piece_ok (Escaped c) = (c \<noteq> CHR ''/'')"
| "piece_ok (OneOf negated rs) = (rs \<noteq> [] \<and> (\<forall>(lo, hi) \<in> set rs. lo \<notin> set '']-/!^'' \<and> hi \<notin> set '']/''))"
| "piece_ok _ = True"

fun pieces_ok :: "piece list \<Rightarrow> bool" where
  "pieces_ok [] = True"
| "pieces_ok (p # ps) = (piece_ok p \<and> \<not> (p = Run \<and> ps \<noteq> [] \<and> hd ps = Run) \<and> pieces_ok ps)"

fun segment_ok :: "segment \<Rightarrow> bool" where
  "segment_ok (Comp ps) = (ps \<noteq> [] \<and> pieces_ok ps)"
| "segment_ok Dirs = True"

definition pattern_ok :: "pattern \<Rightarrow> bool" where
  "pattern_ok g \<longleftrightarrow> segments g \<noteq> [] \<and> last (segments g) \<noteq> Dirs \<and> list_all segment_ok (segments g)"

text \<open>What the pieces compile to.\<close>

fun piece_token :: "piece \<Rightarrow> token" where
  "piece_token (Plain c) = Byte c"
| "piece_token (Escaped c) = Byte c"
| "piece_token One = AnyByte"
| "piece_token Run = Star"
| "piece_token (OneOf negated rs) = Class negated rs"

fun segment_tokens :: "segment list \<Rightarrow> token list" where
  "segment_tokens [] = []"
| "segment_tokens (Dirs # gs) = DoubleStar # segment_tokens gs"
| "segment_tokens (Comp ps # gs) = map piece_token ps @ (if gs = [] then [] else Byte (CHR ''/'') # segment_tokens gs)"

lemma class_ranges_spell:
  "\<forall>(lo, hi) \<in> set rs. lo \<notin> set '']-/!^'' \<and> hi \<notin> set '']/'' \<Longrightarrow>
   class_ranges (concat (map spell_range rs) @ CHR '']'' # rest) = Some (rs, length (concat (map spell_range rs)))"
proof (induction rs)
  case (Cons r rs)
  obtain lo hi where r: "r = (lo, hi)" by force
  have ok: "lo \<notin> set '']-/!^''" "hi \<notin> set '']/''" using Cons.prems r by auto
  have IH: "class_ranges (concat (map spell_range rs) @ CHR '']'' # rest) = Some (rs, length (concat (map spell_range rs)))"
    using Cons by simp
  show ?case
  proof (cases "lo = hi")
    case True
    let ?t = "concat (map spell_range rs) @ CHR '']'' # rest"
    have "hd ?t \<noteq> CHR ''-''" using Cons.prems by (cases rs) (auto split: if_splits)
    moreover obtain d u where t: "?t = d # u" by (cases ?t) auto
    ultimately show ?thesis using ok IH by (cases u) (simp_all add: r True)
  next
    case False
    then show ?thesis using ok IH by (simp add: r)
  qed
qed simp

lemma parse_class_spell:
  assumes "piece_ok (OneOf negated rs)"
  shows "parse_class (spell_piece (OneOf negated rs) @ rest) = Some (Class negated rs, length (spell_piece (OneOf negated rs)))"
proof -
  obtain lo hi rs' where rs: "rs = (lo, hi) # rs'" using assms by (cases rs) auto
  obtain w where w: "concat (map spell_range rs) = lo # w" by (cases "lo = hi") (auto simp: rs)
  have ok: "lo \<notin> set '']-/!^''" using assms rs by auto
  have c: "class_ranges (concat (map spell_range rs) @ CHR '']'' # rest) = Some (rs, length (concat (map spell_range rs)))"
    by (rule class_ranges_spell) (use assms in auto)
  show ?thesis using ok c by (cases negated) (simp_all add: parse_class_def byte_get_def Let_def w)
qed

lemma hd_spell: "piece_ok p \<Longrightarrow> spell_piece p \<noteq> [] \<and> hd (spell_piece p) \<noteq> CHR ''/'' \<and> (hd (spell_piece p) = CHR ''*'' \<longrightarrow> p = Run)"
  by (cases p) auto

lemma hd_pieces:
  assumes "pieces_ok ps" and "ps \<noteq> []"
  shows "concat (map spell_piece ps) \<noteq> [] \<and> hd (concat (map spell_piece ps) @ rest) = hd (spell_piece (hd ps))"
  using assms hd_spell [of "hd ps"] by (cases ps) auto

lemma glob_tokens_piece:
  assumes "piece_ok p" and "p = Run \<Longrightarrow> rest = [] \<or> hd rest \<noteq> CHR ''*''"
  shows "glob_tokens (spell_piece p @ rest) = piece_token p # glob_tokens rest"
proof (cases p)
  case (OneOf negated rs)
  note pc = parse_class_spell [of negated rs rest, OF assms(1) [unfolded OneOf]]
  obtain w where w: "spell_piece (OneOf negated rs) = CHR ''['' # w" by simp
  then show ?thesis using pc by (simp add: OneOf del: spell_piece.simps)
next
  case Run
  then show ?thesis using assms(2) by (cases rest) auto
qed (use assms(1) in auto)

lemma glob_tokens_pieces:
  assumes "pieces_ok ps" and "rest = [] \<or> hd rest \<noteq> CHR ''*''"
  shows "glob_tokens (concat (map spell_piece ps) @ rest) = map piece_token ps @ glob_tokens rest"
  using assms(1)
proof (induction ps)
  case (Cons p ps)
  let ?r = "concat (map spell_piece ps) @ rest"
  have "?r = [] \<or> hd ?r \<noteq> CHR ''*''" if "p = Run"
  proof (cases "ps = []")
    case False
    then have ok: "pieces_ok ps" "piece_ok (hd ps)" "hd ps \<noteq> Run" using Cons.prems that by (cases ps; auto)+
    then show ?thesis using hd_pieces [OF ok(1) False] hd_spell [OF ok(2)] by auto
  qed (use assms(2) in simp)
  then show ?case using glob_tokens_piece [of p ?r] Cons by simp
qed simp

lemma glob_tokens_segments:
  assumes "list_all segment_ok gs" and "gs \<noteq> []" and "last gs \<noteq> Dirs"
  shows "glob_tokens (join_with (CHR ''/'') (map spell_segment gs)) = segment_tokens gs"
  using assms
proof (induction gs)
  case (Cons g gs)
  show ?case
  proof (cases gs)
    case Nil
    then obtain ps where g: "g = Comp ps" using Cons.prems by (cases g) auto
    then show ?thesis using Cons.prems Nil glob_tokens_pieces [of ps "[]"] by simp
  next
    case (Cons h hs)
    then have j: "join_with (CHR ''/'') (map spell_segment (g # gs)) =
        spell_segment g @ CHR ''/'' # join_with (CHR ''/'') (map spell_segment gs)" by simp
    have IH: "glob_tokens (join_with (CHR ''/'') (map spell_segment gs)) = segment_tokens gs"
      using Cons.IH Cons Cons.prems by simp
    show ?thesis
    proof (cases g)
      case (Comp ps)
      then show ?thesis unfolding j using Cons.prems Cons IH glob_tokens_pieces [of ps "CHR ''/'' # _"] by simp
    qed (unfold j, simp add: IH)
  qed
qed simp

text \<open>What the compiled pieces match.\<close>

lemma tokens_lang_append: "tokens_lang (A @ B) s \<longleftrightarrow> (\<exists>x y. s = x @ y \<and> tokens_lang A x \<and> tokens_lang B y)"
proof (induction A arbitrary: s)
  case (Cons t A)
  show ?case
    by (simp add: tokens_lang_Cons Cons.IH) (metis append.assoc)
qed simp

lemma piece_lang: "CHR ''/'' \<notin> set s \<Longrightarrow> token_lang (piece_token p) s \<longleftrightarrow> piece_means p s"
proof (cases p)
  case One
  assume "CHR ''/'' \<notin> set s"
  then show ?thesis by (cases s; cases "tl s") (simp_all add: One)
next
  case (OneOf negated rs)
  assume s: "CHR ''/'' \<notin> set s"
  have "in_ranges rs b \<longleftrightarrow> (\<exists>(lo, hi) \<in> set rs. lo \<le> b \<and> b \<le> hi)" for b by (auto simp: in_ranges_def list_ex_iff)
  with s show ?thesis by (cases s) (simp_all add: OneOf, force)
qed simp_all

lemma pieces_lang: "CHR ''/'' \<notin> set c \<Longrightarrow> tokens_lang (map piece_token ps) c \<longleftrightarrow> component_means ps c"
proof (induction ps arbitrary: c)
  case (Cons p ps)
  have "component_means (p # ps) c \<longleftrightarrow> (\<exists>x y. c = x @ y \<and> piece_means p x \<and> component_means ps y)"
  proof
    assume "component_means (p # ps) c"
    then show "\<exists>x y. c = x @ y \<and> piece_means p x \<and> component_means ps y"
      unfolding component_means_def list_all2_Cons1 by (metis concat.simps(2))
  next
    assume "\<exists>x y. c = x @ y \<and> piece_means p x \<and> component_means ps y"
    then obtain x parts where "c = x @ concat parts" "piece_means p x" "list_all2 piece_means ps parts"
      by (auto simp: component_means_def)
    then show "component_means (p # ps) c" unfolding component_means_def by (intro exI [of _ "x # parts"]) simp
  qed
  also have "\<dots> \<longleftrightarrow> (\<exists>x y. c = x @ y \<and> token_lang (piece_token p) x \<and> tokens_lang (map piece_token ps) y)"
    using Cons piece_lang by (metis Un_iff set_append)
  finally show ?case by (simp add: tokens_lang_Cons)
qed (auto simp: component_means_def)

lemma pieces_stay:
  assumes "pieces_ok ps" and "tokens_lang (map piece_token ps) s"
  shows "CHR ''/'' \<notin> set s"
  using assms
proof (induction ps arbitrary: s)
  case (Cons p ps)
  then obtain x y where s: "s = x @ y" "token_lang (piece_token p) x" "tokens_lang (map piece_token ps) y"
    by (auto simp: tokens_lang_Cons)
  have "CHR ''/'' \<notin> set x" using s(2) Cons.prems(1) by (cases p) auto
  then show ?case using s Cons by simp
qed simp

lemma first_cut:
  assumes "z \<notin> set c"
  shows "c @ z # r = x @ z # y \<and> z \<notin> set x \<longleftrightarrow> x = c \<and> y = r"
proof
  assume "c @ z # r = x @ z # y \<and> z \<notin> set x"
  then show "x = c \<and> y = r" using assms by (induction c arbitrary: x) (auto simp: Cons_eq_append_conv)
qed (use assms in simp)

lemma component_step:
  assumes "pieces_ok ps" and "CHR ''/'' \<notin> set c"
  shows "tokens_lang (map piece_token ps @ Byte (CHR ''/'') # ts) (c @ CHR ''/'' # r) \<longleftrightarrow> component_means ps c \<and> tokens_lang ts r"
    and "\<not> tokens_lang (map piece_token ps @ Byte (CHR ''/'') # ts) c"
proof -
  have split: "tokens_lang (map piece_token ps @ Byte (CHR ''/'') # ts) s \<longleftrightarrow>
      (\<exists>x y. s = x @ CHR ''/'' # y \<and> CHR ''/'' \<notin> set x \<and> component_means ps x \<and> tokens_lang ts y)" for s
  proof
    assume "tokens_lang (map piece_token ps @ Byte (CHR ''/'') # ts) s"
    then obtain x y where "s = x @ CHR ''/'' # y" "tokens_lang (map piece_token ps) x" "tokens_lang ts y"
      by (auto simp: tokens_lang_append tokens_lang_Cons)
    then show "\<exists>x y. s = x @ CHR ''/'' # y \<and> CHR ''/'' \<notin> set x \<and> component_means ps x \<and> tokens_lang ts y"
      using pieces_stay [OF assms(1)] pieces_lang by blast
  next
    assume "\<exists>x y. s = x @ CHR ''/'' # y \<and> CHR ''/'' \<notin> set x \<and> component_means ps x \<and> tokens_lang ts y"
    then obtain x y where xy: "s = x @ CHR ''/'' # y" "tokens_lang (map piece_token ps) x" "tokens_lang ts y"
      using pieces_lang by blast
    have "tokens_lang (Byte (CHR ''/'') # ts) (CHR ''/'' # y)" using xy(3) by (simp add: tokens_lang_byte [where P = "\<lambda>b. b = CHR ''/''"])
    then show "tokens_lang (map piece_token ps @ Byte (CHR ''/'') # ts) s" unfolding tokens_lang_append using xy(1,2) by blast
  qed
  have only: "c @ CHR ''/'' # r = x @ CHR ''/'' # y \<and> CHR ''/'' \<notin> set x \<longleftrightarrow> x = c \<and> y = r" for x y
    using first_cut [OF assms(2)] by blast
  show "tokens_lang (map piece_token ps @ Byte (CHR ''/'') # ts) (c @ CHR ''/'' # r) \<longleftrightarrow> component_means ps c \<and> tokens_lang ts r"
    unfolding split
  proof
    assume "\<exists>x y. c @ CHR ''/'' # r = x @ CHR ''/'' # y \<and> CHR ''/'' \<notin> set x \<and> component_means ps x \<and> tokens_lang ts y"
    then obtain x y where eq: "c @ CHR ''/'' # r = x @ CHR ''/'' # y" "CHR ''/'' \<notin> set x"
      and ok: "component_means ps x" "tokens_lang ts y" by (elim exE conjE)
    have "x = c \<and> y = r" by (rule only [THEN iffD1, OF conjI [OF eq]])
    with ok show "component_means ps c \<and> tokens_lang ts r" by simp
  qed (use assms(2) in blast)
  show "\<not> tokens_lang (map piece_token ps @ Byte (CHR ''/'') # ts) c"
    unfolding split using assms(2) by auto
qed


lemma double_star_more: "tokens_lang (DoubleStar # ts) s \<Longrightarrow> tokens_lang (DoubleStar # ts) (x @ s)"
  by (simp add: tokens_lang_Cons) (metis append.assoc)

lemma segments_Nil: "segments_match gs [] \<Longrightarrow> gs = [] \<or> last gs = Dirs"
proof (induction gs)
  case (Cons g gs)
  then show ?case by (cases g) auto
qed simp

lemma segments_found:
  assumes "segments_match gs cs" and "list_all segment_ok gs" and "gs \<noteq> []" and "last gs \<noteq> Dirs" and "\<forall>c \<in> set cs. CHR ''/'' \<notin> set c"
  shows "matches_tokens (segment_tokens gs) (join_with (CHR ''/'') cs)"
  using assms
proof (induction gs cs rule: segments_match.induct)
  case (3 ps gs c cs)
  then have ps: "pieces_ok ps" and c: "CHR ''/'' \<notin> set c" and m: "component_means ps c" "segments_match gs cs" by simp_all
  show ?case
  proof (cases "gs = []")
    case True
    then show ?thesis using m pieces_lang [OF c, of ps] by (simp add: matches_tokens_lang)
  next
    case False
    then have last: "last gs \<noteq> Dirs" using "3.prems" by simp
    then obtain d ds where cs: "cs = d # ds" using m(2) segments_Nil [of gs] False by (cases cs) auto
    have "matches_tokens (segment_tokens gs) (join_with (CHR ''/'') cs)" using 3 False last m by simp
    then show ?thesis using component_step(1) [OF ps c] m(1) False by (simp add: cs matches_tokens_lang)
  qed
next
  case (5 gs c cs)
  have gs: "gs \<noteq> []" "last gs \<noteq> Dirs" using "5.prems"(4) by (auto split: if_splits)
  show ?case
  proof (cases "segments_match gs (c # cs)")
    case True
    then have "matches_tokens (segment_tokens gs) (join_with (CHR ''/'') (c # cs))" using 5 gs by simp
    then show ?thesis by simp
  next
    case False
    then have m: "segments_match (Dirs # gs) cs" using "5.prems"(1) by simp
    have "\<not> segments_match gs []" using segments_Nil [of gs] gs by blast
    then have "cs \<noteq> []" using m by auto
    then have j: "join_with (CHR ''/'') (c # cs) = (c @ ''/'') @ join_with (CHR ''/'') cs" by (cases cs) auto
    have "matches_tokens (segment_tokens (Dirs # gs)) (join_with (CHR ''/'') cs)" using 5 m by simp
    then show ?thesis unfolding j matches_tokens_lang segment_tokens.simps by (rule double_star_more)
  qed
qed (auto dest: segments_Nil split: if_splits)





text \<open>How a spelling is taken apart.\<close>

lemma segment_clean: "segment_ok g \<Longrightarrow> CHR ''/'' \<notin> set (spell_segment g) \<and> spell_segment g \<noteq> []"
proof (cases g)
  case (Comp ps)
  have range: "CHR ''/'' \<notin> set (spell_range r)" if "(\<lambda>(lo, hi). lo \<notin> set '']-/!^'' \<and> hi \<notin> set '']/'') r" for r
    using that by (cases r) auto
  have piece: "CHR ''/'' \<notin> set (spell_piece p)" if "piece_ok p" for p
    using that range by (cases p) auto
  have "CHR ''/'' \<notin> set (concat (map spell_piece ps))" if "pieces_ok ps"
    using that by (induction ps) (auto simp: piece)
  moreover assume "segment_ok g"
  ultimately show ?thesis using hd_pieces [of ps] Comp by auto
qed simp

lemma join_clean:
  assumes "bs \<noteq> []" and "\<forall>b \<in> set bs. z \<notin> set b \<and> b \<noteq> []"
  shows "join_with z bs \<noteq> [] \<and> hd (join_with z bs) \<noteq> z \<and> last (join_with z bs) \<noteq> z
    \<and> (z \<in> set (join_with z bs) \<longleftrightarrow> length bs \<noteq> 1)"
  using assms
proof (induction z bs rule: join_with.induct)
  case (2 z p)
  then show ?case using hd_in_set [of p] last_in_set [of p] by auto
next
  case (3 z p q ps)
  then show ?case using hd_in_set [of p] by auto
qed simp

lemma compile_spell:
  assumes "pattern_ok g"
  shows "from_bytes (spell g) = \<lparr>g_tokens = segment_tokens (segments g), name_only = (\<not> rooted g \<and> length (segments g) = 1),
    directory_only = for_dirs g, g_source = spell g\<rparr>"
proof -
  let ?B = "join_with (CHR ''/'') (map spell_segment (segments g))"
  have ok: "list_all segment_ok (segments g)" "segments g \<noteq> []" "last (segments g) \<noteq> Dirs" using assms by (simp_all add: pattern_ok_def)
  have "\<forall>b \<in> set (map spell_segment (segments g)). CHR ''/'' \<notin> set b \<and> b \<noteq> []"
    using ok(1) segment_clean by (auto simp: list_all_iff)
  then have B: "?B \<noteq> []" "hd ?B \<noteq> CHR ''/''" "last ?B \<noteq> CHR ''/''" "CHR ''/'' \<in> set ?B \<longleftrightarrow> length (segments g) \<noteq> 1"
    using join_clean [of "map spell_segment (segments g)" "CHR ''/''"] ok(2) by simp_all
  have "strip_prefix ''/'' ?B = None" using B(1,2) by (cases ?B) (auto simp: strip_prefix_def)
  moreover have "strip_prefix ''/'' (CHR ''/'' # ?B) = Some ?B" by (simp add: strip_prefix_def)
  ultimately show ?thesis using B glob_tokens_segments [OF ok]
    by (cases "rooted g"; cases "for_dirs g") (simp_all add: from_bytes_def spell_def Let_def butlast_append)
qed



definition demo_src :: segment where
  "demo_src = Comp [Plain (CHR ''s''), Plain (CHR ''r''), Plain (CHR ''c'')]"


text \<open>Quoting every byte makes a pattern literal.\<close>

definition quoted :: "bytes \<Rightarrow> bytes" where
  "quoted p = concat (map (\<lambda>b. [CHR 0x5C, b]) p)"

lemma quoted_tokens: "glob_tokens (quoted p) = map Byte p"
  by (induction p) (auto simp: quoted_def)

lemma quoted_last: "p \<noteq> [] \<Longrightarrow> last (quoted p) = last p"
  by (cases p rule: rev_cases) (simp_all add: quoted_def)

lemma matches_bytes: "matches_tokens (map Byte p) s \<longleftrightarrow> s = p"
  by (induction p arbitrary: s) (auto split: list.splits)

text \<open>Compilation is total and quoting is faithful: the pattern that escapes every byte of a path that neither
  starts nor ends with a separator matches the paths that have it as a component when it has no separator, and
  exactly the path itself otherwise.\<close>

theorem quoted_pattern_is_literal:
  assumes "p \<noteq> []" and "last p \<noteq> CHR ''/''"
  shows "glob_matches (from_bytes (quoted p)) s \<longleftrightarrow>
    (if CHR ''/'' \<in> set p then s = p else p \<in> set (split_on (CHR ''/'') s))"
proof -
  have q: "quoted p \<noteq> []" "last (quoted p) = last p" "hd (quoted p) = CHR 0x5C"
    using assms(1) quoted_last [OF assms(1)] by (cases p; simp add: quoted_def)+
  then have strip: "strip_prefix ''/'' (quoted p) = None"
    by (cases "quoted p") (auto simp: strip_prefix_def)
  have slash: "CHR ''/'' \<in> set (quoted p) \<longleftrightarrow> CHR ''/'' \<in> set p" by (auto simp: quoted_def)
  have "from_bytes (quoted p) = \<lparr>g_tokens = map Byte p, name_only = (CHR ''/'' \<notin> set p),
      directory_only = False, g_source = quoted p\<rparr>"
    using q strip assms(2) by (simp add: from_bytes_def Let_def quoted_tokens slash)
  then show ?thesis by (auto simp: glob_matches_def matches_bytes list_ex_iff Let_def)
qed

theorem quoted_pattern_is_literal_witness:
  "glob_matches (from_bytes (quoted ''a*b'')) ''x/a*b'' \<and> \<not> glob_matches (from_bytes (quoted ''a*b'')) ''x/acb''"
  using quoted_pattern_is_literal [of "''a*b''"] by simp

text \<open>Tokens that cannot match a separator.\<close>

fun single_component :: "token \<Rightarrow> bool" where
  "single_component (Byte b) = (b \<noteq> CHR ''/'')"
| "single_component DoubleStar = False"
| "single_component _ = True"

lemma single_component_lang: "single_component tok \<Longrightarrow> token_lang tok s \<Longrightarrow> CHR ''/'' \<notin> set s"
  by (cases tok) auto

text \<open>A pattern without a double star and without a literal separator never matches across a separator, so a
  name pattern is a statement about single components.\<close>

theorem name_pattern_stays_in_component:
  assumes "list_all single_component ts" and "matches_tokens ts s"
  shows "CHR ''/'' \<notin> set s"
proof -
  obtain ps where ps: "list_all2 token_lang ts ps" "s = concat ps"
    using assms(2) by (auto simp: matches_tokens_lang tokens_lang_def)
  from ps(1) assms(1) have "\<forall>p \<in> set ps. CHR ''/'' \<notin> set p"
    by (induction ts ps rule: list_all2_induct) (auto dest: single_component_lang)
  with ps(2) show ?thesis by auto
qed

theorem name_pattern_stays_in_component_witness:
  "CHR ''/'' \<notin> set ''main.rs''"
  by (rule name_pattern_stays_in_component [of "g_tokens (from_bytes ''*.r[a-z]'')"]) code_simp+

lemma matches_literal_prefix: "matches_tokens (map Byte p @ ts) (p @ s) = matches_tokens ts s"
  by (induction p) simp_all

text \<open>The grammar says a double star stands for whole path components; the matcher lets it end anywhere. For
  any pattern with a double star inside, a path whose front matches the segments before it and whose end matches
  the segments after it is matched whatever stands between, so the end need not start a component.\<close>

lemma segment_tokens_append:
  "A \<noteq> [] \<Longrightarrow> Dirs \<notin> set A \<Longrightarrow> B \<noteq> [] \<Longrightarrow> segment_tokens (A @ B) = segment_tokens A @ Byte (CHR ''/'') # segment_tokens B"
proof (induction A)
  case (Cons g A)
  then show ?case by (cases g) auto
qed simp

theorem double_star_ends_inside_component:
  assumes "pattern_ok \<lparr>rooted = r, segments = A @ Dirs # B, for_dirs = False\<rparr>" and "A \<noteq> []" and "Dirs \<notin> set A"
    and "segments_match A (split_on (CHR ''/'') x)" and "segments_match B (split_on (CHR ''/'') y)"
  shows "glob_matches (from_bytes (spell \<lparr>rooted = r, segments = A @ Dirs # B, for_dirs = False\<rparr>)) (x @ ''/'' @ junk @ y)"
proof -
  have B: "B \<noteq> []" "last B \<noteq> Dirs" and ok: "list_all segment_ok A" "list_all segment_ok B"
    using assms(1) by (auto simp: pattern_ok_def split: if_splits)
  have "matches_tokens (segment_tokens A) x" "matches_tokens (segment_tokens B) y"
    using segments_found [OF assms(4) ok(1) assms(2)] segments_found [OF assms(5) ok(2) B] assms(2,3) split_on_no_sep
    by (metis join_split last_in_set)+
  then have x: "tokens_lang (segment_tokens A) x" and y: "tokens_lang (segment_tokens B) y" by (simp_all add: matches_tokens_lang)
  have "tokens_lang (DoubleStar # segment_tokens B) (junk @ y)" using y by (auto simp: tokens_lang_Cons)
  then have "tokens_lang (Byte (CHR ''/'') # DoubleStar # segment_tokens B) (''/'' @ junk @ y)"
    by (simp add: tokens_lang_byte [where P = "\<lambda>b. b = CHR ''/''"])
  then have "tokens_lang (segment_tokens A @ Byte (CHR ''/'') # DoubleStar # segment_tokens B) (x @ ''/'' @ junk @ y)"
    using x tokens_lang_append by blast
  then show ?thesis using segment_tokens_append [OF assms(2,3), of "Dirs # B"] assms(2)
    by (simp add: compile_spell [OF assms(1)] glob_matches_def matches_tokens_lang)
qed

theorem double_star_ends_inside_component_witness:
  "glob_matches (from_bytes (spell \<lparr>rooted = False, segments = [demo_src] @ Dirs # [Comp [Plain (CHR ''m'')]], for_dirs = False\<rparr>)) (''src'' @ ''/'' @ ''xx'' @ ''m'')"
proof (rule double_star_ends_inside_component)
  have "component_means [Plain (CHR ''s''), Plain (CHR ''r''), Plain (CHR ''c'')] ''src''"
    unfolding component_means_def by (intro exI [of _ "[''s'', ''r'', ''c'']"]) simp
  then show "segments_match [demo_src] (split_on (CHR ''/'') ''src'')" by (simp add: demo_src_def)
  have "component_means [Plain (CHR ''m'')] ''m''"
    unfolding component_means_def by (intro exI [of _ "[''m'']"]) simp
  then show "segments_match [Comp [Plain (CHR ''m'')]] (split_on (CHR ''/'') ''m'')" by simp
qed (code_simp | simp add: demo_src_def)+

end
