(* ===== verification/Gfs_Pkt.thy ===== *)
theory Gfs_Pkt
  imports Gfs_Error "HOL-Library.Code_Target_Nat"
begin

text \<open>
  pkt-line framing and the advertisement scanner of the Git gateway
  (\<open>crates/gfs-service/src/gateway/pkt.rs\<close>). The scanner forwards an outgoing ref advertisement and
  aborts when a reserved ref appears; it must not depend on how the stream is cut into chunks.
\<close>

section \<open>Framing\<close>

definition MAX_PKT_LINE :: nat where
  "MAX_PKT_LINE = 65520"

definition hex_char :: "nat \<Rightarrow> char" where
  "hex_char d = ''0123456789abcdef'' ! d"

fun hex_of :: "nat \<Rightarrow> bytes" where
  "hex_of n = (if n < 16 then [hex_char n] else hex_of (n div 16) @ [hex_char (n mod 16)])"

declare hex_of.simps [simp del]

text \<open>The format \<open>{:04x}\<close>: lower case, zero padded to four digits, longer when needed.\<close>

definition hex04 :: "nat \<Rightarrow> bytes" where
  "hex04 n = replicate (4 - length (hex_of n)) (CHR ''0'') @ hex_of n"

definition pkt_line :: "bytes \<Rightarrow> bytes" where
  "pkt_line payload = hex04 (length payload + 4) @ payload"

definition FLUSH_PKT :: bytes where
  "FLUSH_PKT = ''0000''"

datatype packet = Data bytes | Flush | Delim | ResponseEnd

text \<open>
  \<open>usize::from_str_radix(s, 16)\<close>: digits of either case, with an optional leading plus sign; a lone
  sign and the empty string are errors.
\<close>

definition radix16_digit :: "char \<Rightarrow> nat option" where
  "radix16_digit c =
     (let n = of_char c :: nat
      in if 48 \<le> n \<and> n \<le> 57 then Some (n - 48)
         else if 97 \<le> n \<and> n \<le> 102 then Some (n - 87)
         else if 65 \<le> n \<and> n \<le> 70 then Some (n - 55)
         else None)"

fun radix16_value :: "nat \<Rightarrow> bytes \<Rightarrow> nat option" where
  "radix16_value acc [] = Some acc"
| "radix16_value acc (c # cs) =
     (case radix16_digit c of None \<Rightarrow> None | Some d \<Rightarrow> radix16_value (acc * 16 + d) cs)"

definition from_str_radix16 :: "bytes \<Rightarrow> nat option" where
  "from_str_radix16 s =
     (let digits = (case s of c # cs \<Rightarrow> if c = CHR ''+'' then cs else s | [] \<Rightarrow> [])
      in if digits = [] then None else radix16_value 0 digits)"

text \<open>The packet at the head of at least four bytes, and what it consumes; nothing when it is incomplete.\<close>

definition decode_one :: "bytes \<Rightarrow> error_code + (packet \<times> nat) option" where
  "decode_one data =
     (let header = take 4 data
      in if \<not> utf8_valid header then Inl InvalidArgument
         else case from_str_radix16 header of
           None \<Rightarrow> Inl InvalidArgument
         | Some len \<Rightarrow>
             if len = 0 then Inr (Some (Flush, 4))
             else if len = 1 then Inr (Some (Delim, 4))
             else if len = 2 then Inr (Some (ResponseEnd, 4))
             else if len = 3 then Inl InvalidArgument
             else if len > MAX_PKT_LINE then Inl InvalidArgument
             else if len > length data then Inr None
             else Inr (Some (Data (drop 4 (take len data)), len)))"

lemma decode_one_consumed: "decode_one data = Inr (Some (pk, n)) \<Longrightarrow> 4 \<le> n"
  by (auto simp: decode_one_def Let_def split: if_splits option.splits)

function decode :: "bytes \<Rightarrow> error_code + packet list" where
  "decode data =
     (if length data < 4 then Inr []
      else case decode_one data of
        Inl e \<Rightarrow> Inl e
      | Inr None \<Rightarrow> Inl InvalidArgument
      | Inr (Some (pk, n)) \<Rightarrow>
          (case decode (drop n data) of Inl e \<Rightarrow> Inl e | Inr pks \<Rightarrow> Inr (pk # pks)))"
  by pat_completeness auto
termination by (relation "measure length") (auto dest: decode_one_consumed)

function decode_until_flush :: "bytes \<Rightarrow> error_code + packet list" where
  "decode_until_flush data =
     (if length data < 4 then Inr []
      else case decode_one data of
        Inl e \<Rightarrow> Inl e
      | Inr None \<Rightarrow> Inl InvalidArgument
      | Inr (Some (pk, n)) \<Rightarrow>
          if pk = Flush then Inr [pk]
          else (case decode_until_flush (drop n data) of Inl e \<Rightarrow> Inl e | Inr pks \<Rightarrow> Inr (pk # pks)))"
  by pat_completeness auto
termination by (relation "measure length") (auto dest: decode_one_consumed)

declare decode.simps [simp del] and decode_until_flush.simps [simp del]

section \<open>The scanner\<close>

record scanner =
  hidden :: "bytes list"
  allowed :: "bytes list"
  pending :: bytes

definition scanner_new :: "bytes list \<Rightarrow> scanner" where
  "scanner_new prefixes = \<lparr>hidden = prefixes, allowed = [], pending = []\<rparr>"

definition allowing :: "bytes \<Rightarrow> scanner \<Rightarrow> scanner" where
  "allowing prefix s = s\<lparr>allowed := allowed s @ [prefix]\<rparr>"

definition check_prefix :: "bytes list \<Rightarrow> bytes \<Rightarrow> bytes \<Rightarrow> bool" where
  "check_prefix allow payload needle =
     (if needle = [] \<or> length payload < length needle then True
      else list_all (\<lambda>i. list_ex (\<lambda>a. starts_with (drop i payload) a) allow)
             (filter (\<lambda>i. take (length needle) (drop i payload) = needle)
                [0..<Suc (length payload - length needle)]))"

definition check :: "scanner \<Rightarrow> bytes \<Rightarrow> bool" where
  "check s payload = list_all (check_prefix (allowed s) payload) (hidden s)"

text \<open>The loop of \<open>push\<close>: how far the buffer consists of complete, permitted packets.\<close>

function scan :: "(bytes \<Rightarrow> bool) \<Rightarrow> bytes \<Rightarrow> error_code + nat" where
  "scan chk data =
     (if length data < 4 then Inr 0
      else case decode_one data of
        Inl e \<Rightarrow> Inl e
      | Inr None \<Rightarrow> Inr 0
      | Inr (Some (pk, n)) \<Rightarrow>
          if (case pk of Data payload \<Rightarrow> \<not> chk payload | _ \<Rightarrow> False) then Inl PermissionDenied
          else (case scan chk (drop n data) of Inl e \<Rightarrow> Inl e | Inr k \<Rightarrow> Inr (n + k)))"
  by pat_completeness auto
termination by (relation "measure (length \<circ> snd)") (auto dest: decode_one_consumed)

declare scan.simps [simp del]

definition push :: "bytes \<Rightarrow> scanner \<Rightarrow> (error_code + bytes) \<times> scanner" where
  "push chunk s =
     (let s1 = s\<lparr>pending := pending s @ chunk\<rparr>
      in case scan (check s) (pending s1) of
           Inl e \<Rightarrow> (Inl e, s1)
         | Inr k \<Rightarrow>
             (let ready = take k (pending s1); s2 = s1\<lparr>pending := drop k (pending s1)\<rparr>
              in if length (pending s2) > MAX_PKT_LINE then (Inl InvalidArgument, s2) else (Inr ready, s2)))"

definition finish :: "scanner \<Rightarrow> bytes \<times> scanner" where
  "finish s = (pending s, s\<lparr>pending := []\<rparr>)"

section \<open>The length prefix\<close>

definition is_hex_char :: "char \<Rightarrow> bool" where
  "is_hex_char c \<longleftrightarrow> (\<exists>d < 16. c = hex_char d)"

lemma is_hex_charI [intro, simp]: "d < 16 \<Longrightarrow> is_hex_char (hex_char d)"
  by (auto simp: is_hex_char_def)

lemma hex_char_props:
  assumes "d < 16"
  shows "radix16_digit (hex_char d) = Some d" "hex_char d \<noteq> CHR ''+''" "of_char (hex_char d) < (128 :: nat)"
proof -
  have "\<forall>d \<in> set [0..<16]. radix16_digit (hex_char d) = Some d \<and> hex_char d \<noteq> CHR ''+'' \<and> of_char (hex_char d) < (128 :: nat)"
    by code_simp
  then show "radix16_digit (hex_char d) = Some d" "hex_char d \<noteq> CHR ''+''" "of_char (hex_char d) < (128 :: nat)"
    using assms by simp_all
qed

lemma is_hex_char_ascii: "is_hex_char c \<Longrightarrow> of_char c < (128 :: nat)"
  by (auto simp: is_hex_char_def hex_char_props)

lemma radix16_value_append:
  "radix16_value acc (xs @ ys) = (case radix16_value acc xs of None \<Rightarrow> None | Some a \<Rightarrow> radix16_value a ys)"
  by (induction xs arbitrary: acc) (auto split: option.splits)

lemma radix16_hex_of: "radix16_value acc (hex_of n) = Some (acc * 16 ^ length (hex_of n) + n)"
proof (induction n arbitrary: acc rule: hex_of.induct)
  case (1 n)
  show ?case
  proof (cases "n < 16")
    case True
    then show ?thesis by (subst (1 2) hex_of.simps) (simp add: hex_char_props)
  next
    case False
    then have "hex_of n = hex_of (n div 16) @ [hex_char (n mod 16)]" by (subst hex_of.simps) simp
    with 1 [OF False] show ?thesis by (simp add: radix16_value_append hex_char_props algebra_simps)
  qed
qed

lemma hex_of_chars: "c \<in> set (hex_of n) \<Longrightarrow> is_hex_char c"
proof (induction n rule: hex_of.induct)
  case (1 n)
  then show ?case
    by (cases "n < 16") (subst (asm) hex_of.simps; auto)+
qed

lemma hex_of_length: "n < 16 ^ k \<Longrightarrow> 0 < k \<Longrightarrow> length (hex_of n) \<le> k"
proof (induction k arbitrary: n)
  case (Suc k)
  show ?case
  proof (cases "n < 16")
    case False
    with Suc.prems have "n div 16 < 16 ^ k" "0 < k" by (auto simp: less_mult_imp_div_less mult.commute intro: gr0I)
    with Suc.IH False show ?thesis by (subst hex_of.simps) simp
  qed (subst hex_of.simps, simp)
qed simp

lemma zeros_value: "radix16_value 0 (replicate k (CHR ''0'') @ xs) = radix16_value 0 xs"
  by (induction k) (simp_all add: radix16_digit_def)

lemma hex04_props:
  assumes "n < 65536"
  shows "length (hex04 n) = 4" "from_str_radix16 (hex04 n) = Some n" "utf8_valid (hex04 n)"
proof -
  have len: "length (hex_of n) \<le> 4" using hex_of_length [of n 4] assms by simp
  then show four: "length (hex04 n) = 4" by (simp add: hex04_def)
  have zero: "CHR ''0'' = hex_char 0" by (simp add: hex_char_def)
  have chars: "is_hex_char c" if "c \<in> set (hex04 n)" for c
    using that hex_of_chars zero by (auto simp: hex04_def)
  then show "utf8_valid (hex04 n)"
    by (intro ascii_utf8_valid) (auto simp: is_ascii_def list_all_iff dest!: chars is_hex_char_ascii)
  from four obtain c cs where c: "hex04 n = c # cs" by (cases "hex04 n") auto
  then have "c \<noteq> CHR ''+''" using chars [of c] by (auto simp: is_hex_char_def hex_char_props)
  moreover have "radix16_value 0 (hex04 n) = Some n" by (simp add: hex04_def zeros_value radix16_hex_of)
  ultimately show "from_str_radix16 (hex04 n) = Some n" using c by (simp add: from_str_radix16_def)
qed

fun encode :: "packet \<Rightarrow> bytes" where
  "encode (Data p) = pkt_line p"
| "encode Flush = FLUSH_PKT"
| "encode Delim = ''0001''"
| "encode ResponseEnd = ''0002''"

fun packet_ok :: "packet \<Rightarrow> bool" where
  "packet_ok (Data p) = (length p + 4 \<le> MAX_PKT_LINE)"
| "packet_ok _ = True"

lemma decode_one_encode:
  assumes "packet_ok pk"
  shows "decode_one (encode pk @ rest) = Inr (Some (pk, length (encode pk)))" and "4 \<le> length (encode pk)"
proof -
  have small: "decode_one (w @ rest) = Inr (Some (pk, 4))"
    if "(w, pk) \<in> {(''0000'', Flush), (''0001'', Delim), (''0002'', ResponseEnd)}" for w
  proof -
    have "utf8_valid ''0000'' \<and> utf8_valid ''0001'' \<and> utf8_valid ''0002''
        \<and> from_str_radix16 ''0000'' = Some 0 \<and> from_str_radix16 ''0001'' = Some 1 \<and> from_str_radix16 ''0002'' = Some 2"
      by code_simp
    with that show ?thesis by (auto simp: decode_one_def)
  qed
  show "decode_one (encode pk @ rest) = Inr (Some (pk, length (encode pk)))"
  proof (cases pk)
    case (Data p)
    with assms have "length p + 4 < 65536" by (simp add: MAX_PKT_LINE_def)
    note h = hex04_props [OF this]
    from Data assms h show ?thesis by (simp add: decode_one_def pkt_line_def)
  qed (use small in \<open>auto simp: FLUSH_PKT_def\<close>)
  show "4 \<le> length (encode pk)"
    using assms hex04_props(1) by (cases pk) (auto simp: pkt_line_def FLUSH_PKT_def MAX_PKT_LINE_def)
qed

lemma decode_encode: "list_all packet_ok pks \<Longrightarrow> decode (concat (map encode pks)) = Inr pks"
proof (induction pks)
  case (Cons pk pks)
  then have ok: "packet_ok pk" by simp
  note one = decode_one_encode(1) [OF ok, of "concat (map encode pks)"] decode_one_encode(2) [OF ok]
  have "\<not> length (encode pk @ concat (map encode pks)) < 4" using one(2) by simp
  then show ?case using one Cons by (subst decode.simps) simp
qed (simp add: decode.simps)

section \<open>Incremental scanning\<close>

lemma decode_one_append:
  assumes "4 \<le> length d"
  shows "decode_one d = Inl e \<Longrightarrow> decode_one (d @ b) = Inl e"
    and "decode_one d = Inr (Some (pk, n)) \<Longrightarrow> decode_one (d @ b) = Inr (Some (pk, n)) \<and> n \<le> length d"
proof -
  have "take 4 (d @ b) = take 4 d" using assms by simp
  then show "decode_one d = Inl e \<Longrightarrow> decode_one (d @ b) = Inl e"
    and "decode_one d = Inr (Some (pk, n)) \<Longrightarrow> decode_one (d @ b) = Inr (Some (pk, n)) \<and> n \<le> length d"
    using assms by (auto simp: decode_one_def Let_def split: if_splits option.splits)
qed

lemma scan_step:
  "length d < 4 \<Longrightarrow> scan chk d = Inr 0"
  "4 \<le> length d \<Longrightarrow> decode_one d = Inl e \<Longrightarrow> scan chk d = Inl e"
  "4 \<le> length d \<Longrightarrow> decode_one d = Inr None \<Longrightarrow> scan chk d = Inr 0"
  "4 \<le> length d \<Longrightarrow> decode_one d = Inr (Some (pk, n)) \<Longrightarrow> scan chk d =
     (if (case pk of Data payload \<Rightarrow> \<not> chk payload | _ \<Rightarrow> False) then Inl PermissionDenied
      else (case scan chk (drop n d) of Inl e \<Rightarrow> Inl e | Inr k \<Rightarrow> Inr (n + k)))"
  by (subst scan.simps; simp)+

lemma scan_append:
  "case scan chk d of
     Inl e \<Rightarrow> scan chk (d @ b) = Inl e
   | Inr k \<Rightarrow> k \<le> length d
       \<and> scan chk (d @ b) = (case scan chk (drop k d @ b) of Inl e \<Rightarrow> Inl e | Inr j \<Rightarrow> Inr (k + j))"
proof (induction "length d" arbitrary: d rule: less_induct)
  case less
  consider "length d < 4" | e where "4 \<le> length d" "decode_one d = Inl e"
    | "4 \<le> length d" "decode_one d = Inr None" | pk n where "4 \<le> length d" "decode_one d = Inr (Some (pk, n))"
    by (cases "decode_one d") (force simp: not_less)+
  then show ?case
  proof cases
    case (4 pk n)
    note app = decode_one_append(2) [OF 4(1,2), of b]
    have n: "4 \<le> n" "n \<le> length d" using decode_one_consumed [OF 4(2)] app by auto
    have long: "4 \<le> length (d @ b)" using 4(1) by simp
    note st = scan_step(4) [OF 4, of chk] scan_step(4) [OF long conjunct1 [OF app], of chk]
    show ?thesis
    proof (cases "case pk of Data payload \<Rightarrow> \<not> chk payload | _ \<Rightarrow> False")
      case False
      have "length (drop n d) < length d" using n 4(1) by simp
      from less [OF this] False st n show ?thesis
        by (auto split: sum.splits simp: add.commute)
    qed (simp add: st)
  qed (simp_all add: scan_step decode_one_append split: sum.splits)
qed

lemma scan_induct [consumes 1, case_names short incomplete packet]:
  assumes "scan chk d = Inr k"
    and "\<And>d. length d < 4 \<Longrightarrow> P d 0"
    and "\<And>d. 4 \<le> length d \<Longrightarrow> decode_one d = Inr None \<Longrightarrow> P d 0"
    and "\<And>d pk n k. 4 \<le> length d \<Longrightarrow> decode_one d = Inr (Some (pk, n)) \<Longrightarrow> n \<le> length d \<Longrightarrow> 4 \<le> n \<Longrightarrow>
      (\<forall>payload. pk = Data payload \<longrightarrow> chk payload) \<Longrightarrow> k \<le> length (drop n d) \<Longrightarrow> P (drop n d) k \<Longrightarrow> P d (n + k)"
  shows "P d k"
  using assms(1)
proof (induction "length d" arbitrary: d k rule: less_induct)
  case less
  consider "length d < 4" | e where "4 \<le> length d" "decode_one d = Inl e"
    | "4 \<le> length d" "decode_one d = Inr None" | pk n where "4 \<le> length d" "decode_one d = Inr (Some (pk, n))"
    by (cases "decode_one d") (force simp: not_less)+
  then show ?case
  proof cases
    case (4 pk n)
    have n: "4 \<le> n" "n \<le> length d" using decode_one_consumed [OF 4(2)] decode_one_append(2) [OF 4(1,2)] by auto
    from less.prems scan_step(4) [OF 4, of chk] obtain j where
      j: "scan chk (drop n d) = Inr j" "k = n + j" and pk: "\<forall>payload. pk = Data payload \<longrightarrow> chk payload"
      by (auto split: if_splits sum.splits packet.splits)
    have "length (drop n d) < length d" using n 4(1) by simp
    from less.hyps [OF this j(1)] have "P (drop n d) j" .
    moreover have "j \<le> length (drop n d)" using scan_append [of chk "drop n d" "[]"] j(1) by simp
    ultimately show ?thesis using assms(4) [OF 4 n(2,1) pk] j(2) by simp
  qed (use less.prems assms(2,3) in \<open>auto simp: scan_step\<close>)
qed

lemma scan_rest: "scan chk d = Inr k \<Longrightarrow> length (drop k d) < MAX_PKT_LINE"
proof (induction rule: scan_induct)
  case (short d)
  then show ?case by (simp add: MAX_PKT_LINE_def)
next
  case (incomplete d)
  then show ?case by (auto simp: decode_one_def Let_def split: if_splits option.splits)
qed (simp add: add.commute)

lemma decode_one_take:
  "decode_one d = Inr (Some (pk, n)) \<Longrightarrow> n \<le> j \<Longrightarrow> 4 \<le> j \<Longrightarrow> decode_one (take j d) = Inr (Some (pk, n))"
  by (auto simp: decode_one_def Let_def min_def split: if_splits option.splits)

lemma scan_checked:
  "scan chk d = Inr k \<Longrightarrow> \<exists>pks. decode (take k d) = Inr pks \<and> (\<forall>p. Data p \<in> set pks \<longrightarrow> chk p)"
proof (induction rule: scan_induct)
  case (packet d pk n k)
  then obtain pks where pks: "decode (take k (drop n d)) = Inr pks" "\<forall>p. Data p \<in> set pks \<longrightarrow> chk p" by blast
  have "decode_one (take (n + k) d) = Inr (Some (pk, n))"
    by (rule decode_one_take) (use packet in simp_all)
  moreover have "\<not> length (take (n + k) d) < 4" using packet by simp
  moreover have "drop n (take (n + k) d) = take k (drop n d)" by (simp add: take_drop add.commute)
  ultimately have "decode (take (n + k) d) = Inr (pk # pks)" using pks(1) by (subst decode.simps) simp
  with pks(2) packet(5) show ?case by (intro exI [of _ "pk # pks"]) auto
qed (simp_all add: decode.simps)

text \<open>The buffer limit of \<open>push\<close> is never hit, and the outcome of \<open>push\<close> in terms of \<open>scan\<close>.\<close>

lemma push_scan:
  "push chunk s =
     (case scan (check s) (pending s @ chunk) of
        Inl e \<Rightarrow> (Inl e, s\<lparr>pending := pending s @ chunk\<rparr>)
      | Inr k \<Rightarrow> (Inr (take k (pending s @ chunk)), s\<lparr>pending := drop k (pending s @ chunk)\<rparr>))"
  using scan_rest [of "check s" "pending s @ chunk"] by (auto simp: push_def Let_def split: sum.splits)

lemma check_pending [simp]: "check (s\<lparr>pending := x\<rparr>) = check s"
  by (rule ext) (simp add: check_def)

lemma cut_append:
  assumes "k \<le> length d"
  shows "take (k + j) (d @ b) = take k d @ take j (drop k d @ b)" "drop (k + j) (d @ b) = drop j (drop k d @ b)"
proof -
  obtain u v where "d = u @ v" "length u = k" using assms by (metis append_take_drop_id length_take min.absorb2)
  then show "take (k + j) (d @ b) = take k d @ take j (drop k d @ b)" "drop (k + j) (d @ b) = drop j (drop k d @ b)"
    by auto
qed

section \<open>Properties\<close>

text \<open>Framing round trips: the concatenation of the packets' encodings, data payloads of at most the pkt-line
  maximum and the three special packets alike, decodes to the same packets.\<close>

theorem pkt_roundtrip:
  assumes "list_all packet_ok pks"
  shows "decode (concat (map encode pks)) = Inr pks"
  using assms by (rule decode_encode)

theorem pkt_roundtrip_witness: "decode (encode (Data ''want abc'') @ encode Flush) = Inr [Data ''want abc'', Flush]"
  using pkt_roundtrip [of "[Data ''want abc'', Flush]"] by (simp add: MAX_PKT_LINE_def)

text \<open>C33. The scanner is indifferent to how the stream is cut: pushing two chunks forwards the same bytes, leaves
  the same buffer and fails with the same error as pushing them at once.\<close>

theorem scanner_chunking:
  assumes "push a s = (Inr x, s1)"
  shows "push (a @ b) s =
    (case push b s1 of (Inl e, s2) \<Rightarrow> (Inl e, s\<lparr>pending := pending s @ a @ b\<rparr>) | (Inr y, s2) \<Rightarrow> (Inr (x @ y), s2))"
proof -
  from assms obtain k where k: "scan (check s) (pending s @ a) = Inr k" "x = take k (pending s @ a)"
      "s1 = s\<lparr>pending := drop k (pending s @ a)\<rparr>"
    by (auto simp: push_scan split: sum.splits)
  have app: "k \<le> length (pending s @ a)"
      "scan (check s) (pending s @ a @ b) = (case scan (check s) (drop k (pending s @ a) @ b) of Inl e \<Rightarrow> Inl e | Inr j \<Rightarrow> Inr (k + j))"
    using scan_append [of "check s" "pending s @ a" b] k(1) by simp_all
  show ?thesis
  proof (cases "scan (check s) (drop k (pending s @ a) @ b)")
    case (Inl e)
    with app(2) k(3) show ?thesis by (simp add: push_scan)
  next
    case (Inr j)
    have "take (k + j) (pending s @ a @ b) = x @ take j (drop k (pending s @ a) @ b)"
      and "drop (k + j) (pending s @ a @ b) = drop j (drop k (pending s @ a) @ b)"
      using cut_append [OF app(1), of j b] k(2) by simp_all
    then show ?thesis using Inr app(2) k(3) by (simp add: push_scan)
  qed
qed

theorem scanner_chunking_witness:
  "push (''0009he'' @ ''llo'') (scanner_new [''refs/gfs/'']) = (Inr ''0009hello'', scanner_new [''refs/gfs/''])"
proof -
  let ?s = "scanner_new [''refs/gfs/'']"
  have a: "push ''0009he'' ?s = (Inr [], ?s\<lparr>pending := ''0009he''\<rparr>)" by code_simp
  have b: "push ''llo'' (?s\<lparr>pending := ''0009he''\<rparr>) = (Inr ''0009hello'', ?s)" by code_simp
  from scanner_chunking [OF a, of "''llo''"] show ?thesis by (simp add: b)
qed

text \<open>C31. What \<open>push\<close> forwards is checked: it decodes to complete packets none of which shows a hidden prefix
  outside the allowed subtrees, nothing is lost or reordered, and the buffer stays below one pkt-line.\<close>

theorem scanner_forwards_checked:
  assumes "push chunk s = (Inr out, s')"
  shows "out @ pending s' = pending s @ chunk \<and> length (pending s') < MAX_PKT_LINE
    \<and> (\<exists>pks. decode out = Inr pks \<and> (\<forall>p. Data p \<in> set pks \<longrightarrow> check s p))"
proof -
  from assms obtain k where k: "scan (check s) (pending s @ chunk) = Inr k" "out = take k (pending s @ chunk)"
      "s' = s\<lparr>pending := drop k (pending s @ chunk)\<rparr>"
    by (auto simp: push_scan split: sum.splits)
  define d where "d = pending s @ chunk"
  show ?thesis
    using scan_checked [OF k(1)] scan_rest [OF k(1)] k(2,3) unfolding d_def [symmetric] by simp
qed

theorem scanner_forwards_checked_witness:
  "\<exists>pks. decode ''0009hello'' = Inr pks \<and> (\<forall>p. Data p \<in> set pks \<longrightarrow> check (scanner_new [''refs/gfs/'']) p)"
proof -
  have "push ''0009hello00'' (scanner_new [''refs/gfs/'']) = (Inr ''0009hello'', (scanner_new [''refs/gfs/''])\<lparr>pending := ''00''\<rparr>)"
    by code_simp
  from scanner_forwards_checked [OF this] show ?thesis by blast
qed

text \<open>A hidden prefix in a permitted payload only occurs at the start of an allowed subtree.\<close>

lemma check_occurrence:
  assumes "check s (u @ needle @ v)" and "needle \<in> set (hidden s)" and "needle \<noteq> []"
  shows "\<exists>a \<in> set (allowed s). starts_with (needle @ v) a"
proof -
  let ?p = "u @ needle @ v"
  let ?is = "filter (\<lambda>i. take (length needle) (drop i ?p) = needle) [0..<Suc (length ?p - length needle)]"
  have "length u \<in> set ?is" by simp
  moreover have "list_all (\<lambda>i. list_ex (\<lambda>a. starts_with (drop i ?p) a) (allowed s)) ?is"
  proof -
    have "check_prefix (allowed s) ?p needle" using assms(1,2) by (simp add: check_def list_all_iff)
    moreover have "(needle = [] \<or> length ?p < length needle) = False" using assms(3) by simp
    ultimately show ?thesis unfolding check_prefix_def by (simp only: if_False)
  qed
  ultimately have "list_ex (\<lambda>a. starts_with (drop (length u) ?p) a) (allowed s)"
    unfolding list_all_iff by blast
  then show ?thesis by (simp add: list_ex_iff)
qed

text \<open>C32. The scanner refuses every complete packet with a hidden prefix that is not the start of an allowed
  subtree, wherever in the line it stands, capability lists included.\<close>

theorem scanner_refuses_hidden:
  assumes "pending s = []" and "needle \<in> set (hidden s)" and "needle \<noteq> []"
    and "\<not> (\<exists>a \<in> set (allowed s). starts_with (needle @ v) a)"
    and "length (u @ needle @ v) + 4 \<le> MAX_PKT_LINE"
  shows "fst (push (pkt_line (u @ needle @ v) @ rest) s) = Inl PermissionDenied"
proof -
  let ?p = "u @ needle @ v"
  have bad: "\<not> check s ?p" using check_occurrence assms(2-4) by blast
  have ok: "packet_ok (Data ?p)" using assms(5) by simp
  have one: "decode_one (pkt_line ?p @ rest) = Inr (Some (Data ?p, length (pkt_line ?p)))" "4 \<le> length (pkt_line ?p)"
    using decode_one_encode [OF ok] by simp_all
  have "scan (check s) (pkt_line ?p @ rest) = Inl PermissionDenied"
    using scan_step(4) [OF _ one(1), of "check s"] one(2) bad by simp
  then show ?thesis using assms(1) by (simp add: push_scan)
qed

theorem scanner_refuses_hidden_witness:
  "fst (push (pkt_line (''1111 '' @ ''refs/gfs/'' @ ''mounts'') @ []) (scanner_new [''refs/gfs/''])) = Inl PermissionDenied"
  by (rule scanner_refuses_hidden) (simp_all add: scanner_new_def MAX_PKT_LINE_def)

text \<open>Complete and permitted packets in front are scanned over.\<close>

lemma scan_encode:
  assumes "list_all packet_ok pks" and "\<And>p. Data p \<in> set pks \<Longrightarrow> chk p"
  shows "scan chk (concat (map encode pks) @ d) =
    (case scan chk d of Inl e \<Rightarrow> Inl e | Inr k \<Rightarrow> Inr (length (concat (map encode pks)) + k))"
  using assms
proof (induction pks)
  case (Cons pk pks)
  then have ok: "packet_ok pk" by simp
  note one = decode_one_encode(1) [OF ok, of "concat (map encode pks) @ d"] decode_one_encode(2) [OF ok]
  have chk: "\<not> (case pk of Data payload \<Rightarrow> \<not> chk payload | _ \<Rightarrow> False)" using Cons.prems(2) by (simp split: packet.split)
  have "4 \<le> length (encode pk @ concat (map encode pks) @ d)" using one(2) by simp
  then show ?case using scan_step(4) [OF _ one(1), of chk] chk Cons by (simp split: sum.splits)
qed (simp split: sum.splits)

lemma decode_one_incomplete:
  assumes "length body < n" and "n + 4 \<le> MAX_PKT_LINE"
  shows "decode_one (hex04 (n + 4) @ body) = Inr None"
proof -
  have "n + 4 < 65536" using assms(2) by (simp add: MAX_PKT_LINE_def)
  note h = hex04_props [OF this]
  show ?thesis using h assms by (simp add: decode_one_def)
qed

text \<open>C39. The tail is forwarded unchecked. After any permitted packets, take any packet that shows a hidden prefix
  outside the allowed subtrees and cut it anywhere behind that prefix: \<open>push\<close> forwards the packets in front and
  holds the cut packet back, and \<open>finish\<close>, called when the child's output ends there, emits it, prefix and all;
  the same packet is refused when the bytes that were cut off arrive.\<close>

theorem finish_forwards_unchecked:
  assumes "pending s = []" and "list_all packet_ok pks" and "\<And>p. Data p \<in> set pks \<Longrightarrow> check s p"
    and "needle \<in> set (hidden s)" and "needle \<noteq> []"
    and "\<not> (\<exists>a \<in> set (allowed s). starts_with (needle @ v @ w) a)"
    and "w \<noteq> []" and "length (u @ needle @ v @ w) + 4 \<le> MAX_PKT_LINE"
  shows "let front = concat (map encode pks);
             tail = hex04 (length (u @ needle @ v @ w) + 4) @ u @ needle @ v
         in push (front @ tail) s = (Inr front, s\<lparr>pending := tail\<rparr>)
            \<and> finish (s\<lparr>pending := tail\<rparr>) = (tail, s)
            \<and> fst (push (front @ tail @ w) s) = Inl PermissionDenied"
proof -
  let ?p = "u @ needle @ v @ w"
  let ?front = "concat (map encode pks)"
  let ?tail = "hex04 (length ?p + 4) @ u @ needle @ v"
  have "length ?p + 4 < 65536" using assms(8) by (simp add: MAX_PKT_LINE_def)
  then have four: "4 \<le> length ?tail" using hex04_props(1) by simp
  have "decode_one ?tail = Inr None" by (rule decode_one_incomplete) (use assms(7,8) in simp_all)
  then have held: "scan (check s) ?tail = Inr 0" by (rule scan_step(3) [OF four])
  have whole: "?tail @ w = pkt_line ?p" by (simp add: pkt_line_def)
  have bad: "\<not> check s ?p" using check_occurrence [of s u needle "v @ w"] assms(4-6) by auto
  have ok: "packet_ok (Data ?p)" using assms(8) by simp
  have one: "decode_one (pkt_line ?p) = Inr (Some (Data ?p, length (pkt_line ?p)))" "4 \<le> length (pkt_line ?p)"
    using decode_one_encode(1) [OF ok, of "[]"] decode_one_encode(2) [OF ok] by simp_all
  have refused: "scan (check s) (?tail @ w) = Inl PermissionDenied"
    unfolding whole using scan_step(4) [OF one(2,1), of "check s"] bad by simp
  have front: "scan (check s) (?front @ d) = (case scan (check s) d of Inl e \<Rightarrow> Inl e | Inr k \<Rightarrow> Inr (length ?front + k))" for d
    by (rule scan_encode [OF assms(2,3)])
  have "push (?front @ ?tail) s = (Inr ?front, s\<lparr>pending := ?tail\<rparr>)"
    using front [of ?tail] by (simp only: push_scan assms(1) append_Nil held sum.case add_0_right)
      simp
  moreover have "fst (push (?front @ ?tail @ w) s) = Inl PermissionDenied"
    using front [of "?tail @ w"] by (simp only: push_scan assms(1) append_Nil refused sum.case fst_conv)
  moreover have "finish (s\<lparr>pending := ?tail\<rparr>) = (?tail, s)" using assms(1) by (simp add: finish_def)
  ultimately show ?thesis unfolding Let_def by blast
qed

theorem finish_forwards_unchecked_witness:
  "let front = concat (map encode [Data ''1111 refs/heads/main'', Flush]);
       tail = hex04 (length (''2222 '' @ ''refs/gfs/'' @ ''mounts/m-1'' @ [CHR 0x0A]) + 4) @ ''2222 '' @ ''refs/gfs/'' @ ''mounts/m-1''
   in push (front @ tail) (scanner_new [''refs/gfs/'']) = (Inr front, (scanner_new [''refs/gfs/''])\<lparr>pending := tail\<rparr>)
      \<and> finish ((scanner_new [''refs/gfs/''])\<lparr>pending := tail\<rparr>) = (tail, scanner_new [''refs/gfs/''])
      \<and> fst (push (front @ tail @ [CHR 0x0A]) (scanner_new [''refs/gfs/''])) = Inl PermissionDenied"
proof (rule finish_forwards_unchecked)
  have "check (scanner_new [''refs/gfs/'']) ''1111 refs/heads/main''" by code_simp
  then show "check (scanner_new [''refs/gfs/'']) p" if "Data p \<in> set [Data ''1111 refs/heads/main'', Flush]" for p
    using that by simp
qed (simp_all add: scanner_new_def MAX_PKT_LINE_def)

text \<open>A sign is taken for a length digit, so framing that Git never produces is accepted instead of refused.\<close>

theorem signed_length_accepted:
  "decode_one (''+00d'' @ ''want abc'' @ [CHR 0x0A]) = Inr (Some (Data (''want abc'' @ [CHR 0x0A]), 13))"
  by code_simp

end
