(* ===== verification/Gfs_Search.thy ===== *)
theory Gfs_Search
  imports Gfs_Prelude "HOL-Library.Sublist" "HOL-Library.Code_Target_Nat"
begin

unbundle bit_operations_syntax

text \<open>
  The trigram index of \<open>crates/gfs-search/src\<close>: byte trigrams and the required-literal analysis
  (\<open>trigram.rs\<close>), and posting lists with candidate selection (\<open>postings.rs\<close>). Posting lists are
  Roaring bitmaps, a library type that stands for a set of 32-bit keys, stored in one SQLite row per
  trigram; here the table is a map from trigram to key set. The regular expression tree is that of
  the \<open>regex-syntax\<close> crate: its constructors are the ones the code matches on, and \<open>hir_match\<close> states
  its documented meaning, with the Unicode case folding of the matcher for queries that ignore case.
\<close>

section \<open>Trigrams\<close>

definition pack :: "bytes \<Rightarrow> nat" where
  "pack w = (push_bit 16 (of_char (w ! 0)) OR push_bit 8 (of_char (w ! 1))) OR of_char (w ! 2)"

text \<open>\<open>slice::windows(3)\<close>.\<close>

fun windows3 :: "bytes \<Rightarrow> bytes list" where
  "windows3 (a # b # c # rest) = [a, b, c] # windows3 (b # c # rest)"
| "windows3 _ = []"

text \<open>\<open>Vec::dedup\<close>: consecutive equal elements once.\<close>

fun dedup :: "'a list \<Rightarrow> 'a list" where
  "dedup (x # y # zs) = (if x = y then dedup (y # zs) else x # dedup (y # zs))"
| "dedup xs = xs"

definition trigrams :: "bytes \<Rightarrow> nat list" where
  "trigrams content = (if length content < 3 then [] else dedup (sort (map pack (windows3 content))))"

definition is_ascii_alphabetic :: "char \<Rightarrow> bool" where
  "is_ascii_alphabetic c =
     (let n = of_char c :: nat in 65 \<le> n \<and> n \<le> 90 \<or> 97 \<le> n \<and> n \<le> 122)"

definition to_ascii_lowercase :: "char \<Rightarrow> char" where
  "to_ascii_lowercase c =
     (let n = of_char c :: nat in if 65 \<le> n \<and> n \<le> 90 then char_of (n + 32) else c)"

definition to_ascii_uppercase :: "char \<Rightarrow> char" where
  "to_ascii_uppercase c =
     (let n = of_char c :: nat in if 97 \<le> n \<and> n \<le> 122 then char_of (n - 32) else c)"

definition byte_choices :: "char \<Rightarrow> char list" where
  "byte_choices b = (if is_ascii_alphabetic b then [to_ascii_lowercase b, to_ascii_uppercase b] else [b])"

definition case_variants :: "nat \<Rightarrow> nat list" where
  "case_variants t =
     (let bs = [char_of (drop_bit 16 t), char_of (drop_bit 8 t), char_of t] :: bytes;
          out = fold (\<lambda>b out. concat (map (\<lambda>prefix. map (\<lambda>c. push_bit 8 prefix OR of_char c) (byte_choices b)) out))
                  bs [0]
      in dedup (sort out))"

section \<open>Required literals\<close>

datatype hir =
    HEmpty
  | HLiteral bytes
  | HClass "bytes list"
  | HLook
  | HRepetition nat "nat option" hir
  | HCapture hir
  | HConcat "hir list"
  | HAlternation "hir list"

definition MIN_LITERAL :: nat where
  "MIN_LITERAL = 3"

definition MAX_ALTERNATIVES :: nat where
  "MAX_ALTERNATIVES = 32"

definition score :: "bytes list \<Rightarrow> nat" where
  "score alts = (case map length alts of [] \<Rightarrow> 0 | n # ns \<Rightarrow> fold min ns n)"

text \<open>The loop over the parts of a concatenation keeps the set whose shortest member is longest.\<close>

definition better :: "bytes list option \<Rightarrow> bytes list option \<Rightarrow> bytes list option" where
  "better best candidate =
     (case candidate of None \<Rightarrow> best
      | Some c \<Rightarrow> (case best of None \<Rightarrow> Some c | Some b \<Rightarrow> if score c > score b then Some c else Some b))"

text \<open>The loop over the branches of an alternation, with its early exits.\<close>

fun union_branches :: "bytes list \<Rightarrow> bytes list option list \<Rightarrow> bytes list option" where
  "union_branches acc [] = Some acc"
| "union_branches acc (None # rest) = None"
| "union_branches acc (Some alts # rest) =
     (if length (acc @ alts) > MAX_ALTERNATIVES then None else union_branches (acc @ alts) rest)"

fun required_of :: "hir \<Rightarrow> bytes list option" where
  "required_of (HLiteral lit) = Some [lit]"
| "required_of (HCapture sub) = required_of sub"
| "required_of (HConcat parts) = fold (\<lambda>part best. better best part) (map required_of parts) None"
| "required_of (HAlternation branches) = union_branches [] (map required_of branches)"
| "required_of (HRepetition mn mx sub) = (if mn \<ge> 1 then required_of sub else None)"
| "required_of HEmpty = None"
| "required_of HLook = None"
| "required_of (HClass _) = None"

definition literals_finish :: "bytes list \<Rightarrow> bool \<Rightarrow> bytes list option" where
  "literals_finish alternatives case_insensitive =
     (if alternatives = [] \<or> length alternatives > MAX_ALTERNATIVES then None
      else if list_ex (\<lambda>alt. length alt < MIN_LITERAL \<or> case_insensitive \<and> \<not> is_ascii alt) alternatives then None
      else Some (dedup (sort alternatives)))"

text \<open>The parser of \<open>regex-syntax\<close> is the argument \<open>parse\<close>.\<close>

definition required_literals :: "(bytes \<Rightarrow> hir option) \<Rightarrow> bytes \<Rightarrow> bool \<Rightarrow> bool \<Rightarrow> bytes list option" where
  "required_literals parse pattern literal case_insensitive =
     (case (if literal then Some [pattern]
            else case parse pattern of None \<Rightarrow> None | Some h \<Rightarrow> required_of h) of
        None \<Rightarrow> None
      | Some alternatives \<Rightarrow> literals_finish alternatives case_insensitive)"

section \<open>Posting lists\<close>

type_synonym blob_key = nat

record posting_batch =
  by_trigram :: "(nat, blob_key set) btree"
  batch_keys :: "blob_key list"
  batch_bytes :: nat

definition batch_new :: posting_batch where
  "batch_new = \<lparr>by_trigram = [], batch_keys = [], batch_bytes = 0\<rparr>"

definition posting_of :: "(nat, blob_key set) btree \<Rightarrow> nat \<Rightarrow> blob_key set" where
  "posting_of m t = (case bt_get m t of None \<Rightarrow> {} | Some s \<Rightarrow> s)"

definition batch_add :: "blob_key \<Rightarrow> bytes \<Rightarrow> posting_batch \<Rightarrow> posting_batch" where
  "batch_add key content b =
     \<lparr>by_trigram = fold (\<lambda>t m. bt_insert t (insert key (posting_of m t)) m) (trigrams content) (by_trigram b),
      batch_keys = batch_keys b @ [key], batch_bytes = batch_bytes b + length content\<rparr>"

type_synonym postings = "(nat, blob_key set) btree"

definition postings_merge :: "posting_batch \<Rightarrow> postings \<Rightarrow> postings" where
  "postings_merge b store =
     (if batch_keys b = [] then store
      else fold (\<lambda>(t, additions) m. bt_insert t (posting_of m t \<union> additions) m) (by_trigram b) store)"

definition posting_folded :: "postings \<Rightarrow> nat \<Rightarrow> bool \<Rightarrow> blob_key set" where
  "posting_folded store t case_insensitive =
     (if \<not> case_insensitive then posting_of store t
      else fold (\<lambda>v acc. acc \<union> posting_of store v) (case_variants t) {})"

fun intersect_all :: "blob_key set list \<Rightarrow> blob_key set \<Rightarrow> blob_key set" where
  "intersect_all [] acc = acc"
| "intersect_all (l # ls) acc = (if acc = {} then acc else intersect_all ls (acc \<inter> l))"

text \<open>One alternative: its posting lists, rarest first, cut down to the snapshot's members.\<close>

definition candidates_of :: "postings \<Rightarrow> bytes \<Rightarrow> blob_key set \<Rightarrow> bool \<Rightarrow> blob_key set" where
  "candidates_of store alternative members case_insensitive =
     (let lists = sort_key card (map (\<lambda>t. posting_folded store t case_insensitive) (trigrams alternative))
      in intersect_all (tl lists) (hd lists \<inter> members))"

fun candidates_loop :: "postings \<Rightarrow> bytes list \<Rightarrow> blob_key set \<Rightarrow> bool \<Rightarrow> blob_key set \<Rightarrow> blob_key set" where
  "candidates_loop store [] members ci acc = acc"
| "candidates_loop store (alternative # rest) members ci acc =
     (if trigrams alternative = [] then members
      else candidates_loop store rest members ci (acc \<union> candidates_of store alternative members ci))"

definition candidates :: "postings \<Rightarrow> bytes list \<Rightarrow> blob_key set \<Rightarrow> bool \<Rightarrow> blob_key set" where
  "candidates store literals members case_insensitive = candidates_loop store literals members case_insensitive {}"

section \<open>Trigrams of a substring\<close>

lemma set_dedup [simp]: "set (dedup xs) = set xs"
  by (induction xs rule: dedup.induct) auto

lemma windows3_mem: "w \<in> set (windows3 c) \<longleftrightarrow> length w = 3 \<and> sublist w c"
proof (induction c rule: windows3.induct)
  case (1 a b c rest)
  have "w = [a, b, c] \<longleftrightarrow> length w = 3 \<and> prefix w (a # b # c # rest)"
    by (auto simp: prefix_def Cons_eq_append_conv length_Suc_conv numeral_3_eq_3)
  with 1 show ?case by (auto simp: sublist_Cons_right)
qed (auto dest: sublist_length_le)

lemma trigrams_set: "set (trigrams c) = pack ` {w. length w = 3 \<and> sublist w c}"
proof (cases "length c < 3")
  case True
  then have "\<not> (length w = 3 \<and> sublist w c)" for w by (auto dest: sublist_length_le)
  with True show ?thesis by (simp add: trigrams_def)
next
  case False
  have "set (windows3 c) = {w. length w = 3 \<and> sublist w c}" using windows3_mem by blast
  with False show ?thesis by (simp add: trigrams_def)
qed

lemma trigrams_sublist: "sublist w c \<Longrightarrow> set (trigrams w) \<subseteq> set (trigrams c)"
  unfolding trigrams_set by (blast intro: sublist_order.order.trans)

lemma trigrams_nonempty: "3 \<le> length a \<Longrightarrow> trigrams a \<noteq> []"
proof -
  assume "3 \<le> length a"
  then have "pack (take 3 a) \<in> set (trigrams a)"
    unfolding trigrams_set by (intro imageI) (simp add: sublist_take)
  then show ?thesis by auto
qed

lemma of_char_lt: "of_char c < (256 :: nat)"
  by simp

lemma pack_eq: "pack [a, b, c] = 65536 * of_char a + 256 * of_char b + of_char c"
proof -
  have "push_bit 16 (of_char a) OR push_bit 8 (of_char b) = push_bit 8 (256 * of_char a + of_char b :: nat)"
    using or_push_add [of "of_char b" 8 8 "of_char a"] of_char_lt [of b] by (simp add: push_bit_eq_mult mult.commute)
  then show ?thesis
    using or_add [of "of_char c" 8 "256 * of_char a + of_char b"] of_char_lt [of c] by (simp add: pack_def)
qed

lemma char_of_low: "(char_of (256 * n + of_char c) :: char) = c" for n :: nat
proof -
  have "(char_of (256 * n + of_char c) :: char) = char_of (of_char c :: nat)"
    unfolding char_of_quasi_inj by simp
  then show ?thesis by simp
qed

lemma pack_bytes:
  "(char_of (drop_bit 16 (pack [a, b, c])) :: char) = a" "(char_of (drop_bit 8 (pack [a, b, c])) :: char) = b"
  "(char_of (pack [a, b, c]) :: char) = c"
proof -
  have 1: "(65536 * of_char a + 256 * of_char b + of_char c) div 65536 = (of_char a :: nat)"
    by (rule div_nat_eqI) (use of_char_lt [of b] of_char_lt [of c] in \<open>simp_all add: less_eq_Suc_le\<close>)
  have 2: "(65536 * of_char a + 256 * of_char b + of_char c) div 256 = (256 * of_char a + of_char b :: nat)"
    by (rule div_nat_eqI) (use of_char_lt [of c] in \<open>simp_all add: less_eq_Suc_le\<close>)
  have 3: "65536 * of_char a + 256 * of_char b + of_char c = (256 * (256 * of_char a + of_char b) + of_char c :: nat)"
    by simp
  show "(char_of (drop_bit 16 (pack [a, b, c])) :: char) = a" by (simp add: pack_eq drop_bit_eq_div 1)
  show "(char_of (drop_bit 8 (pack [a, b, c])) :: char) = b" by (simp add: pack_eq drop_bit_eq_div 2 char_of_low)
  show "(char_of (pack [a, b, c]) :: char) = c" unfolding pack_eq 3 by (rule char_of_low)
qed

section \<open>Case variants\<close>

text \<open>Equality of bytes up to ASCII case.\<close>

definition ascii_eq :: "char \<Rightarrow> char \<Rightarrow> bool" where
  "ascii_eq a b \<longleftrightarrow> to_ascii_lowercase a = to_ascii_lowercase b"

lemma char_eq_nat: "a = b \<longleftrightarrow> (of_char a :: nat) = of_char b"
  by (simp add: of_char_eq_iff)

lemma fold_case_nat:
  fixes n m :: nat
  assumes "(if 65 \<le> n \<and> n \<le> 90 then n + 32 else n) = (if 65 \<le> m \<and> m \<le> 90 then m + 32 else m)"
  shows "65 \<le> n \<and> n \<le> 90 \<or> 97 \<le> n \<and> n \<le> 122 \<Longrightarrow>
      m = (if 65 \<le> n \<and> n \<le> 90 then n + 32 else n) \<or> m = (if 97 \<le> n \<and> n \<le> 122 then n - 32 else n)"
    and "\<not> (65 \<le> n \<and> n \<le> 90 \<or> 97 \<le> n \<and> n \<le> 122) \<Longrightarrow> m = n"
  using assms by (auto split: if_splits)

lemma ascii_eq_choices: "ascii_eq a b \<Longrightarrow> b \<in> set (byte_choices a)"
proof -
  let ?n = "of_char a :: nat" and ?m = "of_char b :: nat"
  have low: "(of_char (to_ascii_lowercase x) :: nat) = (if 65 \<le> (of_char x :: nat) \<and> (of_char x :: nat) \<le> 90
      then of_char x + 32 else of_char x)" for x
    by (simp add: to_ascii_lowercase_def Let_def)
  have up: "(of_char (to_ascii_uppercase x) :: nat) = (if 97 \<le> (of_char x :: nat) \<and> (of_char x :: nat) \<le> 122
      then of_char x - 32 else of_char x)" for x
    using of_char_lt [of x] by (auto simp: to_ascii_uppercase_def Let_def intro: mod_less)
  assume "ascii_eq a b"
  then have eq: "(if 65 \<le> ?n \<and> ?n \<le> 90 then ?n + 32 else ?n) = (if 65 \<le> ?m \<and> ?m \<le> 90 then ?m + 32 else ?m)"
    unfolding ascii_eq_def char_eq_nat low .
  show ?thesis
  proof (cases "is_ascii_alphabetic a")
    case True
    then have "65 \<le> ?n \<and> ?n \<le> 90 \<or> 97 \<le> ?n \<and> ?n \<le> 122" unfolding is_ascii_alphabetic_def Let_def .
    from fold_case_nat(1) [OF eq this] have "b = to_ascii_lowercase a \<or> b = to_ascii_uppercase a"
      unfolding char_eq_nat low up .
    with True show ?thesis unfolding byte_choices_def by auto
  next
    case False
    then have "\<not> (65 \<le> ?n \<and> ?n \<le> 90 \<or> 97 \<le> ?n \<and> ?n \<le> 122)" unfolding is_ascii_alphabetic_def Let_def .
    from fold_case_nat(2) [OF eq this] have "b = a" unfolding char_eq_nat .
    with False show ?thesis by (simp add: byte_choices_def)
  qed
qed

lemma case_variants_mem:
  assumes "a' \<in> set (byte_choices a)" "b' \<in> set (byte_choices b)" "c' \<in> set (byte_choices c)"
  shows "pack [a', b', c'] \<in> set (case_variants (pack [a, b, c]))"
proof -
  have step: "push_bit 8 p OR of_char x = 256 * p + of_char x" for p :: nat and x
    using or_add [of "of_char x" 8 p] of_char_lt [of x] by simp
  have "pack [a', b', c'] = 256 * (256 * (256 * 0 + of_char a') + of_char b') + of_char c'" by (simp add: pack_eq)
  also have "\<dots> \<in> set (case_variants (pack [a, b, c]))"
    using assms unfolding case_variants_def pack_bytes Let_def step by auto
  finally show ?thesis .
qed

section \<open>The analysis is sound\<close>

text \<open>What a pattern matches; \<open>eq\<close> says which texts a literal of the pattern, or a character of a class, stands
  for. Looking around is taken to succeed everywhere, so that the relation has every match the crate finds.\<close>

inductive hir_match :: "(bytes \<Rightarrow> bytes \<Rightarrow> bool) \<Rightarrow> hir \<Rightarrow> bytes \<Rightarrow> bool" for eq where
  match_empty: "hir_match eq HEmpty []"
| match_literal: "eq lit s \<Longrightarrow> hir_match eq (HLiteral lit) s"
| match_class: "x \<in> set ss \<Longrightarrow> eq x s \<Longrightarrow> hir_match eq (HClass ss) s"
| match_look: "hir_match eq HLook []"
| match_capture: "hir_match eq sub s \<Longrightarrow> hir_match eq (HCapture sub) s"
| match_concat: "list_all2 (hir_match eq) parts ss \<Longrightarrow> hir_match eq (HConcat parts) (concat ss)"
| match_alternation: "b \<in> set bs \<Longrightarrow> hir_match eq b s \<Longrightarrow> hir_match eq (HAlternation bs) s"
| match_repetition: "\<forall>s \<in> set ss. hir_match eq sub s \<Longrightarrow> mn \<le> length ss \<Longrightarrow>
    (case mx of None \<Rightarrow> True | Some k \<Rightarrow> length ss \<le> k) \<Longrightarrow> hir_match eq (HRepetition mn mx sub) (concat ss)"

definition occurs_in :: "(bytes \<Rightarrow> bytes \<Rightarrow> bool) \<Rightarrow> bytes \<Rightarrow> bytes \<Rightarrow> bool" where
  "occurs_in eq a s \<longleftrightarrow> (\<exists>w. sublist w s \<and> eq a w)"

lemma occurs_in_mono: "occurs_in eq a s \<Longrightarrow> sublist s s' \<Longrightarrow> occurs_in eq a s'"
  unfolding occurs_in_def by (blast intro: sublist_order.order.trans)

lemma sublist_concat: "s \<in> set ss \<Longrightarrow> sublist s (concat ss)"
  by (metis concat.simps(2) concat_append sublist_appendI split_list)

lemma fold_better:
  "fold (\<lambda>part best. better best part) xs b = Some r \<Longrightarrow> Some r \<in> set xs \<or> b = Some r"
proof (induction xs arbitrary: b)
  case (Cons x xs)
  then have "Some r \<in> set xs \<or> better b x = Some r" by simp
  then show ?case by (auto simp: better_def split: option.splits if_splits)
qed simp

lemma union_branches_covers:
  "union_branches acc xs = Some r \<Longrightarrow> set acc \<subseteq> set r \<and> (\<forall>x \<in> set xs. \<exists>alts. x = Some alts \<and> set alts \<subseteq> set r)"
  by (induction acc xs rule: union_branches.induct) (auto split: if_splits)

lemma required_of_sound:
  "hir_match eq h s \<Longrightarrow> required_of h = Some alts \<Longrightarrow> \<exists>a \<in> set alts. occurs_in eq a s"
proof (induction arbitrary: alts rule: hir_match.induct)
  case (match_literal lit s)
  then show ?case by (auto simp: occurs_in_def)
next
  case (match_concat parts ss)
  from match_concat.prems fold_better obtain part where part: "part \<in> set parts" "required_of part = Some alts"
    by fastforce
  from part(1) obtain i where i: "i < length parts" "part = parts ! i" by (auto simp: in_set_conv_nth)
  with match_concat(1) part(2) have "ss ! i \<in> set ss" "\<exists>a \<in> set alts. occurs_in eq a (ss ! i)"
    by (auto simp: list_all2_conv_all_nth)
  then show ?case using sublist_concat occurs_in_mono by blast
next
  case (match_alternation b bs s)
  from match_alternation.prems union_branches_covers [of "[]" "map required_of bs" alts] match_alternation.hyps(1)
  obtain alts' where "required_of b = Some alts'" "set alts' \<subseteq> set alts" by fastforce
  with match_alternation.IH show ?case by blast
next
  case (match_repetition ss sub mn mx)
  then obtain s where s: "s \<in> set ss" "required_of sub = Some alts"
    by (cases ss) (auto split: if_splits)
  with match_repetition(1) have "\<exists>a \<in> set alts. occurs_in eq a s" by blast
  then show ?case using sublist_concat [OF s(1)] occurs_in_mono by blast
qed simp_all

lemma literals_finish_spec:
  "literals_finish alts ci = Some lits \<Longrightarrow> set lits = set alts \<and> (\<forall>a \<in> set lits. 3 \<le> length a \<and> (ci \<longrightarrow> is_ascii a))"
  by (auto simp: literals_finish_def MIN_LITERAL_def list_ex_iff not_less split: if_splits)

section \<open>Posting lists are exact\<close>

lemma posting_of_insert [simp]: "posting_of (bt_insert t s m) u = (if u = t then s else posting_of m u)"
  by (simp add: posting_of_def)

lemma add_fold:
  "posting_of (fold (\<lambda>t m. bt_insert t (insert key (posting_of m t)) m) ts m) u =
     posting_of m u \<union> (if u \<in> set ts then {key} else {})"
  by (induction ts arbitrary: m) auto

lemma merge_fold:
  "distinct (map fst xs) \<Longrightarrow>
   posting_of (fold (\<lambda>(t, additions) m. bt_insert t (posting_of m t \<union> additions) m) xs m) u =
     posting_of m u \<union> (case map_of xs u of None \<Rightarrow> {} | Some s \<Rightarrow> s)"
proof (induction xs arbitrary: m)
  case (Cons x xs)
  obtain t a where x: "x = (t, a)" by force
  have "map_of xs t = None" using Cons.prems x by (simp add: map_of_eq_None_iff)
  with Cons x show ?case by auto
qed simp

text \<open>One batch per list of blobs, merged in order.\<close>

definition batch_of :: "(blob_key \<times> bytes) list \<Rightarrow> posting_batch" where
  "batch_of blobs = fold (\<lambda>(key, content). batch_add key content) blobs batch_new"

definition index_batches :: "(blob_key \<times> bytes) list list \<Rightarrow> postings" where
  "index_batches batches = fold (\<lambda>blobs. postings_merge (batch_of blobs)) batches []"

lemma batch_fold:
  "bt_ok (by_trigram b) \<Longrightarrow>
   bt_ok (by_trigram (fold (\<lambda>(key, content). batch_add key content) blobs b))
   \<and> batch_keys (fold (\<lambda>(key, content). batch_add key content) blobs b) = batch_keys b @ map fst blobs
   \<and> posting_of (by_trigram (fold (\<lambda>(key, content). batch_add key content) blobs b)) t =
       posting_of (by_trigram b) t \<union> {key. \<exists>content. (key, content) \<in> set blobs \<and> t \<in> set (trigrams content)}"
proof (induction blobs arbitrary: b)
  case (Cons kc blobs)
  obtain k c where kc: "kc = (k, c)" by force
  have "bt_ok (by_trigram (batch_add k c b))"
    unfolding batch_add_def posting_batch.simps by (rule fold_invariant) (auto simp: Cons.prems)
  from Cons.IH [OF this] kc show ?case by (auto simp: batch_add_def add_fold)
qed simp

lemma batch_of_spec:
  "bt_ok (by_trigram (batch_of blobs))" "batch_keys (batch_of blobs) = map fst blobs"
  "posting_of (by_trigram (batch_of blobs)) t = {key. \<exists>content. (key, content) \<in> set blobs \<and> t \<in> set (trigrams content)}"
  using batch_fold [of batch_new blobs t] by (auto simp: batch_of_def batch_new_def posting_of_def)

lemma merge_spec:
  "posting_of (postings_merge (batch_of blobs) store) t =
     posting_of store t \<union> {key. \<exists>content. (key, content) \<in> set blobs \<and> t \<in> set (trigrams content)}"
proof (cases "blobs = []")
  case False
  then show ?thesis
    using batch_of_spec(2) [of blobs] batch_of_spec(3) [of blobs t] merge_fold [OF bt_ok_distinct [OF batch_of_spec(1)], of blobs store t]
    by (simp add: postings_merge_def posting_of_def)
qed (use batch_of_spec(2) [of "[]"] in \<open>simp add: postings_merge_def\<close>)

lemma index_spec:
  "posting_of (index_batches batches) t =
     {key. \<exists>blobs content. blobs \<in> set batches \<and> (key, content) \<in> set blobs \<and> t \<in> set (trigrams content)}"
proof -
  have "posting_of (fold (\<lambda>blobs. postings_merge (batch_of blobs)) batches st) t = posting_of st t \<union>
      {key. \<exists>blobs content. blobs \<in> set batches \<and> (key, content) \<in> set blobs \<and> t \<in> set (trigrams content)}" for st
    by (induction batches arbitrary: st) (auto simp: merge_spec)
  then show ?thesis by (simp add: index_batches_def posting_of_def)
qed

section \<open>Candidates\<close>

lemma intersect_all_eq: "intersect_all ls acc = acc \<inter> \<Inter> (set ls)"
  by (induction ls arbitrary: acc) auto

lemma candidates_of_eq:
  assumes "trigrams a \<noteq> []"
  shows "candidates_of store a members ci = members \<inter> (\<Inter>t \<in> set (trigrams a). posting_folded store t ci)"
proof -
  let ?ls = "sort_key card (map (\<lambda>t. posting_folded store t ci) (trigrams a))"
  have ne: "?ls \<noteq> []" using assms by (metis length_0_conv length_map length_sort)
  have "candidates_of store a members ci = members \<inter> (hd ?ls \<inter> \<Inter> (set (tl ?ls)))"
    by (auto simp: candidates_of_def Let_def intersect_all_eq)
  also have "hd ?ls \<inter> \<Inter> (set (tl ?ls)) = \<Inter> (set ?ls)" using ne by (cases ?ls) auto
  finally show ?thesis by simp
qed

lemma candidates_eq:
  assumes "\<forall>a \<in> set lits. trigrams a \<noteq> []"
  shows "candidates store lits members ci =
    members \<inter> (\<Union>a \<in> set lits. \<Inter>t \<in> set (trigrams a). posting_folded store t ci)"
proof -
  have "candidates_loop store lits members ci acc = acc \<union>
      members \<inter> (\<Union>a \<in> set lits. \<Inter>t \<in> set (trigrams a). posting_folded store t ci)" for acc
    using assms by (induction lits arbitrary: acc) (auto simp: candidates_of_eq)
  then show ?thesis by (simp add: candidates_def)
qed

lemma posting_folded_eq:
  "posting_folded store t ci = (if ci then \<Union>v \<in> set (case_variants t). posting_of store v else posting_of store t)"
proof -
  have "fold (\<lambda>v acc. acc \<union> posting_of store v) vs acc = acc \<union> (\<Union>v \<in> set vs. posting_of store v)" for vs acc
    by (induction vs arbitrary: acc) auto
  then show ?thesis by (simp add: posting_folded_def)
qed

text \<open>
  The matcher's case folding (\<open>build_matcher\<close> sets \<open>case_insensitive\<close> and leaves Unicode on): a letter stands for
  the characters with the same simple case folding. For an ASCII letter these are its two cases and, beyond
  ASCII, the long s (U+017F) for s and the Kelvin sign (U+212A) for k, here in UTF-8. What a literal with other
  characters stands for is Unicode's table, the argument \<open>other\<close>; nothing is assumed of it.
\<close>

definition LONG_S :: bytes where
  "LONG_S = [CHR 0xC5, CHR 0xBF]"

definition KELVIN :: bytes where
  "KELVIN = [CHR 0xE2, CHR 0x84, CHR 0xAA]"

definition letter_folds :: "char \<Rightarrow> bytes \<Rightarrow> bool" where
  "letter_folds c u \<longleftrightarrow> (\<exists>d. u = [d] \<and> ascii_eq c d) \<or> ascii_eq c (CHR ''s'') \<and> u = LONG_S \<or> ascii_eq c (CHR ''k'') \<and> u = KELVIN"

definition literal_match :: "(bytes \<Rightarrow> bytes \<Rightarrow> bool) \<Rightarrow> bool \<Rightarrow> bytes \<Rightarrow> bytes \<Rightarrow> bool" where
  "literal_match other ci lit s \<longleftrightarrow>
     (if \<not> ci then s = lit
      else if is_ascii lit then \<exists>us. list_all2 letter_folds lit us \<and> s = concat us
      else other lit s)"

text \<open>Without the two characters beyond ASCII, a text for an ASCII literal is the literal up to ASCII case.\<close>

definition ascii_folds :: "bytes \<Rightarrow> bool" where
  "ascii_folds s \<longleftrightarrow> \<not> sublist LONG_S s \<and> \<not> sublist KELVIN s"

lemma ascii_folds_sub: "ascii_folds s \<Longrightarrow> sublist w s \<Longrightarrow> ascii_folds w"
  unfolding ascii_folds_def by (blast intro: sublist_order.order.trans)

lemma letters_fold:
  assumes "list_all2 letter_folds lit us" and "ascii_folds (concat us)"
  shows "list_all2 ascii_eq lit (concat us)"
  using assms
proof (induction lit us rule: list_all2_induct)
  case (Cons c lit u us)
  have "sublist u (concat (u # us))" "sublist (concat us) (concat (u # us))" by simp_all
  then have "ascii_folds u" "ascii_folds (concat us)" using Cons.prems ascii_folds_sub by blast+
  moreover from this(1) obtain d where "u = [d]" "ascii_eq c d"
    using Cons.hyps(1) by (auto simp: letter_folds_def ascii_folds_def)
  ultimately show ?case using Cons.IH by simp
qed simp

text \<open>A text with an occurrence of a literal carries a variant of each of the literal's trigrams.\<close>

definition byte_eq :: "bool \<Rightarrow> char \<Rightarrow> char \<Rightarrow> bool" where
  "byte_eq ci a b = (if ci then ascii_eq a b else a = b)"

lemma literal_match_bytes:
  assumes "literal_match other ci a w" and "ci \<Longrightarrow> is_ascii a" and "ci \<Longrightarrow> ascii_folds w"
  shows "list_all2 (byte_eq ci) a w"
proof (cases ci)
  case True
  then obtain us where "list_all2 letter_folds a us" "w = concat us" using assms(1,2) by (auto simp: literal_match_def)
  then have "list_all2 ascii_eq a w" using letters_fold assms(3) [OF True] by simp
  moreover have "byte_eq ci = ascii_eq" using True by (intro ext) (simp add: byte_eq_def)
  ultimately show ?thesis by simp
next
  case False
  then show ?thesis using assms(1) by (simp add: literal_match_def byte_eq_def list_all2_same)
qed

lemma occurrence_trigrams:
  assumes "occurs_in (literal_match other ci) a s" and "t \<in> set (trigrams a)"
    and "ci \<Longrightarrow> is_ascii a" and "ci \<Longrightarrow> ascii_folds s"
  shows "\<exists>v \<in> set (if ci then case_variants t else [t]). v \<in> set (trigrams s)"
proof -
  from assms(1) obtain w where w: "sublist w s" "literal_match other ci a w" by (auto simp: occurs_in_def)
  have w2: "list_all2 (byte_eq ci) a w"
    by (rule literal_match_bytes [OF w(2) assms(3)]) (use assms(4) ascii_folds_sub [OF _ w(1)] in simp_all)
  from assms(2) obtain x where x: "t = pack x" "length x = 3" "sublist x a" by (auto simp: trigrams_set)
  from x(3) obtain p q where a: "a = p @ x @ q" by (auto simp: sublist_def)
  from w2 a obtain p' y q' where y: "w = p' @ y @ q'" "list_all2 (byte_eq ci) x y"
    by (auto simp: list_all2_append1)
  then have ly: "length y = 3" using x(2) by (auto dest: list_all2_lengthD)
  have sub: "pack y \<in> set (trigrams s)"
    using ly w(1) y(1) unfolding trigrams_set by (intro imageI) (auto intro: sublist_order.order.trans)
  from x(2) ly obtain x1 x2 x3 y1 y2 y3 where "x = [x1, x2, x3]" "y = [y1, y2, y3]"
    by (auto simp: length_Suc_conv numeral_3_eq_3)
  with y(2) x(1) sub show ?thesis
    by (cases ci) (auto simp: byte_eq_def intro!: bexI [of _ "pack y"] case_variants_mem ascii_eq_choices)
qed

section \<open>Properties\<close>

text \<open>The text a query matches: the pattern as a literal, or a match of the parsed expression.\<close>

definition query_match :: "(bytes \<Rightarrow> bytes \<Rightarrow> bool) \<Rightarrow> (bytes \<Rightarrow> hir option) \<Rightarrow> bytes \<Rightarrow> bool \<Rightarrow> bool \<Rightarrow> bytes \<Rightarrow> bool" where
  "query_match other parse pattern literal ci s \<longleftrightarrow>
     (if literal then literal_match other ci pattern s
      else \<exists>h. parse pattern = Some h \<and> hir_match (literal_match other ci) h s)"

text \<open>C30. The index loses no match of a case-sensitive query, and none of a case-insensitive query in a file without
  a long s or a Kelvin sign: whenever the analysis of the query yields required literals, every blob of the
  snapshot that was indexed, in whatever batch, and contains a match of the query is proposed as a candidate, for
  literal and regular expression queries. The restriction is needed (\<open>long_s_not_proposed\<close>).\<close>

theorem no_match_lost:
  assumes "required_literals parse pattern literal ci = Some lits"
    and "query_match other parse pattern literal ci s" and "sublist s content"
    and "ci \<Longrightarrow> ascii_folds content"
    and "blobs \<in> set batches" and "(key, content) \<in> set blobs" and "key \<in> members"
  shows "key \<in> candidates (index_batches batches) lits members ci"
proof -
  let ?eq = "literal_match other ci"
  obtain alts where alts: "literals_finish alts ci = Some lits" "\<exists>a \<in> set alts. occurs_in ?eq a s"
  proof (cases literal)
    case True
    with assms(1,2) have "literals_finish [pattern] ci = Some lits" "occurs_in ?eq pattern s"
      by (auto simp: required_literals_def query_match_def occurs_in_def)
    then show thesis using that [of "[pattern]"] by simp
  next
    case False
    with assms(1,2) obtain h alts where "parse pattern = Some h" "hir_match ?eq h s"
        "required_of h = Some alts" "literals_finish alts ci = Some lits"
      by (auto simp: required_literals_def query_match_def split: option.splits)
    then show thesis using that required_of_sound by blast
  qed
  note lits = literals_finish_spec [OF alts(1)]
  from alts(2) lits obtain a where a: "a \<in> set lits" "occurs_in ?eq a content"
    using occurs_in_mono [OF _ assms(3)] by blast
  have tri: "\<forall>a \<in> set lits. trigrams a \<noteq> []" using lits trigrams_nonempty by blast
  have "key \<in> posting_folded (index_batches batches) t ci" if "t \<in> set (trigrams a)" for t
    using occurrence_trigrams [OF a(2) that _ assms(4)] lits a(1) assms(5,6)
    by (cases ci) (auto simp: posting_folded_eq index_spec)
  with a(1) assms(7) show ?thesis by (auto simp: candidates_eq [OF tri])
qed

theorem no_match_lost_witness:
  "2 \<in> candidates (index_batches [[(1, ''alpha'')], [(2, ''see BraVo!'')]]) [''alpha'', ''bravo''] {1, 2} True"
proof (rule no_match_lost [where blobs = "[(2, ''see BraVo!'')]" and content = "''see BraVo!''" and other = "\<lambda>l s. s = l"])
  let ?h = "HAlternation [HLiteral ''alpha'', HLiteral ''bravo'']"
  show "required_literals (\<lambda>_. Some ?h) ''alpha|bravo'' False True = Some [''alpha'', ''bravo'']" by code_simp
  have "ascii_eq (CHR ''b'') (CHR ''B'') \<and> ascii_eq (CHR ''v'') (CHR ''V'')" by code_simp
  then have "list_all2 letter_folds ''bravo'' [''B'', ''r'', ''a'', ''V'', ''o'']"
    by (simp add: letter_folds_def ascii_eq_def)
  then have "literal_match (\<lambda>l s. s = l) True ''bravo'' ''BraVo''"
    unfolding literal_match_def by (auto simp: is_ascii_def intro: exI [of _ "[''B'', ''r'', ''a'', ''V'', ''o'']"])
  then have "hir_match (literal_match (\<lambda>l s. s = l) True) ?h ''BraVo''"
    by (intro match_alternation [of "HLiteral ''bravo''"] match_literal) simp_all
  then show "query_match (\<lambda>l s. s = l) (\<lambda>_. Some ?h) ''alpha|bravo'' False True ''BraVo''" by (simp add: query_match_def)
  show "sublist ''BraVo'' ''see BraVo!''" by code_simp
  show "ascii_folds ''see BraVo!''" by code_simp
qed simp_all

text \<open>Candidates never leave the snapshot: whatever is in the index, a proposed key is a member of the snapshot
  the query is scoped to.\<close>

theorem candidates_within_snapshot: "candidates store lits members ci \<subseteq> members"
proof -
  have "candidates_of store a members ci \<subseteq> members" for a
    by (auto simp: candidates_of_def Let_def intersect_all_eq)
  then have "acc \<subseteq> members \<Longrightarrow> candidates_loop store lits members ci acc \<subseteq> members" for acc
    by (induction lits arbitrary: acc) auto
  then show ?thesis by (simp add: candidates_def)
qed

text \<open>The case folding of the index is ASCII only while the matcher's is Unicode: the text
  U+006D U+0061 U+017F U+006B matches the query \<open>mask\<close> without regard to case (the long s folds to s), the analysis
  accepts the literal for the index, and the blob that consists of that text is not proposed.\<close>

theorem long_s_not_proposed:
  "query_match other parse ''mask'' True True (''ma'' @ LONG_S @ ''k'')
   \<and> required_literals parse ''mask'' True True = Some [''mask'']
   \<and> candidates (index_batches [[(1, ''ma'' @ LONG_S @ ''k'')]]) [''mask''] {1} True = {}"
proof (intro conjI)
  have "list_all2 letter_folds ''mask'' [''m'', ''a'', LONG_S, ''k'']"
    by (simp add: letter_folds_def)  (simp add: ascii_eq_def)
  then show "query_match other parse ''mask'' True True (''ma'' @ LONG_S @ ''k'')"
    by (auto simp: query_match_def literal_match_def is_ascii_def intro: exI [of _ "[''m'', ''a'', LONG_S, ''k'']"])
  show "required_literals parse ''mask'' True True = Some [''mask'']"
    by (simp add: required_literals_def literals_finish_def MAX_ALTERNATIVES_def MIN_LITERAL_def is_ascii_def)
  show "candidates (index_batches [[(1, ''ma'' @ LONG_S @ ''k'')]]) [''mask''] {1} True = {}"
    by code_simp
qed

end
