(* ===== verification/Gfs_Inode.thy ===== *)
theory Gfs_Inode
  imports Gfs_RefineRename
begin

text \<open>
  The mount's inode table (\<open>crates/gfs-mount/src/inode.rs\<close>): stable numbers per path, and the
  records behind the inodes the kernel holds, counted by lookups and open handles. The table is a
  state machine driven by the kernel's requests; the requests are
  the datatype \<open>request\<close>, reachability is the inductive predicate \<open>itable_reach\<close>, and \<open>itable_run\<close> keeps in
  addition the numbers that a row brought for a new path while they were in use. The
  invariant \<open>itable_ok\<close> is proved for every reachable table by rule induction; numbers are unique up to that set. Numbers are natural numbers: the
  counters count requests of one mount and stay far below 64 bits.
\<close>

section \<open>Records and table\<close>

definition ROOT_INO :: nat where
  "ROOT_INO = 1"

text \<open>The parts of the backing entry the table looks at; \<open>fuser::FileType\<close> is the FUSE library's.\<close>

datatype git_file_type = GitRegularFile | GitDirectory | GitOther

datatype odb_node = OdbDir | OdbFile string nat

datatype inode_node =
    NBase entry_kind
  | NOverlay overlay_entry
  | NGit git_file_type
  | NOdb odb_node

fun is_git :: "inode_node \<Rightarrow> bool" where
  "is_git (NGit _) = True"
| "is_git _ = False"

fun is_odb :: "inode_node \<Rightarrow> bool" where
  "is_odb (NOdb _) = True"
| "is_odb _ = False"

fun node_is_regular_file :: "inode_node \<Rightarrow> bool" where
  "node_is_regular_file (NBase k) = (k = Regular \<or> k = Executable)"
| "node_is_regular_file (NOverlay e) = (e_kind e = ORegular \<or> e_kind e = OExecutable)"
| "node_is_regular_file (NGit k) = (k = GitRegularFile)"
| "node_is_regular_file (NOdb n) = (n \<noteq> OdbDir)"

fun node_is_dir :: "inode_node \<Rightarrow> bool" where
  "node_is_dir (NBase k) = (k = Directory \<or> k = Gitlink)"
| "node_is_dir (NOverlay e) = is_dir (e_kind e)"
| "node_is_dir (NGit k) = (k = GitDirectory)"
| "node_is_dir (NOdb n) = (n = OdbDir)"

fun preferred_ino :: "inode_node \<Rightarrow> nat option" where
  "preferred_ino (NOverlay e) = Some (e_ino e)"
| "preferred_ino _ = None"

record inode_record =
  ir_ino :: nat
  ir_path :: path
  ir_node :: inode_node
  ir_generation :: nat
  ir_lookups :: nat
  ir_opens :: nat

record inode_table =
  it_by_path :: "(path, nat) btree"
  it_records :: "(nat, inode_record) btree"
  it_next :: nat

datatype stale_entry = StaleEntry (se_parent: nat) (se_name: bytes) (se_ino: nat)

definition itable_new :: "entry_kind \<Rightarrow> inode_table" where
  "itable_new root =
     \<lparr>it_by_path = bt_insert [] ROOT_INO [],
      it_records = bt_insert ROOT_INO
        \<lparr>ir_ino = ROOT_INO, ir_path = [], ir_node = NBase root, ir_generation = 0, ir_lookups = 1, ir_opens = 0\<rparr> [],
      it_next = ROOT_INO + 1\<rparr>"

definition number_for :: "path \<Rightarrow> inode_table \<Rightarrow> nat \<times> inode_table" where
  "number_for p T =
     (case bt_get (it_by_path T) p of
        Some i \<Rightarrow> (i, T)
      | None \<Rightarrow> (it_next T, T\<lparr>it_by_path := bt_insert p (it_next T) (it_by_path T), it_next := it_next T + 1\<rparr>))"

definition bind_if_absent :: "path \<Rightarrow> nat \<Rightarrow> inode_table \<Rightarrow> inode_table" where
  "bind_if_absent p i T =
     (if bt_get (it_by_path T) p \<noteq> None then T
      else T\<lparr>it_by_path := bt_insert p i (it_by_path T),
             it_next := (if i \<ge> it_next T \<and> i < OVERLAY_INO_BASE then i + 1 else it_next T)\<rparr>)"

definition move_one :: "path \<Rightarrow> path \<Rightarrow> path \<times> nat \<Rightarrow> inode_table \<Rightarrow> inode_table" where
  "move_one from to = (\<lambda>(p, i) T.
     (let target = to @ drop (length from) p
      in T\<lparr>it_by_path := bt_insert target i (bt_remove p (it_by_path T)),
           it_records := (case bt_get (it_records T) i of None \<Rightarrow> it_records T
                          | Some r \<Rightarrow> bt_insert i (r\<lparr>ir_path := target\<rparr>) (it_records T))\<rparr>))"

definition rename_moving :: "path \<Rightarrow> inode_table \<Rightarrow> (path \<times> nat) list" where
  "rename_moving from T =
     (let may_have_children =
        (case bt_get (it_by_path T) from of None \<Rightarrow> True
         | Some i \<Rightarrow> (case bt_get (it_records T) i of None \<Rightarrow> True | Some r \<Rightarrow> node_is_dir (ir_node r)))
      in if may_have_children
         then filter (\<lambda>(p, i). p = from \<or>
                length p > length from \<and> p ! length from = CHR ''/'' \<and> starts_with p from) (it_by_path T)
         else (case bt_get (it_by_path T) from of None \<Rightarrow> [] | Some i \<Rightarrow> [(from, i)]))"

definition rename_subtree :: "path \<Rightarrow> path \<Rightarrow> inode_table \<Rightarrow> (nat \<times> path) list \<times> inode_table" where
  "rename_subtree from to T =
     (let moving = rename_moving from T
      in (map (\<lambda>(p, i). (i, to @ drop (length from) p)) moving, fold (move_one from to) moving T))"

definition refresh :: "nat \<Rightarrow> inode_node \<Rightarrow> inode_table \<Rightarrow> inode_table" where
  "refresh i n T =
     (case bt_get (it_records T) i of None \<Rightarrow> T
      | Some r \<Rightarrow> T\<lparr>it_records := bt_insert i (r\<lparr>ir_node := n\<rparr>) (it_records T)\<rparr>)"

definition seed :: "overlay_entry list \<Rightarrow> inode_table \<Rightarrow> inode_table" where
  "seed es T = fold (\<lambda>e. bind_if_absent (e_path e) (e_ino e)) es T"

definition insert_lookup :: "path \<Rightarrow> inode_node \<Rightarrow> inode_table \<Rightarrow> inode_record \<times> inode_table" where
  "insert_lookup p n T =
     (let T1 = (case preferred_ino n of None \<Rightarrow> T | Some i \<Rightarrow> bind_if_absent p i T);
          (i, T2) = number_for p T1;
          r0 = (case bt_get (it_records T2) i of
                  Some r \<Rightarrow> r
                | None \<Rightarrow> \<lparr>ir_ino = i, ir_path = p, ir_node = n, ir_generation = 0, ir_lookups = 0, ir_opens = 0\<rparr>);
          r1 = r0\<lparr>ir_node := n, ir_lookups := ir_lookups r0 + 1\<rparr>
      in (r1, T2\<lparr>it_records := bt_insert i r1 (it_records T2)\<rparr>))"

definition forget :: "nat \<Rightarrow> nat \<Rightarrow> inode_table \<Rightarrow> inode_table" where
  "forget i n T =
     (if i = ROOT_INO then T
      else case bt_get (it_records T) i of None \<Rightarrow> T
      | Some r \<Rightarrow>
          let r1 = r\<lparr>ir_lookups := sat_sub (ir_lookups r) n\<rparr>
          in T\<lparr>it_records := (if ir_lookups r1 = 0 \<and> ir_opens r1 = 0 then bt_remove i (it_records T)
                              else bt_insert i r1 (it_records T))\<rparr>)"

definition iopen :: "nat \<Rightarrow> inode_table \<Rightarrow> inode_table" where
  "iopen i T =
     (case bt_get (it_records T) i of None \<Rightarrow> T
      | Some r \<Rightarrow> T\<lparr>it_records := bt_insert i (r\<lparr>ir_opens := ir_opens r + 1\<rparr>) (it_records T)\<rparr>)"

definition iclose :: "nat \<Rightarrow> inode_table \<Rightarrow> inode_table" where
  "iclose i T =
     (case bt_get (it_records T) i of None \<Rightarrow> T
      | Some r \<Rightarrow>
          let r1 = r\<lparr>ir_opens := sat_sub (ir_opens r) 1\<rparr>
          in T\<lparr>it_records := (if ir_lookups r1 = 0 \<and> ir_opens r1 = 0 \<and> ir_ino r1 \<noteq> ROOT_INO
                              then bt_remove i (it_records T) else bt_insert i r1 (it_records T))\<rparr>)"

text \<open>The split at the last separator that \<open>repin\<close> and \<open>rewritten_behind_kernel\<close> use.\<close>

definition split_last :: "path \<Rightarrow> path \<times> bytes" where
  "split_last p =
     (if CHR ''/'' \<in> set p
      then (let name = rev (takeWhile (\<lambda>b. b \<noteq> CHR ''/'') (rev p))
            in (take (length p - length name - 1) p, name))
      else ([], p))"

definition bump :: "inode_record \<Rightarrow> inode_record" where
  "bump r = (if node_is_regular_file (ir_node r) then r\<lparr>ir_generation := ir_generation r + 1\<rparr> else r)"

definition repin :: "entry_kind \<Rightarrow> inode_table \<Rightarrow> stale_entry list \<times> inode_table" where
  "repin root T =
     (let rs0 = (case bt_get (it_records T) ROOT_INO of None \<Rightarrow> it_records T
                 | Some r \<Rightarrow> bt_insert ROOT_INO (r\<lparr>ir_node := NBase root\<rparr>) (it_records T));
          paths = map (\<lambda>(k, r). (ir_ino r, ir_path r)) (filter (\<lambda>(k, r). ir_ino r \<noteq> ROOT_INO) rs0);
          rs1 = fold (\<lambda>(i, p) rs. case bt_get rs i of None \<Rightarrow> rs | Some r \<Rightarrow> bt_insert i (bump r) rs) paths rs0
      in (List.map_filter (\<lambda>(i, p).
            (let (par, name) = split_last p
             in if name = [] then None
                else map_option (\<lambda>pi. StaleEntry pi name i) (bt_get (it_by_path T) par))) paths,
          T\<lparr>it_records := rs1\<rparr>))"

definition rewritten_behind_kernel :: "path \<Rightarrow> inode_table \<Rightarrow> stale_entry option \<times> inode_table" where
  "rewritten_behind_kernel p T =
     (case bt_get (it_by_path T) p of None \<Rightarrow> (None, T)
      | Some i \<Rightarrow>
        (case bt_get (it_records T) i of None \<Rightarrow> (None, T)
         | Some r \<Rightarrow>
           if \<not> node_is_regular_file (ir_node r) then (None, T)
           else (let T1 = T\<lparr>it_records := bt_insert i (r\<lparr>ir_generation := ir_generation r + 1\<rparr>) (it_records T)\<rparr>;
                     (par, name) = split_last p
                 in (map_option (\<lambda>pi. StaleEntry pi name i) (bt_get (it_by_path T) par), T1))))"

definition live_records :: "inode_table \<Rightarrow> nat" where
  "live_records T = length (it_records T)"

definition assigned :: "inode_table \<Rightarrow> nat" where
  "assigned T = length (it_by_path T)"


section \<open>The table as a state machine\<close>

text \<open>
  The calls the filesystem makes on the table, one constructor per mutating method; \<open>seed\<close> is the run of
  \<open>RqAdopt\<close> of its rows (\<open>seed_run\<close>). \<open>permitted\<close> is what the callers guarantee: a rename is of two proper
  paths, equal or unrelated (the overlay and the kernel have refused the others), and the mount's own counter has
  not reached the overlay's range when a new number is taken from it. Nothing is assumed of the numbers that rows
  bring: \<open>Gfs::new\<close> and \<open>Gfs::repin\<close> seed the table with every row of the overlay, whiteouts included, and those
  do repeat numbers (\<open>seed_shares_numbers\<close>).
\<close>

datatype request =
    RqLookup path inode_node
  | RqNumber path
  | RqAdopt path nat
  | RqForget nat nat
  | RqOpen nat
  | RqClose nat
  | RqRename path path
  | RqRefresh nat inode_node
  | RqRepin entry_kind
  | RqRewritten path

fun serve :: "request \<Rightarrow> inode_table \<Rightarrow> inode_table" where
  "serve (RqLookup p n) T = snd (insert_lookup p n T)"
| "serve (RqNumber p) T = snd (number_for p T)"
| "serve (RqAdopt p i) T = bind_if_absent p i T"
| "serve (RqForget i n) T = forget i n T"
| "serve (RqOpen i) T = iopen i T"
| "serve (RqClose i) T = iclose i T"
| "serve (RqRename p q) T = snd (rename_subtree p q T)"
| "serve (RqRefresh i n) T = refresh i n T"
| "serve (RqRepin k) T = snd (repin k T)"
| "serve (RqRewritten p) T = snd (rewritten_behind_kernel p T)"

definition room_for :: "inode_table \<Rightarrow> path \<Rightarrow> bool" where
  "room_for T p \<longleftrightarrow> bt_get (it_by_path T) p \<noteq> None \<or> it_next T < OVERLAY_INO_BASE"

fun permitted :: "inode_table \<Rightarrow> request \<Rightarrow> bool" where
  "permitted T (RqLookup p n) = (preferred_ino n \<noteq> None \<or> room_for T p)"
| "permitted T (RqNumber p) = room_for T p"
| "permitted T (RqRename p q) = (p \<noteq> [] \<and> q \<noteq> [] \<and> (p = q \<or> \<not> inside q p \<and> \<not> inside p q))"
| "permitted T _ = True"

inductive itable_reach :: "inode_table \<Rightarrow> inode_table \<Rightarrow> bool" for T0 where
  reach_start: "itable_reach T0 T0"
| reach_step: "itable_reach T0 T \<Longrightarrow> permitted T q \<Longrightarrow> itable_reach T0 (serve q T)"

text \<open>The same runs, with the set of the numbers that were adopted for a path while another path or a record
  had them.\<close>

definition in_use :: "inode_table \<Rightarrow> nat \<Rightarrow> bool" where
  "in_use T i \<longleftrightarrow> i \<in> snd ` set (it_by_path T) \<or> bt_get (it_records T) i \<noteq> None"

definition clashing :: "inode_table \<Rightarrow> path \<Rightarrow> nat \<Rightarrow> nat set" where
  "clashing T p i = (if bt_get (it_by_path T) p = None \<and> in_use T i then {i} else {})"

fun clash :: "inode_table \<Rightarrow> request \<Rightarrow> nat set" where
  "clash T (RqLookup p n) = (case preferred_ino n of None \<Rightarrow> {} | Some i \<Rightarrow> clashing T p i)"
| "clash T (RqAdopt p i) = clashing T p i"
| "clash T _ = {}"

inductive itable_run :: "inode_table \<Rightarrow> nat set \<Rightarrow> inode_table \<Rightarrow> bool" for T0 where
  run_start: "itable_run T0 {} T0"
| run_step: "itable_run T0 X T \<Longrightarrow> permitted T q \<Longrightarrow> itable_run T0 (X \<union> clash T q) (serve q T)"

lemma reach_run: "itable_reach T0 T \<longleftrightarrow> (\<exists>X. itable_run T0 X T)"
proof
  show "\<exists>X. itable_run T0 X T" if "itable_reach T0 T"
    using that by (induction rule: itable_reach.induct) (auto intro: itable_run.intros)
  have "itable_reach T0 T" if "itable_run T0 X T" for X
    using that by (induction rule: itable_run.induct) (auto intro: itable_reach.intros)
  then show "\<exists>X. itable_run T0 X T \<Longrightarrow> itable_reach T0 T" by blast
qed

section \<open>The invariant\<close>

definition issued :: "inode_table \<Rightarrow> nat \<Rightarrow> bool" where
  "issued T i \<longleftrightarrow> i < it_next T \<or> OVERLAY_INO_BASE \<le> i"

text \<open>The numbers of \<open>X\<close> may be shared; no other number is.\<close>

definition record_ok :: "nat set \<Rightarrow> inode_table \<Rightarrow> nat \<Rightarrow> inode_record \<Rightarrow> bool" where
  "record_ok X T i r \<longleftrightarrow>
     ir_ino r = i \<and> issued T i \<and> (0 < ir_lookups r \<or> 0 < ir_opens r \<or> i = ROOT_INO) \<and>
     (\<forall>p. i \<notin> X \<longrightarrow> bt_get (it_by_path T) p = Some i \<longrightarrow> ir_path r = p)"

definition itable_ok :: "nat set \<Rightarrow> inode_table \<Rightarrow> bool" where
  "itable_ok X T \<longleftrightarrow>
     bt_ok (it_by_path T) \<and> bt_ok (it_records T) \<and>
     (\<forall>p q i. bt_get (it_by_path T) p = Some i \<longrightarrow> bt_get (it_by_path T) q = Some i \<longrightarrow> i \<notin> X \<longrightarrow> p = q) \<and>
     (\<forall>p i. bt_get (it_by_path T) p = Some i \<longrightarrow> issued T i) \<and>
     (\<forall>i r. bt_get (it_records T) i = Some r \<longrightarrow> record_ok X T i r) \<and>
     bt_get (it_by_path T) [] = Some ROOT_INO \<and> bt_get (it_records T) ROOT_INO \<noteq> None \<and> ROOT_INO < it_next T"

lemma itable_okD:
  assumes "itable_ok X T"
  shows "bt_ok (it_by_path T)" "bt_ok (it_records T)"
    "bt_get (it_by_path T) p = Some i \<Longrightarrow> bt_get (it_by_path T) q = Some i \<Longrightarrow> i \<notin> X \<Longrightarrow> p = q"
    "bt_get (it_by_path T) p = Some i \<Longrightarrow> issued T i"
    "bt_get (it_records T) i = Some r \<Longrightarrow> record_ok X T i r"
    "bt_get (it_by_path T) [] = Some ROOT_INO" "bt_get (it_records T) ROOT_INO \<noteq> None" "ROOT_INO < it_next T"
  using assms unfolding itable_ok_def by blast+

lemma itable_okI:
  assumes "bt_ok (it_by_path T)" "bt_ok (it_records T)"
    "\<And>p q i. bt_get (it_by_path T) p = Some i \<Longrightarrow> bt_get (it_by_path T) q = Some i \<Longrightarrow> i \<notin> X \<Longrightarrow> p = q"
    "\<And>p i. bt_get (it_by_path T) p = Some i \<Longrightarrow> issued T i"
    "\<And>i r. bt_get (it_records T) i = Some r \<Longrightarrow> record_ok X T i r"
    "bt_get (it_by_path T) [] = Some ROOT_INO" "bt_get (it_records T) ROOT_INO \<noteq> None" "ROOT_INO < it_next T"
  shows "itable_ok X T"
  using assms unfolding itable_ok_def by blast

lemma itable_ok_mono: "itable_ok X T \<Longrightarrow> X \<subseteq> Y \<Longrightarrow> itable_ok Y T"
  unfolding itable_ok_def record_ok_def by blast

lemma itable_new_ok: "itable_ok X (itable_new root)"
  by (rule itable_okI)
    (auto simp: itable_new_def record_ok_def issued_def ROOT_INO_def bt_ok_def split: if_splits)

lemma bt_get_value: "bt_ok m \<Longrightarrow> i \<in> snd ` set m \<longleftrightarrow> (\<exists>p. bt_get m p = Some i)"
  by (force simp: bt_get_iff_mem)

lemma in_use_iff: "itable_ok X T \<Longrightarrow> in_use T i \<longleftrightarrow> (\<exists>p. bt_get (it_by_path T) p = Some i) \<or> bt_get (it_records T) i \<noteq> None"
  using bt_get_value [OF itable_okD(1)] by (auto simp: in_use_def)

text \<open>Binding an unbound path is the one way \<open>by_path\<close> grows; a number in use joins those that may be shared.\<close>

lemma bind_new_ok:
  assumes ok: "itable_ok X T" and new: "bt_get (it_by_path T) p = None"
    and free: "i \<notin> X \<Longrightarrow> \<not> in_use T i" and n: "it_next T \<le> n" "i < n \<or> OVERLAY_INO_BASE \<le> i"
  shows "itable_ok X (T\<lparr>it_by_path := bt_insert p i (it_by_path T), it_next := n\<rparr>)" (is "itable_ok X ?T")
proof (rule itable_okI)
  note D = itable_okD [OF ok]
  have un: "bt_get (it_by_path T) x \<noteq> Some i" "bt_get (it_records T) i = None" if "i \<notin> X" for x
    using free [OF that] in_use_iff [OF ok, of i] by auto
  show "x = y" if "bt_get (it_by_path ?T) x = Some j" "bt_get (it_by_path ?T) y = Some j" "j \<notin> X" for x y j
    using that D(3) un(1) by (auto split: if_splits)
  show "record_ok X ?T j r" if "bt_get (it_records ?T) j = Some r" for j r
  proof -
    have r: "bt_get (it_records T) j = Some r" using that by simp
    have "j \<noteq> i \<or> j \<in> X" using un(2) r by (metis option.distinct(1))
    then show ?thesis using itable_okD(5) [OF ok r] n(1) by (auto simp: record_ok_def issued_def split: if_splits)
  qed
qed (use itable_okD [OF ok] new n in \<open>auto simp: issued_def split: if_splits dest: itable_okD(4) [OF ok]\<close>)

lemma next_unused:
  assumes ok: "itable_ok X T" and room: "it_next T < OVERLAY_INO_BASE"
  shows "\<not> in_use T (it_next T)"
proof -
  have free: "\<not> issued T (it_next T)" using room by (simp add: issued_def)
  have "bt_get (it_by_path T) q \<noteq> Some (it_next T)" for q using free itable_okD(4) [OF ok] by blast
  moreover have "bt_get (it_records T) (it_next T) = None"
    by (rule ccontr) (use free itable_okD(5) [OF ok] in \<open>auto simp: record_ok_def\<close>)
  ultimately show ?thesis by (simp add: in_use_iff [OF ok])
qed

lemma number_for_ok:
  assumes ok: "itable_ok X T" and room: "room_for T p" and n: "number_for p T = (i, T')"
  shows "itable_ok X T'" "bt_get (it_by_path T') p = Some i"
proof -
  show "bt_get (it_by_path T') p = Some i" using n by (auto simp: number_for_def split: option.splits)
  show "itable_ok X T'"
  proof (cases "bt_get (it_by_path T) p")
    case None
    then have "it_next T < OVERLAY_INO_BASE" using room by (simp add: room_for_def)
    then show ?thesis
      using n None next_unused [OF ok] bind_new_ok [OF ok None, of "it_next T" "it_next T + 1"] by (auto simp: number_for_def)
  qed (use n ok in \<open>simp add: number_for_def\<close>)
qed

lemma bind_if_absent_ok:
  assumes ok: "itable_ok X T"
  shows "itable_ok (X \<union> clashing T p i) (bind_if_absent p i T)"
proof (cases "bt_get (it_by_path T) p")
  case None
  have "itable_ok (X \<union> clashing T p i) T" by (rule itable_ok_mono [OF ok]) simp
  from bind_new_ok [OF this None, of i "if i \<ge> it_next T \<and> i < OVERLAY_INO_BASE then i + 1 else it_next T"]
  show ?thesis using None by (auto simp: bind_if_absent_def clashing_def)
qed (simp add: bind_if_absent_def clashing_def ok)

text \<open>Replacing one record by a well-formed one, and dropping a record, leave the rest alone.\<close>

lemma put_record_ok:
  assumes ok: "itable_ok X T" and r: "record_ok X T i r"
  shows "itable_ok X (T\<lparr>it_records := bt_insert i r (it_records T)\<rparr>)"
  using itable_okD [OF ok] r by (intro itable_okI) (auto simp: record_ok_def issued_def split: if_splits)

lemma drop_record_ok:
  assumes ok: "itable_ok X T" and i: "i \<noteq> ROOT_INO"
  shows "itable_ok X (T\<lparr>it_records := bt_remove i (it_records T)\<rparr>)"
  using itable_okD [OF ok] i by (intro itable_okI) (auto simp: record_ok_def issued_def split: if_splits)

lemma insert_lookup_ok:
  assumes ok: "itable_ok X T" and a: "permitted T (RqLookup p n)"
  shows "itable_ok (X \<union> clash T (RqLookup p n)) (snd (insert_lookup p n T))"
proof -
  define T1 where "T1 = (case preferred_ino n of None \<Rightarrow> T | Some i \<Rightarrow> bind_if_absent p i T)"
  obtain i T2 where T2: "number_for p T1 = (i, T2)" by force
  have "itable_ok (X \<union> clash T (RqLookup p n)) T1" "room_for T1 p"
    using ok a bind_if_absent_ok [OF ok] by (auto simp: T1_def room_for_def bind_if_absent_def split: option.splits)
  note N = number_for_ok [OF this T2]
  define r where "r = (case bt_get (it_records T2) i of Some r \<Rightarrow> r
    | None \<Rightarrow> \<lparr>ir_ino = i, ir_path = p, ir_node = n, ir_generation = 0, ir_lookups = 0, ir_opens = 0\<rparr>)"
  have "record_ok (X \<union> clash T (RqLookup p n)) T2 i (r\<lparr>ir_node := n, ir_lookups := ir_lookups r + 1\<rparr>)"
    using itable_okD(3,4,5) [OF N(1)] N(2) by (auto simp: r_def record_ok_def split: option.splits)
  then show ?thesis
    using put_record_ok [OF N(1)] by (simp add: insert_lookup_def Let_def T1_def [symmetric] T2 r_def [symmetric])
qed

text \<open>Operations that touch one record.\<close>

lemma record_ok_simps [simp]:
  "record_ok X T i (r\<lparr>ir_node := n\<rparr>) = record_ok X T i r"
  "record_ok X T i (r\<lparr>ir_generation := g\<rparr>) = record_ok X T i r"
  "record_ok X T i (bump r) = record_ok X T i r"
  by (simp_all add: record_ok_def bump_def)

lemma refresh_ok: "itable_ok X T \<Longrightarrow> itable_ok X (refresh i n T)"
  by (auto simp: refresh_def itable_okD intro: put_record_ok split: option.splits)

lemma rewritten_ok: "itable_ok X T \<Longrightarrow> itable_ok X (snd (rewritten_behind_kernel p T))"
  by (auto simp: rewritten_behind_kernel_def Let_def itable_okD intro: put_record_ok split: option.splits prod.splits)

lemma forget_ok:
  assumes ok: "itable_ok X T"
  shows "itable_ok X (forget i n T)"
  using ok drop_record_ok [OF ok] itable_okD(5) [OF ok, of i]
  by (auto simp: forget_def Let_def record_ok_def intro!: put_record_ok split: option.splits)

lemma iopen_ok: "itable_ok X T \<Longrightarrow> itable_ok X (iopen i T)"
  by (auto simp: iopen_def record_ok_def dest: itable_okD(5) intro!: put_record_ok split: option.splits)

lemma iclose_ok:
  assumes ok: "itable_ok X T"
  shows "itable_ok X (iclose i T)"
proof (cases "bt_get (it_records T) i")
  case (Some r)
  have r: "record_ok X T i r" by (rule itable_okD(5) [OF ok Some])
  let ?r = "r\<lparr>ir_opens := sat_sub (ir_opens r) 1\<rparr>"
  show ?thesis
  proof (cases "ir_lookups ?r = 0 \<and> ir_opens ?r = 0 \<and> ir_ino ?r \<noteq> ROOT_INO")
    case True
    then show ?thesis using drop_record_ok [OF ok, of i] r by (simp add: iclose_def Some record_ok_def)
  next
    case False
    then have "record_ok X T i ?r" using r by (auto simp: record_ok_def)
    from put_record_ok [OF ok this] False show ?thesis by (auto simp: iclose_def Some)
  qed
qed (simp add: iclose_def ok)

lemma repin_ok:
  assumes ok: "itable_ok X T"
  shows "itable_ok X (snd (repin k T))"
proof -
  define bumps where "bumps = (\<lambda>(i :: nat, p :: path) rs. case bt_get rs i of None \<Rightarrow> rs | Some r \<Rightarrow> bt_insert i (bump r) rs)"
  have step: "itable_ok X (T\<lparr>it_records := fold bumps ps rs\<rparr>)" if "itable_ok X (T\<lparr>it_records := rs\<rparr>)" for ps rs
    using that
  proof (induction ps arbitrary: rs)
    case (Cons ip ps)
    have "itable_ok X (T\<lparr>it_records := bumps ip rs\<rparr>)"
      using put_record_ok [OF Cons.prems] itable_okD(5) [OF Cons.prems] Cons.prems
      by (auto simp: bumps_def split: option.splits prod.splits)
    then show ?case using Cons.IH by simp
  qed simp
  have "itable_ok X (T\<lparr>it_records := (case bt_get (it_records T) ROOT_INO of None \<Rightarrow> it_records T
         | Some r \<Rightarrow> bt_insert ROOT_INO (r\<lparr>ir_node := NBase k\<rparr>) (it_records T))\<rparr>)"
    using ok put_record_ok [OF ok] itable_okD(5) [OF ok] by (auto split: option.splits)
  from step [OF this] show ?thesis by (simp add: repin_def Let_def bumps_def)
qed

section \<open>Renaming a subtree\<close>

lemma filter_within:
  "p \<noteq> [] \<Longrightarrow> (x = p \<or> length x > length p \<and> x ! length p = CHR ''/'' \<and> starts_with x p) \<longleftrightarrow> inside x p"
  by (auto simp: inside_iff starts_with_iff nth_append) (metis hd_Cons_tl hd_conv_nth)

lemma rename_moving_props:
  assumes ok: "itable_ok X T" and p: "p \<noteq> []"
  defines "ms \<equiv> rename_moving p T"
  shows "\<forall>x \<in> fst ` set ms. inside x p" "distinct (map fst ms)"
    "(x, i) \<in> set ms \<Longrightarrow> bt_get (it_by_path T) x = Some i"
    "bt_get (it_by_path T) p = Some i \<Longrightarrow> (p, i) \<in> set ms"
proof -
  note D = itable_okD [OF ok]
  show "(x, i) \<in> set ms \<Longrightarrow> bt_get (it_by_path T) x = Some i"
    using bt_get_iff_mem [OF D(1)]
    by (auto simp: ms_def rename_moving_def Let_def split: option.splits if_splits)
  show "distinct (map fst ms)"
    using bt_ok_distinct [OF D(1)]
    by (auto simp: ms_def rename_moving_def Let_def distinct_map_filter split: option.splits if_splits)
  show "\<forall>x \<in> fst ` set ms. inside x p"
    using filter_within [OF p]
    by (auto simp: ms_def rename_moving_def Let_def split: option.splits if_splits)
  show "(p, i) \<in> set ms" if "bt_get (it_by_path T) p = Some i"
    using that map_of_SomeD [OF that]
    by (auto simp: ms_def rename_moving_def Let_def split: option.splits if_splits)
qed

lemma fold_move_one:
  "it_by_path (fold (move_one p q) ms T) =
     fold (\<lambda>(x, n) acc. bt_insert (target_of p q x) n (bt_remove x acc)) ms (it_by_path T)"
  "it_next (fold (move_one p q) ms T) = it_next T"
  by (induction ms arbitrary: T) (auto simp: move_one_def target_of_def Let_def)

text \<open>A record keeps everything but its path; where its number moves with one path, it takes that path's target.\<close>

lemma fold_move_one_records:
  assumes "\<And>x y. (x, i) \<in> set ms \<Longrightarrow> (y, i) \<in> set ms \<Longrightarrow> x = y"
  shows "bt_get (it_records (fold (move_one p q) ms T)) i =
    map_option (\<lambda>r. case map_of (map prod.swap ms) i of None \<Rightarrow> r | Some x \<Rightarrow> r\<lparr>ir_path := target_of p q x\<rparr>)
      (bt_get (it_records T) i)"
  using assms
proof (induction ms arbitrary: T)
  case (Cons xn ms)
  obtain x n where xn: "xn = (x, n)" by force
  have IH: "bt_get (it_records (fold (move_one p q) ms S)) i =
    map_option (\<lambda>r. case map_of (map prod.swap ms) i of None \<Rightarrow> r | Some x \<Rightarrow> r\<lparr>ir_path := target_of p q x\<rparr>)
      (bt_get (it_records S) i)" for S
    by (rule Cons.IH) (use Cons.prems in auto)
  show ?case
  proof (cases "n = i")
    case False
    then have "bt_get (it_records (move_one p q xn T)) i = bt_get (it_records T) i"
      by (simp add: xn move_one_def Let_def split: option.split)
    then show ?thesis using IH [of "move_one p q xn T"] False by (simp add: xn)
  next
    case True
    have "y = x" if "map_of (map prod.swap ms) i = Some y" for y
      using Cons.prems [of y x] map_of_SomeD [OF that] True xn by auto
    moreover have "bt_get (it_records (move_one p q xn T)) i = map_option (\<lambda>r. r\<lparr>ir_path := target_of p q x\<rparr>) (bt_get (it_records T) i)"
      by (simp add: xn True move_one_def target_of_def Let_def split: option.split)
    ultimately show ?thesis using IH [of "move_one p q xn T"] True
      by (cases "map_of (map prod.swap ms) i"; cases "bt_get (it_records T) i") (simp_all add: xn)
  qed
qed (auto simp: option.map_ident)

lemma fold_move_one_shape:
  "bt_get (it_records T) i = Some r \<Longrightarrow> \<exists>x. bt_get (it_records (fold (move_one p q) ms T)) i = Some (r\<lparr>ir_path := x\<rparr>)"
proof (induction ms arbitrary: T r)
  case (Cons xn ms)
  obtain x n where xn: "xn = (x, n)" by force
  have "\<exists>z. bt_get (it_records (move_one p q xn T)) i = Some (r\<lparr>ir_path := z\<rparr>)"
    using Cons.prems by (auto simp: xn move_one_def Let_def split: option.splits intro: exI [of _ "ir_path r"])
  then show ?case using Cons.IH by fastforce
next
  case Nil
  then show ?case by (intro exI [of _ "ir_path r"]) simp
qed

lemma fold_move_one_none:
  "bt_get (it_records (fold (move_one p q) ms T)) i = None \<longleftrightarrow> bt_get (it_records T) i = None"
  by (induction ms arbitrary: T) (simp_all add: move_one_def Let_def split_beta split: option.split)

lemma fold_move_one_bt_ok:
  "bt_ok (it_records T) \<Longrightarrow> bt_ok (it_records (fold (move_one p q) ms T))"
  "bt_ok (it_by_path T) \<Longrightarrow> bt_ok (it_by_path (fold (move_one p q) ms T))"
  by (induction ms arbitrary: T) (auto simp: move_one_def Let_def split: option.splits)

text \<open>Where the paths are bound after the move.\<close>

lemma stay_fold:
  assumes "\<forall>(x, n) \<in> set ms. inside x p \<and> bt_get m x = Some n"
  shows "bt_get (fold (\<lambda>(x, n) acc. bt_insert (target_of p p x) n (bt_remove x acc)) ms m) y = bt_get m y"
  using assms
proof (induction ms arbitrary: m)
  case (Cons xn ms)
  obtain x n where xn: "xn = (x, n)" by force
  have "inside x p" and g: "bt_get m x = Some n" using Cons.prems by (simp_all add: xn)
  then have "target_of p p x = x" by (auto simp: inside_iff target_of_def)
  then have same: "bt_get (bt_insert (target_of p p x) n (bt_remove x m)) z = bt_get m z" for z
    using g by simp
  then have "bt_get (fold (\<lambda>(x, n) acc. bt_insert (target_of p p x) n (bt_remove x acc)) ms (bt_insert (target_of p p x) n (bt_remove x m))) y
      = bt_get (bt_insert (target_of p p x) n (bt_remove x m)) y"
    by (intro Cons.IH) (use Cons.prems in auto)
  then show ?case unfolding same by (simp add: xn)
qed simp

lemma rename_subtree_get:
  assumes ok: "itable_ok X T" and a: "permitted T (RqRename p q)" and ms: "ms = rename_moving p T"
  shows "bt_get (it_by_path (snd (rename_subtree p q T))) y =
    (if p = q then bt_get (it_by_path T) y
     else if inside y p then (if y \<in> fst ` set ms then None else bt_get (it_by_path T) y)
     else if inside y q then
       (case map_of ms (origin p q y) of None \<Rightarrow> bt_get (it_by_path T) y | Some n \<Rightarrow> Some n)
     else bt_get (it_by_path T) y)"
proof -
  have p: "p \<noteq> []" using a by simp
  note M = rename_moving_props [OF ok p, folded ms]
  show ?thesis
  proof (cases "p = q")
    case True
    have "\<forall>(x, n) \<in> set ms. inside x p \<and> bt_get (it_by_path T) x = Some n" using M(1,3) by force
    then show ?thesis using True stay_fold [of ms p "it_by_path T" y] by (simp add: rename_subtree_def Let_def ms fold_move_one)
  next
    case False
    then have "\<not> inside q p" "\<not> inside p q" using a by auto
    then show ?thesis using False move_fold [OF _ _ M(1,2)] by (simp add: rename_subtree_def Let_def ms [symmetric] fold_move_one)
  qed
qed

lemma rename_subtree_binding:
  assumes ok: "itable_ok X T" and a: "permitted T (RqRename p q)" and ms: "ms = rename_moving p T"
    and b: "bt_get (it_by_path (snd (rename_subtree p q T))) y = Some i"
  shows "(\<exists>x. (x, i) \<in> set ms \<and> y = target_of p q x) \<or> bt_get (it_by_path T) y = Some i \<and> y \<notin> fst ` set ms"
proof -
  have p: "p \<noteq> []" using a by simp
  note M = rename_moving_props [OF ok p, folded ms]
  note get = rename_subtree_get [OF ok a ms]
  have key: "y \<notin> fst ` set ms" if "\<not> inside y p" using that M(1) by blast
  show ?thesis
  proof (cases "p = q")
    case True
    then have y: "bt_get (it_by_path T) y = Some i" using b get [of y] by simp
    show ?thesis
    proof (cases "y \<in> fst ` set ms")
      case True
      then obtain n where n: "(y, n) \<in> set ms" by force
      then have "n = i" "inside y p" using M(1,3) y by force+
      moreover have "target_of p p y = y" if "inside y p" using that by (auto simp: inside_iff target_of_def)
      ultimately show ?thesis using n \<open>p = q\<close> by metis
    qed (use y in simp)
  next
    case False
    show ?thesis
    proof (cases "inside y q \<and> map_of ms (origin p q y) = Some i \<and> \<not> inside y p")
      case True
      moreover have "y = target_of p q (origin p q y)" using True by (auto simp: inside_iff target_of_def)
      ultimately show ?thesis by (auto dest: map_of_SomeD)
    next
      case no: False
      then show ?thesis using b key False by (auto simp: get split: if_splits option.splits)
    qed
  qed
qed

lemma map_of_swap:
  assumes "\<And>x y. (x, i) \<in> set ms \<Longrightarrow> (y, i) \<in> set ms \<Longrightarrow> x = y" and "(x, i) \<in> set ms"
  shows "map_of (map prod.swap ms) i = Some x"
proof (cases "map_of (map prod.swap ms) i")
  case None
  then show ?thesis using assms(2) by (force simp: map_of_eq_None_iff)
next
  case (Some y)
  then have "(y, i) \<in> set ms" by (auto dest!: map_of_SomeD)
  then show ?thesis using Some assms by blast
qed

lemma map_of_swap_None: "i \<notin> snd ` set ms \<Longrightarrow> map_of (map prod.swap ms) i = None"
  by (force simp: map_of_eq_None_iff)

lemma rename_subtree_ok:
  assumes ok: "itable_ok X T" and a: "permitted T (RqRename p q)"
  shows "itable_ok X (snd (rename_subtree p q T))" (is "itable_ok X ?T")
proof (rule itable_okI)
  define ms where "ms = rename_moving p T"
  have pq: "p \<noteq> []" "q \<noteq> []" using a by auto
  note D = itable_okD [OF ok]
  note M = rename_moving_props [OF ok pq(1), folded ms_def]
  note bind = rename_subtree_binding [OF ok a ms_def]
  have T: "snd (rename_subtree p q T) = fold (move_one p q) ms T" by (simp add: rename_subtree_def Let_def ms_def)
  have uni: "x = y" if "i \<notin> X" "(x, i) \<in> set ms" "(y, i) \<in> set ms" for x y i
    using that M(3) D(3) by blast
  have nx [simp]: "it_next ?T = it_next T" by (simp add: T fold_move_one)
  show "bt_ok (it_by_path ?T)" "bt_ok (it_records ?T)"
    using D fold_move_one_bt_ok by (auto simp: T)
  show "x = y" if "bt_get (it_by_path ?T) x = Some i" "bt_get (it_by_path ?T) y = Some i" "i \<notin> X" for x y i
  proof -
    have src: "\<exists>z. bt_get (it_by_path T) z = Some i \<and> y = (if z \<in> fst ` set ms then target_of p q z else z)"
      if "bt_get (it_by_path ?T) y = Some i" for y
      using bind [OF that] M(3) by (metis fst_conv imageI)
    show ?thesis using src [OF that(1)] src [OF that(2)] D(3) that(3) by metis
  qed
  show "issued ?T i" if "bt_get (it_by_path ?T) x = Some i" for x i
    using bind [OF that] D(4) M(3) by (auto simp: issued_def)
  show "record_ok X ?T i r'" if r': "bt_get (it_records ?T) i = Some r'" for i r'
  proof -
    obtain r where r: "bt_get (it_records T) i = Some r"
      using r' fold_move_one_none [of p q ms T i] by (cases "bt_get (it_records T) i") (auto simp: T)
    obtain z where z: "r' = r\<lparr>ir_path := z\<rparr>" using fold_move_one_shape [OF r, of p q ms] r' by (auto simp: T)
    have "ir_path r' = y" if "bt_get (it_by_path ?T) y = Some i" "i \<notin> X" for y
    proof -
      have "r' = (case map_of (map prod.swap ms) i of None \<Rightarrow> r | Some x \<Rightarrow> r\<lparr>ir_path := target_of p q x\<rparr>)"
        using fold_move_one_records [of i ms p q T, OF uni [OF that(2)]] r r' by (simp add: T)
      moreover have "i \<notin> snd ` set ms" if b: "bt_get (it_by_path T) y = Some i" "y \<notin> fst ` set ms"
      proof
        assume "i \<in> snd ` set ms"
        then obtain x where x: "(x, i) \<in> set ms" by force
        then have "x = y" using M(3) [OF x] D(3) b(1) \<open>i \<notin> X\<close> by blast
        then show False using x b(2) by force
      qed
      moreover have "map_of (map prod.swap ms) i = Some x" if "(x, i) \<in> set ms" for x
        by (rule map_of_swap [OF uni [OF \<open>i \<notin> X\<close>] that])
      ultimately show ?thesis
        using bind [OF that(1)] D(5) [OF r] map_of_swap_None [of i ms] that(2)
        by (elim disjE exE conjE) (simp_all add: record_ok_def)
    qed
    then show ?thesis using D(5) [OF r] by (simp add: record_ok_def issued_def z)
  qed
  have nil: "\<not> inside [] p" "\<not> inside [] q" using pq by (auto simp: inside_iff)
  then show "bt_get (it_by_path ?T) [] = Some ROOT_INO"
    using D(6) by (simp add: rename_subtree_get [OF ok a ms_def])
  show "bt_get (it_records ?T) ROOT_INO \<noteq> None" using D(7) by (simp add: T fold_move_one_none)
  show "ROOT_INO < it_next ?T" using D(8) by simp
qed

lemma serve_ok: "itable_ok X T \<Longrightarrow> permitted T q \<Longrightarrow> itable_ok (X \<union> clash T q) (serve q T)"
  by (cases q)
    (simp_all add: insert_lookup_ok bind_if_absent_ok forget_ok iopen_ok iclose_ok rename_subtree_ok
      refresh_ok repin_ok rewritten_ok number_for_ok(1) [OF _ _ prod.collapse [symmetric]] del: permitted.simps(1,3) clash.simps(1))

lemma run_ok: "itable_run T0 X T \<Longrightarrow> itable_ok {} T0 \<Longrightarrow> itable_ok X T"
  by (induction rule: itable_run.induct) (auto intro: serve_ok)

lemma reach_ok: "itable_reach (itable_new root) T \<Longrightarrow> \<exists>X. itable_ok X T"
  unfolding reach_run using run_ok itable_new_ok by blast

section \<open>Properties\<close>

text \<open>
  C27. In every table the mount can reach, whatever numbers the overlay's rows bring: every number came from the
  mount's counter, the overlay's range or a row below the counter; the root keeps number 1 and its record; no other
  record is kept that the kernel neither holds nor has open; and two paths share a number, or a record carries
  another path than one its number is bound to, only for a number of \<open>X\<close>, the numbers a row brought for a new path
  while they were in use.
\<close>
theorem inode_table_invariant:
  assumes "itable_run (itable_new root) X T"
  shows "itable_ok X T"
  using assms itable_new_ok run_ok by blast

definition demo_requests :: "request list" where
  "demo_requests =
     [RqLookup ''d'' (NBase Directory), RqLookup ''d/a'' (NBase Regular), RqLookup ''b'' (NBase Regular),
      RqOpen 3, RqRename ''d'' ''e'', RqForget 3 1, RqRepin Directory, RqAdopt ''e/b'' 4, RqLookup ''d'' (NBase Directory)]"

fun permitted_run :: "request list \<Rightarrow> inode_table \<Rightarrow> bool" where
  "permitted_run [] T = True"
| "permitted_run (q # qs) T = (permitted T q \<and> permitted_run qs (serve q T))"

fun clashes :: "request list \<Rightarrow> inode_table \<Rightarrow> nat set" where
  "clashes [] T = {}"
| "clashes (q # qs) T = clash T q \<union> clashes qs (serve q T)"

lemma permitted_run_run: "itable_run T0 X T \<Longrightarrow> permitted_run qs T \<Longrightarrow> itable_run T0 (X \<union> clashes qs T) (fold serve qs T)"
proof (induction qs arbitrary: X T)
  case (Cons q qs)
  have "itable_run T0 (X \<union> clash T q \<union> clashes qs (serve q T)) (fold serve qs (serve q T))"
    by (rule Cons.IH) (use Cons.prems in \<open>auto intro: run_step\<close>)
  then show ?case by (simp add: Un_assoc)
qed simp

lemma permitted_run_reach: "permitted_run qs T0 \<Longrightarrow> itable_reach T0 (fold serve qs T0)"
  using permitted_run_run [OF run_start] reach_run by blast

lemma demo_permitted: "permitted_run demo_requests (itable_new Directory)"
  by (simp add: demo_requests_def itable_new_def insert_lookup_def number_for_def Let_def iopen_def rename_subtree_def
      rename_moving_def move_one_def forget_def repin_def bind_if_absent_def room_for_def ROOT_INO_def OVERLAY_INO_BASE_def inside_iff bt_remove_def)

lemma demo_clashes: "clashes demo_requests (itable_new Directory) = {4}"
  by (simp add: demo_requests_def itable_new_def insert_lookup_def number_for_def Let_def iopen_def rename_subtree_def
      rename_moving_def move_one_def forget_def repin_def bind_if_absent_def clashing_def in_use_def ROOT_INO_def OVERLAY_INO_BASE_def
      inside_iff bt_remove_def)

theorem inode_table_invariant_witness:
  "itable_ok {4} (fold serve demo_requests (itable_new Directory))
   \<and> bt_get (it_by_path (fold serve demo_requests (itable_new Directory))) ''e/a'' = Some 3
   \<and> bt_get (it_by_path (fold serve demo_requests (itable_new Directory))) ''e/b'' = Some 4
   \<and> bt_get (it_by_path (fold serve demo_requests (itable_new Directory))) ''b'' = Some 4"
  using inode_table_invariant [OF permitted_run_run [OF run_start demo_permitted]]
  by (simp add: demo_clashes)
    (simp add: demo_requests_def itable_new_def insert_lookup_def number_for_def Let_def iopen_def rename_subtree_def
      rename_moving_def move_one_def forget_def repin_def bind_if_absent_def ROOT_INO_def OVERLAY_INO_BASE_def bt_remove_def)

text \<open>\<open>seed\<close> is the adoption of each row's number in turn.\<close>

lemma seed_run: "seed es T = fold serve (map (\<lambda>e. RqAdopt (e_path e) (e_ino e)) es) T"
  by (induction es arbitrary: T) (simp_all add: seed_def)

lemma bind_keeps: "bt_get (it_by_path T) x = Some i \<Longrightarrow> bt_get (it_by_path (bind_if_absent p j T)) x = Some i"
  by (auto simp: bind_if_absent_def)

lemma seed_keeps: "bt_get (it_by_path T) x = Some i \<Longrightarrow> bt_get (it_by_path (seed es T)) x = Some i"
  by (induction es arbitrary: T) (simp_all add: seed_def bind_keeps)

lemma seed_binds:
  assumes "distinct (map e_path es)" and "e \<in> set es" and "bt_get (it_by_path T) (e_path e) = None"
  shows "bt_get (it_by_path (seed es T)) (e_path e) = Some (e_ino e)"
  using assms
proof (induction es arbitrary: T)
  case (Cons f es)
  have step: "seed (f # es) T = seed es (bind_if_absent (e_path f) (e_ino f) T)" by (simp add: seed_def)
  show ?case
  proof (cases "e = f")
    case True
    then have "bt_get (it_by_path (bind_if_absent (e_path f) (e_ino f) T)) (e_path e) = Some (e_ino e)"
      using Cons.prems(3) by (simp add: bind_if_absent_def)
    then show ?thesis unfolding step by (rule seed_keeps)
  next
    case False
    then have "e \<in> set es" "e_path e \<noteq> e_path f" using Cons.prems(1,2) by (auto simp: rev_image_eqI)
    then show ?thesis unfolding step using Cons.prems by (intro Cons.IH) (simp_all add: bind_if_absent_def)
  qed
qed simp

text \<open>
  Seeding shares numbers: any two rows of the overlay with the same number give it to both their paths, if the
  table has neither path yet, as in a mount that starts. The whiteouts of files the overlay never had a row for
  all carry number 0 (\<open>Overlay::remove\<close>, \<open>Overlay::rename\<close>), and the whiteout a rename leaves behind carries the
  number of the row that moved.
\<close>
theorem seed_shares_numbers:
  assumes "distinct (map e_path es)" and "e1 \<in> set es" "e2 \<in> set es" and "e_ino e1 = e_ino e2"
    and "bt_get (it_by_path T) (e_path e1) = None" "bt_get (it_by_path T) (e_path e2) = None"
  shows "bt_get (it_by_path (seed es T)) (e_path e1) = bt_get (it_by_path (seed es T)) (e_path e2)"
  using seed_binds [OF assms(1)] assms(2-6) by simp

text \<open>Two base files are removed and the mount restarts: both paths are number 0, which the kernel's protocol keeps
  for a name that does not exist.\<close>

theorem seed_shares_numbers_witness:
  "bt_get (it_by_path (seed [whiteout ''a'' f 0 t, whiteout ''b'' f 0 t] (itable_new Directory))) ''a'' =
   bt_get (it_by_path (seed [whiteout ''a'' f 0 t, whiteout ''b'' f 0 t] (itable_new Directory))) ''b''"
  using seed_shares_numbers [of "[whiteout ''a'' f 0 t, whiteout ''b'' f 0 t]" "whiteout ''a'' f 0 t" "whiteout ''b'' f 0 t" "itable_new Directory"]
  by (simp add: whiteout_def itable_new_def)

lemma rename_subtree_carries:
  assumes "itable_reach (itable_new root) T" and "p \<noteq> []" "q \<noteq> []" "\<not> inside q p" "\<not> inside p q"
    and "bt_get (it_by_path T) p = Some d" "bt_get (it_records T) d = Some dr" "node_is_dir (ir_node dr)"
    and "bt_get (it_by_path T) (p @ s) = Some i" "s = [] \<or> hd s = CHR ''/''"
  shows "bt_get (it_by_path (snd (rename_subtree p q T))) (q @ s) = Some i"
    and "bt_get (it_by_path (snd (rename_subtree p q T))) (p @ s) = None"
    and "(\<And>x. bt_get (it_by_path T) x = Some i \<Longrightarrow> x = p @ s) \<Longrightarrow>
      bt_get (it_records (snd (rename_subtree p q T))) i = map_option (\<lambda>r. r\<lparr>ir_path := q @ s\<rparr>) (bt_get (it_records T) i)"
    and "(i, q @ s) \<in> set (fst (rename_subtree p q T))"
proof -
  obtain X where ok: "itable_ok X T" using reach_ok [OF assms(1)] by blast
  have a: "permitted T (RqRename p q)" using assms by simp
  define ms where "ms = rename_moving p T"
  note M = rename_moving_props [OF ok assms(2), folded ms_def]
  note get = rename_subtree_get [OF ok a ms_def]
  have ne: "p \<noteq> q" using assms(4) by (auto simp: inside_iff)
  have ins: "inside (p @ s) p" "inside (q @ s) q" using assms(10) by (cases s; auto simp: inside_iff)+
  have mem: "(p @ s, i) \<in> set ms"
    using assms(6-9) ins(1) filter_within [OF assms(2), of "p @ s"] map_of_SomeD [OF assms(9)]
    by (simp add: ms_def rename_moving_def del: append_eq_conv_conj)
  have orig: "origin p q (q @ s) = p @ s" "target_of p q (p @ s) = q @ s" by (simp_all add: origin_def target_of_def)
  have out: "\<not> inside (q @ s) p" using ins(2) inside_disjoint [OF assms(4,5)] by blast
  show "bt_get (it_by_path (snd (rename_subtree p q T))) (q @ s) = Some i"
    using ne out ins(2) map_of_is_SomeI [OF M(2) mem] by (simp add: get orig)
  show "bt_get (it_by_path (snd (rename_subtree p q T))) (p @ s) = None"
    using ne ins(1) mem by (force simp: get)
  show "bt_get (it_records (snd (rename_subtree p q T))) i =
      map_option (\<lambda>r. r\<lparr>ir_path := q @ s\<rparr>) (bt_get (it_records T) i)"
    if u: "\<And>x. bt_get (it_by_path T) x = Some i \<Longrightarrow> x = p @ s"
  proof -
    have uni: "x = y" if "(x, i) \<in> set ms" "(y, i) \<in> set ms" for x y using that M(3) u by metis
    have "map_of (map prod.swap ms) i = Some (p @ s)" by (rule map_of_swap [OF uni mem])
    then show ?thesis
      using fold_move_one_records [of i ms p q T, OF uni] by (simp add: rename_subtree_def Let_def ms_def orig)
  qed
  show "(i, q @ s) \<in> set (fst (rename_subtree p q T))"
    using mem by (force simp: rename_subtree_def Let_def ms_def [symmetric])
qed

text \<open>
  C28. Renaming a directory carries every number below it to the new path and leaves nothing bound below the old
  one, in every table the mount can reach; and where a moved number is bound to no other path, nothing of its
  record changes but the path.
\<close>
theorem rename_keeps_numbers:
  assumes "itable_reach (itable_new root) T" and "p \<noteq> []" "q \<noteq> []" "\<not> inside q p" "\<not> inside p q"
    and "bt_get (it_by_path T) p = Some d" "bt_get (it_records T) d = Some dr" "node_is_dir (ir_node dr)"
    and "bt_get (it_by_path T) (p @ s) = Some i" "s = [] \<or> hd s = CHR ''/''"
  shows "bt_get (it_by_path (snd (rename_subtree p q T))) (q @ s) = Some i \<and>
    bt_get (it_by_path (snd (rename_subtree p q T))) (p @ s) = None \<and>
    (i, q @ s) \<in> set (fst (rename_subtree p q T)) \<and>
    ((\<forall>x. bt_get (it_by_path T) x = Some i \<longrightarrow> x = p @ s) \<longrightarrow>
      bt_get (it_records (snd (rename_subtree p q T))) i =
        map_option (\<lambda>r. r\<lparr>ir_path := q @ s\<rparr>) (bt_get (it_records T) i))"
  using rename_subtree_carries [OF assms] by simp

definition demo_before_rename :: inode_table where
  "demo_before_rename = fold serve (take 4 demo_requests) (itable_new Directory)"

lemma permitted_run_take: "permitted_run qs T \<Longrightarrow> permitted_run (take n qs) T"
  by (induction qs arbitrary: n T) (auto simp: take_Cons split: nat.splits)

lemma demo_before_reach: "itable_reach (itable_new Directory) demo_before_rename"
  unfolding demo_before_rename_def
  by (rule permitted_run_reach [OF permitted_run_take [OF demo_permitted]])

lemma demo_before_eval:
  "bt_get (it_by_path demo_before_rename) ''d'' = Some 2"
  "\<exists>r. bt_get (it_records demo_before_rename) 2 = Some r \<and> node_is_dir (ir_node r)"
  "bt_get (it_by_path demo_before_rename) (''d'' @ ''/a'') = Some 3"
  "\<exists>r. bt_get (it_records demo_before_rename) 3 = Some r \<and> ir_opens r = 1 \<and> ir_lookups r = 1"
  "bt_get (it_by_path demo_before_rename) x = Some 3 \<Longrightarrow> x = ''d'' @ ''/a''"
  by (simp_all add: demo_before_rename_def demo_requests_def itable_new_def insert_lookup_def number_for_def Let_def
      iopen_def ROOT_INO_def split: if_splits)

theorem rename_keeps_numbers_witness:
  "bt_get (it_by_path (snd (rename_subtree ''d'' ''e'' demo_before_rename))) (''e'' @ ''/a'') = Some 3
   \<and> bt_get (it_records (snd (rename_subtree ''d'' ''e'' demo_before_rename))) 3 =
       map_option (\<lambda>r. r\<lparr>ir_path := ''e'' @ ''/a''\<rparr>) (bt_get (it_records demo_before_rename) 3)"
proof -
  obtain r where r: "bt_get (it_records demo_before_rename) 2 = Some r" "node_is_dir (ir_node r)"
    using demo_before_eval(2) by blast
  show ?thesis
    using rename_keeps_numbers [OF demo_before_reach _ _ _ _ demo_before_eval(1) r demo_before_eval(3), of "''e''"]
      demo_before_eval(5)
    by (simp add: inside_iff)
qed

lemma bumps_keep:
  "bt_get (fold (\<lambda>(i, p) rs. case bt_get rs i of None \<Rightarrow> rs | Some r \<Rightarrow> bt_insert i (bump r) rs) ps rs) j = None
     \<longleftrightarrow> bt_get rs j = None"
  by (induction ps arbitrary: rs) (simp_all add: split_beta split: option.split)

lemma number_for_records: "it_records (snd (number_for p T)) = it_records T"
  by (simp add: number_for_def split: option.splits)

lemma bind_if_absent_records: "it_records (bind_if_absent p i T) = it_records T"
  by (simp add: bind_if_absent_def)

lemma insert_lookup_records:
  "bt_get (it_records T) j \<noteq> None \<Longrightarrow> bt_get (it_records (snd (insert_lookup p n T))) j \<noteq> None"
  using number_for_records [of p] bind_if_absent_records
  by (auto simp: insert_lookup_def Let_def split: prod.splits option.splits) (metis option.distinct(1) snd_conv)+

lemma kept_records:
  "bt_get (it_records T) j \<noteq> None \<Longrightarrow> bt_get (it_records (snd (rename_subtree p q T))) j \<noteq> None"
  "bt_get (it_records T) j \<noteq> None \<Longrightarrow> bt_get (it_records (snd (repin k T))) j \<noteq> None"
  "bt_get (it_records T) j \<noteq> None \<Longrightarrow> bt_get (it_records (snd (rewritten_behind_kernel p T))) j \<noteq> None"
  "bt_get (it_records T) j \<noteq> None \<Longrightarrow> bt_get (it_records (refresh i n T)) j \<noteq> None"
  "bt_get (it_records T) j \<noteq> None \<Longrightarrow> bt_get (it_records (iopen i T)) j \<noteq> None"
  by (auto simp: rename_subtree_def Let_def fold_move_one_none repin_def bumps_keep rewritten_behind_kernel_def
      refresh_def iopen_def split: option.splits prod.splits)

lemma forget_drops:
  "bt_get (it_records T) i = Some r \<Longrightarrow> bt_get (it_records (forget j n T)) i = None \<Longrightarrow>
   j = i \<and> i \<noteq> ROOT_INO \<and> ir_opens r = 0 \<and> ir_lookups r \<le> n"
  by (auto simp: forget_def Let_def split: option.splits if_splits)

lemma iclose_drops:
  "bt_get (it_records T) i = Some r \<Longrightarrow> bt_get (it_records (iclose j T)) i = None \<Longrightarrow>
   j = i \<and> ir_ino r \<noteq> ROOT_INO \<and> ir_lookups r = 0 \<and> ir_opens r \<le> 1"
  by (auto simp: iclose_def Let_def split: option.splits if_splits)

text \<open>
  C29. A record disappears only when the kernel has let go of it: it is not the root's, and the request
  is a forget that takes the last lookups of an inode nobody has open, or the close of the last handle
  of an inode with no lookups left.
\<close>
theorem record_dropped_only_when_released:
  assumes "bt_get (it_records T) i = Some r" "itable_reach (itable_new root) T" "permitted T q"
    and "bt_get (it_records (serve q T)) i = None"
  shows "i \<noteq> ROOT_INO \<and>
    ((\<exists>n. q = RqForget i n \<and> ir_opens r = 0 \<and> ir_lookups r \<le> n) \<or>
     q = RqClose i \<and> ir_lookups r = 0 \<and> ir_opens r \<le> 1)"
proof -
  have ok: "ir_ino r = i" using assms(1) reach_ok [OF assms(2)] itable_okD(5) by (fastforce simp: record_ok_def)
  show ?thesis
    using assms(1,4) ok kept_records [of T i] insert_lookup_records [of T i]
      forget_drops [OF assms(1)] iclose_drops [OF assms(1)]
    by (cases q) (auto simp: number_for_records bind_if_absent_records)
qed

theorem record_dropped_only_when_released_witness:
  "bt_get (it_records (serve (RqForget 3 1) demo_before_rename)) 3 \<noteq> None"
proof
  obtain r where r: "bt_get (it_records demo_before_rename) 3 = Some r" "ir_opens r = 1"
    using demo_before_eval(4) by blast
  assume "bt_get (it_records (serve (RqForget 3 1) demo_before_rename)) 3 = None"
  then show False
    using record_dropped_only_when_released [OF r(1) demo_before_reach _ \<open>_ = None\<close>] r(2) by simp
qed

text \<open>
  Until a rename moves it, a path keeps its number: through lookups, forgets, opens, closes,
  refreshes, adopted numbers and re-pins to another commit.
\<close>
theorem number_stable:
  assumes "bt_get (it_by_path T) p = Some i" and "\<And>x y. RqRename x y \<notin> set qs"
  shows "bt_get (it_by_path (fold serve qs T)) p = Some i"
  using assms
proof (induction qs arbitrary: T)
  case (Cons q qs)
  have "bt_get (it_by_path (serve q T)) p = Some i"
    using Cons.prems
    by (cases q)
      (auto simp: insert_lookup_def number_for_def bind_if_absent_def forget_def iopen_def iclose_def refresh_def
        repin_def rewritten_behind_kernel_def Let_def split: option.splits prod.splits if_splits)
  then show ?case using Cons by simp
qed simp

theorem number_stable_witness:
  "bt_get (it_by_path (fold serve [RqForget 3 1, RqClose 3, RqRepin Directory] demo_before_rename)) (''d'' @ ''/a'') = Some 3"
  by (rule number_stable [OF demo_before_eval(3)]) simp

end
