(* ===== verification/Gfs_Revision.thy ===== *)
theory Gfs_Revision
  imports Gfs_Oid Gfs_Error "HOL-Library.Code_Target_Nat"
begin

text \<open>
  Revision selectors and expressions (\<open>crates/gfs-types/src/revision.rs\<close>), the reserved ref
  namespace, and the identifiers of \<open>crates/gfs-types/src/ids.rs\<close>. A \<open>str\<close> is its UTF-8 bytes; where
  the source looks at Unicode properties of characters the scalar values of \<open>str_chars\<close> are used.
\<close>

section \<open>The reserved namespace\<close>

definition RESERVED_REF_PREFIX :: string where
  "RESERVED_REF_PREFIX = ''refs/gfs/''"

definition is_reserved_ref :: "string \<Rightarrow> bool" where
  "is_reserved_ref name = starts_with name RESERVED_REF_PREFIX"

definition lease_anchor_ref :: "string \<Rightarrow> string" where
  "lease_anchor_ref mount_id = RESERVED_REF_PREFIX @ ''mounts/'' @ mount_id"

definition is_ascii_alphanumeric :: "char \<Rightarrow> bool" where
  "is_ascii_alphanumeric c =
     (let n = of_char c :: nat
      in 48 \<le> n \<and> n \<le> 57 \<or> 65 \<le> n \<and> n \<le> 90 \<or> 97 \<le> n \<and> n \<le> 122)"

text \<open>The loop of \<open>work_ref_root\<close>: every run of other characters becomes one underscore.\<close>

fun fold_subject :: "bool \<Rightarrow> string \<Rightarrow> string" where
  "fold_subject last_was_sep [] = []"
| "fold_subject last_was_sep (c # cs) =
     (if is_ascii_alphanumeric c \<or> c = CHR ''.'' \<or> c = CHR ''-'' \<or> c = CHR ''_'' then c # fold_subject False cs
      else if \<not> last_was_sep then CHR ''_'' # fold_subject True cs
      else fold_subject last_was_sep cs)"

definition trim_matches :: "char \<Rightarrow> string \<Rightarrow> string" where
  "trim_matches x s = rev (dropWhile (\<lambda>c. c = x) (rev (dropWhile (\<lambda>c. c = x) s)))"

definition work_ref_root :: "string \<Rightarrow> string" where
  "work_ref_root subject =
     (let folded = trim_matches (CHR ''.'') (trim_matches (CHR ''_'') (fold_subject False subject));
          owner = (if folded = [] then ''anonymous'' else folded)
      in RESERVED_REF_PREFIX @ ''work/'' @ owner)"

definition work_ref :: "string \<Rightarrow> string \<Rightarrow> string" where
  "work_ref subject branch = work_ref_root subject @ ''/'' @ branch"

section \<open>Character classes\<close>

text \<open>\<open>char::is_whitespace\<close> (White_Space) and \<open>char::is_control\<close> (category Cc) on scalar values.\<close>

definition cp_whitespace :: "nat \<Rightarrow> bool" where
  "cp_whitespace c =
     (9 \<le> c \<and> c \<le> 13 \<or> c = 0x20 \<or> c = 0x85 \<or> c = 0xA0 \<or> c = 0x1680 \<or> 0x2000 \<le> c \<and> c \<le> 0x200A \<or>
      c = 0x2028 \<or> c = 0x2029 \<or> c = 0x202F \<or> c = 0x205F \<or> c = 0x3000)"

definition cp_control :: "nat \<Rightarrow> bool" where
  "cp_control c = (c < 0x20 \<or> 0x7F \<le> c \<and> c \<le> 0x9F)"

section \<open>Selectors\<close>

definition MAX_REVISION_SELECTOR_BYTES :: nat where "MAX_REVISION_SELECTOR_BYTES = 512"
definition MAX_ANCESTRY_DISTANCE :: nat where "MAX_ANCESTRY_DISTANCE = 4096"
definition MIN_ABBREV_HEX :: nat where "MIN_ABBREV_HEX = 7"

datatype revision_selector =
    FullOid object_id
  | Abbrev string
  | FullRef string
  | ShortName string

definition reject_reserved_namespace :: "string \<Rightarrow> error_code + unit" where
  "reject_reserved_namespace s =
     (if starts_with s RESERVED_REF_PREFIX \<or> starts_with (''refs/'' @ s) RESERVED_REF_PREFIX
      then Inl ReservedNamespace else Inr ())"

text \<open>The characters the loop of \<open>reject_expression_syntax\<close> refuses; all of them are an \<open>InvalidArgument\<close>.\<close>

definition cp_refused :: "nat \<Rightarrow> bool" where
  "cp_refused c =
     (c \<in> set (map of_char [CHR ''~'', CHR ''^'', CHR '':'', CHR ''@'', CHR ''?'', CHR ''*'', CHR ''['', CHR '']'',
        CHR 0x5C, CHR 0x7F]) \<or> cp_whitespace c \<or> cp_control c)"

definition reject_expression_syntax :: "string \<Rightarrow> error_code + unit" where
  "reject_expression_syntax s =
     (if starts_with s ''-'' then Inl InvalidArgument
      else if starts_with s ''.'' \<or> ends_with s ''.'' then Inl InvalidArgument
      else if contains_sub s ''..'' \<or> contains_sub s [CHR ''@'', CHR 0x7B] \<or> contains_sub s ''//'' then Inl InvalidArgument
      else if ends_with s ''.lock'' \<or> ends_with s ''/'' \<or> starts_with s ''/'' then Inl InvalidArgument
      else if s = ''@'' then Inl InvalidArgument
      else if list_ex cp_refused (str_chars s) then Inl InvalidArgument
      else Inr ())"

definition validate_ref_name :: "string \<Rightarrow> error_code + unit" where
  "validate_ref_name s =
     (if list_all (\<lambda>c. c \<noteq> [] \<and> \<not> starts_with c ''.'' \<and> \<not> ends_with c ''.lock'') (split_on (CHR ''/'') s)
      then Inr () else Inl InvalidArgument)"

definition oid_invalid :: "oid_error + object_id \<Rightarrow> error_code + object_id" where
  "oid_invalid r = (case r of Inl _ \<Rightarrow> Inl InvalidArgument | Inr oid \<Rightarrow> Inr oid)"

definition is_pseudo_ref :: "string \<Rightarrow> bool" where
  "is_pseudo_ref s = list_all (\<lambda>c. 65 \<le> (of_char c :: nat) \<and> (of_char c :: nat) \<le> 90 \<or> c = CHR ''_'') s"

text \<open>What \<open>parse\<close> does with a selector that is not an object id or an abbreviation.\<close>

definition parse_name :: "string \<Rightarrow> error_code + revision_selector" where
  "parse_name s =
     (case reject_reserved_namespace s of Inl e \<Rightarrow> Inl e
      | Inr _ \<Rightarrow>
        (case reject_expression_syntax s of Inl e \<Rightarrow> Inl e
         | Inr _ \<Rightarrow>
           (case strip_prefix ''refs/'' s of
              Some rest \<Rightarrow>
                (case validate_ref_name s of Inl e \<Rightarrow> Inl e
                 | Inr _ \<Rightarrow> if rest = [] then Inl InvalidArgument else Inr (FullRef s))
            | None \<Rightarrow>
                if s = ''HEAD'' then Inr (ShortName s)
                else if is_pseudo_ref s then Inl InvalidArgument
                else (case validate_ref_name s of Inl e \<Rightarrow> Inl e | Inr _ \<Rightarrow> Inr (ShortName s)))))"

definition parse_hex_or_name :: "string \<Rightarrow> hash_algorithm \<Rightarrow> error_code + revision_selector" where
  "parse_hex_or_name s a =
     (if is_hex s \<and> length s = hex_len a
      then (case oid_invalid (from_hex a s) of Inl e \<Rightarrow> Inl e | Inr oid \<Rightarrow> Inr (FullOid oid))
      else if is_hex s \<and> length s > hex_len a then Inl InvalidArgument
      else if is_hex s \<and> length s \<ge> MIN_ABBREV_HEX then Inr (Abbrev s)
      else parse_name s)"

definition selector_parse :: "string \<Rightarrow> hash_algorithm \<Rightarrow> error_code + revision_selector" where
  "selector_parse s a =
     (if s = [] then Inl InvalidArgument
      else if length s > MAX_REVISION_SELECTOR_BYTES then Inl InvalidArgument
      else case split_once (CHR '':'') s of
        Some (algo, hex) \<Rightarrow>
          (if algorithm_from_name algo \<noteq> None
           then (case oid_invalid (parse_qualified s) of Inl e \<Rightarrow> Inl e
                 | Inr oid \<Rightarrow> if oid_algorithm oid \<noteq> a then Inl InvalidArgument else Inr (FullOid oid))
           else Inl InvalidArgument)
      | None \<Rightarrow> parse_hex_or_name s a)"

fun selector_as_str :: "revision_selector \<Rightarrow> string" where
  "selector_as_str (FullOid _) = []"
| "selector_as_str (Abbrev s) = s"
| "selector_as_str (FullRef s) = s"
| "selector_as_str (ShortName s) = s"

section \<open>Expressions\<close>

datatype ancestry_step = Parent nat | Ancestor nat

record revision_expression =
  re_base :: revision_selector
  re_steps :: "ancestry_step list"

definition u32_max :: nat where "u32_max = 2 ^ 32 - 1"

fun step_count :: "ancestry_step \<Rightarrow> nat" where
  "step_count (Parent n) = n"
| "step_count (Ancestor n) = n"

text \<open>One turn of the loop of \<open>parse_ancestry\<close> per step; the suffix starts with an operator.\<close>

function ancestry_steps :: "string \<Rightarrow> error_code + ancestry_step list" where
  "ancestry_steps [] = Inr []"
| "ancestry_steps (c # cs) =
     (let digits = takeWhile is_ascii_digit cs; rest = dropWhile is_ascii_digit cs
      in if rest \<noteq> [] \<and> \<not> (starts_with rest ''~'' \<or> starts_with rest ''^'') then Inl InvalidArgument
         else case (if digits = [] then Some 1 else parse_unsigned u32_max digits) of
           None \<Rightarrow> Inl InvalidArgument
         | Some n \<Rightarrow>
             (case ancestry_steps rest of Inl e \<Rightarrow> Inl e
              | Inr ss \<Rightarrow> Inr ((if c = CHR ''^'' then Parent n else Ancestor n) # ss)))"
  by pat_completeness auto

termination
  by (relation "measure length") (auto simp: le_imp_less_Suc length_dropWhile_le)

definition parse_ancestry :: "string \<Rightarrow> error_code + ancestry_step list" where
  "parse_ancestry suffix =
     (case ancestry_steps suffix of Inl e \<Rightarrow> Inl e
      | Inr ss \<Rightarrow> if sum_list (map step_count ss) > MAX_ANCESTRY_DISTANCE then Inl ResourceLimit else Inr ss)"

definition is_operator :: "char \<Rightarrow> bool" where
  "is_operator c = (c = CHR ''~'' \<or> c = CHR ''^'')"

definition expression_parse :: "string \<Rightarrow> hash_algorithm \<Rightarrow> error_code + revision_expression" where
  "expression_parse s a =
     (if length s > MAX_REVISION_SELECTOR_BYTES then Inl InvalidArgument
      else let base = takeWhile (\<lambda>c. \<not> is_operator c) s; suffix = dropWhile (\<lambda>c. \<not> is_operator c) s
      in if base = [] then Inl InvalidArgument
         else case selector_parse base a of Inl e \<Rightarrow> Inl e
           | Inr sel \<Rightarrow>
               (case parse_ancestry suffix of Inl e \<Rightarrow> Inl e
                | Inr ss \<Rightarrow> Inr \<lparr>re_base = sel, re_steps = ss\<rparr>))"

definition is_bare :: "revision_expression \<Rightarrow> bool" where
  "is_bare e = (re_steps e = [])"

section \<open>Branch names and identifiers\<close>

definition is_valid_branch_name :: "string \<Rightarrow> bool" where
  "is_valid_branch_name s =
     (if s = [] \<or> length s > 255 then False
      else if starts_with s ''-'' \<or> starts_with s ''/'' \<or> ends_with s ''/'' then False
      else if ends_with s ''.'' \<or> s = ''@'' then False
      else if contains_sub s ''..'' \<or> contains_sub s [CHR ''@'', CHR 0x7B] \<or> contains_sub s ''//'' then False
      else if list_ex (\<lambda>c. (of_char c :: nat) < 0x20 \<or> c = CHR 0x7F \<or>
                 c \<in> set ('' ~^:?*['' @ [CHR 0x5C])) s then False
      else list_all (\<lambda>p. p \<noteq> [] \<and> \<not> starts_with p ''.'' \<and> \<not> ends_with p ''.lock'') (split_on (CHR ''/'') s))"

definition MAX_REPOSITORY_ID_BYTES :: nat where "MAX_REPOSITORY_ID_BYTES = 128"
definition MAX_MOUNT_ID_BYTES :: nat where "MAX_MOUNT_ID_BYTES = 64"
definition MAX_SUBJECT_ID_BYTES :: nat where "MAX_SUBJECT_ID_BYTES = 512"
definition MAX_DISPLAY_NAME_BYTES :: nat where "MAX_DISPLAY_NAME_BYTES = 512"

definition repository_id_parse :: "string \<Rightarrow> error_code + string" where
  "repository_id_parse s =
     (if s = [] \<or> length s > MAX_REPOSITORY_ID_BYTES then Inl InvalidArgument
      else if starts_with s ''.'' then Inl InvalidArgument
      else if contains_sub s ''..'' then Inl InvalidArgument
      else if \<not> list_all (\<lambda>b. is_ascii_alphanumeric b \<or> b = CHR ''.'' \<or> b = CHR ''_'' \<or> b = CHR ''-'') s
      then Inl InvalidArgument else Inr s)"

definition display_name_parse :: "string \<Rightarrow> error_code + string" where
  "display_name_parse s =
     (if s = [] \<or> length s > MAX_DISPLAY_NAME_BYTES then Inl InvalidArgument
      else if list_ex cp_control (str_chars s) then Inl InvalidArgument else Inr s)"

definition mount_id_parse :: "string \<Rightarrow> error_code + string" where
  "mount_id_parse s =
     (if s = [] \<or> length s > MAX_MOUNT_ID_BYTES then Inl InvalidArgument
      else if \<not> list_all (\<lambda>b. is_ascii_alphanumeric b \<or> b = CHR ''-'') s then Inl InvalidArgument else Inr s)"

definition subject_id_parse :: "string \<Rightarrow> error_code + string" where
  "subject_id_parse s =
     (if s = [] \<or> length s > MAX_SUBJECT_ID_BYTES then Inl InvalidArgument
      else if list_ex cp_control (str_chars s) then Inl InvalidArgument else Inr s)"

section \<open>Facts about names\<close>

text \<open>An ASCII byte of a \<open>str\<close> is one of its characters: continuation bytes are not ASCII.\<close>

lemma utf8_char_cont:
  "utf8_char a bs = Some (v, n) \<Longrightarrow>
   n \<le> length bs \<and> (\<forall>b \<in> set (take n bs). 128 \<le> b) \<and> (a < 128 \<longrightarrow> v = a \<and> n = 0)"
  by (auto simp: utf8_char.simps cont_byte_def split: if_splits list.splits)

lemma utf8_decode_ascii_mem:
  "utf8_decode bs = Some cs \<Longrightarrow> b \<in> set bs \<Longrightarrow> b < 128 \<Longrightarrow> b \<in> set cs"
proof (induction bs arbitrary: cs rule: utf8_decode.induct)
  case (2 a bs)
  then obtain v n cs' where vn: "utf8_char a bs = Some (v, n)" "utf8_decode (drop n bs) = Some cs'" "cs = v # cs'"
    by (auto split: option.splits)
  note cont = utf8_char_cont [OF vn(1)]
  show ?case
  proof (cases "b = a")
    case True
    then show ?thesis using cont 2(4) vn(3) by simp
  next
    case False
    then have "b \<in> set (take n bs) \<or> b \<in> set (drop n bs)"
      using 2(3) by (metis Un_iff append_take_drop_id set_ConsD set_append)
    then have "b \<in> set (drop n bs)" using cont 2(4) by (meson leD)
    then show ?thesis using "2.IH" [OF vn(1)] vn 2(4) by simp
  qed
qed simp

lemma str_chars_ascii:
  "utf8_valid s \<Longrightarrow> c \<in> set s \<Longrightarrow> (of_char c :: nat) < 128 \<Longrightarrow> of_char c \<in> set (str_chars s)"
  using utf8_decode_ascii_mem [of "map of_char s" _ "of_char c"]
  by (auto simp: utf8_valid_def str_chars_def)

text \<open>A name the rest of the system may hand to Git: outside the reserved namespace under either
  spelling, and free of revision operators, globs, separators that fold away, options and white space.\<close>

definition plain_ref :: "string \<Rightarrow> bool" where
  "plain_ref s \<longleftrightarrow>
     s \<noteq> [] \<and> \<not> is_reserved_ref s \<and> \<not> is_reserved_ref (''refs/'' @ s) \<and> \<not> starts_with s ''-'' \<and>
     \<not> contains_sub s ''..'' \<and> \<not> contains_sub s ''//'' \<and> \<not> ends_with s ''.lock'' \<and>
     (\<forall>c \<in> set s. c \<notin> set ''~^:@?*[] '' \<and> c \<noteq> CHR 0x5C \<and> 32 < (of_char c :: nat))"

lemma parse_name_plain:
  assumes u: "utf8_valid s" and "s \<noteq> []" and p: "parse_name s = Inr sel"
  shows "plain_ref s \<and> (sel = FullRef s \<and> starts_with s ''refs/'' \<or> sel = ShortName s \<and> \<not> starts_with s ''refs/'')"
proof -
  have ns: "\<not> starts_with s RESERVED_REF_PREFIX" "\<not> starts_with (''refs/'' @ s) RESERVED_REF_PREFIX"
    using p by (auto simp: parse_name_def reject_reserved_namespace_def split: sum.splits if_splits)
  have syn: "reject_expression_syntax s = Inr ()"
    using p by (auto simp: parse_name_def split: sum.splits)
  then have chars: "\<not> list_ex cp_refused (str_chars s)"
    by (simp add: reject_expression_syntax_def split: if_splits)
  have ok: "c \<notin> set ''~^:@?*[] '' \<and> c \<noteq> CHR 0x5C \<and> 32 < (of_char c :: nat)" if c: "c \<in> set s" for c
  proof (cases "(of_char c :: nat) < 128")
    case True
    then have "\<not> cp_refused (of_char c)" using str_chars_ascii [OF u c] chars by (auto simp: list_ex_iff)
    moreover from this have "\<not> of_char c < (32 :: nat)" "of_char c \<noteq> (32 :: nat)"
      by (simp_all add: cp_refused_def cp_control_def cp_whitespace_def)
    then have "32 < (of_char c :: nat)" by linarith
    ultimately show ?thesis by (auto simp: cp_refused_def)
  next
    case False
    then show ?thesis by (auto split: if_splits)
  qed
  have "sel = FullRef s \<and> starts_with s ''refs/'' \<or> sel = ShortName s \<and> \<not> starts_with s ''refs/''"
    using p by (auto simp: parse_name_def strip_prefix_def split: sum.splits if_splits option.splits)
  then show ?thesis
    using assms(2) ns syn ok
    by (auto simp: plain_ref_def is_reserved_ref_def reject_expression_syntax_def split: if_splits)
qed

lemma split_once_absent: "sep \<notin> set s \<Longrightarrow> split_once sep s = None"
  by simp

lemma oid_invalid_Inr: "oid_invalid r = Inr oid \<longleftrightarrow> r = Inr oid"
  by (auto simp: oid_invalid_def split: sum.splits)

lemma parse_hex_or_name_cases:
  assumes "parse_hex_or_name s a = Inr sel"
  shows "(\<exists>oid. from_hex a s = Inr oid \<and> sel = FullOid oid) \<or>
    (sel = Abbrev s \<and> is_hex s \<and> MIN_ABBREV_HEX \<le> length s \<and> length s < hex_len a) \<or> parse_name s = Inr sel"
proof (cases "is_hex s")
  case True
  show ?thesis
  proof (cases "length s" "hex_len a" rule: linorder_cases)
    case less
    then show ?thesis using assms True by (simp add: parse_hex_or_name_def split: if_splits)
  next
    case equal
    then show ?thesis using assms True by (auto simp: parse_hex_or_name_def oid_invalid_Inr split: sum.splits)
  qed (use assms True in \<open>simp add: parse_hex_or_name_def\<close>)
qed (use assms in \<open>simp add: parse_hex_or_name_def\<close>)

section \<open>Properties\<close>

text \<open>
  C35. Whatever string a caller supplies, an accepted selector is one of the four shapes of the closed
  grammar: an object id of the repository's algorithm and full length, a hex abbreviation of at least
  seven digits shorter than an id, or a ref name that carries no revision operator, glob, option or
  white space and does not reach the reserved namespace, neither as written nor under \<open>refs/\<close>.
\<close>
theorem selector_closed_grammar:
  assumes "utf8_valid s" and "selector_parse s a = Inr sel"
  shows "case sel of
      FullOid oid \<Rightarrow> oid_ok oid \<and> oid_algorithm oid = a
    | Abbrev h \<Rightarrow> h = s \<and> is_hex s \<and> MIN_ABBREV_HEX \<le> length s \<and> length s < hex_len a
    | FullRef n \<Rightarrow> n = s \<and> plain_ref s \<and> starts_with s ''refs/''
    | ShortName n \<Rightarrow> n = s \<and> plain_ref s \<and> \<not> starts_with s ''refs/''"
proof -
  have ne: "s \<noteq> []" using assms(2) by (auto simp: selector_parse_def)
  consider (oid) oid where "sel = FullOid oid" "parse_qualified s = Inr oid \<or> from_hex a s = Inr oid"
      "oid_algorithm oid = a"
    | (abbrev) "sel = Abbrev s" "is_hex s" "MIN_ABBREV_HEX \<le> length s" "length s < hex_len a"
    | (name) "parse_name s = Inr sel"
  proof (cases "CHR '':'' \<in> set s")
    case True
    then obtain p where p: "split_once (CHR '':'') s = Some p" by (metis split_once_None_iff not_Some_eq)
    then show ?thesis
      using assms(2) oid by (cases p) (auto simp: selector_parse_def oid_invalid_Inr split: if_splits sum.splits)
  next
    case False
    then have "parse_hex_or_name s a = Inr sel"
      using assms(2) by (auto simp: selector_parse_def split_once_absent split: if_splits)
    from parse_hex_or_name_cases [OF this] show ?thesis using oid abbrev name from_hex_ok by metis
  qed
  then show ?thesis
  proof cases
    case oid
    then show ?thesis using from_hex_ok parse_qualified_ok by auto
  next
    case name
    show ?thesis using parse_name_plain [OF assms(1) ne name] by auto
  qed simp
qed

theorem selector_closed_grammar_witness:
  "plain_ref ''refs/heads/main'' \<and> selector_parse ''refs/heads/main'' Sha1 = Inr (FullRef ''refs/heads/main'')"
proof -
  have p: "selector_parse ''refs/heads/main'' Sha1 = Inr (FullRef ''refs/heads/main'')" by code_simp
  moreover have "utf8_valid ''refs/heads/main''" by code_simp
  ultimately show ?thesis using selector_closed_grammar by fastforce
qed

text \<open>
  A name that resolves into the reserved namespace under either spelling is refused with the one
  diagnostic for it, whatever else is wrong with it; in particular the lease anchor of a mount cannot be
  named as a revision.
\<close>
theorem reserved_names_refused:
  assumes "starts_with s ''refs/gfs/'' \<or> starts_with s ''gfs/''"
    and "length s \<le> MAX_REVISION_SELECTOR_BYTES" and "CHR '':'' \<notin> set s"
  shows "selector_parse s a = Inl ReservedNamespace"
proof -
  have "s \<noteq> []" "\<not> is_hex s"
    using assms(1) by (auto simp: starts_with_iff is_hex_def hex_val_def)
  then show ?thesis
    using assms
    by (auto simp: selector_parse_def parse_hex_or_name_def parse_name_def reject_reserved_namespace_def
        RESERVED_REF_PREFIX_def split_once_absent)
qed

theorem reserved_names_refused_witness:
  "selector_parse (lease_anchor_ref ''m-abc123'') Sha1 = Inl ReservedNamespace"
  by (rule reserved_names_refused)
    (simp_all add: lease_anchor_ref_def RESERVED_REF_PREFIX_def MAX_REVISION_SELECTOR_BYTES_def)

text \<open>The written form of an expression, as \<open>git rev-parse\<close> spells it.\<close>

fun print_step :: "ancestry_step \<Rightarrow> string" where
  "print_step (Parent n) = CHR ''^'' # dec_string n"
| "print_step (Ancestor n) = CHR ''~'' # dec_string n"

definition print_steps :: "ancestry_step list \<Rightarrow> string" where
  "print_steps ss = concat (map print_step ss)"

lemma takeWhile_digits:
  assumes "rest = [] \<or> \<not> is_ascii_digit (hd rest)"
  shows "takeWhile is_ascii_digit (dec_string n @ rest) = dec_string n"
    and "dropWhile is_ascii_digit (dec_string n @ rest) = rest"
  using assms dec_string_digits [of n]
  by (cases rest; simp add: list_all_iff takeWhile_append2 dropWhile_append2)+

lemma print_steps_head:
  "print_steps ss = [] \<or> (\<exists>c cs. print_steps ss = c # cs \<and> is_operator c)"
  by (cases ss; cases "hd ss") (auto simp: print_steps_def is_operator_def)

lemma ancestry_steps_print:
  "list_all (\<lambda>st. step_count st \<le> u32_max) ss \<Longrightarrow> ancestry_steps (print_steps ss) = Inr ss"
proof (induction ss)
  case (Cons st ss)
  have head: "print_steps ss = [] \<or> \<not> is_ascii_digit (hd (print_steps ss))"
    "print_steps ss \<noteq> [] \<longrightarrow> starts_with (print_steps ss) ''~'' \<or> starts_with (print_steps ss) ''^''"
    using print_steps_head [of ss] by (auto simp: is_operator_def is_ascii_digit_def)
  note digits = takeWhile_digits [OF head(1)]
  show ?case
    using Cons head(2) digits
    by (cases st) (auto simp: print_steps_def Let_def)
qed (simp add: print_steps_def)

text \<open>
  An expression is read back from its written form: a selector without operators followed by
  ancestry steps that together walk at most the allowed distance parses to that selector and those
  steps, and every accepted expression keeps the bound on the walk.
\<close>
theorem expression_roundtrip:
  assumes "list_all (\<lambda>c. \<not> is_operator c) b" and "selector_parse b a = Inr sel"
    and "sum_list (map step_count ss) \<le> MAX_ANCESTRY_DISTANCE"
    and "length (b @ print_steps ss) \<le> MAX_REVISION_SELECTOR_BYTES"
  shows "expression_parse (b @ print_steps ss) a = Inr \<lparr>re_base = sel, re_steps = ss\<rparr> \<and>
    (\<forall>s e. expression_parse s a = Inr e \<longrightarrow> sum_list (map step_count (re_steps e)) \<le> MAX_ANCESTRY_DISTANCE)"
proof
  have ne: "b \<noteq> []" using assms(2) by (auto simp: selector_parse_def)
  have "takeWhile (\<lambda>c. \<not> is_operator c) (b @ print_steps ss) = b \<and>
        dropWhile (\<lambda>c. \<not> is_operator c) (b @ print_steps ss) = print_steps ss"
    using assms(1) print_steps_head [of ss] by (auto simp: list_all_iff takeWhile_append2 dropWhile_append2)
  moreover have "list_all (\<lambda>st. step_count st \<le> u32_max) ss"
    using assms(3) member_le_sum_list [where xs = "map step_count ss"]
    by (fastforce simp: list_all_iff u32_max_def MAX_ANCESTRY_DISTANCE_def)
  ultimately show "expression_parse (b @ print_steps ss) a = Inr \<lparr>re_base = sel, re_steps = ss\<rparr>"
    using assms(2-4) ne
    by (simp add: expression_parse_def Let_def parse_ancestry_def ancestry_steps_print linorder_not_less)
  show "\<forall>s e. expression_parse s a = Inr e \<longrightarrow> sum_list (map step_count (re_steps e)) \<le> MAX_ANCESTRY_DISTANCE"
    by (auto simp: expression_parse_def Let_def parse_ancestry_def split: if_splits sum.splits)
qed

theorem expression_roundtrip_witness:
  "expression_parse ''HEAD^2~3'' Sha1 = Inr \<lparr>re_base = ShortName ''HEAD'', re_steps = [Parent 2, Ancestor 3]\<rparr>"
proof -
  have "''HEAD'' @ print_steps [Parent 2, Ancestor 3] = ''HEAD^2~3''" by code_simp
  moreover have "selector_parse ''HEAD'' Sha1 = Inr (ShortName ''HEAD'')" by code_simp
  ultimately show ?thesis
    using expression_roundtrip [of "''HEAD''" Sha1 "ShortName ''HEAD''" "[Parent 2, Ancestor 3]"]
    by (simp add: is_operator_def MAX_ANCESTRY_DISTANCE_def MAX_REVISION_SELECTOR_BYTES_def)
qed

lemma fold_subject_chars: "c \<in> set (fold_subject f s) \<Longrightarrow> c \<noteq> CHR ''/''"
  by (induction f s rule: fold_subject.induct) (auto simp: is_ascii_alphanumeric_def split: if_splits)

lemma trim_matches_chars: "c \<in> set (trim_matches x s) \<Longrightarrow> c \<in> set s"
  by (auto simp: trim_matches_def dest!: set_dropWhileD)

lemma work_ref_root_owner: "\<exists>own. work_ref_root s = RESERVED_REF_PREFIX @ ''work/'' @ own \<and> CHR ''/'' \<notin> set own"
  by (auto simp: work_ref_root_def Let_def dest!: trim_matches_chars dest: fold_subject_chars)

text \<open>
  Work branches stay inside the reserved namespace, and a push confined to one subject's root
  reaches a work branch exactly when the branch's owner folds to the same root: no branch name escapes
  into another owner's subtree.
\<close>
theorem work_refs_confined:
  "is_reserved_ref (work_ref subject branch) \<and>
   (starts_with (work_ref subject branch) (work_ref_root other @ ''/'') \<longleftrightarrow>
    work_ref_root subject = work_ref_root other)"
proof -
  obtain own1 own2 where own: "work_ref_root subject = RESERVED_REF_PREFIX @ ''work/'' @ own1" "CHR ''/'' \<notin> set own1"
      "work_ref_root other = RESERVED_REF_PREFIX @ ''work/'' @ own2" "CHR ''/'' \<notin> set own2"
    using work_ref_root_owner by meson
  have eq: "own1 = own2" if "own1 @ CHR ''/'' # branch = own2 @ CHR ''/'' # t" for t
    using split_once_append [OF own(2), of branch] split_once_append [OF own(4), of t] that
    by (metis Pair_inject option.inject)
  have "starts_with (work_ref subject branch) (work_ref_root other @ ''/'') \<longleftrightarrow>
      (\<exists>t. own1 @ CHR ''/'' # branch = own2 @ CHR ''/'' # t)"
    by (simp add: work_ref_def starts_with_iff own(1,3))
  moreover have "\<dots> \<longleftrightarrow> own1 = own2" using eq by blast
  moreover have "is_reserved_ref (work_ref subject branch)"
    by (simp add: work_ref_def is_reserved_ref_def own(1))
  ultimately show ?thesis by (simp add: own(1,3))
qed

text \<open>
  The fold of a subject into a root is not injective, so two subjects can share the subtree that
  push authorization confines each of them to.
\<close>
theorem work_ref_root_collision:
  "subject_id_parse ''alice@corp'' = Inr ''alice@corp'' \<and> subject_id_parse ''alice/corp'' = Inr ''alice/corp'' \<and>
   work_ref_root ''alice@corp'' = work_ref_root ''alice/corp''"
  by code_simp

end
