(* ===== verification/Gfs_Lease.thy ===== *)
theory Gfs_Lease
  imports Gfs_Revision Gfs_Time
begin

text \<open>
  The retention leases of the service: the catalog's lease table
  (\<open>crates/gfs-service/src/catalog/leases.rs\<close>), the lease anchors of a Git repository
  (\<open>crates/gfs-git/src/libgit2.rs\<close>) and the sequencing of the two by \<open>MountManager\<close>
  (\<open>crates/gfs-service/src/mounts.rs\<close>). Catalog and Git refs are separate durable stores, so an
  operation that writes both is modelled with the durable states it passes through: a crash leaves any
  one of them. The clock is an argument of every operation (\<open>now_secs\<close>), in seconds as an \<open>i64\<close>;
  a catalog transaction is atomic, and database failures, which change nothing, are not modelled.
\<close>

section \<open>Leases and policy\<close>

type_synonym mount_id = string
type_synonym repository_id = string

datatype lease_state = Preparing | Active | Released | Expired

fun is_reachability_root :: "lease_state \<Rightarrow> bool" where
  "is_reachability_root Preparing = True"
| "is_reachability_root Active = True"
| "is_reachability_root _ = False"

fun lease_state_as_str :: "lease_state \<Rightarrow> string" where
  "lease_state_as_str Preparing = ''PREPARING''"
| "lease_state_as_str Active = ''ACTIVE''"
| "lease_state_as_str Released = ''RELEASED''"
| "lease_state_as_str Expired = ''EXPIRED''"

definition parse_lease_state :: "string \<Rightarrow> error_code + lease_state" where
  "parse_lease_state s =
     (if s = ''PREPARING'' then Inr Preparing
      else if s = ''ACTIVE'' then Inr Active
      else if s = ''RELEASED'' then Inr Released
      else if s = ''EXPIRED'' then Inr Expired
      else Inl Internal)"

text \<open>Durations in whole seconds, as \<open>as_secs\<close> gives them.\<close>

record lease_policy =
  initial_ttl :: nat
  heartbeat_interval :: nat
  renewal_grace :: nat
  prune_delay :: nat
  max_total_age :: nat
  alert_after_failures :: nat

definition adr_0006 :: lease_policy where
  "adr_0006 = \<lparr>initial_ttl = 30 * 60, heartbeat_interval = 5 * 60, renewal_grace = 15 * 60,
     prune_delay = 24 * 60 * 60, max_total_age = 24 * 60 * 60, alert_after_failures = 2\<rparr>"

record lease =
  l_mount_id :: mount_id
  l_repository :: repository_id
  l_commit :: object_id
  l_subject :: string
  l_state :: lease_state
  l_anchor_ref :: string
  l_created_at :: int
  l_expires_at :: int
  l_terminal_at :: "int option"
  l_renewal_failures :: nat

type_synonym leases = "(mount_id, lease) btree"

definition is_protecting :: "int \<Rightarrow> lease_policy \<Rightarrow> lease \<Rightarrow> bool" where
  "is_protecting now pol l =
     (if is_reachability_root (l_state l) then True
      else case l_terminal_at l of None \<Rightarrow> False
        | Some t \<Rightarrow> now < isat_add t (u64_as_i64 (prune_delay pol)))"

section \<open>The catalog's lease table\<close>

definition begin_lease ::
  "int \<Rightarrow> mount_id \<Rightarrow> repository_id \<Rightarrow> object_id \<Rightarrow> string \<Rightarrow> string \<Rightarrow> int \<Rightarrow> leases \<Rightarrow> (error_code + lease) \<times> leases"
where
  "begin_lease now m r c subject anchor ttl L =
     (case bt_get L m of
        Some _ \<Rightarrow> (Inl Conflict, L)
      | None \<Rightarrow>
          let l = \<lparr>l_mount_id = m, l_repository = r, l_commit = c, l_subject = subject, l_state = Preparing,
                   l_anchor_ref = anchor, l_created_at = now, l_expires_at = isat_add now ttl,
                   l_terminal_at = None, l_renewal_failures = 0\<rparr>
          in (Inr l, bt_insert m l L))"

definition activate_lease :: "mount_id \<Rightarrow> leases \<Rightarrow> (error_code + unit) \<times> leases" where
  "activate_lease m L =
     (case bt_get L m of
        None \<Rightarrow> (Inl NotFound, L)
      | Some l \<Rightarrow>
          if l_state l = Preparing then (Inr (), bt_insert m (l\<lparr>l_state := Active\<rparr>) L)
          else (Inl FailedPrecondition, L))"

definition get_lease :: "mount_id \<Rightarrow> leases \<Rightarrow> lease option" where
  "get_lease m L = bt_get L m"

definition renew_lease :: "int \<Rightarrow> mount_id \<Rightarrow> lease_policy \<Rightarrow> int \<Rightarrow> leases \<Rightarrow> (error_code + lease) \<times> leases" where
  "renew_lease now m pol ttl L =
     (case bt_get L m of
        None \<Rightarrow> (Inl NotFound, L)
      | Some l \<Rightarrow>
          if l_state l \<noteq> Active then (Inl FailedPrecondition, L)
          else if isat_sub now (l_created_at l) > u64_as_i64 (max_total_age pol) then (Inl FailedPrecondition, L)
          else let l' = l\<lparr>l_expires_at := max (isat_add now ttl) (l_expires_at l), l_renewal_failures := 0\<rparr>
               in (Inr l', bt_insert m l' L))"

definition release_lease :: "int \<Rightarrow> mount_id \<Rightarrow> leases \<Rightarrow> (error_code + lease) \<times> leases" where
  "release_lease now m L =
     (case bt_get L m of
        None \<Rightarrow> (Inl NotFound, L)
      | Some l \<Rightarrow>
          if \<not> is_reachability_root (l_state l) then (Inr l, L)
          else let l' = l\<lparr>l_state := Released, l_terminal_at := Some now\<rparr> in (Inr l', bt_insert m l' L))"

definition record_renewal_failure :: "mount_id \<Rightarrow> leases \<Rightarrow> nat \<times> leases" where
  "record_renewal_failure m L =
     (case bt_get L m of
        None \<Rightarrow> (0, L)
      | Some l \<Rightarrow> let l' = l\<lparr>l_renewal_failures := l_renewal_failures l + 1\<rparr>
                  in (l_renewal_failures l', bt_insert m l' L))"

definition protecting_leases :: "int \<Rightarrow> repository_id \<Rightarrow> lease_policy \<Rightarrow> leases \<Rightarrow> lease list" where
  "protecting_leases now r pol L = filter (is_protecting now pol) (filter (\<lambda>l. l_repository l = r) (map snd L))"

definition unreconciled_leases :: "leases \<Rightarrow> lease list" where
  "unreconciled_leases L = filter (\<lambda>l. l_state l = Preparing \<or> l_state l = Active) (map snd L)"

definition forget_lease :: "mount_id \<Rightarrow> leases \<Rightarrow> leases" where
  "forget_lease m L = bt_remove m L"

definition abandon_lease :: "int \<Rightarrow> mount_id \<Rightarrow> leases \<Rightarrow> leases" where
  "abandon_lease now m L =
     (case bt_get L m of None \<Rightarrow> L
      | Some l \<Rightarrow> bt_insert m (l\<lparr>l_state := Expired, l_terminal_at := Some now\<rparr>) L)"

record sweep_outcome =
  so_expired :: "mount_id list"
  so_prunable :: "(mount_id \<times> string) list"
  so_in_grace :: "mount_id list"

text \<open>One row of the loop of \<open>sweep_leases\<close>, inside its transaction.\<close>

definition sweep_row :: "int \<Rightarrow> lease_policy \<Rightarrow> lease \<Rightarrow> sweep_outcome \<times> leases \<Rightarrow> sweep_outcome \<times> leases" where
  "sweep_row now pol l = (\<lambda>(out, L).
     if is_reachability_root (l_state l) then
       if now \<le> l_expires_at l then (out, L)
       else if now \<le> isat_add (l_expires_at l) (u64_as_i64 (renewal_grace pol))
       then (out\<lparr>so_in_grace := so_in_grace out @ [l_mount_id l]\<rparr>, L)
       else (out\<lparr>so_expired := so_expired out @ [l_mount_id l]\<rparr>,
             case bt_get L (l_mount_id l) of None \<Rightarrow> L
             | Some r \<Rightarrow> bt_insert (l_mount_id l) (r\<lparr>l_state := Expired, l_terminal_at := Some now\<rparr>) L)
     else case l_terminal_at l of None \<Rightarrow> (out, L)
       | Some t \<Rightarrow>
           if now \<ge> isat_add t (u64_as_i64 (prune_delay pol))
           then (out\<lparr>so_prunable := so_prunable out @ [(l_mount_id l, l_anchor_ref l)]\<rparr>, L)
           else (out, L))"

definition sweep_leases :: "int \<Rightarrow> lease_policy \<Rightarrow> leases \<Rightarrow> sweep_outcome \<times> leases" where
  "sweep_leases now pol L =
     fold (sweep_row now pol) (map snd L) (\<lparr>so_expired = [], so_prunable = [], so_in_grace = []\<rparr>, L)"

section \<open>Repositories and their lease anchors\<close>

datatype repository_state = RepoCreating | RepoActive | RepoQuarantined | RepoDeleting

definition is_servable :: "repository_state \<Rightarrow> bool" where
  "is_servable s = (s = RepoActive)"

definition accepts_new_mounts :: "repository_state \<Rightarrow> bool" where
  "accepts_new_mounts s = (s = RepoActive)"

type_synonym refs = "(string, object_id) btree"

record repo =
  rp_state :: repository_state
  rp_open :: bool
  rp_refs :: refs

text \<open>
  What is outside the repository: whether a mirror on disk can be opened, which commits its object
  store has, which refs cannot be accessed, and what revision resolution answers.
\<close>

record resolved =
  rv_commit :: object_id
  rv_tree :: object_id
  rv_ref_name :: "string option"
  rv_snapshot_time :: timestamp

record git_env =
  ge_opens :: "repository_id \<Rightarrow> bool"
  ge_has_commit :: "repository_id \<Rightarrow> object_id \<Rightarrow> bool"
  ge_faulty :: "repository_id \<Rightarrow> string \<Rightarrow> bool"
  ge_resolve :: "repository_id \<Rightarrow> revision_selector \<Rightarrow> error_code + resolved"

definition create_lease_anchor ::
  "git_env \<Rightarrow> repository_id \<Rightarrow> string \<Rightarrow> object_id \<Rightarrow> refs \<Rightarrow> (error_code + unit) \<times> refs"
where
  "create_lease_anchor E r anchor c refs =
     (if \<not> is_reserved_ref anchor then (Inl InvalidArgument, refs)
      else if \<not> ge_has_commit E r c then (Inl NotFound, refs)
      else if ge_faulty E r anchor then (Inl Internal, refs)
      else case bt_get refs anchor of
        Some oid \<Rightarrow> if oid = c then (Inr (), refs) else (Inl Conflict, refs)
      | None \<Rightarrow> (Inr (), bt_insert anchor c refs))"

definition delete_lease_anchor :: "git_env \<Rightarrow> repository_id \<Rightarrow> string \<Rightarrow> refs \<Rightarrow> (error_code + unit) \<times> refs" where
  "delete_lease_anchor E r anchor refs =
     (if \<not> is_reserved_ref anchor then (Inl InvalidArgument, refs)
      else if ge_faulty E r anchor then (Inl Internal, refs)
      else (Inr (), bt_remove anchor refs))"

definition read_lease_anchor :: "git_env \<Rightarrow> repository_id \<Rightarrow> string \<Rightarrow> refs \<Rightarrow> error_code + object_id option" where
  "read_lease_anchor E r anchor refs =
     (if ge_faulty E r anchor then Inl Internal else Inr (bt_get refs anchor))"

definition reserved_refs :: "refs \<Rightarrow> string list" where
  "reserved_refs refs = filter is_reserved_ref (map fst refs)"

section \<open>The mount manager\<close>

record service =
  sv_leases :: leases
  sv_repos :: "(repository_id, repo) btree"
  sv_commits :: "repository_id \<times> object_id \<rightharpoonup> timestamp"

definition with_refs :: "repository_id \<Rightarrow> refs \<Rightarrow> service \<Rightarrow> service" where
  "with_refs r refs W =
     (case bt_get (sv_repos W) r of None \<Rightarrow> W
      | Some rp \<Rightarrow> W\<lparr>sv_repos := bt_insert r (rp\<lparr>rp_refs := refs\<rparr>) (sv_repos W)\<rparr>)"

definition require_servable :: "repository_id \<Rightarrow> service \<Rightarrow> error_code + repository_state" where
  "require_servable r W =
     (case bt_get (sv_repos W) r of
        None \<Rightarrow> Inl masked_denial
      | Some rp \<Rightarrow> if \<not> is_servable (rp_state rp) then Inl masked_denial else Inr (rp_state rp))"

text \<open>\<open>Registry::opened\<close>: a handle that is already open is used without asking for the state again.\<close>

definition blocking_repository :: "git_env \<Rightarrow> repository_id \<Rightarrow> service \<Rightarrow> error_code + refs" where
  "blocking_repository E r W =
     (case bt_get (sv_repos W) r of
        None \<Rightarrow> Inl masked_denial
      | Some rp \<Rightarrow>
          if rp_open rp then Inr (rp_refs rp)
          else if \<not> is_servable (rp_state rp) then Inl masked_denial
          else if \<not> ge_opens E r then Inl UnsupportedRepositoryFormat
          else Inr (rp_refs rp))"

definition catalog_commit :: "timestamp \<Rightarrow> repository_id \<Rightarrow> object_id \<Rightarrow> timestamp \<Rightarrow> service \<Rightarrow> timestamp \<times> service" where
  "catalog_commit first_seen r c committer W =
     (case sv_commits W (r, c) of
        Some t \<Rightarrow> (t, W)
      | None \<Rightarrow> (let t = snapshot_time committer first_seen in (t, W\<lparr>sv_commits := (sv_commits W)((r, c) \<mapsto> t)\<rparr>)))"

definition effective_ttl :: "lease_policy \<Rightarrow> nat option \<Rightarrow> int" where
  "effective_ttl pol requested =
     (let default = initial_ttl pol; mx = min (max_total_age pol) default;
          want = (case requested of None \<Rightarrow> default | Some n \<Rightarrow> n)
      in u64_as_i64 (max 1 (min (max mx 1) want)))"

record mount_grant =
  gr_mount_id :: mount_id
  gr_commit :: object_id
  gr_tree :: object_id
  gr_ref_name :: "string option"
  gr_snapshot_time :: timestamp
  gr_lease_expiry :: int

text \<open>Steps 3 to 5 of \<open>create_mount\<close>: the result and the durable states passed through, in order.\<close>

definition pin_commit ::
  "git_env \<Rightarrow> int \<Rightarrow> mount_id \<Rightarrow> repository_id \<Rightarrow> object_id \<Rightarrow> string \<Rightarrow> int \<Rightarrow> refs \<Rightarrow> service \<Rightarrow> (error_code + lease) \<times> service list"
where
  "pin_commit E now m r c subject ttl refs W =
     (let anchor = lease_anchor_ref m
      in case begin_lease now m r c subject anchor ttl (sv_leases W) of
        (Inl e, _) \<Rightarrow> (Inl e, [])
      | (Inr l, L1) \<Rightarrow>
          (let W1 = W\<lparr>sv_leases := L1\<rparr>
           in case create_lease_anchor E r anchor c refs of
             (Inl e, _) \<Rightarrow> (Inl e, [W1, W1\<lparr>sv_leases := forget_lease m (sv_leases W1)\<rparr>])
           | (Inr _, refs') \<Rightarrow>
               (let W2 = with_refs r refs' W1
                in case activate_lease m (sv_leases W2) of
                  (Inl e, _) \<Rightarrow>
                    (let W3 = with_refs r (snd (delete_lease_anchor E r anchor refs')) W2
                     in (Inl e, [W1, W2, W3, W3\<lparr>sv_leases := forget_lease m (sv_leases W3)\<rparr>]))
                | (Inr _, L2) \<Rightarrow> (Inr l, [W1, W2, W2\<lparr>sv_leases := L2\<rparr>]))))"

text \<open>
  The mount id comes from the random source; the capability that is signed last carries nothing that is
  not in the grant.
\<close>

definition create_mount ::
  "git_env \<Rightarrow> lease_policy \<Rightarrow> int \<Rightarrow> timestamp \<Rightarrow> mount_id \<Rightarrow> repository_id \<Rightarrow> revision_selector \<Rightarrow> string
   \<Rightarrow> nat option \<Rightarrow> service \<Rightarrow> (error_code + mount_grant) \<times> service list"
where
  "create_mount E pol now first_seen m r sel subject requested W =
     (case require_servable r W of Inl e \<Rightarrow> (Inl e, [])
      | Inr st \<Rightarrow>
        if \<not> accepts_new_mounts st then (Inl FailedPrecondition, []) else
        (case blocking_repository E r W of Inl e \<Rightarrow> (Inl e, [])
         | Inr refs \<Rightarrow>
           (case mount_id_parse m of Inl e \<Rightarrow> (Inl e, [])
            | Inr _ \<Rightarrow>
              (case ge_resolve E r sel of Inl e \<Rightarrow> (Inl e, [])
               | Inr rv \<Rightarrow>
                 (let (t, W1) = catalog_commit first_seen r (rv_commit rv) (rv_snapshot_time rv) W;
                      (res, Ws) = pin_commit E now m r (rv_commit rv) subject (effective_ttl pol requested) refs W1
                  in (case res of Inl e \<Rightarrow> Inl e
                      | Inr l \<Rightarrow> Inr \<lparr>gr_mount_id = m, gr_commit = rv_commit rv, gr_tree = rv_tree rv,
                          gr_ref_name = rv_ref_name rv, gr_snapshot_time = t, gr_lease_expiry = l_expires_at l\<rparr>,
                      W1 # Ws))))))"

text \<open>The state after a list of durable writes.\<close>

definition final :: "service \<Rightarrow> service list \<Rightarrow> service" where
  "final W Ws = last (W # Ws)"

text \<open>Verify or repair one anchor, as renewal and reconciliation do.\<close>

definition repair_anchor :: "git_env \<Rightarrow> lease \<Rightarrow> refs \<Rightarrow> (error_code + bool) \<times> refs" where
  "repair_anchor E l refs =
     (case read_lease_anchor E (l_repository l) (l_anchor_ref l) refs of
        Inl e \<Rightarrow> (Inl e, refs)
      | Inr found \<Rightarrow>
          if found = Some (l_commit l) then (Inr False, refs)
          else (case create_lease_anchor E (l_repository l) (l_anchor_ref l) (l_commit l) refs of
                  (Inl e, refs') \<Rightarrow> (Inl e, refs')
                | (Inr _, refs') \<Rightarrow> (Inr True, refs')))"

definition renew_mount ::
  "git_env \<Rightarrow> lease_policy \<Rightarrow> int \<Rightarrow> mount_id \<Rightarrow> nat option \<Rightarrow> service \<Rightarrow> (error_code + lease) \<times> service list"
where
  "renew_mount E pol now m requested W =
     (case get_lease m (sv_leases W) of None \<Rightarrow> (Inl NotFound, [])
      | Some l \<Rightarrow>
        (case blocking_repository E (l_repository l) W of Inl e \<Rightarrow> (Inl e, [])
         | Inr refs \<Rightarrow>
           (case renew_lease now m pol (effective_ttl pol requested) (sv_leases W) of
              (Inl e, _) \<Rightarrow> (Inl e, [])
            | (Inr renewed, L1) \<Rightarrow>
                (let W1 = W\<lparr>sv_leases := L1\<rparr>
                 in case repair_anchor E renewed refs of
                   (Inl e, refs') \<Rightarrow> (Inl e, [W1])
                 | (Inr _, refs') \<Rightarrow> (Inr renewed, [W1, with_refs (l_repository l) refs' W1])))))"

definition release_mount :: "int \<Rightarrow> mount_id \<Rightarrow> service \<Rightarrow> (error_code + lease) \<times> service" where
  "release_mount now m W =
     (case get_lease m (sv_leases W) of None \<Rightarrow> (Inl NotFound, W)
      | Some l \<Rightarrow> (case release_lease now m (sv_leases W) of (res, L) \<Rightarrow> (res, W\<lparr>sv_leases := L\<rparr>)))"

text \<open>Dropping one prunable lease: the anchor first, then the row.\<close>

definition prune_one :: "git_env \<Rightarrow> mount_id \<times> string \<Rightarrow> service \<Rightarrow> service list" where
  "prune_one E = (\<lambda>(m, anchor) W.
     (case get_lease m (sv_leases W) of None \<Rightarrow> []
      | Some l \<Rightarrow>
        (case blocking_repository E (l_repository l) W of
           Inl e \<Rightarrow> [W\<lparr>sv_leases := forget_lease m (sv_leases W)\<rparr>]
         | Inr refs \<Rightarrow>
           (case delete_lease_anchor E (l_repository l) anchor refs of
              (Inl e, _) \<Rightarrow> []
            | (Inr _, refs') \<Rightarrow>
                (let W1 = with_refs (l_repository l) refs' W
                 in [W1, W1\<lparr>sv_leases := forget_lease m (sv_leases W1)\<rparr>])))))"

fun prune_all :: "git_env \<Rightarrow> (mount_id \<times> string) list \<Rightarrow> service \<Rightarrow> service list" where
  "prune_all E [] W = []"
| "prune_all E (p # ps) W = (let Ws = prune_one E p W in Ws @ prune_all E ps (final W Ws))"

definition sweep :: "git_env \<Rightarrow> lease_policy \<Rightarrow> int \<Rightarrow> service \<Rightarrow> sweep_outcome \<times> service list" where
  "sweep E pol now W =
     (let (out, L) = sweep_leases now pol (sv_leases W); W1 = W\<lparr>sv_leases := L\<rparr>
      in (out, W1 # prune_all E (so_prunable out) W1))"

section \<open>Reconciliation after a restart\<close>

record reconcile_outcome =
  ro_abandoned :: "mount_id list"
  ro_repaired :: "mount_id list"
  ro_orphaned :: "string list"

text \<open>One lease of the first loop: the durable states, and the outcome or the error that ends the pass.\<close>

definition reconcile_lease ::
  "git_env \<Rightarrow> int \<Rightarrow> lease \<Rightarrow> reconcile_outcome \<Rightarrow> service \<Rightarrow> (error_code + reconcile_outcome) \<times> service list"
where
  "reconcile_lease E now l out W =
     (case blocking_repository E (l_repository l) W of Inl e \<Rightarrow> (Inr out, [])
      | Inr refs \<Rightarrow>
        (case l_state l of
           Preparing \<Rightarrow>
             (case delete_lease_anchor E (l_repository l) (l_anchor_ref l) refs of
                (Inl e, _) \<Rightarrow> (Inl e, [])
              | (Inr _, refs') \<Rightarrow>
                  (let W1 = with_refs (l_repository l) refs' W;
                       W2 = W1\<lparr>sv_leases := abandon_lease now (l_mount_id l) (sv_leases W1)\<rparr>
                   in (Inr (out\<lparr>ro_abandoned := ro_abandoned out @ [l_mount_id l]\<rparr>),
                       [W1, W2, W2\<lparr>sv_leases := forget_lease (l_mount_id l) (sv_leases W2)\<rparr>])))
         | Active \<Rightarrow>
             (case repair_anchor E l refs of
                (Inl e, refs') \<Rightarrow> (Inl e, [])
              | (Inr True, refs') \<Rightarrow>
                  (Inr (out\<lparr>ro_repaired := ro_repaired out @ [l_mount_id l]\<rparr>), [with_refs (l_repository l) refs' W])
              | (Inr False, refs') \<Rightarrow> (Inr out, []))
         | _ \<Rightarrow> (Inr out, [])))"

fun reconcile_leases ::
  "git_env \<Rightarrow> int \<Rightarrow> lease list \<Rightarrow> reconcile_outcome \<Rightarrow> service \<Rightarrow> (error_code + reconcile_outcome) \<times> service list"
where
  "reconcile_leases E now [] out W = (Inr out, [])"
| "reconcile_leases E now (l # ls) out W =
     (case reconcile_lease E now l out W of
        (Inl e, Ws) \<Rightarrow> (Inl e, Ws)
      | (Inr out', Ws) \<Rightarrow>
          (case reconcile_leases E now ls out' (final W Ws) of (res, Ws') \<Rightarrow> (res, Ws @ Ws')))"

fun drop_orphans ::
  "git_env \<Rightarrow> repository_id \<Rightarrow> string set \<Rightarrow> string list \<Rightarrow> reconcile_outcome \<Rightarrow> service
   \<Rightarrow> (error_code + reconcile_outcome) \<times> service list"
where
  "drop_orphans E r known [] out W = (Inr out, [])"
| "drop_orphans E r known (anchor # as) out W =
     (if anchor \<in> known then drop_orphans E r known as out W
      else case blocking_repository E r W of Inl e \<Rightarrow> (Inl e, [])
        | Inr refs \<Rightarrow>
          (case delete_lease_anchor E r anchor refs of
             (Inl e, _) \<Rightarrow> (Inl e, [])
           | (Inr _, refs') \<Rightarrow>
               (let W1 = with_refs r refs' W
                in case drop_orphans E r known as (out\<lparr>ro_orphaned := ro_orphaned out @ [anchor]\<rparr>) W1 of
                     (res, Ws) \<Rightarrow> (res, W1 # Ws))))"

fun reconcile_repos ::
  "git_env \<Rightarrow> lease_policy \<Rightarrow> int \<Rightarrow> repository_id list \<Rightarrow> reconcile_outcome \<Rightarrow> service
   \<Rightarrow> (error_code + reconcile_outcome) \<times> service list"
where
  "reconcile_repos E pol now [] out W = (Inr out, [])"
| "reconcile_repos E pol now (r # rs) out W =
     (case blocking_repository E r W of Inl e \<Rightarrow> reconcile_repos E pol now rs out W
      | Inr refs \<Rightarrow>
        (let known = set (map l_anchor_ref (protecting_leases now r pol (sv_leases W)))
         in case drop_orphans E r known (reserved_refs refs) out W of
              (Inl e, Ws) \<Rightarrow> (Inl e, Ws)
            | (Inr out', Ws) \<Rightarrow>
                (case reconcile_repos E pol now rs out' (final W Ws) of (res, Ws') \<Rightarrow> (res, Ws @ Ws'))))"

definition reconcile ::
  "git_env \<Rightarrow> lease_policy \<Rightarrow> int \<Rightarrow> service \<Rightarrow> (error_code + reconcile_outcome) \<times> service list"
where
  "reconcile E pol now W =
     (case reconcile_leases E now (unreconciled_leases (sv_leases W))
             \<lparr>ro_abandoned = [], ro_repaired = [], ro_orphaned = []\<rparr> W of
        (Inl e, Ws) \<Rightarrow> (Inl e, Ws)
      | (Inr out, Ws) \<Rightarrow>
          (let W1 = final W Ws
           in case reconcile_repos E pol now (map fst (sv_repos W1)) out W1 of
                (res, Ws') \<Rightarrow> (res, Ws @ Ws')))"

definition is_protected :: "int \<Rightarrow> repository_id \<Rightarrow> object_id \<Rightarrow> lease_policy \<Rightarrow> service \<Rightarrow> bool" where
  "is_protected now r c pol W = list_ex (\<lambda>l. l_commit l = c) (protecting_leases now r pol (sv_leases W))"

end
