(* ===== verification/Gfs_LeaseProofs.thy ===== *)
theory Gfs_LeaseProofs
  imports Gfs_Lease
begin

text \<open>
  What the lease protocol guarantees. Every durable write of the mount manager is one of a few primitive
  kinds (\<open>durable\<close>); the operations of \<open>Gfs_Lease\<close> are shown to be chains of such writes, so that an
  invariant proved for the primitives holds in every state a crash can leave. \<open>g\<close> is the set of mounts
  whose grant has been returned to a client.
\<close>

section \<open>The retention invariant\<close>

definition refs_of :: "service \<Rightarrow> repository_id \<Rightarrow> string \<Rightarrow> object_id option" where
  "refs_of W r n = (case bt_get (sv_repos W) r of None \<Rightarrow> None | Some rp \<Rightarrow> bt_get (rp_refs rp) n)"

definition anchored :: "service \<Rightarrow> lease \<Rightarrow> bool" where
  "anchored W l \<longleftrightarrow> refs_of W (l_repository l) (l_anchor_ref l) = Some (l_commit l)"

definition held :: "mount_id set \<Rightarrow> lease \<Rightarrow> bool" where
  "held g l \<longleftrightarrow> l_state l = Active \<or> l_mount_id l \<in> g"

definition needed :: "lease_policy \<Rightarrow> int \<Rightarrow> mount_id set \<Rightarrow> lease \<Rightarrow> bool" where
  "needed pol now g l \<longleftrightarrow> held g l \<and> is_protecting now pol l"

text \<open>
  A lease may be renewed until it reaches its maximal age, and then once more for at most the longest
  time to live: the horizon of its life.
\<close>

definition ttl_cap :: "lease_policy \<Rightarrow> nat" where
  "ttl_cap pol = max 1 (min (max_total_age pol) (initial_ttl pol))"

definition horizon :: "lease_policy \<Rightarrow> int" where
  "horizon pol = int (max_total_age pol) + int (ttl_cap pol)"

definition valid_clock :: "lease_policy \<Rightarrow> int \<Rightarrow> bool" where
  "valid_clock pol now \<longleftrightarrow> initial_ttl pol < 2 ^ 60 \<and> max_total_age pol < 2 ^ 60 \<and> renewal_grace pol < 2 ^ 60 \<and>
     prune_delay pol < 2 ^ 60 \<and> 0 \<le> now \<and> now < 2 ^ 60"

definition row_shape :: "lease_policy \<Rightarrow> int \<Rightarrow> mount_id set \<Rightarrow> service \<Rightarrow> mount_id \<Rightarrow> lease \<Rightarrow> bool" where
  "row_shape pol now g W m l \<longleftrightarrow>
     l_mount_id l = m \<and> l_anchor_ref l = lease_anchor_ref m \<and> bt_get (sv_repos W) (l_repository l) \<noteq> None \<and>
     (l_terminal_at l = None \<longleftrightarrow> is_reachability_root (l_state l)) \<and>
     (\<forall>t. l_terminal_at l = Some t \<longrightarrow> t \<le> now) \<and> (m \<in> g \<longrightarrow> l_state l \<noteq> Preparing) \<and>
     0 \<le> l_created_at l \<and> l_created_at l \<le> now \<and> l_expires_at l \<le> l_created_at l + horizon pol"

definition retention :: "lease_policy \<Rightarrow> int \<Rightarrow> mount_id set \<Rightarrow> service \<Rightarrow> bool" where
  "retention pol now g W \<longleftrightarrow>
     bt_ok (sv_leases W) \<and>
     (\<forall>m l. bt_get (sv_leases W) m = Some l \<longrightarrow>
        row_shape pol now g W m l \<and> (needed pol now g l \<longrightarrow> anchored W l))"

lemma retentionD:
  assumes "retention pol now g W"
  shows "bt_ok (sv_leases W)"
    and "bt_get (sv_leases W) m = Some l \<Longrightarrow> row_shape pol now g W m l"
    and "bt_get (sv_leases W) m = Some l \<Longrightarrow> needed pol now g l \<Longrightarrow> anchored W l"
  using assms unfolding retention_def by blast+

lemma lease_anchor_ref_inj [simp]: "lease_anchor_ref m = lease_anchor_ref m' \<longleftrightarrow> m = m'"
  by (simp add: lease_anchor_ref_def)

lemma lease_anchor_reserved [simp]: "is_reserved_ref (lease_anchor_ref m)"
  by (simp add: lease_anchor_ref_def is_reserved_ref_def)

text \<open>Time only takes protection away.\<close>

lemma is_protecting_later: "is_protecting now' pol l \<Longrightarrow> now \<le> now' \<Longrightarrow> is_protecting now pol l"
  by (auto simp: is_protecting_def split: if_splits option.splits)

lemma retention_later: "retention pol now g W \<Longrightarrow> now \<le> now' \<Longrightarrow> retention pol now' g W"
  unfolding retention_def row_shape_def needed_def using is_protecting_later by (meson order_trans)

lemma retention_grant:
  assumes ok: "retention pol now g W" and m: "bt_get (sv_leases W) m = Some l" "l_state l = Active"
  shows "retention pol now (insert m g) W"
proof -
  have "row_shape pol now (insert m g) W m' l' \<and> (needed pol now (insert m g) l' \<longrightarrow> anchored W l')"
    if r: "bt_get (sv_leases W) m' = Some l'" for m' l'
    using retentionD(2,3) [OF ok r] m r
    by (cases "m' = m") (auto simp: row_shape_def needed_def held_def)
  then show ?thesis using retentionD(1) [OF ok] by (simp add: retention_def)
qed

section \<open>Primitive durable writes\<close>

inductive durable :: "lease_policy \<Rightarrow> int \<Rightarrow> mount_id set \<Rightarrow> service \<Rightarrow> service \<Rightarrow> bool" for pol now g where
  write_commits: "durable pol now g W (W\<lparr>sv_commits := cs\<rparr>)"
| write_begin:
    "bt_get (sv_leases W) m = None \<Longrightarrow> m \<notin> g \<Longrightarrow> l_state l = Preparing \<Longrightarrow> row_shape pol now g W m l \<Longrightarrow>
     durable pol now g W (W\<lparr>sv_leases := bt_insert m l (sv_leases W)\<rparr>)"
| write_anchor:
    "bt_get (sv_leases W) m = Some l \<Longrightarrow>
     (\<And>r' n. refs_of W' r' n = (if r' = l_repository l \<and> n = l_anchor_ref l then Some (l_commit l) else refs_of W r' n)) \<Longrightarrow>
     sv_leases W' = sv_leases W \<Longrightarrow> (\<And>r. bt_get (sv_repos W') r = None \<longleftrightarrow> bt_get (sv_repos W) r = None) \<Longrightarrow>
     durable pol now g W W'"
| write_activate:
    "bt_get (sv_leases W) m = Some l \<Longrightarrow> l_state l = Preparing \<Longrightarrow> anchored W l \<Longrightarrow>
     durable pol now g W (W\<lparr>sv_leases := bt_insert m (l\<lparr>l_state := Active\<rparr>) (sv_leases W)\<rparr>)"
| write_renew:
    "bt_get (sv_leases W) m = Some l \<Longrightarrow> l_state l = Active \<Longrightarrow> l_expires_at l \<le> e \<Longrightarrow>
     e \<le> l_created_at l + horizon pol \<Longrightarrow>
     durable pol now g W (W\<lparr>sv_leases := bt_insert m (l\<lparr>l_expires_at := e, l_renewal_failures := n\<rparr>) (sv_leases W)\<rparr>)"
| write_failure:
    "bt_get (sv_leases W) m = Some l \<Longrightarrow>
     durable pol now g W (W\<lparr>sv_leases := bt_insert m (l\<lparr>l_renewal_failures := n\<rparr>) (sv_leases W)\<rparr>)"
| write_release:
    "bt_get (sv_leases W) m = Some l \<Longrightarrow> is_reachability_root (l_state l) \<Longrightarrow>
     durable pol now g W (W\<lparr>sv_leases := bt_insert m (l\<lparr>l_state := Released, l_terminal_at := Some now\<rparr>) (sv_leases W)\<rparr>)"
| write_expire:
    "bt_get (sv_leases W) m = Some l \<Longrightarrow> is_reachability_root (l_state l) \<Longrightarrow>
     l_state l = Preparing \<or> isat_add (l_expires_at l) (u64_as_i64 (renewal_grace pol)) < now \<Longrightarrow>
     durable pol now g W (W\<lparr>sv_leases := bt_insert m (l\<lparr>l_state := Expired, l_terminal_at := Some now\<rparr>) (sv_leases W)\<rparr>)"
| write_forget:
    "bt_get (sv_leases W) m = Some l \<Longrightarrow> \<not> needed pol now g l \<Longrightarrow>
     durable pol now g W (W\<lparr>sv_leases := bt_remove m (sv_leases W)\<rparr>)"
| write_refs:
    "(\<And>m l. bt_get (sv_leases W) m = Some l \<Longrightarrow> needed pol now g l \<Longrightarrow>
        refs_of W' (l_repository l) (l_anchor_ref l) = refs_of W (l_repository l) (l_anchor_ref l)) \<Longrightarrow>
     sv_leases W' = sv_leases W \<Longrightarrow> (\<And>r. bt_get (sv_repos W') r = None \<longleftrightarrow> bt_get (sv_repos W) r = None) \<Longrightarrow>
     durable pol now g W W'"

text \<open>Within the range of a valid clock nothing saturates.\<close>

lemma effective_ttl_bounds:
  assumes "valid_clock pol now"
  shows "0 < effective_ttl pol req" "effective_ttl pol req \<le> int (ttl_cap pol)"
  using assms
  by (auto simp: effective_ttl_def ttl_cap_def valid_clock_def u64_as_i64_def Let_def min_def max_def split: option.splits)

lemma isat_add_le: "0 \<le> a \<Longrightarrow> 0 \<le> b \<Longrightarrow> isat_add a b \<le> a + b"
  by (auto simp: isat_add_def i64_min_def i64_max_def)

lemma isat_sub_ge: "0 \<le> b \<Longrightarrow> a \<le> i64_max \<Longrightarrow> a - b \<le> isat_sub a b"
  by (auto simp: isat_sub_def i64_min_def i64_max_def)

lemma u64_as_i64_small: "n < 2 ^ 60 \<Longrightarrow> u64_as_i64 n = int n"
  by (simp add: u64_as_i64_def)

lemma refs_of_simps [simp]:
  "refs_of (W\<lparr>sv_leases := L\<rparr>) r n = refs_of W r n"
  "refs_of (W\<lparr>sv_commits := cs\<rparr>) r n = refs_of W r n"
  by (simp_all add: refs_of_def)

lemma anchored_simps [simp]:
  "anchored (W\<lparr>sv_leases := L\<rparr>) l = anchored W l"
  "anchored (W\<lparr>sv_commits := cs\<rparr>) l = anchored W l"
  by (simp_all add: anchored_def)

lemma row_shape_simps [simp]:
  "row_shape pol now g (W\<lparr>sv_leases := L\<rparr>) m l = row_shape pol now g W m l"
  "row_shape pol now g (W\<lparr>sv_commits := cs\<rparr>) m l = row_shape pol now g W m l"
  by (simp_all add: row_shape_def)

text \<open>Putting one row: it must be well shaped, and anchored when it is needed.\<close>

lemma retention_put:
  assumes "retention pol now g W" and "row_shape pol now g W m l" and "needed pol now g l \<Longrightarrow> anchored W l"
  shows "retention pol now g (W\<lparr>sv_leases := bt_insert m l (sv_leases W)\<rparr>)"
  using assms unfolding retention_def by auto

lemma durable_retention:
  assumes "durable pol now g W W'" and ok: "retention pol now g W"
  shows "retention pol now g W'"
  using assms(1)
proof cases
  case write_commits
  then show ?thesis using ok by (simp add: retention_def)
next
  case (write_begin m l)
  have "\<not> needed pol now g l" using write_begin by (auto simp: needed_def held_def row_shape_def)
  then show ?thesis using write_begin(1,5) retention_put [OF ok, of m l] by blast
next
  case (write_anchor m l)
  have keep: "anchored W' l'" if r: "bt_get (sv_leases W) m' = Some l'" and a: "anchored W l'" for m' l'
  proof (cases "m' = m")
    case True
    then show ?thesis using r write_anchor(1) by (simp add: anchored_def write_anchor(2))
  next
    case False
    then have "l_anchor_ref l' \<noteq> l_anchor_ref l"
      using retentionD(2) [OF ok r] retentionD(2) [OF ok write_anchor(1)] by (simp add: row_shape_def)
    then show ?thesis using a by (simp add: anchored_def write_anchor(2))
  qed
  have "row_shape pol now g W' m' l' = row_shape pol now g W m' l'" for m' l'
    by (simp add: row_shape_def write_anchor(4))
  then show ?thesis
    using ok keep unfolding retention_def write_anchor(3) by blast
next
  case (write_activate m l)
  then show ?thesis
    unfolding write_activate(1)
    by (intro retention_put [OF ok])
      (use retentionD(2) [OF ok write_activate(2)] in \<open>auto simp: anchored_def row_shape_def\<close>)
next
  case (write_renew m l e n)
  then have "row_shape pol now g W m l" "anchored W l"
    using retentionD(2,3) [OF ok] by (auto simp: needed_def held_def is_protecting_def)
  then show ?thesis
    using write_renew(5)
    unfolding write_renew(1) by (intro retention_put [OF ok]) (auto simp: anchored_def row_shape_def)
next
  case (write_failure m l n)
  then have "row_shape pol now g W m l" "needed pol now g l \<Longrightarrow> anchored W l"
    using retentionD(2,3) [OF ok] by auto
  then show ?thesis
    unfolding write_failure(1)
    by (intro retention_put [OF ok]) (auto simp: anchored_def row_shape_def needed_def held_def is_protecting_def)
next
  case (write_release m l)
  then have "row_shape pol now g W m l" "held g l \<Longrightarrow> anchored W l"
    using retentionD(2,3) [OF ok] by (auto simp: needed_def is_protecting_def)
  then show ?thesis
    unfolding write_release(1)
    by (intro retention_put [OF ok]) (auto simp: anchored_def row_shape_def needed_def held_def)
next
  case (write_expire m l)
  then have "row_shape pol now g W m l" "held g l \<Longrightarrow> anchored W l"
    using retentionD(2,3) [OF ok] by (auto simp: needed_def is_protecting_def)
  then show ?thesis
    unfolding write_expire(1)
    by (intro retention_put [OF ok]) (auto simp: anchored_def row_shape_def needed_def held_def)
next
  case (write_forget m l)
  then show ?thesis using ok by (auto simp: retention_def)
next
  case write_refs
  have "row_shape pol now g W' m' l' = row_shape pol now g W m' l'" for m' l'
    by (simp add: row_shape_def write_refs(3))
  moreover have "anchored W' l" if "bt_get (sv_leases W) m = Some l" "needed pol now g l" for m l
    using write_refs(1) [OF that] retentionD(3) [OF ok that] by (simp add: anchored_def)
  ultimately show ?thesis using ok unfolding retention_def write_refs(2) by blast
qed

lemma durables_retention: "(durable pol now g)\<^sup>*\<^sup>* W W' \<Longrightarrow> retention pol now g W \<Longrightarrow> retention pol now g W'"
  by (induction rule: rtranclp_induct) (auto intro: durable_retention)

lemma final_simps [simp]:
  "final W [] = W" "final W (W1 # Ws) = final W1 Ws" "final W (Ws @ Ws') = final (final W Ws) Ws'"
  by (simp_all add: final_def)

section \<open>Effects of the anchor operations\<close>

lemma blocking_refs:
  "blocking_repository E r W = Inr refs \<Longrightarrow> \<exists>rp. bt_get (sv_repos W) r = Some rp \<and> refs = rp_refs rp"
  by (auto simp: blocking_repository_def split: option.splits if_splits)

lemma with_refs_fields [simp]:
  "sv_leases (with_refs r refs W) = sv_leases W"
  "bt_get (sv_repos (with_refs r refs W)) r' = None \<longleftrightarrow> bt_get (sv_repos W) r' = None"
  by (auto simp: with_refs_def split: option.splits)

lemma refs_of_with_refs:
  "bt_get (sv_repos W) r = Some rp \<Longrightarrow>
   refs_of (with_refs r refs W) r' n = (if r' = r then bt_get refs n else refs_of W r' n)"
  by (auto simp: with_refs_def refs_of_def)

lemma refs_of_repo: "bt_get (sv_repos W) r = Some rp \<Longrightarrow> bt_get (rp_refs rp) n = refs_of W r n"
  by (simp add: refs_of_def)

lemma create_lease_anchor_Inr:
  "create_lease_anchor E r a c refs = (Inr u, refs') \<Longrightarrow> bt_get refs' = (bt_get refs)(a \<mapsto> c)"
  by (auto simp: create_lease_anchor_def fun_upd_idem split: if_splits option.splits)

lemma delete_lease_anchor_Inr:
  "delete_lease_anchor E r a refs = (Inr u, refs') \<Longrightarrow> bt_get refs' = (bt_get refs)(a := None)"
  by (auto simp: delete_lease_anchor_def split: if_splits)

lemma repair_anchor_Inr:
  "repair_anchor E l refs = (Inr b, refs') \<Longrightarrow> bt_get refs' = (bt_get refs)(l_anchor_ref l \<mapsto> l_commit l)"
  by (auto simp: repair_anchor_def read_lease_anchor_def fun_upd_idem
      dest!: create_lease_anchor_Inr split: sum.splits if_splits prod.splits)

lemma repair_anchor_False: "repair_anchor E l refs = (Inr False, refs') \<Longrightarrow> refs' = refs"
  by (auto simp: repair_anchor_def split: sum.splits if_splits prod.splits)

lemma durable_refl: "durable pol now g W W"
  by (rule write_refs) auto

text \<open>Writing a lease's own anchor, and deleting an anchor no needed lease relies on.\<close>

lemma durable_set_anchor:
  assumes "bt_get (sv_leases W) m = Some l" and "bt_get (sv_repos W) (l_repository l) = Some rp"
    and "bt_get refs' = (bt_get (rp_refs rp))(l_anchor_ref l \<mapsto> l_commit l)"
  shows "durable pol now g W (with_refs (l_repository l) refs' W)"
  using assms by (intro write_anchor [OF assms(1)]) (auto simp: refs_of_with_refs refs_of_repo)

lemma durable_drop_anchor:
  assumes ok: "retention pol now g W" and rp: "bt_get (sv_repos W) r = Some rp"
    and refs: "bt_get refs' = (bt_get (rp_refs rp))(a := None)"
    and free: "\<And>m l. bt_get (sv_leases W) m = Some l \<Longrightarrow> l_repository l = r \<Longrightarrow> l_anchor_ref l = a \<Longrightarrow> \<not> needed pol now g l"
  shows "durable pol now g W (with_refs r refs' W)"
  using free by (intro write_refs) (auto simp: refs_of_with_refs [OF rp] refs refs_of_repo [OF rp])

section \<open>The operations as chains of writes\<close>

definition passes :: "lease_policy \<Rightarrow> int \<Rightarrow> mount_id set \<Rightarrow> service \<Rightarrow> service list \<Rightarrow> bool" where
  "passes pol now g W Ws \<longleftrightarrow> (\<forall>W' \<in> set Ws. (durable pol now g)\<^sup>*\<^sup>* W W')"

lemma passes_simps [simp]:
  "passes pol now g W []"
  "passes pol now g W (W1 # Ws) \<longleftrightarrow> (durable pol now g)\<^sup>*\<^sup>* W W1 \<and> passes pol now g W Ws"
  "passes pol now g W (Ws @ Ws') \<longleftrightarrow> passes pol now g W Ws \<and> passes pol now g W Ws'"
  by (auto simp: passes_def)

lemma passes_last: "passes pol now g W Ws \<Longrightarrow> (durable pol now g)\<^sup>*\<^sup>* W (final W Ws)"
  by (simp add: passes_def final_def)

lemma passes_trans: "(durable pol now g)\<^sup>*\<^sup>* W W1 \<Longrightarrow> passes pol now g W1 Ws \<Longrightarrow> passes pol now g W Ws"
  by (auto simp: passes_def)

lemma catalog_commit_durable:
  assumes "catalog_commit first r c t W = (t', W1)"
  shows "durable pol now g W W1" "sv_leases W1 = sv_leases W" "sv_repos W1 = sv_repos W"
  using assms durable_refl write_commits
  by (auto simp: catalog_commit_def Let_def split: option.splits)

lemma pin_commit_passes:
  assumes ok: "retention pol now g W" and fresh: "m \<notin> g" and clock: "valid_clock pol now"
    and ttl: "0 < ttl" "ttl \<le> int (ttl_cap pol)" and rp: "bt_get (sv_repos W) r = Some rp"
    and P: "pin_commit E now m r c subject ttl (rp_refs rp) W = (res, Ws)"
  shows "passes pol now g W Ws \<and>
    (\<forall>l. res = Inr l \<longrightarrow> bt_get (sv_leases (final W Ws)) m = Some (l\<lparr>l_state := Active\<rparr>) \<and>
       l_commit l = c \<and> l_repository l = r)"
proof (cases "bt_get (sv_leases W) m")
  case (Some l')
  then show ?thesis using P by (auto simp: pin_commit_def begin_lease_def)
next
  case None
  define l0 where "l0 = \<lparr>l_mount_id = m, l_repository = r, l_commit = c, l_subject = subject, l_state = Preparing,
    l_anchor_ref = lease_anchor_ref m, l_created_at = now, l_expires_at = isat_add now ttl,
    l_terminal_at = None, l_renewal_failures = 0\<rparr>"
  define W1 where "W1 = W\<lparr>sv_leases := bt_insert m l0 (sv_leases W)\<rparr>"
  have start: "begin_lease now m r c subject (lease_anchor_ref m) ttl (sv_leases W) =
      (Inr l0, bt_insert m l0 (sv_leases W))" by (simp add: begin_lease_def None l0_def Let_def)
  have "row_shape pol now g W m l0"
    using fresh rp clock ttl isat_add_le [of now ttl] by (simp add: row_shape_def l0_def horizon_def valid_clock_def)
  then have d1: "durable pol now g W W1"
    using write_begin [OF None fresh] by (simp add: W1_def l0_def)
  have row1: "bt_get (sv_leases W1) m = Some l0" by (simp add: W1_def)
  have unneeded: "\<not> needed pol now g l0" using fresh by (simp add: needed_def held_def l0_def)
  obtain res1 refs' where anchor: "create_lease_anchor E r (lease_anchor_ref m) c (rp_refs rp) = (res1, refs')"
    by force
  show ?thesis
  proof (cases res1)
    case (Inl e)
    define W2 where "W2 = W1\<lparr>sv_leases := forget_lease m (sv_leases W1)\<rparr>"
    have "durable pol now g W1 W2"
      unfolding W2_def forget_lease_def by (rule write_forget [OF row1 unneeded])
    moreover have "(res, Ws) = (Inl e, [W1, W2])"
      using P anchor Inl start by (simp add: pin_commit_def Let_def W1_def W2_def)
    ultimately show ?thesis using d1 by auto
  next
    case (Inr u)
    define W2 where "W2 = with_refs r refs' W1"
    define W3 where "W3 = W2\<lparr>sv_leases := bt_insert m (l0\<lparr>l_state := Active\<rparr>) (sv_leases W2)\<rparr>"
    have rp1: "bt_get (sv_repos W1) r = Some rp" using rp by (simp add: W1_def)
    have refs': "bt_get refs' = (bt_get (rp_refs rp))(lease_anchor_ref m \<mapsto> c)"
      using create_lease_anchor_Inr anchor Inr by blast
    have d2: "durable pol now g W1 W2"
      using durable_set_anchor [OF row1, of rp refs'] rp1 refs' by (simp add: W2_def l0_def)
    have row2: "bt_get (sv_leases W2) m = Some l0" using row1 by (simp add: W2_def)
    have "anchored W2 l0"
      by (simp add: anchored_def W2_def refs_of_with_refs [OF rp1] refs' l0_def)
    then have d3: "durable pol now g W2 W3"
      unfolding W3_def by (intro write_activate [OF row2]) (simp_all add: l0_def)
    have act: "activate_lease m (sv_leases W2) = (Inr (), bt_insert m (l0\<lparr>l_state := Active\<rparr>) (sv_leases W2))"
      by (simp add: activate_lease_def row2) (simp add: l0_def)
    have "(res, Ws) = (Inr l0, [W1, W2, W3])"
      using P start anchor Inr act
      by (simp add: pin_commit_def Let_def W1_def W2_def W3_def)
    moreover have "(durable pol now g)\<^sup>*\<^sup>* W W2" using d1 d2 by auto
    ultimately show ?thesis
      using d1 d3 by (auto simp: W3_def l0_def intro: rtranclp.rtrancl_into_rtrancl)
  qed
qed

lemma create_mount_passes:
  assumes ok: "retention pol now g W" and fresh: "m \<notin> g" and clock: "valid_clock pol now"
    and C: "create_mount E pol now first m r sel subject req W = (res, Ws)"
  shows "passes pol now g W Ws \<and>
    (\<forall>grant. res = Inr grant \<longrightarrow> (\<exists>l. bt_get (sv_leases (final W Ws)) m = Some l \<and>
       l_state l = Active \<and> l_commit l = gr_commit grant \<and> l_repository l = r))"
proof (cases "\<exists>refs rv. blocking_repository E r W = Inr refs \<and> ge_resolve E r sel = Inr rv \<and>
    (\<exists>st. require_servable r W = Inr st \<and> accepts_new_mounts st) \<and> (\<exists>x. mount_id_parse m = Inr x)")
  case False
  then have "Ws = [] \<and> (\<exists>e. res = Inl e)"
    using C unfolding create_mount_def by (auto split: sum.splits if_splits)
  then show ?thesis by auto
next
  case True
  then obtain refs rv st where T: "blocking_repository E r W = Inr refs" "ge_resolve E r sel = Inr rv"
    "require_servable r W = Inr st" "accepts_new_mounts st" "\<exists>x. mount_id_parse m = Inr x" by blast
  obtain rp where rp: "bt_get (sv_repos W) r = Some rp" "refs = rp_refs rp" using blocking_refs [OF T(1)] by blast
  obtain t W1 where c: "catalog_commit first r (rv_commit rv) (rv_snapshot_time rv) W = (t, W1)" by force
  note cc = catalog_commit_durable(1) [OF c, where pol = pol and now = now and g = g] catalog_commit_durable(2,3) [OF c]
  obtain res1 Ws1 where p: "pin_commit E now m r (rv_commit rv) subject (effective_ttl pol req) (rp_refs rp) W1 = (res1, Ws1)"
    by force
  have ok1: "retention pol now g W1" using durable_retention [OF cc(1) ok] .
  note pc = pin_commit_passes [OF ok1 fresh clock effective_ttl_bounds [OF clock] _ p]
  have rp1: "bt_get (sv_repos W1) r = Some rp" using rp(1) cc(3) by simp
  have eq: "Ws = W1 # Ws1 \<and> (\<forall>grant. res = Inr grant \<longrightarrow> (\<exists>l. res1 = Inr l \<and> gr_commit grant = rv_commit rv))"
    using C T c p rp(2) by (auto simp: create_mount_def split: sum.splits)
  have "passes pol now g W (W1 # Ws1)"
    using pc rp1 cc(1) passes_trans [of pol now g W W1 Ws1] by auto
  then show ?thesis using eq pc rp1 by fastforce
qed

lemma renew_mount_passes:
  assumes ok: "retention pol now g W" and clock: "valid_clock pol now" and R: "renew_mount E pol now m req W = (res, Ws)"
  shows "passes pol now g W Ws"
proof (cases "\<exists>l l' L1 refs. bt_get (sv_leases W) m = Some l \<and> blocking_repository E (l_repository l) W = Inr refs \<and>
    renew_lease now m pol (effective_ttl pol req) (sv_leases W) = (Inr l', L1)")
  case False
  then have "Ws = []"
    using R unfolding renew_mount_def get_lease_def by (auto split: sum.splits option.splits prod.splits)
  then show ?thesis by simp
next
  case True
  then obtain l l' L1 refs where T: "bt_get (sv_leases W) m = Some l" "blocking_repository E (l_repository l) W = Inr refs"
    "renew_lease now m pol (effective_ttl pol req) (sv_leases W) = (Inr l', L1)" by blast
  obtain rp where rp: "bt_get (sv_repos W) (l_repository l) = Some rp" "refs = rp_refs rp" using blocking_refs [OF T(2)] by blast
  define e where "e = max (isat_add now (effective_ttl pol req)) (l_expires_at l)"
  have l': "l_state l = Active" "l' = l\<lparr>l_expires_at := e, l_renewal_failures := 0\<rparr>" "L1 = bt_insert m l' (sv_leases W)"
    using T(1,3) by (auto simp: renew_lease_def e_def Let_def split: if_splits)
  define W1 where "W1 = W\<lparr>sv_leases := L1\<rparr>"
  have d1: "durable pol now g W W1"
    unfolding W1_def l'(2,3)
  proof (rule write_renew [OF T(1) l'(1)])
    note shape = retentionD(2) [OF ok T(1), unfolded row_shape_def]
    have "isat_sub now (l_created_at l) \<le> int (max_total_age pol)"
      using T(1,3) l'(1) clock by (auto simp: renew_lease_def valid_clock_def u64_as_i64_small split: if_splits)
    then have "now \<le> l_created_at l + int (max_total_age pol)"
      using isat_sub_ge [of "l_created_at l" now] shape clock by (auto simp: valid_clock_def i64_max_def)
    then show "e \<le> l_created_at l + horizon pol"
      using isat_add_le [of now "effective_ttl pol req"] effective_ttl_bounds [OF clock, of req] shape clock
      by (auto simp: e_def horizon_def valid_clock_def)
  qed (simp add: e_def)
  have "Ws = [W1] \<or> (\<exists>b refs'. repair_anchor E l' refs = (Inr b, refs') \<and> Ws = [W1, with_refs (l_repository l) refs' W1])"
    using R T by (auto simp: renew_mount_def get_lease_def W1_def Let_def split: sum.splits prod.splits)
  moreover have "durable pol now g W1 (with_refs (l_repository l) refs' W1)" if "repair_anchor E l' refs = (Inr b, refs')" for b refs'
    using durable_set_anchor [of W1 m l' rp refs'] repair_anchor_Inr [OF that] rp l' by (simp add: W1_def)
  ultimately show ?thesis using d1 by (auto intro: rtranclp.rtrancl_into_rtrancl)
qed

lemma release_mount_passes: "passes pol now g W [snd (release_mount now m W)]"
  using durable_refl write_release
  by (auto simp: release_mount_def release_lease_def get_lease_def Let_def split: option.splits)

section \<open>Sweeping\<close>

definition overdue :: "int \<Rightarrow> lease_policy \<Rightarrow> lease \<Rightarrow> bool" where
  "overdue now pol l \<longleftrightarrow> is_reachability_root (l_state l) \<and> l_expires_at l < now \<and>
     isat_add (l_expires_at l) (u64_as_i64 (renewal_grace pol)) < now"

definition swept :: "int \<Rightarrow> lease_policy \<Rightarrow> lease \<Rightarrow> lease" where
  "swept now pol l = (if overdue now pol l then l\<lparr>l_state := Expired, l_terminal_at := Some now\<rparr> else l)"

definition prunable :: "int \<Rightarrow> lease_policy \<Rightarrow> lease \<Rightarrow> bool" where
  "prunable now pol l \<longleftrightarrow> \<not> is_reachability_root (l_state l) \<and>
     (\<exists>t. l_terminal_at l = Some t \<and> isat_add t (u64_as_i64 (prune_delay pol)) \<le> now)"

lemma sweep_row_leases:
  "bt_get L (l_mount_id l) = Some l \<Longrightarrow>
   bt_get (snd (sweep_row now pol l (out, L))) = (bt_get L)(l_mount_id l \<mapsto> swept now pol l)"
  by (auto simp: sweep_row_def swept_def overdue_def fun_upd_idem split: option.splits if_splits)

lemma sweep_row_prunable:
  "set (so_prunable (fst (sweep_row now pol l (out, L)))) =
   set (so_prunable out) \<union> (if prunable now pol l then {(l_mount_id l, l_anchor_ref l)} else {})"
  by (auto simp: sweep_row_def prunable_def split: option.splits if_splits)

lemma sweep_row_durable:
  assumes "bt_get L (l_mount_id l) = Some l" and "sv_leases W = L"
  shows "durable pol now g W (W\<lparr>sv_leases := snd (sweep_row now pol l (out, L))\<rparr>)"
proof (cases "overdue now pol l")
  case True
  then have "snd (sweep_row now pol l (out, L)) = bt_insert (l_mount_id l) (l\<lparr>l_state := Expired, l_terminal_at := Some now\<rparr>) L"
    using assms(1) by (auto simp: sweep_row_def overdue_def)
  then show ?thesis using write_expire [of W "l_mount_id l" l pol now g] assms True by (simp add: overdue_def)
next
  case False
  then have "snd (sweep_row now pol l (out, L)) = L"
    by (auto simp: sweep_row_def overdue_def split: option.splits)
  then show ?thesis using durable_refl [of pol now g W] by (simp flip: assms(2))
qed

lemma sweep_fold:
  assumes "\<forall>l \<in> set ls. bt_get (sv_leases W) (l_mount_id l) = Some l" and "distinct (map l_mount_id ls)"
    and "fold (sweep_row now pol) ls (out, sv_leases W) = (out', L')"
  shows "(durable pol now g)\<^sup>*\<^sup>* W (W\<lparr>sv_leases := L'\<rparr>) \<and>
    bt_get L' m = (if m \<in> l_mount_id ` set ls then map_option (swept now pol) (bt_get (sv_leases W) m)
                   else bt_get (sv_leases W) m) \<and>
    set (so_prunable out') = set (so_prunable out) \<union> {(l_mount_id l, l_anchor_ref l) | l. l \<in> set ls \<and> prunable now pol l}"
  using assms
proof (induction ls arbitrary: W out)
  case (Cons l ls)
  obtain out1 L1 where r: "sweep_row now pol l (out, sv_leases W) = (out1, L1)" by force
  define W1 where "W1 = W\<lparr>sv_leases := L1\<rparr>"
  have row: "bt_get (sv_leases W) (l_mount_id l) = Some l" using Cons.prems(1) by simp
  have d: "durable pol now g W W1" using sweep_row_durable [OF row refl, of pol now g out] r by (simp add: W1_def)
  have L1: "bt_get L1 = (bt_get (sv_leases W))(l_mount_id l \<mapsto> swept now pol l)"
    using sweep_row_leases [OF row, of now pol out] r by simp
  have new: "l_mount_id l \<notin> l_mount_id ` set ls" using Cons.prems(2) by simp
  have "\<forall>l' \<in> set ls. bt_get (sv_leases W1) (l_mount_id l') = Some l'"
  proof
    fix l' assume l': "l' \<in> set ls"
    then have "l_mount_id l' \<noteq> l_mount_id l" using new by (metis imageI)
    then show "bt_get (sv_leases W1) (l_mount_id l') = Some l'"
      using Cons.prems(1) l' by (simp add: W1_def L1)
  qed
  moreover have "fold (sweep_row now pol) ls (out1, sv_leases W1) = (out', L')"
    using Cons.prems(3) r by (simp add: W1_def)
  ultimately have IH: "(durable pol now g)\<^sup>*\<^sup>* W1 (W1\<lparr>sv_leases := L'\<rparr>)"
    "bt_get L' m = (if m \<in> l_mount_id ` set ls then map_option (swept now pol) (bt_get L1 m) else bt_get L1 m)"
    "set (so_prunable out') = set (so_prunable out1) \<union> {(l_mount_id l, l_anchor_ref l) | l. l \<in> set ls \<and> prunable now pol l}"
    using Cons.IH [of W1 out1] Cons.prems(2) by (simp_all add: W1_def)
  have "(durable pol now g)\<^sup>*\<^sup>* W (W\<lparr>sv_leases := L'\<rparr>)"
    using converse_rtranclp_into_rtranclp [OF d IH(1)] by (simp add: W1_def)
  moreover have "set (so_prunable out1) = set (so_prunable out) \<union> (if prunable now pol l then {(l_mount_id l, l_anchor_ref l)} else {})"
    using sweep_row_prunable [of now pol l out "sv_leases W"] r by simp
  moreover have "bt_get L' m = (if m \<in> l_mount_id ` set (l # ls) then map_option (swept now pol) (bt_get (sv_leases W) m)
      else bt_get (sv_leases W) m)"
    using new row IH(2) by (cases "m = l_mount_id l") (simp_all add: L1)
  moreover have "{(l_mount_id l', l_anchor_ref l') | l'. l' \<in> set (l # ls) \<and> prunable now pol l'} =
      (if prunable now pol l then {(l_mount_id l, l_anchor_ref l)} else {}) \<union>
      {(l_mount_id l, l_anchor_ref l) | l. l \<in> set ls \<and> prunable now pol l}" by auto
  ultimately show ?case by (simp add: IH(3) Un_assoc)
next
  case Nil
  then have "L' = sv_leases W" "out' = out" by simp_all
  then show ?case by simp
qed

lemma rows_listed:
  assumes "retention pol now g W"
  shows "\<forall>l \<in> set (map snd (sv_leases W)). bt_get (sv_leases W) (l_mount_id l) = Some l"
    and "distinct (map l_mount_id (map snd (sv_leases W)))"
    and "l_mount_id ` snd ` set (sv_leases W) = dom (bt_get (sv_leases W))"
proof -
  note ok = retentionD(1) [OF assms]
  have key: "l_mount_id l = m" if "(m, l) \<in> set (sv_leases W)" for m l
    using retentionD(2) [OF assms] that bt_get_iff_mem [OF ok] by (auto simp: row_shape_def)
  then show "\<forall>l \<in> set (map snd (sv_leases W)). bt_get (sv_leases W) (l_mount_id l) = Some l"
    using bt_get_iff_mem [OF ok] by fastforce
  have "map l_mount_id (map snd (sv_leases W)) = map fst (sv_leases W)" using key by auto
  then show "distinct (map l_mount_id (map snd (sv_leases W)))" using bt_ok_distinct [OF ok] by metis
  show "l_mount_id ` snd ` set (sv_leases W) = dom (bt_get (sv_leases W))"
    using key by (force simp: dom_def bt_get_iff_mem [OF ok])
qed

lemma sweep_leases_spec:
  assumes ok: "retention pol now g W" and S: "sweep_leases now pol (sv_leases W) = (out, L)"
  shows "(durable pol now g)\<^sup>*\<^sup>* W (W\<lparr>sv_leases := L\<rparr>)"
    and "bt_get L m = map_option (swept now pol) (bt_get (sv_leases W) m)"
    and "(m, a) \<in> set (so_prunable out) \<longleftrightarrow>
      (\<exists>l. bt_get (sv_leases W) m = Some l \<and> prunable now pol l \<and> a = l_anchor_ref l)"
proof -
  note rows = rows_listed [OF ok]
  note F = sweep_fold [OF rows(1,2) S [unfolded sweep_leases_def], where g = g]
  show "(durable pol now g)\<^sup>*\<^sup>* W (W\<lparr>sv_leases := L\<rparr>)" using F by blast
  show "bt_get L m = map_option (swept now pol) (bt_get (sv_leases W) m)"
    using conjunct1 [OF conjunct2 [OF F, of m]] rows(3)
    by (cases "bt_get (sv_leases W) m") (simp_all add: dom_def set_eq_iff del: image_iff)
  have "set (so_prunable out) = {(l_mount_id l, l_anchor_ref l) | l. l \<in> snd ` set (sv_leases W) \<and> prunable now pol l}"
    using conjunct2 [OF conjunct2 [OF F]] by simp
  then have "(m, a) \<in> set (so_prunable out) \<longleftrightarrow>
      (\<exists>l. (l \<in> snd ` set (sv_leases W) \<and> l_mount_id l = m) \<and> prunable now pol l \<and> a = l_anchor_ref l)" by auto
  moreover have "l \<in> snd ` set (sv_leases W) \<and> l_mount_id l = m \<longleftrightarrow> bt_get (sv_leases W) m = Some l" for l
    using rows(1) map_of_SomeD [of "sv_leases W" m l] retentionD(2) [OF ok, of m l]
    by (auto simp: row_shape_def intro: rev_image_eqI)
  ultimately show "(m, a) \<in> set (so_prunable out) \<longleftrightarrow>
      (\<exists>l. bt_get (sv_leases W) m = Some l \<and> prunable now pol l \<and> a = l_anchor_ref l)"
    by simp
qed

text \<open>Pruning one lease that is past its delay, and then a list of them.\<close>

lemma prunable_unneeded: "prunable now pol l \<Longrightarrow> \<not> needed pol now g l"
  by (auto simp: prunable_def needed_def is_protecting_def)

lemma prune_one_cases:
  obtains (kept) "prune_one E (m, a) W = []"
  | (row) l where "bt_get (sv_leases W) m = Some l" "prune_one E (m, a) W = [W\<lparr>sv_leases := bt_remove m (sv_leases W)\<rparr>]"
  | (both) l rp refs' where "bt_get (sv_leases W) m = Some l" "bt_get (sv_repos W) (l_repository l) = Some rp"
      "bt_get refs' = (bt_get (rp_refs rp))(a := None)"
      "prune_one E (m, a) W = [with_refs (l_repository l) refs' W,
         (with_refs (l_repository l) refs' W)\<lparr>sv_leases := bt_remove m (sv_leases W)\<rparr>]"
proof (cases "bt_get (sv_leases W) m")
  case None
  then show ?thesis using kept by (simp add: prune_one_def get_lease_def)
next
  case (Some l)
  show ?thesis
  proof (cases "blocking_repository E (l_repository l) W")
    case (Inl e)
    then show ?thesis using Some row by (simp add: prune_one_def get_lease_def forget_lease_def)
  next
    case (Inr refs)
    obtain rp where rp: "bt_get (sv_repos W) (l_repository l) = Some rp" "refs = rp_refs rp" using blocking_refs [OF Inr] by blast
    obtain res refs' where d: "delete_lease_anchor E (l_repository l) a refs = (res, refs')" by force
    show ?thesis
    proof (cases res)
      case (Inl e)
      then show ?thesis using Some Inr d kept by (simp add: prune_one_def get_lease_def)
    next
      case r: (Inr u)
      have "bt_get refs' = (bt_get (rp_refs rp))(a := None)" using delete_lease_anchor_Inr d r rp(2) by blast
      then show ?thesis
        using both [OF Some rp(1)] Some Inr d r by (simp add: prune_one_def get_lease_def forget_lease_def Let_def)
    qed
  qed
qed

lemma prune_one_passes:
  assumes ok: "retention pol now g W"
    and p: "\<And>l. bt_get (sv_leases W) m = Some l \<Longrightarrow> prunable now pol l \<and> a = l_anchor_ref l"
  shows "passes pol now g W (prune_one E (m, a) W)"
proof (cases rule: prune_one_cases [of E m a W])
  case (row l)
  then show ?thesis using write_forget [OF row(1)] prunable_unneeded p by auto
next
  case (both l rp refs')
  note l = p [OF both(1)] prunable_unneeded [of now pol l g]
  have d1: "durable pol now g W (with_refs (l_repository l) refs' W)"
  proof (rule durable_drop_anchor [OF ok both(2,3)])
    fix m' l' assume r: "bt_get (sv_leases W) m' = Some l'" and "l_anchor_ref l' = a"
    then have "m' = m" using retentionD(2) [OF ok r] retentionD(2) [OF ok both(1)] l by (simp add: row_shape_def)
    then show "\<not> needed pol now g l'" using r both(1) l by simp
  qed
  have "durable pol now g (with_refs (l_repository l) refs' W)
      ((with_refs (l_repository l) refs' W)\<lparr>sv_leases := bt_remove m (sv_leases W)\<rparr>)"
    using write_forget [of "with_refs (l_repository l) refs' W" m l pol now g] both(1) l by simp
  then show ?thesis using d1 both(4) by auto
qed simp

lemma prune_all_passes:
  assumes "retention pol now g W"
    and "\<And>m a l. (m, a) \<in> set ps \<Longrightarrow> bt_get (sv_leases W) m = Some l \<Longrightarrow> prunable now pol l \<and> a = l_anchor_ref l"
  shows "passes pol now g W (prune_all E ps W)"
  using assms
proof (induction ps arbitrary: W)
  case (Cons p ps)
  obtain m a where p: "p = (m, a)" by force
  define W1 where "W1 = final W (prune_one E p W)"
  have "passes pol now g W (prune_one E p W)"
    unfolding p by (rule prune_one_passes [OF Cons.prems(1)], rule Cons.prems(2)) (simp_all add: p)
  then have d: "(durable pol now g)\<^sup>*\<^sup>* W W1" and P: "passes pol now g W (prune_one E p W)"
    using passes_last by (auto simp: W1_def)
  have rows: "bt_get (sv_leases W1) m' = Some l \<Longrightarrow> bt_get (sv_leases W) m' = Some l" for m' l
    unfolding W1_def p by (cases rule: prune_one_cases [of E m a W]) (auto split: if_splits)
  have "passes pol now g W1 (prune_all E ps W1)"
  proof (rule Cons.IH)
    show "retention pol now g W1" using durables_retention [OF d Cons.prems(1)] .
    show "prunable now pol l \<and> a' = l_anchor_ref l" if "(m', a') \<in> set ps" "bt_get (sv_leases W1) m' = Some l" for m' a' l
      by (rule Cons.prems(2) [OF _ rows [OF that(2)]]) (use that(1) in simp)
  qed
  then show ?case using P passes_trans [OF d] by (simp add: Let_def W1_def)
qed simp

lemma sweep_passes:
  assumes ok: "retention pol now g W"
  shows "passes pol now g W (snd (sweep E pol now W))"
proof -
  obtain out L where S: "sweep_leases now pol (sv_leases W) = (out, L)" by force
  note spec = sweep_leases_spec [OF ok S]
  define W1 where "W1 = W\<lparr>sv_leases := L\<rparr>"
  have d: "(durable pol now g)\<^sup>*\<^sup>* W W1" using spec(1) by (simp add: W1_def)
  have "passes pol now g W1 (prune_all E (so_prunable out) W1)"
  proof (rule prune_all_passes)
    show "retention pol now g W1" using durables_retention [OF d ok] .
    show "prunable now pol l \<and> a = l_anchor_ref l" if "(m, a) \<in> set (so_prunable out)" "bt_get (sv_leases W1) m = Some l" for m a l
      using that spec(2) [of m] spec(3) [of m a] by (auto simp: W1_def swept_def overdue_def prunable_def)
  qed
  then show ?thesis using d passes_trans [OF d] by (simp add: sweep_def S W1_def [symmetric] Let_def)
qed

section \<open>Reconciling\<close>

lemma reconcile_lease_passes:
  assumes ok: "retention pol now g W" and row: "bt_get (sv_leases W) (l_mount_id l) = Some l"
    and R: "reconcile_lease E now l out W = (res, Ws)"
  shows "passes pol now g W Ws"
    and "m \<noteq> l_mount_id l \<Longrightarrow> bt_get (sv_leases (final W Ws)) m = bt_get (sv_leases W) m"
    and "l_state l \<noteq> Preparing \<Longrightarrow> sv_leases (final W Ws) = sv_leases W"
    and "l_state l = Preparing \<Longrightarrow> res = Inr out' \<Longrightarrow> blocking_repository E (l_repository l) W = Inr refs \<Longrightarrow>
      bt_get (sv_leases (final W Ws)) (l_mount_id l) = None"
proof -
  let ?m = "l_mount_id l"
  note shape = retentionD(2) [OF ok row]
  have "passes pol now g W Ws \<and>
    (m \<noteq> ?m \<longrightarrow> bt_get (sv_leases (final W Ws)) m = bt_get (sv_leases W) m) \<and>
    (l_state l \<noteq> Preparing \<longrightarrow> sv_leases (final W Ws) = sv_leases W) \<and>
    (l_state l = Preparing \<longrightarrow> res = Inr out' \<longrightarrow> blocking_repository E (l_repository l) W = Inr refs \<longrightarrow>
      bt_get (sv_leases (final W Ws)) ?m = None)"
  proof (cases "\<exists>refs. blocking_repository E (l_repository l) W = Inr refs")
    case False
    then show ?thesis using R by (auto simp: reconcile_lease_def split: sum.splits)
  next
    case True
    then obtain rp where b: "blocking_repository E (l_repository l) W = Inr (rp_refs rp)"
      and rp: "bt_get (sv_repos W) (l_repository l) = Some rp" using blocking_refs by metis
    show ?thesis
    proof (cases "l_state l")
      case Preparing
      obtain r1 refs' where d: "delete_lease_anchor E (l_repository l) (l_anchor_ref l) (rp_refs rp) = (r1, refs')" by force
      show ?thesis
      proof (cases r1)
        case (Inl e)
        then show ?thesis using R b Preparing d by (auto simp: reconcile_lease_def)
      next
        case (Inr u)
        define W1 where "W1 = with_refs (l_repository l) refs' W"
        define l' where "l' = l\<lparr>l_state := Expired, l_terminal_at := Some now\<rparr>"
        define W2 where "W2 = W1\<lparr>sv_leases := bt_insert ?m l' (sv_leases W1)\<rparr>"
        define W3 where "W3 = W2\<lparr>sv_leases := bt_remove ?m (sv_leases W2)\<rparr>"
        have un: "\<not> held g l" "\<not> held g l'" using shape Preparing by (auto simp: held_def row_shape_def l'_def)
        have d1: "durable pol now g W W1"
          unfolding W1_def
        proof (rule durable_drop_anchor [OF ok rp])
          show "bt_get refs' = (bt_get (rp_refs rp))(l_anchor_ref l := None)" using delete_lease_anchor_Inr d Inr by blast
          fix m' k assume k: "bt_get (sv_leases W) m' = Some k" and "l_anchor_ref k = l_anchor_ref l"
          then have "m' = ?m" using retentionD(2) [OF ok k] shape by (simp add: row_shape_def)
          then show "\<not> needed pol now g k" using k row un by (simp add: needed_def)
        qed
        have row1: "bt_get (sv_leases W1) ?m = Some l" using row by (simp add: W1_def)
        have d2: "durable pol now g W1 W2"
          unfolding W2_def l'_def using Preparing by (intro write_expire [OF row1]) simp_all
        have d3: "durable pol now g W2 W3"
          unfolding W3_def by (rule write_forget [of _ _ l']) (simp_all add: W2_def needed_def un)
        have "(res, Ws) = (Inr (out\<lparr>ro_abandoned := ro_abandoned out @ [?m]\<rparr>), [W1, W2, W3])"
          using R b Preparing d Inr row1
          by (simp add: reconcile_lease_def Let_def abandon_lease_def forget_lease_def W1_def W2_def W3_def l'_def)
        moreover have "(durable pol now g)\<^sup>*\<^sup>* W W2" using d1 d2 by auto
        ultimately show ?thesis
          using d1 d3 Preparing by (auto simp: W1_def W2_def W3_def intro: rtranclp.rtrancl_into_rtrancl)
      qed
    next
      case Active
      have "Ws = [] \<or> (\<exists>refs'. repair_anchor E l (rp_refs rp) = (Inr True, refs') \<and> Ws = [with_refs (l_repository l) refs' W])"
        using R b Active by (auto simp: reconcile_lease_def split: sum.splits prod.splits bool.splits)
      moreover have "durable pol now g W (with_refs (l_repository l) refs' W)"
        if "repair_anchor E l (rp_refs rp) = (Inr True, refs')" for refs'
        using durable_set_anchor [OF row rp] repair_anchor_Inr [OF that] by blast
      ultimately show ?thesis using Active by auto
    qed (use R b in \<open>auto simp: reconcile_lease_def\<close>)
  qed
  then show "passes pol now g W Ws"
    and "m \<noteq> l_mount_id l \<Longrightarrow> bt_get (sv_leases (final W Ws)) m = bt_get (sv_leases W) m"
    and "l_state l \<noteq> Preparing \<Longrightarrow> sv_leases (final W Ws) = sv_leases W"
    and "l_state l = Preparing \<Longrightarrow> res = Inr out' \<Longrightarrow> blocking_repository E (l_repository l) W = Inr refs \<Longrightarrow>
      bt_get (sv_leases (final W Ws)) (l_mount_id l) = None"
    by blast+
qed

text \<open>Whether a repository can be used depends on its state, not on its refs or on the leases.\<close>

definition accessible :: "git_env \<Rightarrow> service \<Rightarrow> repository_id \<Rightarrow> bool" where
  "accessible E W r \<longleftrightarrow> (\<exists>refs. blocking_repository E r W = Inr refs)"

lemma accessible_simps [simp]:
  "accessible E (with_refs r' refs W) r = accessible E W r"
  "accessible E (W\<lparr>sv_leases := L\<rparr>) r = accessible E W r"
  by (auto simp: accessible_def blocking_repository_def with_refs_def split: option.splits)

definition steady :: "git_env \<Rightarrow> service \<Rightarrow> service \<Rightarrow> bool" where
  "steady E W W' \<longleftrightarrow> (\<forall>r. accessible E W' r = accessible E W r \<and>
     (bt_get (sv_repos W') r = None \<longleftrightarrow> bt_get (sv_repos W) r = None))"

definition all_accessible :: "git_env \<Rightarrow> service \<Rightarrow> bool" where
  "all_accessible E W \<longleftrightarrow> (\<forall>r. bt_get (sv_repos W) r \<noteq> None \<longrightarrow> accessible E W r)"

lemma steady_simps [simp]:
  "steady E W W" "steady E W (with_refs r refs W)" "steady E W (W\<lparr>sv_leases := L\<rparr>)"
  "steady E W ((with_refs r refs W)\<lparr>sv_leases := L\<rparr>)"
  by (simp_all add: steady_def)

lemma steady_trans: "steady E W W1 \<Longrightarrow> steady E W1 W2 \<Longrightarrow> steady E W W2"
  by (simp add: steady_def)

lemma steady_all: "steady E W W' \<Longrightarrow> all_accessible E W' = all_accessible E W"
  by (simp add: steady_def all_accessible_def)

lemma reconcile_lease_steady: "reconcile_lease E now l out W = (res, Ws) \<Longrightarrow> steady E W (final W Ws)"
  by (auto simp: reconcile_lease_def Let_def split: sum.splits lease_state.splits prod.splits bool.splits)

lemma reconcile_leases_spec:
  assumes "retention pol now g W" and "\<forall>l \<in> set ls. bt_get (sv_leases W) (l_mount_id l) = Some l"
    and "distinct (map l_mount_id ls)" and "reconcile_leases E now ls out W = (res, Ws)"
  shows "passes pol now g W Ws \<and> steady E W (final W Ws) \<and>
    (res = Inr out' \<longrightarrow> all_accessible E W \<longrightarrow> (\<forall>m. bt_get (sv_leases (final W Ws)) m =
      (case bt_get (sv_leases W) m of None \<Rightarrow> None
       | Some l \<Rightarrow> if l \<in> set ls \<and> l_state l = Preparing then None else Some l)))"
  using assms
proof (induction ls arbitrary: W out res Ws)
  case (Cons l ls)
  obtain res1 Ws1 where R: "reconcile_lease E now l out W = (res1, Ws1)" by force
  define W1 where "W1 = final W Ws1"
  have row: "bt_get (sv_leases W) (l_mount_id l) = Some l" using Cons.prems(2) by simp
  note S = reconcile_lease_passes [OF Cons.prems(1) row R, folded W1_def]
  note st = reconcile_lease_steady [OF R, folded W1_def]
  have d: "(durable pol now g)\<^sup>*\<^sup>* W W1" using passes_last [OF S(1)] by (simp add: W1_def)
  show ?case
  proof (cases res1)
    case (Inl e)
    then show ?thesis using Cons.prems(4) R S(1) st by (auto simp: W1_def)
  next
    case (Inr out1)
    obtain res2 Ws2 where R2: "reconcile_leases E now ls out1 W1 = (res2, Ws2)" by force
    have eq: "res = res2" "Ws = Ws1 @ Ws2" "final W Ws = final W1 Ws2"
      using Cons.prems(4) R Inr R2 by (auto simp: W1_def)
    have new: "l' \<in> set ls \<Longrightarrow> l_mount_id l' \<noteq> l_mount_id l" for l' using Cons.prems(3) by (metis distinct.simps(2) image_eqI list.set_map list.simps(9))
    have "\<forall>l' \<in> set ls. bt_get (sv_leases W1) (l_mount_id l') = Some l'"
      using Cons.prems(2) S(2) new by simp
    from Cons.IH [OF durables_retention [OF d Cons.prems(1)] this _ R2] Cons.prems(3)
    have IH: "passes pol now g W1 Ws2" "steady E W1 (final W1 Ws2)"
      "res2 = Inr out' \<Longrightarrow> all_accessible E W1 \<Longrightarrow> bt_get (sv_leases (final W1 Ws2)) m =
        (case bt_get (sv_leases W1) m of None \<Rightarrow> None
         | Some l \<Rightarrow> if l \<in> set ls \<and> l_state l = Preparing then None else Some l)" for m by auto
    have acc: "blocking_repository E (l_repository l) W \<noteq> Inl e" if "all_accessible E W" for e
      using that retentionD(2) [OF Cons.prems(1) row] by (auto simp: all_accessible_def accessible_def row_shape_def)
    have "bt_get (sv_leases (final W Ws)) m =
      (case bt_get (sv_leases W) m of None \<Rightarrow> None
       | Some k \<Rightarrow> if k \<in> set (l # ls) \<and> l_state k = Preparing then None else Some k)"
      if res: "res = Inr out'" and all: "all_accessible E W" for m
    proof (cases "m = l_mount_id l")
      case False
      then have "bt_get (sv_leases W) m = Some k \<Longrightarrow> k \<noteq> l" for k
        using retentionD(2) [OF Cons.prems(1)] by (auto simp: row_shape_def)
      then show ?thesis
        using IH(3) [of m] S(2) [OF False] res all steady_all [OF st]
        by (auto simp: eq(1,3) split: option.splits)
    next
      case True
      have "l \<notin> set ls" using new by blast
      obtain refs where "blocking_repository E (l_repository l) W = Inr refs"
        using acc [OF all] by (cases "blocking_repository E (l_repository l) W") auto
      then have "bt_get (sv_leases W1) m = (if l_state l = Preparing then None else Some l)"
        using True row S(3) S(4) [OF _ Inr] by simp
      then show ?thesis
        using IH(3) [of m] True row res all steady_all [OF st] \<open>l \<notin> set ls\<close> by (auto simp: eq(1,3))
    qed
    then show ?thesis
      using S(1) IH(1,2) passes_trans [OF d] steady_trans [OF st] by (simp add: eq W1_def)
  qed
qed (auto split: option.split)

lemma drop_orphans_spec:
  assumes "retention pol now g W"
    and "\<And>m l. bt_get (sv_leases W) m = Some l \<Longrightarrow> l_repository l = r \<Longrightarrow> needed pol now g l \<Longrightarrow> l_anchor_ref l \<in> known"
    and "drop_orphans E r known as out W = (res, Ws)"
  shows "passes pol now g W Ws \<and> steady E W (final W Ws) \<and> sv_leases (final W Ws) = sv_leases W \<and>
    (res = Inr out' \<longrightarrow> accessible E W r \<longrightarrow>
      (\<forall>r' n. refs_of (final W Ws) r' n =
        (if r' = r \<and> n \<in> set as \<and> n \<notin> known then None else refs_of W r' n)))"
  using assms
proof (induction as arbitrary: W out res Ws)
  case (Cons a as)
  show ?case
  proof (cases "a \<in> known")
    case True
    then show ?thesis using Cons.IH [OF Cons.prems(1,2)] Cons.prems(3) by auto
  next
    case out: False
    show ?thesis
    proof (cases "\<exists>refs refs' u. blocking_repository E r W = Inr refs \<and> delete_lease_anchor E r a refs = (Inr u, refs')")
      case False
      then have "Ws = [] \<and> (\<exists>e. res = Inl e)" using Cons.prems(3) out by (auto split: sum.splits prod.splits)
      then show ?thesis by auto
    next
      case True
      then obtain refs refs' u where T: "blocking_repository E r W = Inr refs" "delete_lease_anchor E r a refs = (Inr u, refs')"
        by blast
      obtain rp where rp: "bt_get (sv_repos W) r = Some rp" "refs = rp_refs rp" using blocking_refs [OF T(1)] by blast
      have refs': "bt_get refs' = (bt_get (rp_refs rp))(a := None)" using delete_lease_anchor_Inr [OF T(2)] rp(2) by simp
      define W1 where "W1 = with_refs r refs' W"
      obtain res2 Ws2 where R2: "drop_orphans E r known as (out\<lparr>ro_orphaned := ro_orphaned out @ [a]\<rparr>) W1 = (res2, Ws2)" by force
      have eq: "res = res2" "Ws = W1 # Ws2" using Cons.prems(3) out T R2 by (auto simp: W1_def)
      have d: "durable pol now g W W1"
        unfolding W1_def using Cons.prems(2) out by (intro durable_drop_anchor [OF Cons.prems(1) rp(1) refs']) blast
      have W1: "sv_leases W1 = sv_leases W" "steady E W W1"
        "refs_of W1 r' n = (if r' = r \<and> n = a then None else refs_of W r' n)" for r' n
        by (simp_all add: W1_def refs_of_with_refs [OF rp(1)] refs' refs_of_repo [OF rp(1)])
      have IH: "passes pol now g W1 Ws2 \<and> steady E W1 (final W1 Ws2) \<and> sv_leases (final W1 Ws2) = sv_leases W1 \<and>
        (res2 = Inr out' \<longrightarrow> accessible E W1 r \<longrightarrow>
          (\<forall>r' n. refs_of (final W1 Ws2) r' n = (if r' = r \<and> n \<in> set as \<and> n \<notin> known then None else refs_of W1 r' n)))"
        using Cons.IH [OF durable_retention [OF d Cons.prems(1)] _ R2] Cons.prems(2) W1(1) by auto
      have "accessible E W1 r = accessible E W r" by (simp add: W1_def)
      then show ?thesis
        using IH d passes_trans [OF r_into_rtranclp [of "durable pol now g", OF d]] steady_trans [OF W1(2)] out
        by (auto simp: eq W1(1,3))
    qed
  qed
qed simp

definition known_anchors :: "lease_policy \<Rightarrow> int \<Rightarrow> repository_id \<Rightarrow> service \<Rightarrow> string set" where
  "known_anchors pol now r W = set (map l_anchor_ref (protecting_leases now r pol (sv_leases W)))"

lemma known_anchors_iff:
  assumes "retention pol now g W"
  shows "n \<in> known_anchors pol now r W \<longleftrightarrow>
    (\<exists>m l. bt_get (sv_leases W) m = Some l \<and> l_repository l = r \<and> is_protecting now pol l \<and> l_anchor_ref l = n)"
  using bt_get_iff_mem [OF retentionD(1) [OF assms]]
  by (force simp: known_anchors_def protecting_leases_def)

lemma reserved_refs_mem:
  "bt_get (sv_repos W) r = Some rp \<Longrightarrow> n \<in> set (reserved_refs (rp_refs rp)) \<longleftrightarrow> is_reserved_ref n \<and> refs_of W r n \<noteq> None"
  by (auto simp: reserved_refs_def refs_of_def map_of_eq_None_iff)

lemma known_anchors_cong: "sv_leases W' = sv_leases W \<Longrightarrow> known_anchors pol now r W' = known_anchors pol now r W"
  by (simp add: known_anchors_def)

lemma reconcile_repos_spec:
  assumes "retention pol now g W" and "reconcile_repos E pol now rs out W = (res, Ws)"
  shows "passes pol now g W Ws \<and> steady E W (final W Ws) \<and> sv_leases (final W Ws) = sv_leases W \<and>
    (res = Inr out' \<longrightarrow> (\<forall>r n. refs_of (final W Ws) r n =
      (if r \<in> set rs \<and> accessible E W r \<and> is_reserved_ref n \<and> n \<notin> known_anchors pol now r W then None
       else refs_of W r n)))"
  using assms
proof (induction rs arbitrary: W out res Ws)
  case (Cons r rs)
  show ?case
  proof (cases "blocking_repository E r W")
    case (Inl e)
    then have "\<not> accessible E W r" by (simp add: accessible_def)
    then show ?thesis using Cons.IH [OF Cons.prems(1)] Cons.prems(2) Inl by (simp, metis)
  next
    case (Inr refs)
    obtain rp where rp: "bt_get (sv_repos W) r = Some rp" "refs = rp_refs rp" using blocking_refs [OF Inr] by blast
    have acc: "accessible E W r" using Inr by (simp add: accessible_def)
    let ?known = "known_anchors pol now r W"
    obtain res1 Ws1 where D: "drop_orphans E r ?known (reserved_refs refs) out W = (res1, Ws1)" by force
    have "l_anchor_ref l \<in> ?known" if "bt_get (sv_leases W) m = Some l" "l_repository l = r" "needed pol now g l" for m l
      using that known_anchors_iff [OF Cons.prems(1)] by (auto simp: needed_def)
    note S = drop_orphans_spec [OF Cons.prems(1) this D]
    define W1 where "W1 = final W Ws1"
    have d: "(durable pol now g)\<^sup>*\<^sup>* W W1" using S passes_last by (simp add: W1_def)
    have W1: "sv_leases W1 = sv_leases W" "steady E W W1" using S by (auto simp: W1_def)
    show ?thesis
    proof (cases res1)
      case e: (Inl e)
      then show ?thesis using Cons.prems(2) Inr D S W1 by (auto simp: known_anchors_def)
    next
      case o: (Inr out1)
      obtain res2 Ws2 where R: "reconcile_repos E pol now rs out1 W1 = (res2, Ws2)" by force
      have eq: "res = res2" "Ws = Ws1 @ Ws2" "final W Ws = final W1 Ws2"
        using Cons.prems(2) Inr D o R by (auto simp: known_anchors_def W1_def)
      have S1: "refs_of W1 r' n = (if r' = r \<and> is_reserved_ref n \<and> n \<notin> ?known then None else refs_of W r' n)" for r' n
        using S o acc reserved_refs_mem [OF rp(1)] rp(2) by (auto simp: W1_def)
      have IH: "passes pol now g W1 Ws2 \<and> steady E W1 (final W1 Ws2) \<and> sv_leases (final W1 Ws2) = sv_leases W1 \<and>
        (res2 = Inr out' \<longrightarrow> (\<forall>r n. refs_of (final W1 Ws2) r n =
          (if r \<in> set rs \<and> accessible E W1 r \<and> is_reserved_ref n \<and> n \<notin> known_anchors pol now r W1 then None
           else refs_of W1 r n)))"
        by (rule Cons.IH [OF durables_retention [OF d Cons.prems(1)] R])
      have "refs_of (final W Ws) r' n = (if r' \<in> set (r # rs) \<and> accessible E W r' \<and> is_reserved_ref n \<and>
          n \<notin> known_anchors pol now r' W then None else refs_of W r' n)" if "res = Inr out'" for r' n
        using IH that acc W1(2) known_anchors_cong [OF W1(1)]
        by (auto simp: eq(1,3) S1 steady_def)
      then show ?thesis
        using S IH passes_trans [OF d] steady_trans [OF W1(2)] W1(1) by (simp add: eq(2) W1_def)
    qed
  qed
qed simp

text \<open>
  A completed pass over services whose repositories can all be opened: no \<open>Preparing\<close> row is left, the
  other rows are as they were, and the reserved refs that remain are the anchors of protecting leases.
\<close>

lemma reconcile_spec:
  assumes ok: "retention pol now g W" and R: "reconcile E pol now W = (res, Ws)"
  shows "passes pol now g W Ws"
    and "\<lbrakk>res = Inr out; all_accessible E W\<rbrakk> \<Longrightarrow> bt_get (sv_leases (final W Ws)) m =
      (case bt_get (sv_leases W) m of None \<Rightarrow> None | Some l \<Rightarrow> if l_state l = Preparing then None else Some l)"
    and "\<lbrakk>res = Inr out; all_accessible E W; refs_of (final W Ws) r n \<noteq> None; is_reserved_ref n\<rbrakk> \<Longrightarrow>
      \<exists>m l. bt_get (sv_leases (final W Ws)) m = Some l \<and> l_repository l = r \<and> is_protecting now pol l \<and> l_anchor_ref l = n"
proof -
  let ?ls = "unreconciled_leases (sv_leases W)"
  note rows = rows_listed [OF ok]
  have sub: "set ?ls \<subseteq> set (map snd (sv_leases W))" by (auto simp: unreconciled_leases_def)
  have dist: "distinct (map l_mount_id ?ls)"
    unfolding unreconciled_leases_def by (rule distinct_map_filter) (use rows(2) in simp)
  obtain res1 Ws1 where R1: "reconcile_leases E now ?ls \<lparr>ro_abandoned = [], ro_repaired = [], ro_orphaned = []\<rparr> W = (res1, Ws1)"
    by force
  define W1 where "W1 = final W Ws1"
  have S: "passes pol now g W Ws1 \<and> steady E W W1 \<and> (res1 = Inr out \<longrightarrow> all_accessible E W \<longrightarrow> (\<forall>m. bt_get (sv_leases W1) m =
      (case bt_get (sv_leases W) m of None \<Rightarrow> None
       | Some l \<Rightarrow> if l \<in> set ?ls \<and> l_state l = Preparing then None else Some l)))" for out
    unfolding W1_def by (rule reconcile_leases_spec [OF ok _ dist R1]) (use rows(1) sub in blast)
  have d: "(durable pol now g)\<^sup>*\<^sup>* W W1" using S passes_last by (simp add: W1_def)
  have ok1: "retention pol now g W1" using durables_retention [OF d ok] .
  have "passes pol now g W Ws \<and> (res = Inr out \<longrightarrow> all_accessible E W \<longrightarrow>
    bt_get (sv_leases (final W Ws)) m =
      (case bt_get (sv_leases W) m of None \<Rightarrow> None | Some l \<Rightarrow> if l_state l = Preparing then None else Some l) \<and>
    (refs_of (final W Ws) r n \<noteq> None \<longrightarrow> is_reserved_ref n \<longrightarrow>
      (\<exists>m l. bt_get (sv_leases (final W Ws)) m = Some l \<and> l_repository l = r \<and> is_protecting now pol l \<and> l_anchor_ref l = n)))"
  proof (cases res1)
    case (Inl e)
    then have "res = Inl e" "Ws = Ws1" using R R1 by (simp_all add: reconcile_def)
    then show ?thesis using S by simp
  next
    case (Inr out1)
    obtain res2 Ws2 where R2: "reconcile_repos E pol now (map fst (sv_repos W1)) out1 W1 = (res2, Ws2)" by force
    have eq: "res = res2" "Ws = Ws1 @ Ws2" "final W Ws = final W1 Ws2"
      using R R1 R2 Inr by (auto simp: reconcile_def Let_def W1_def)
    note T = reconcile_repos_spec [OF ok1 R2, of out]
    have row: "l \<in> set ?ls" if "bt_get (sv_leases W) m = Some l" "l_state l = Preparing" for l
      using map_of_SomeD [OF that(1)] that(2) by (force simp: unreconciled_leases_def)
    have "\<exists>m l. bt_get (sv_leases W1) m = Some l \<and> l_repository l = r \<and> is_protecting now pol l \<and> l_anchor_ref l = n"
      if res: "res2 = Inr out" and all: "all_accessible E W" and ref: "refs_of (final W1 Ws2) r n \<noteq> None" "is_reserved_ref n"
    proof -
      have "steady E W1 (final W1 Ws2)" using T by blast
      moreover have "bt_get (sv_repos (final W1 Ws2)) r \<noteq> None" using ref(1) by (auto simp: refs_of_def split: option.splits)
      ultimately have "bt_get (sv_repos W1) r \<noteq> None" by (simp add: steady_def)
      moreover from this have "r \<in> set (map fst (sv_repos W1))" by (auto simp: map_of_eq_None_iff)
      moreover have "all_accessible E W1" using all steady_all S by blast
      then have "accessible E W1 r" using calculation(1) unfolding all_accessible_def by blast
      ultimately have "n \<in> known_anchors pol now r W1" using T res ref by (auto split: if_splits)
      then show ?thesis using known_anchors_iff [OF ok1] by blast
    qed
    then show ?thesis
      using S [of out1] T row passes_trans [OF d] Inr by (auto simp: eq(1,3)) (auto simp: eq(2) split: option.splits)
  qed
  then show "passes pol now g W Ws"
    and "\<lbrakk>res = Inr out; all_accessible E W\<rbrakk> \<Longrightarrow> bt_get (sv_leases (final W Ws)) m =
      (case bt_get (sv_leases W) m of None \<Rightarrow> None | Some l \<Rightarrow> if l_state l = Preparing then None else Some l)"
    and "\<lbrakk>res = Inr out; all_accessible E W; refs_of (final W Ws) r n \<noteq> None; is_reserved_ref n\<rbrakk> \<Longrightarrow>
      \<exists>m l. bt_get (sv_leases (final W Ws)) m = Some l \<and> l_repository l = r \<and> is_protecting now pol l \<and> l_anchor_ref l = n"
    by blast+
qed

end
