(* ===== verification/Gfs_Retention.thy ===== *)
theory Gfs_Retention
  imports Gfs_LeaseProofs
begin

text \<open>
  The lease service as a state machine (\<open>service_reach\<close>) and its properties: granted commits stay
  anchored through crashes, live leases survive the sweep, abandoned ones are collected, and what a
  reconciliation pass leaves behind.
\<close>

section \<open>The service as a state machine\<close>

text \<open>
  The states of a service with the grants its clients hold. Every operation may stop after any of its
  durable writes (a crash, followed later by reconciliation); the clock does not go back; mount ids are
  fresh (they are drawn at random); and the rest of the system may change refs and add repositories but
  not touch an existing lease anchor.
\<close>

definition elsewhere :: "service \<Rightarrow> service \<Rightarrow> bool" where
  "elsewhere W W' \<longleftrightarrow> sv_leases W' = sv_leases W \<and> (\<forall>r. bt_get (sv_repos W) r \<noteq> None \<longrightarrow> bt_get (sv_repos W') r \<noteq> None) \<and>
     (\<forall>r m. refs_of W r (lease_anchor_ref m) \<noteq> None \<longrightarrow> refs_of W' r (lease_anchor_ref m) = refs_of W r (lease_anchor_ref m))"

inductive service_reach :: "lease_policy \<Rightarrow> int \<Rightarrow> mount_id set \<Rightarrow> service \<Rightarrow> bool" for pol where
  sr_start: "valid_clock pol now \<Longrightarrow> sv_leases W = [] \<Longrightarrow> service_reach pol now {} W"
| sr_time: "service_reach pol now g W \<Longrightarrow> now \<le> now' \<Longrightarrow> valid_clock pol now' \<Longrightarrow> service_reach pol now' g W"
| sr_grant: "service_reach pol now g W \<Longrightarrow> m \<notin> g \<Longrightarrow>
    create_mount E pol now first m r sel subject req W = (Inr grant, Ws) \<Longrightarrow> service_reach pol now (insert m g) (final W Ws)"
| sr_create: "service_reach pol now g W \<Longrightarrow> m \<notin> g \<Longrightarrow>
    W' \<in> set (snd (create_mount E pol now first m r sel subject req W)) \<Longrightarrow> service_reach pol now g W'"
| sr_renew: "service_reach pol now g W \<Longrightarrow> W' \<in> set (snd (renew_mount E pol now m req W)) \<Longrightarrow> service_reach pol now g W'"
| sr_release: "service_reach pol now g W \<Longrightarrow> service_reach pol now g (snd (release_mount now m W))"
| sr_sweep: "service_reach pol now g W \<Longrightarrow> W' \<in> set (snd (sweep E pol now W)) \<Longrightarrow> service_reach pol now g W'"
| sr_reconcile: "service_reach pol now g W \<Longrightarrow> W' \<in> set (snd (reconcile E pol now W)) \<Longrightarrow> service_reach pol now g W'"
| sr_failure: "service_reach pol now g W \<Longrightarrow>
    service_reach pol now g (W\<lparr>sv_leases := snd (record_renewal_failure m (sv_leases W))\<rparr>)"
| sr_elsewhere: "service_reach pol now g W \<Longrightarrow> elsewhere W W' \<Longrightarrow> service_reach pol now g W'"

lemma retention_passes: "retention pol now g W \<Longrightarrow> passes pol now g W Ws \<Longrightarrow> W' \<in> set Ws \<Longrightarrow> retention pol now g W'"
  using durables_retention by (auto simp: passes_def)

lemma retention_elsewhere:
  assumes ok: "retention pol now g W" and e: "elsewhere W W'"
  shows "retention pol now g W'"
proof -
  have "row_shape pol now g W' m l \<and> (needed pol now g l \<longrightarrow> anchored W' l)" if "bt_get (sv_leases W) m = Some l" for m l
    using retentionD(2,3) [OF ok that] e by (auto simp: elsewhere_def row_shape_def anchored_def)
  then show ?thesis using retentionD(1) [OF ok] e by (simp add: retention_def elsewhere_def)
qed

lemma record_failure_durable:
  "durable pol now g W (W\<lparr>sv_leases := snd (record_renewal_failure m (sv_leases W))\<rparr>)"
  using write_failure [of W m _ pol now g] durable_refl [of pol now g W]
  by (auto simp: record_renewal_failure_def Let_def split: option.splits)

lemma service_reach_retention: "service_reach pol now g W \<Longrightarrow> valid_clock pol now \<and> retention pol now g W"
proof (induction rule: service_reach.induct)
  case (sr_start now W)
  then show ?case by (simp add: retention_def)
next
  case (sr_time now g W now')
  then show ?case using retention_later by blast
next
  case (sr_grant now g W m E first r sel subject req grant Ws)
  note P = create_mount_passes [OF conjunct2 [OF sr_grant.IH] sr_grant(2) conjunct1 [OF sr_grant.IH] sr_grant(3)]
  then have "retention pol now g (final W Ws)"
    using passes_last durables_retention sr_grant.IH by blast
  then show ?case using P retention_grant sr_grant.IH by blast
next
  case (sr_create now g W m W' E first r sel subject req)
  then show ?case
    using create_mount_passes [OF _ sr_create(2) _ prod.collapse [symmetric]] retention_passes by blast
next
  case (sr_renew now g W W' E m req)
  then show ?case using renew_mount_passes [OF _ _ prod.collapse [symmetric]] retention_passes by blast
next
  case (sr_release now g W m)
  then show ?case using release_mount_passes [of pol now g W m] retention_passes by (meson list.set_intros(1))
next
  case (sr_sweep now g W W' E)
  then show ?case using sweep_passes retention_passes by blast
next
  case (sr_reconcile now g W W' E)
  then show ?case using reconcile_spec(1) [OF _ prod.collapse [symmetric]] retention_passes by blast
next
  case (sr_failure now g W m)
  then show ?case using record_failure_durable durable_retention by blast
next
  case (sr_elsewhere now g W W')
  then show ?case using retention_elsewhere by blast
qed

section \<open>Properties\<close>

text \<open>
  C23. A commit that was granted to a client stays reachable: in every state of the service, also one a
  crash left between two durable writes, a lease that is active or whose grant was returned, and that
  still protects its commit, has its anchor ref at exactly that commit.
\<close>
theorem granted_commit_anchored:
  assumes "service_reach pol now g W" and "get_lease m (sv_leases W) = Some l"
    and "l_state l = Active \<or> m \<in> g" and "is_protecting now pol l"
  shows "refs_of W (l_repository l) (lease_anchor_ref m) = Some (l_commit l)"
proof -
  have ok: "retention pol now g W" using service_reach_retention [OF assms(1)] by blast
  have row: "bt_get (sv_leases W) m = Some l" using assms(2) by (simp add: get_lease_def)
  then have "needed pol now g l" using assms(3,4) retentionD(2) [OF ok row] by (auto simp: needed_def held_def row_shape_def)
  then show ?thesis using retentionD(2,3) [OF ok row] by (simp add: anchored_def row_shape_def)
qed


text \<open>A service with one repository, and one mount created in it.\<close>

definition demo_commit :: object_id where
  "demo_commit = ObjectId Sha1 (replicate 20 (CHR ''c''))"

definition demo_env :: git_env where
  "demo_env = \<lparr>ge_opens = (\<lambda>_. True), ge_has_commit = (\<lambda>_ _. True), ge_faulty = (\<lambda>_ _. False),
     ge_resolve = (\<lambda>_ _. Inr \<lparr>rv_commit = demo_commit, rv_tree = demo_commit, rv_ref_name = None,
       rv_snapshot_time = MIN_SUPPORTED\<rparr>)\<rparr>"

definition demo_service :: service where
  "demo_service = \<lparr>sv_leases = [],
     sv_repos = [(''r'', \<lparr>rp_state = RepoActive, rp_open = True,
       rp_refs = [(''refs/gfs/work/alice/topic'', demo_commit)]\<rparr>)],
     sv_commits = Map.empty\<rparr>"

definition demo_created :: "(error_code + mount_grant) \<times> service list" where
  "demo_created = create_mount demo_env adr_0006 1000 MIN_SUPPORTED ''m1'' ''r'' (ShortName ''main'') ''alice'' None demo_service"

definition demo_mounted :: service where
  "demo_mounted = final demo_service (snd demo_created)"

lemma demo_created_ok: "\<not> isl (fst demo_created)"
  by code_simp

lemma demo_clock: "valid_clock adr_0006 1000"
  by (simp add: valid_clock_def adr_0006_def)

lemma demo_reach: "service_reach adr_0006 1000 {''m1''} demo_mounted"
proof -
  have 0: "service_reach adr_0006 1000 {} demo_service"
    by (rule sr_start [OF demo_clock]) (simp add: demo_service_def)
  obtain grant where "demo_created = (Inr grant, snd demo_created)"
    using demo_created_ok by (metis prod.collapse sum.collapse(2))
  then show ?thesis
    using sr_grant [OF 0, of "''m1''" demo_env MIN_SUPPORTED "''r''" "ShortName ''main''" "''alice''" None grant]
    by (simp add: demo_created_def demo_mounted_def)
qed

definition demo_lease :: lease where
  "demo_lease = the (get_lease ''m1'' (sv_leases demo_mounted))"

lemma demo_lease_eval:
  "get_lease ''m1'' (sv_leases demo_mounted) = Some demo_lease"
  "l_state demo_lease = Active" "l_repository demo_lease = ''r''" "l_commit demo_lease = demo_commit"
  "l_created_at demo_lease = 1000" "l_expires_at demo_lease = 2800"
  by code_simp+

theorem granted_commit_anchored_witness:
  "refs_of demo_mounted ''r'' (lease_anchor_ref ''m1'') = Some demo_commit"
  using granted_commit_anchored [OF demo_reach demo_lease_eval(1)] demo_lease_eval
  by (simp add: is_protecting_def)

section \<open>What the sweep keeps and removes\<close>

lemma prune_one_row:
  "W' \<in> set (prune_one E (m', a) W) \<Longrightarrow> m \<noteq> m' \<or> bt_get (sv_leases W) m = None \<Longrightarrow>
   bt_get (sv_leases W') m = bt_get (sv_leases W) m"
  by (cases rule: prune_one_cases [of E m' a W]) auto

lemma prune_one_refs:
  "refs_of W r n = None \<Longrightarrow> refs_of (final W (prune_one E p W)) r n = None"
  by (cases p; cases rule: prune_one_cases [of E "fst p" "snd p" W])
    (auto simp: refs_of_with_refs refs_of_repo)

lemma prune_one_steady: "steady E W (final W (prune_one E p W))"
  by (cases p; cases rule: prune_one_cases [of E "fst p" "snd p" W]) auto

lemma final_prune_one_row:
  "m \<noteq> m' \<or> bt_get (sv_leases W) m = None \<Longrightarrow>
   bt_get (sv_leases (final W (prune_one E (m', a) W))) m = bt_get (sv_leases W) m"
  by (cases rule: prune_one_cases [of E m' a W]) auto

lemma prune_all_row:
  "W' \<in> set (prune_all E ps W) \<Longrightarrow> m \<notin> fst ` set ps \<Longrightarrow> bt_get (sv_leases W') m = bt_get (sv_leases W) m"
proof (induction ps arbitrary: W)
  case (Cons p ps)
  obtain m' a where p: "p = (m', a)" by force
  then have ne: "m \<noteq> m'" using Cons.prems(2) by auto
  from Cons.prems(1) consider "W' \<in> set (prune_one E p W)" | "W' \<in> set (prune_all E ps (final W (prune_one E p W)))"
    by (auto simp: Let_def)
  then show ?case
    by cases (use Cons ne prune_one_row final_prune_one_row p in auto)
qed simp

lemma prune_all_gone:
  "bt_get (sv_leases W) m = None \<Longrightarrow> refs_of W r n = None \<Longrightarrow>
   bt_get (sv_leases (final W (prune_all E ps W))) m = None \<and> refs_of (final W (prune_all E ps W)) r n = None"
proof (induction ps arbitrary: W)
  case (Cons p ps)
  obtain m' a where p: "p = (m', a)" by force
  have "bt_get (sv_leases (final W (prune_one E p W))) m = None" "refs_of (final W (prune_one E p W)) r n = None"
    using Cons.prems final_prune_one_row [of m m' W E a] prune_one_refs by (simp_all add: p)
  then show ?case using Cons.IH by (simp add: Let_def)
qed simp

lemma prune_one_removes:
  assumes "bt_get (sv_leases W) m = Some l" and "accessible E W (l_repository l)"
    and "\<not> ge_faulty E (l_repository l) a" and "is_reserved_ref a"
  shows "bt_get (sv_leases (final W (prune_one E (m, a) W))) m = None"
    and "refs_of (final W (prune_one E (m, a) W)) (l_repository l) a = None"
proof -
  obtain refs where b: "blocking_repository E (l_repository l) W = Inr refs" using assms(2) by (auto simp: accessible_def)
  obtain rp where rp: "bt_get (sv_repos W) (l_repository l) = Some rp" using blocking_refs [OF b] by blast
  have P: "prune_one E (m, a) W = (let W1 = with_refs (l_repository l) (bt_remove a refs) W
      in [W1, W1\<lparr>sv_leases := bt_remove m (sv_leases W1)\<rparr>])"
    using assms b by (simp add: prune_one_def get_lease_def delete_lease_anchor_def forget_lease_def)
  show "bt_get (sv_leases (final W (prune_one E (m, a) W))) m = None"
    and "refs_of (final W (prune_one E (m, a) W)) (l_repository l) a = None"
    by (simp_all add: P Let_def refs_of_with_refs [OF rp])
qed

lemma prune_all_removes:
  assumes "bt_get (sv_leases W) m = Some l" and "accessible E W (l_repository l)"
    and "\<not> ge_faulty E (l_repository l) a" and "is_reserved_ref a"
    and "(m, a) \<in> set ps" and "\<And>a'. (m, a') \<in> set ps \<Longrightarrow> a' = a"
  shows "bt_get (sv_leases (final W (prune_all E ps W))) m = None \<and>
    refs_of (final W (prune_all E ps W)) (l_repository l) a = None"
  using assms
proof (induction ps arbitrary: W)
  case (Cons p ps)
  obtain m' a' where p: "p = (m', a')" by force
  define W1 where "W1 = final W (prune_one E p W)"
  have "bt_get (sv_leases (final W1 (prune_all E ps W1))) m = None \<and>
    refs_of (final W1 (prune_all E ps W1)) (l_repository l) a = None"
  proof (cases "m' = m")
    case True
    then have "a' = a" using Cons.prems(6) p by simp
    then show ?thesis
      using prune_one_removes [OF Cons.prems(1-4)] True by (intro prune_all_gone) (simp_all add: W1_def p)
  next
    case False
    then have "bt_get (sv_leases W1) m = Some l" using Cons.prems(1) final_prune_one_row by (simp add: W1_def p)
    moreover have "accessible E W1 (l_repository l)"
      using prune_one_steady [of E W p] Cons.prems(2) by (simp add: W1_def steady_def)
    moreover have "(m, a) \<in> set ps" using Cons.prems(5) False p by auto
    ultimately show ?thesis
      by (intro Cons.IH Cons.prems(3,4)) (use Cons.prems(6) in simp_all)
  qed
  then show ?case by (simp add: Let_def W1_def)
qed simp

lemma sweep_states:
  assumes "sweep_leases now pol (sv_leases W) = (out, L)"
  shows "snd (sweep E pol now W) = W\<lparr>sv_leases := L\<rparr> # prune_all E (so_prunable out) (W\<lparr>sv_leases := L\<rparr>)"
  using assms by (simp add: sweep_def Let_def)

text \<open>A row that is not prunable is swept and stays; one past its prune delay is removed.\<close>

lemma sweep_keeps:
  assumes ok: "retention pol now g W" and row: "bt_get (sv_leases W) m = Some l" and np: "\<not> prunable now pol l"
    and W': "W' \<in> set (snd (sweep E pol now W))"
  shows "bt_get (sv_leases W') m = Some (swept now pol l)"
proof -
  obtain out L where S: "sweep_leases now pol (sv_leases W) = (out, L)" by force
  note spec = sweep_leases_spec [OF ok S]
  have L: "bt_get L m = Some (swept now pol l)" using spec(2) [of m] row by simp
  have "m \<notin> fst ` set (so_prunable out)" using spec(3) [of m] row np by auto
  then show ?thesis using W' L prune_all_row [of W' E "so_prunable out" "W\<lparr>sv_leases := L\<rparr>" m] by (auto simp: sweep_states [OF S])
qed

lemma prune_all_steady: "steady E W (final W (prune_all E ps W))"
proof (induction ps arbitrary: W)
  case (Cons p ps)
  show ?case using steady_trans [OF prune_one_steady Cons] by (simp add: Let_def)
qed simp

lemma sweep_steady: "steady E W (final W (snd (sweep E pol now W)))"
proof -
  obtain out L where S: "sweep_leases now pol (sv_leases W) = (out, L)" by force
  show ?thesis
    unfolding sweep_states [OF S] using steady_trans [OF steady_simps(3) prune_all_steady] by simp
qed

lemma sweep_removes:
  assumes ok: "retention pol now g W" and row: "bt_get (sv_leases W) m = Some l" and p: "prunable now pol l"
    and acc: "accessible E W (l_repository l)" "\<not> ge_faulty E (l_repository l) (lease_anchor_ref m)"
  shows "bt_get (sv_leases (final W (snd (sweep E pol now W)))) m = None \<and>
    refs_of (final W (snd (sweep E pol now W))) (l_repository l) (lease_anchor_ref m) = None"
proof -
  obtain out L where S: "sweep_leases now pol (sv_leases W) = (out, L)" by force
  note spec = sweep_leases_spec [OF ok S]
  have a: "l_anchor_ref l = lease_anchor_ref m" using retentionD(2) [OF ok row] by (simp add: row_shape_def)
  have "\<not> overdue now pol l" using p by (auto simp: prunable_def overdue_def)
  then have L: "bt_get L m = Some l" using spec(2) [of m] row by (simp add: swept_def)
  have ps: "(m, a') \<in> set (so_prunable out) \<longleftrightarrow> a' = lease_anchor_ref m" for a'
    using spec(3) [of m a'] row p a by simp
  have W1: "bt_get (sv_leases (W\<lparr>sv_leases := L\<rparr>)) m = Some l" "accessible E (W\<lparr>sv_leases := L\<rparr>) (l_repository l)"
    using L acc(1) by simp_all
  have mem: "(m, lease_anchor_ref m) \<in> set (so_prunable out)" using ps by blast
  have only: "a' = lease_anchor_ref m" if "(m, a') \<in> set (so_prunable out)" for a' using that ps by blast
  show ?thesis
    unfolding sweep_states [OF S] final_simps(2)
    by (rule prune_all_removes [OF W1 acc(2) lease_anchor_reserved mem only])
qed

lemma sweep_gone:
  assumes ok: "retention pol now g W" and "bt_get (sv_leases W) m = None" "refs_of W r n = None"
  shows "bt_get (sv_leases (final W (snd (sweep E pol now W)))) m = None \<and>
    refs_of (final W (snd (sweep E pol now W))) r n = None"
proof -
  obtain out L where S: "sweep_leases now pol (sv_leases W) = (out, L)" by force
  have "bt_get L m = None" using sweep_leases_spec(2) [OF ok S, of m] assms(2) by simp
  then show ?thesis
    using prune_all_gone [of "W\<lparr>sv_leases := L\<rparr>" m r n E "so_prunable out"] assms(3) by (simp add: sweep_states [OF S])
qed

text \<open>
  C24. The sweep never takes a lease whose grace has not run out: in every state the sweep passes
  through, the row is as it was, and an active lease keeps its anchor.
\<close>
theorem sweep_spares_live_lease:
  assumes reach: "service_reach pol now g W" and row: "get_lease m (sv_leases W) = Some l"
    and live: "is_reachability_root (l_state l)" "now \<le> isat_add (l_expires_at l) (u64_as_i64 (renewal_grace pol))"
    and W': "W' \<in> set (snd (sweep E pol now W))"
  shows "get_lease m (sv_leases W') = Some l \<and>
    (l_state l = Active \<longrightarrow> refs_of W' (l_repository l) (lease_anchor_ref m) = Some (l_commit l))"
proof -
  have ok: "retention pol now g W" using service_reach_retention [OF reach] by blast
  have keep: "bt_get (sv_leases W') m = Some l"
    using sweep_keeps [OF ok _ _ W'] row live by (simp add: get_lease_def swept_def overdue_def prunable_def)
  moreover have "anchored W' l" if "l_state l = Active"
    using retentionD(3) [OF retention_passes [OF ok sweep_passes [OF ok] W'] keep] that
    by (simp add: needed_def held_def is_protecting_def)
  ultimately show ?thesis
    using retentionD(2) [OF retention_passes [OF ok sweep_passes [OF ok] W'] keep]
    by (simp add: get_lease_def anchored_def row_shape_def)
qed

lemma demo_grace: "1000 \<le> isat_add (l_expires_at demo_lease) (u64_as_i64 (renewal_grace adr_0006))"
  by (simp add: demo_lease_eval isat_add_def adr_0006_def u64_as_i64_def i64_min_def i64_max_def)

lemma sweep_final_mem: "final W (snd (sweep E pol now W)) \<in> set (snd (sweep E pol now W))"
  by (simp add: sweep_def Let_def split_beta final_def)

theorem sweep_spares_live_lease_witness:
  "get_lease ''m1'' (sv_leases (final demo_mounted (snd (sweep demo_env adr_0006 1000 demo_mounted)))) = Some demo_lease"
  using sweep_spares_live_lease [OF demo_reach demo_lease_eval(1) _ demo_grace sweep_final_mem] demo_lease_eval(2)
  by simp

text \<open>
  C25. An abandoned lease is collected, whoever keeps renewing it: a sweep after the horizon of its life
  and the grace makes it terminal, and a sweep a prune delay later removes its row and its anchor, as
  long as the repository can be opened and the anchor ref can be deleted.
\<close>
theorem abandoned_lease_collected:
  assumes reach: "service_reach pol now g W" and row: "get_lease m (sv_leases W) = Some l"
    and t1: "now \<le> t1" "l_created_at l + horizon pol + int (renewal_grace pol) < t1"
    and t2: "t1 + int (prune_delay pol) \<le> t2" "valid_clock pol t2"
    and repo: "accessible E W (l_repository l)" "\<not> ge_faulty E (l_repository l) (lease_anchor_ref m)"
    and W1: "W1 = final W (snd (sweep E pol t1 W))"
  shows "get_lease m (sv_leases (final W1 (snd (sweep E pol t2 W1)))) = None \<and>
    refs_of (final W1 (snd (sweep E pol t2 W1))) (l_repository l) (lease_anchor_ref m) = None"
proof -
  have ok: "retention pol now g W" using service_reach_retention [OF reach] by blast
  have r: "bt_get (sv_leases W) m = Some l" using row by (simp add: get_lease_def)
  note shape = retentionD(2) [OF ok r, unfolded row_shape_def]
  have ok1: "retention pol t1 g W" using retention_later [OF ok t1(1)] .
  have "retention pol t1 g W1"
    unfolding W1 by (rule retention_passes [OF ok1 sweep_passes [OF ok1] sweep_final_mem])
  then have ok2: "retention pol t2 g W1" by (rule retention_later) (use t2(1) in simp)
  show ?thesis
  proof (cases "prunable t1 pol l")
    case True
    have "bt_get (sv_leases W1) m = None" "refs_of W1 (l_repository l) (lease_anchor_ref m) = None"
      using sweep_removes [OF ok1 r True repo] by (simp_all add: W1)
    from sweep_gone [OF ok2 this] show ?thesis by (simp add: get_lease_def)
  next
    case False
    define l' where "l' = swept t1 pol l"
    have row1: "bt_get (sv_leases W1) m = Some l'"
      unfolding W1 l'_def by (rule sweep_keeps [OF ok1 r False sweep_final_mem])
    have grace: "u64_as_i64 (renewal_grace pol) = int (renewal_grace pol)" "u64_as_i64 (prune_delay pol) = int (prune_delay pol)"
      using t2(2) by (simp_all add: valid_clock_def u64_as_i64_small)
    have "overdue t1 pol l" if "is_reachability_root (l_state l)"
      using that shape t1(2) by (auto simp: overdue_def grace isat_add_def i64_min_def horizon_def)
    then obtain t where "\<not> is_reachability_root (l_state l')" "l_terminal_at l' = Some t" "t \<le> t1"
      using shape t1(1) by (cases "is_reachability_root (l_state l)") (auto simp: l'_def swept_def overdue_def)
    then have "prunable t2 pol l'"
      using t2 by (auto simp: prunable_def grace isat_add_def i64_min_def valid_clock_def)
    moreover have "l_repository l' = l_repository l" by (simp add: l'_def swept_def)
    ultimately show ?thesis
      using sweep_removes [OF ok2 row1, of E] repo sweep_steady [of E W pol t1]
      by (simp add: W1 get_lease_def steady_def)
  qed
qed

theorem abandoned_lease_collected_witness:
  "let W1 = final demo_mounted (snd (sweep demo_env adr_0006 100000 demo_mounted));
       W2 = final W1 (snd (sweep demo_env adr_0006 200000 W1))
   in get_lease ''m1'' (sv_leases W2) = None \<and> refs_of W2 ''r'' (lease_anchor_ref ''m1'') = None"
proof -
  have "accessible demo_env demo_mounted ''r''"
  proof -
    have "\<not> isl (blocking_repository demo_env ''r'' demo_mounted)" by code_simp
    then show ?thesis unfolding accessible_def by (metis sum.collapse(2))
  qed
  then show ?thesis
    using abandoned_lease_collected [OF demo_reach demo_lease_eval(1), of 100000 200000 demo_env] demo_lease_eval
    by (simp add: horizon_def ttl_cap_def adr_0006_def valid_clock_def demo_env_def Let_def)
qed

text \<open>
  C26. What restart reconciliation leaves, when it completes on repositories that can be opened: no lease
  in preparation, every other lease as it was, every active lease anchored at its commit, and under the
  reserved namespace nothing but the anchors of leases that still protect their commit.
\<close>
theorem reconcile_result:
  assumes reach: "service_reach pol now g W" and R: "reconcile E pol now W = (Inr out, Ws)" and acc: "all_accessible E W"
  shows "get_lease m (sv_leases (final W Ws)) =
      (case get_lease m (sv_leases W) of None \<Rightarrow> None | Some l \<Rightarrow> if l_state l = Preparing then None else Some l) \<and>
    (get_lease m (sv_leases (final W Ws)) = Some l \<and> l_state l = Active \<longrightarrow>
      refs_of (final W Ws) (l_repository l) (lease_anchor_ref m) = Some (l_commit l)) \<and>
    (refs_of (final W Ws) r n \<noteq> None \<and> is_reserved_ref n \<longrightarrow>
      (\<exists>m l. get_lease m (sv_leases (final W Ws)) = Some l \<and> l_repository l = r \<and> is_protecting now pol l \<and>
        n = lease_anchor_ref m))"
proof -
  have ok: "retention pol now g W" using service_reach_retention [OF reach] by blast
  note spec = reconcile_spec [OF ok R]
  have ok': "retention pol now g (final W Ws)" using durables_retention [OF passes_last [OF spec(1)] ok] .
  have "refs_of (final W Ws) (l_repository l) (lease_anchor_ref m) = Some (l_commit l)"
    if "get_lease m (sv_leases (final W Ws)) = Some l" "l_state l = Active"
    using retentionD(2,3) [OF ok', of m l] that
    by (simp add: get_lease_def needed_def held_def is_protecting_def anchored_def row_shape_def)
  moreover have "\<exists>m l. get_lease m (sv_leases (final W Ws)) = Some l \<and> l_repository l = r \<and> is_protecting now pol l \<and>
      n = lease_anchor_ref m" if "refs_of (final W Ws) r n \<noteq> None" "is_reserved_ref n"
    using spec(3) [OF refl acc that] retentionD(2) [OF ok'] by (auto simp: get_lease_def row_shape_def)
  ultimately show ?thesis using spec(2) [OF refl acc] by (simp add: get_lease_def)
qed

lemma demo_accessible: "all_accessible demo_env demo_mounted"
proof -
  have "list_all (\<lambda>r. \<not> isl (blocking_repository demo_env r demo_mounted)) (map fst (sv_repos demo_mounted))" by code_simp
  then have "\<forall>r. bt_get (sv_repos demo_mounted) r \<noteq> None \<longrightarrow> \<not> isl (blocking_repository demo_env r demo_mounted)"
    by (force simp: list_all_iff dest: map_of_SomeD)
  then show ?thesis unfolding all_accessible_def accessible_def by (metis sum.collapse(2))
qed

definition demo_reconciled :: "(error_code + reconcile_outcome) \<times> service list" where
  "demo_reconciled = reconcile demo_env adr_0006 1000 demo_mounted"

lemma demo_reconciled_ok: "\<exists>out. reconcile demo_env adr_0006 1000 demo_mounted = (Inr out, snd demo_reconciled)"
proof -
  have "\<not> isl (fst demo_reconciled)" by code_simp
  then show ?thesis by (metis demo_reconciled_def prod.collapse sum.collapse(2))
qed

theorem reconcile_result_witness:
  "get_lease ''m1'' (sv_leases (final demo_mounted (snd demo_reconciled))) = Some demo_lease"
proof -
  obtain out where "reconcile demo_env adr_0006 1000 demo_mounted = (Inr out, snd demo_reconciled)"
    using demo_reconciled_ok by blast
  then show ?thesis using reconcile_result [OF demo_reach _ demo_accessible] demo_lease_eval by fastforce
qed

text \<open>
  C40. Reconciliation also deletes every work branch: the pass that removes anchors without a lease lists
  the whole reserved namespace, where the unpushed branches of \<open>work_ref\<close> live too.
\<close>
theorem reconcile_deletes_work_branches:
  assumes "service_reach pol now g W" and "reconcile E pol now W = (Inr out, Ws)" and "all_accessible E W"
  shows "refs_of (final W Ws) r (work_ref subject branch) = None"
proof (rule ccontr)
  assume "refs_of (final W Ws) r (work_ref subject branch) \<noteq> None"
  moreover have "is_reserved_ref (work_ref subject branch)"
    by (simp add: work_ref_def work_ref_root_def is_reserved_ref_def Let_def)
  ultimately obtain m where "work_ref subject branch = lease_anchor_ref m"
    using reconcile_spec(3) [OF _ assms(2) refl assms(3)] service_reach_retention [OF assms(1)]
      retentionD(2) [OF durables_retention [OF passes_last [OF reconcile_spec(1) [OF _ assms(2)]]]]
    by (metis row_shape_def)
  then show False by (simp add: work_ref_def work_ref_root_def lease_anchor_ref_def Let_def)
qed

theorem reconcile_deletes_work_branches_witness:
  "refs_of demo_mounted ''r'' (work_ref ''alice'' ''topic'') = Some demo_commit \<and>
   refs_of (final demo_mounted (snd demo_reconciled)) ''r'' (work_ref ''alice'' ''topic'') = None"
proof
  show "refs_of demo_mounted ''r'' (work_ref ''alice'' ''topic'') = Some demo_commit" by code_simp
  obtain out where "reconcile demo_env adr_0006 1000 demo_mounted = (Inr out, snd demo_reconciled)"
    using demo_reconciled_ok by blast
  then show "refs_of (final demo_mounted (snd demo_reconciled)) ''r'' (work_ref ''alice'' ''topic'') = None"
    using reconcile_deletes_work_branches [OF demo_reach _ demo_accessible] by blast
qed

end
