(* ===== verification/Gfs_Myers.thy ===== *)
theory Gfs_Myers
  imports Gfs_Prelude
begin

text \<open>
  The line diff of \<open>crates/gfs-overlay/src/diff.rs\<close>: the greedy forward search of Myers with a recorded
  trace (\<open>myers\<close>) and the walk back through it (\<open>backtrack\<close>). The vector \<open>v\<close> is a list indexed by the
  diagonal plus \<open>offset\<close>, updated in place as in the source, and the casts from \<open>isize\<close> to \<open>usize\<close>
  wrap at 64 bits. The proof follows the furthest reaching paths: after round \<open>d\<close> the vector holds, for
  every diagonal of the parity of \<open>d\<close>, the furthest point that \<open>d\<close> edits reach, also outside the grid.
  From it come termination with a script, its correctness, and that no shorter script exists.
\<close>

section \<open>The algorithm\<close>

type_synonym text_line = bytes

datatype edit = Keep text_line | Remove text_line | Insert text_line

text \<open>The inner \<open>while\<close> of \<open>myers\<close>: follow the diagonal.\<close>

function snake :: "text_line list \<Rightarrow> text_line list \<Rightarrow> nat \<Rightarrow> nat \<Rightarrow> nat \<times> nat" where
  "snake old new x y =
     (if x < length old \<and> y < length new \<and> old ! x = new ! y then snake old new (x + 1) (y + 1) else (x, y))"
  by pat_completeness auto

termination
  by (relation "measure (\<lambda>(old, new, x, y). length old - x)") auto

declare snake.simps [simp del]

definition slot :: "int \<Rightarrow> int \<Rightarrow> nat" where
  "slot off k = i64_as_u64 (k + off)"

text \<open>Whether the search comes from the diagonal above, as both directions decide it.\<close>

definition from_above :: "int \<Rightarrow> int \<Rightarrow> int \<Rightarrow> nat list \<Rightarrow> bool" where
  "from_above off d k v \<longleftrightarrow> k = - d \<or> (k \<noteq> d \<and> v ! (slot off k - 1) < v ! (slot off k + 1))"

text \<open>The loop over the diagonals of one round; the result says whether the end was reached.\<close>

function diagonals :: "text_line list \<Rightarrow> text_line list \<Rightarrow> int \<Rightarrow> int \<Rightarrow> int \<Rightarrow> nat list \<Rightarrow> bool \<times> nat list" where
  "diagonals old new off d k v =
     (if k \<le> d then
        let index = slot off k;
            x0 = (if from_above off d k v then v ! (index + 1) else v ! (index - 1) + 1);
            y0 = i64_as_u64 (int x0 - k);
            (x, y) = snake old new x0 y0;
            v' = v[index := x]
        in if length old \<le> x \<and> length new \<le> y then (True, v') else diagonals old new off d (k + 2) v'
      else (False, v))"
  by pat_completeness auto

termination
  by (relation "measure (\<lambda>(old, new, off, d, k, v). nat (d + 1 - k))") auto

declare diagonals.simps [simp del]

text \<open>The diagonal walk of \<open>backtrack\<close>; the script is consed, which is the order after \<open>reverse\<close>.\<close>

fun walk_back :: "text_line list \<Rightarrow> nat \<Rightarrow> nat \<Rightarrow> nat \<Rightarrow> nat \<Rightarrow> edit list \<Rightarrow> nat \<times> nat \<times> edit list" where
  "walk_back old px py 0 y script = (0, y, script)"
| "walk_back old px py (Suc x) 0 script = (Suc x, 0, script)"
| "walk_back old px py (Suc x) (Suc y) script =
     (if Suc x > px \<and> Suc y > py then walk_back old px py x y (Keep (old ! x) # script)
      else (Suc x, Suc y, script))"

text \<open>The loop of \<open>backtrack\<close> over the trace in reverse.\<close>

fun backtrack_from :: "text_line list \<Rightarrow> text_line list \<Rightarrow> int \<Rightarrow> nat list list \<Rightarrow> nat \<Rightarrow> nat \<Rightarrow> edit list \<Rightarrow> edit list" where
  "backtrack_from old new off [] x y script = script"
| "backtrack_from old new off (v # vs) x y script =
     (let d = int (length vs)
      in if d = 0 then (case walk_back old 0 0 x y script of (x', y', script') \<Rightarrow> script')
      else
        let k = int x - int y;
            previous_k = (if from_above off d k v then k + 1 else k - 1);
            previous_x = v ! slot off previous_k;
            previous_y = i64_as_u64 (int previous_x - previous_k);
            (x', y', script') = walk_back old previous_x previous_y x y script
        in if x' > previous_x
           then backtrack_from old new off vs (x' - 1) y' (Remove (old ! (x' - 1)) # script')
           else if y' > previous_y
           then backtrack_from old new off vs x' (y' - 1) (Insert (new ! (y' - 1)) # script')
           else backtrack_from old new off vs x' y' script')"

definition backtrack :: "text_line list \<Rightarrow> text_line list \<Rightarrow> nat list list \<Rightarrow> int \<Rightarrow> edit list" where
  "backtrack old new trace off = backtrack_from old new off (rev trace) (length old) (length new) []"

text \<open>The loop over the rounds; \<open>rounds\<close> is how many are left.\<close>

fun myers_rounds :: "text_line list \<Rightarrow> text_line list \<Rightarrow> nat \<Rightarrow> nat \<Rightarrow> nat list \<Rightarrow> nat list list \<Rightarrow> edit list" where
  "myers_rounds old new 0 d v trace = []"
| "myers_rounds old new (Suc rounds) d v trace =
     (let off = int (length old + length new); trace' = trace @ [v]
      in case diagonals old new off (int d) (- int d) v of
           (hit, v') \<Rightarrow> if hit then backtrack old new trace' off
                        else myers_rounds old new rounds (d + 1) v' trace')"

definition myers :: "text_line list \<Rightarrow> text_line list \<Rightarrow> edit list" where
  "myers old new =
     (let mx = length old + length new
      in if mx = 0 then [] else myers_rounds old new (mx + 1) 0 (replicate (2 * mx + 1) 0) [])"

section \<open>Scripts\<close>

text \<open>The two sides of a script and its number of edits.\<close>

definition old_side :: "edit list \<Rightarrow> text_line list" where
  "old_side s = concat (map (\<lambda>e. case e of Keep a \<Rightarrow> [a] | Remove a \<Rightarrow> [a] | Insert b \<Rightarrow> []) s)"

definition new_side :: "edit list \<Rightarrow> text_line list" where
  "new_side s = concat (map (\<lambda>e. case e of Keep a \<Rightarrow> [a] | Remove a \<Rightarrow> [] | Insert b \<Rightarrow> [b]) s)"

fun is_keep :: "edit \<Rightarrow> bool" where
  "is_keep (Keep _) = True"
| "is_keep _ = False"

definition edit_cost :: "edit list \<Rightarrow> nat" where
  "edit_cost s = length (filter (\<lambda>e. \<not> is_keep e) s)"

lemma side_simps [simp]:
  "old_side [] = []" "new_side [] = []" "edit_cost [] = 0"
  "old_side (Keep a # s) = a # old_side s" "new_side (Keep a # s) = a # new_side s" "edit_cost (Keep a # s) = edit_cost s"
  "old_side (Remove a # s) = a # old_side s" "new_side (Remove a # s) = new_side s"
  "edit_cost (Remove a # s) = Suc (edit_cost s)"
  "old_side (Insert a # s) = old_side s" "new_side (Insert a # s) = a # new_side s"
  "edit_cost (Insert a # s) = Suc (edit_cost s)"
  "old_side (s @ t) = old_side s @ old_side t" "new_side (s @ t) = new_side s @ new_side t"
  "edit_cost (s @ t) = edit_cost s + edit_cost t"
  by (simp_all add: old_side_def new_side_def edit_cost_def)

section \<open>Reachable points\<close>

text \<open>
  The points of the edit graph that \<open>d\<close> edits reach. Edits may leave the grid, as they do in the source;
  diagonals do not.
\<close>

inductive reach :: "text_line list \<Rightarrow> text_line list \<Rightarrow> nat \<Rightarrow> nat \<Rightarrow> nat \<Rightarrow> bool" for old new where
  reach_start: "reach old new 0 0 0"
| reach_keep: "reach old new d x y \<Longrightarrow> x < length old \<Longrightarrow> y < length new \<Longrightarrow> old ! x = new ! y
    \<Longrightarrow> reach old new d (Suc x) (Suc y)"
| reach_remove: "reach old new d x y \<Longrightarrow> reach old new (Suc d) (Suc x) y"
| reach_insert: "reach old new d x y \<Longrightarrow> reach old new (Suc d) x (Suc y)"

inductive_cases reach_zeroE: "reach old new 0 x y"

lemma reach_diagonal:
  "reach old new d x y \<Longrightarrow> \<bar>int x - int y\<bar> \<le> int d \<and> even (int d - (int x - int y))"
  by (induction rule: reach.induct) auto

lemma reach_bound: "reach old new d x y \<Longrightarrow> x \<le> length old + d \<and> y \<le> length new + d"
  by (induction rule: reach.induct) auto

text \<open>What leaves the grid costs exactly the edits that do so.\<close>

lemma reach_clip:
  "reach old new d x y \<Longrightarrow>
   \<exists>d'. reach old new d' (min x (length old)) (min y (length new)) \<and> d = d' + (x - length old) + (y - length new)"
proof (induction rule: reach.induct)
  case reach_start
  then show ?case using reach.reach_start by (intro exI [of _ 0]) simp
next
  case (reach_keep d x y)
  then obtain d' where d': "reach old new d' x y" "d = d'" by (auto simp: min_def)
  show ?case using reach.reach_keep [OF d'(1)] reach_keep d'(2)
    by (intro exI [of _ d']) (simp add: min_def Suc_le_eq)
next
  case (reach_remove d x y)
  then obtain d' where d': "reach old new d' (min x (length old)) (min y (length new))"
      "d = d' + (x - length old) + (y - length new)" by blast
  show ?case
  proof (cases "x < length old")
    case True
    then show ?thesis using reach.reach_remove [OF d'(1)] d'(2) by (intro exI [of _ "Suc d'"]) (simp add: min_def)
  next
    case False
    then have "min (Suc x) (length old) = min x (length old)" "Suc x - length old = Suc (x - length old)" by auto
    then show ?thesis using d' by (intro exI [of _ d']) simp
  qed
next
  case (reach_insert d x y)
  then obtain d' where d': "reach old new d' (min x (length old)) (min y (length new))"
      "d = d' + (x - length old) + (y - length new)" by blast
  show ?case
  proof (cases "y < length new")
    case True
    then show ?thesis using reach.reach_insert [OF d'(1)] d'(2) by (intro exI [of _ "Suc d'"]) (simp add: min_def)
  next
    case False
    then have "min (Suc y) (length new) = min y (length new)" "Suc y - length new = Suc (y - length new)" by auto
    then show ?thesis using d' by (intro exI [of _ d']) simp
  qed
qed

text \<open>Every script with the right sides is a path, so reaching is a lower bound for scripts.\<close>

lemma script_reach:
  assumes "old_side s = take x old" "new_side s = take y new" "x \<le> length old" "y \<le> length new"
  shows "reach old new (edit_cost s) x y"
  using assms
proof (induction s arbitrary: x y rule: rev_induct)
  case Nil
  then show ?case using reach_start by auto
next
  case (snoc e s)
  show ?case
  proof (cases e)
    case (Keep a)
    then obtain x' y' where x: "x = Suc x'" "x' < length old" and y: "y = Suc y'" "y' < length new"
      using snoc.prems by (cases x; cases y) auto
    have "old_side s = take x' old" "old ! x' = a" "new_side s = take y' new" "new ! y' = a"
      using snoc.prems Keep by (auto simp: x y take_Suc_conv_app_nth)
    then show ?thesis using snoc.IH [of x' y'] reach_keep [of old new "edit_cost s" x' y'] Keep x y by simp
  next
    case (Remove a)
    then obtain x' where x: "x = Suc x'" "x' < length old" using snoc.prems by (cases x) auto
    have "old_side s = take x' old" using snoc.prems Remove by (auto simp: x take_Suc_conv_app_nth)
    then show ?thesis using snoc.IH [of x' y] reach_remove [of old new "edit_cost s" x' y] Remove x snoc.prems by simp
  next
    case (Insert a)
    then obtain y' where y: "y = Suc y'" "y' < length new" using snoc.prems by (cases y) auto
    have "new_side s = take y' new" using snoc.prems Insert by (auto simp: y take_Suc_conv_app_nth)
    then show ?thesis using snoc.IH [of x y'] reach_insert [of old new "edit_cost s" x y'] Insert y snoc.prems by simp
  qed
qed

text \<open>Removing everything and inserting everything always works.\<close>

lemma reach_corner: "reach old new (length old + length new) (length old) (length new)"
  using script_reach [of "map Remove old @ map Insert new" "length old" old "length new" new]
  by (simp add: old_side_def new_side_def edit_cost_def o_def)

section \<open>Furthest reaching points\<close>

definition match_at :: "text_line list \<Rightarrow> text_line list \<Rightarrow> nat \<Rightarrow> nat \<Rightarrow> bool" where
  "match_at old new x y \<longleftrightarrow> x < length old \<and> y < length new \<and> old ! x = new ! y"

definition matches_from :: "text_line list \<Rightarrow> text_line list \<Rightarrow> nat \<Rightarrow> nat \<Rightarrow> nat \<Rightarrow> bool" where
  "matches_from old new x y j \<longleftrightarrow> (\<forall>i<j. match_at old new (x + i) (y + i))"

definition furthest :: "text_line list \<Rightarrow> text_line list \<Rightarrow> nat \<Rightarrow> int \<Rightarrow> nat \<Rightarrow> bool" where
  "furthest old new d k x \<longleftrightarrow> (\<exists>y. reach old new d x y \<and> int x - int y = k) \<and>
     (\<forall>x' y'. reach old new d x' y' \<and> int x' - int y' = k \<longrightarrow> x' \<le> x)"

lemma furthest_unique: "furthest old new d k x \<Longrightarrow> furthest old new d k x' \<Longrightarrow> x = x'"
  by (metis furthest_def le_antisym)

lemma matches_from_Suc:
  "matches_from old new x y (Suc j) \<longleftrightarrow> match_at old new x y \<and> matches_from old new (Suc x) (Suc y) j"
  by (auto simp: matches_from_def less_Suc_eq_0_disj)

lemma matches_from_snoc:
  "matches_from old new x y j \<Longrightarrow> match_at old new (x + j) (y + j) \<Longrightarrow> matches_from old new x y (Suc j)"
  by (auto simp: matches_from_def less_Suc_eq)

lemma reach_matches: "reach old new d x y \<Longrightarrow> matches_from old new x y j \<Longrightarrow> reach old new d (x + j) (y + j)"
proof (induction j arbitrary: x y)
  case (Suc j)
  then have "reach old new d (Suc x) (Suc y)" by (auto simp: matches_from_Suc match_at_def intro: reach_keep)
  then show ?case using Suc.IH [of "Suc x" "Suc y"] Suc.prems by (simp add: matches_from_Suc)
qed simp

lemma snake_spec:
  "\<exists>j. snake old new x y = (x + j, y + j) \<and> matches_from old new x y j \<and> \<not> match_at old new (x + j) (y + j)"
proof (induction old new x y rule: snake.induct)
  case (1 old new x y)
  show ?case
  proof (cases "match_at old new x y")
    case True
    then obtain j where j: "snake old new (Suc x) (Suc y) = (Suc x + j, Suc y + j)" "matches_from old new (Suc x) (Suc y) j"
        "\<not> match_at old new (Suc x + j) (Suc y + j)"
      using 1 by (auto simp: match_at_def)
    then show ?thesis
      using True by (intro exI [of _ "Suc j"]) (auto simp: snake.simps [of old new x y] match_at_def matches_from_Suc)
  next
    case False
    then show ?thesis
      by (intro exI [of _ 0]) (auto simp: snake.simps [of old new x y] match_at_def matches_from_def)
  qed
qed

text \<open>Every point is a last edit followed by a diagonal.\<close>

lemma reach_Suc_cases:
  assumes "reach old new (Suc d) x y"
  obtains a b j where "x = Suc a + j" "y = b + j" "matches_from old new (Suc a) b j" "reach old new d a b"
    | a b j where "x = a + j" "y = Suc b + j" "matches_from old new a (Suc b) j" "reach old new d a b"
proof -
  have "\<exists>a b j. reach old new d a b \<and>
      (x = Suc a + j \<and> y = b + j \<and> matches_from old new (Suc a) b j \<or>
       x = a + j \<and> y = Suc b + j \<and> matches_from old new a (Suc b) j)"
    using assms
  proof (induction "Suc d" x y rule: reach.induct)
    case (reach_keep x y)
    then have m: "match_at old new x y" by (simp add: match_at_def)
    from reach_keep obtain a b j where "reach old new d a b"
        "x = Suc a + j \<and> y = b + j \<and> matches_from old new (Suc a) b j \<or>
         x = a + j \<and> y = Suc b + j \<and> matches_from old new a (Suc b) j" by blast
    then show ?case using m matches_from_snoc by (intro exI [of _ a] exI [of _ b] exI [of _ "Suc j"]) auto
  next
    case (reach_remove x y)
    then show ?case by (intro exI [of _ x] exI [of _ y] exI [of _ 0]) (simp add: matches_from_def)
  next
    case (reach_insert x y)
    then show ?case by (intro exI [of _ x] exI [of _ y] exI [of _ 0]) (simp add: matches_from_def)
  qed
  then show thesis using that by blast
qed

lemma reach_zero: "reach old new 0 x y \<Longrightarrow> x = y \<and> matches_from old new 0 0 x"
proof (induction "0::nat" x y rule: reach.induct)
  case (reach_keep x y)
  then show ?case using matches_from_snoc [of old new 0 0 x] by (auto simp: match_at_def)
qed (simp add: matches_from_def)

text \<open>A snake from a start no other path on the diagonal starts beyond is furthest reaching.\<close>

lemma furthest_snake:
  assumes r: "reach old new d x0 y0" and s: "snake old new x0 y0 = (x, y)" and k: "int x0 - int y0 = k"
    and start: "\<And>x' y'. reach old new d x' y' \<Longrightarrow> int x' - int y' = k \<Longrightarrow>
      \<exists>s t j. s \<le> x0 \<and> x' = s + j \<and> y' = t + j \<and> matches_from old new s t j"
  obtains j where "x = x0 + j" "y = y0 + j" "matches_from old new x0 y0 j" "furthest old new d k x" "reach old new d x y"
proof -
  obtain j where j: "x = x0 + j" "y = y0 + j" "matches_from old new x0 y0 j" "\<not> match_at old new (x0 + j) (y0 + j)"
    using snake_spec [of old new x0 y0] s by auto
  have rx: "reach old new d x y" using reach_matches [OF r j(3)] j by simp
  have "x' \<le> x" if p: "reach old new d x' y'" "int x' - int y' = k" for x' y'
  proof (rule ccontr)
    assume "\<not> x' \<le> x"
    obtain s t i where i: "s \<le> x0" "x' = s + i" "y' = t + i" "matches_from old new s t i"
      using start [OF p] by blast
    define l where "l = x0 + j - s"
    have "s + l = x0 + j" "t + l = y0 + j" "l < i" using i \<open>\<not> x' \<le> x\<close> j(1) p(2) k by (auto simp: l_def)
    then show False using i(4) j(4) by (metis matches_from_def)
  qed
  then have "furthest old new d k x" using rx k j by (auto simp: furthest_def)
  then show thesis using that j rx by blast
qed

section \<open>The vector\<close>

definition at :: "int \<Rightarrow> nat list \<Rightarrow> int \<Rightarrow> nat" where
  "at off v k = v ! slot off k"

definition small_texts :: "text_line list \<Rightarrow> text_line list \<Rightarrow> bool" where
  "small_texts old new \<longleftrightarrow> length old + length new < 2 ^ 60"

lemma slot_eq: "0 \<le> k + off \<Longrightarrow> k + off < 2 ^ 62 \<Longrightarrow> slot off k = nat (k + off)"
  by (simp add: slot_def i64_as_u64_def)

lemma slot_next: "0 \<le> k + off \<Longrightarrow> k + off < 2 ^ 61 \<Longrightarrow> slot off k + 1 = slot off (k + 1)"
  by (simp add: slot_eq)

lemma slot_prev: "1 \<le> k + off \<Longrightarrow> k + off < 2 ^ 61 \<Longrightarrow> slot off k - 1 = slot off (k - 1)"
  by (simp add: slot_eq)

lemma at_update:
  "0 \<le> k + off \<Longrightarrow> k + off < int (length v) \<Longrightarrow> 0 \<le> k' + off \<Longrightarrow> k' + off < int (length v) \<Longrightarrow>
   int (length v) < 2 ^ 62 \<Longrightarrow> at off (v[slot off k := x]) k' = (if k' = k then x else at off v k')"
  by (auto simp: at_def slot_eq nth_list_update)

lemma at_update_within:
  assumes "\<bar>k\<bar> \<le> off" "\<bar>k'\<bar> \<le> off" "int (length v) = 2 * off + 1" "off < 2 ^ 60"
  shows "at off (v[slot off k := x]) k' = (if k' = k then x else at off v k')"
proof -
  have "0 \<le> k + off" "k + off < int (length v)" "0 \<le> k' + off" "k' + off < int (length v)" using assms by linarith+
  moreover have "int (length v) < 2 ^ 62" using assms(3,4) by simp
  ultimately show ?thesis by (rule at_update)
qed

text \<open>What the vector holds at the start of round \<open>d\<close>.\<close>

definition frontier :: "text_line list \<Rightarrow> text_line list \<Rightarrow> int \<Rightarrow> nat \<Rightarrow> nat list \<Rightarrow> bool" where
  "frontier old new off d v \<longleftrightarrow>
     (\<forall>k. \<bar>k\<bar> \<le> int d \<and> even (int d - k) \<longrightarrow> furthest old new d k (at off v k))"

definition before_round :: "text_line list \<Rightarrow> text_line list \<Rightarrow> int \<Rightarrow> nat \<Rightarrow> nat list \<Rightarrow> bool" where
  "before_round old new off d v \<longleftrightarrow> (if d = 0 then at off v 1 = 0 else frontier old new off (d - 1) v)"

text \<open>One diagonal of round \<open>d\<close>: where it comes from, and that its snake is furthest reaching.\<close>

definition comes_from :: "int \<Rightarrow> nat \<Rightarrow> int \<Rightarrow> nat list \<Rightarrow> int" where
  "comes_from off d k v = (if from_above off (int d) k v then k + 1 else k - 1)"

lemma from_above_at:
  assumes "\<bar>k\<bar> \<le> int d" "int d \<le> off" "off < 2 ^ 60"
  shows "from_above off (int d) k v \<longleftrightarrow> k = - int d \<or> (k \<noteq> int d \<and> at off v (k - 1) < at off v (k + 1))"
proof (cases "k = - int d \<or> k = int d")
  case False
  then have "slot off k - 1 = slot off (k - 1)" "slot off k + 1 = slot off (k + 1)"
    using assms slot_prev [of k off] slot_next [of k off] by auto
  then show ?thesis by (simp add: from_above_def at_def)
qed (auto simp: from_above_def)

lemma cast_nonneg: "0 \<le> i \<Longrightarrow> i < 2 ^ 62 \<Longrightarrow> i64_as_u64 i = nat i"
  by (simp add: i64_as_u64_def)

lemma reach_cast:
  assumes "reach old new d x y" "int x - int y = k" "d \<le> length old + length new" "small_texts old new"
  shows "i64_as_u64 (int x - k) = y"
proof -
  have "y < 2 ^ 62" using reach_bound [OF assms(1)] assms(3,4) by (simp add: small_texts_def)
  then show ?thesis using assms(2) by (subst cast_nonneg) auto
qed

text \<open>The point a diagonal of a later round comes from.\<close>

lemma previous_point:
  assumes k: "\<bar>k\<bar> \<le> int (Suc d)" "even (int (Suc d) - k)" and d: "int (Suc d) \<le> off" "off < 2 ^ 60"
    and F: "frontier old new off d v"
  defines "pk \<equiv> comes_from off (Suc d) k v"
  obtains py where "furthest old new d pk (at off v pk)" "reach old new d (at off v pk) py" "int (at off v pk) - int py = pk"
    and "\<bar>pk\<bar> \<le> int d" "even (int d - pk)"
proof -
  note fa = from_above_at [OF k(1) d, of v]
  have "\<bar>pk\<bar> \<le> int d \<and> even (int d - pk)"
  proof (cases "from_above off (int (Suc d)) k v")
    case True
    then have "k \<noteq> int (Suc d)" using fa by auto
    then have "\<bar>k + 1\<bar> \<le> int d" "even (int d - (k + 1))" using k by presburger+
    then show ?thesis using True by (simp add: pk_def comes_from_def)
  next
    case False
    then have "k \<noteq> - int (Suc d)" using fa by auto
    then have "\<bar>k - 1\<bar> \<le> int d" "even (int d - (k - 1))" using k by presburger+
    then show ?thesis using False by (simp add: pk_def comes_from_def)
  qed
  then show thesis using F that unfolding frontier_def furthest_def by blast
qed

text \<open>Every path of one more edit on diagonal \<open>k\<close> starts its last diagonal no further than the search.\<close>

lemma last_start:
  assumes k: "\<bar>k\<bar> \<le> int (Suc d)" "even (int (Suc d) - k)" and d: "int (Suc d) \<le> off" "off < 2 ^ 60"
    and F: "frontier old new off d v" and r: "reach old new (Suc d) x' y'" "int x' - int y' = k"
  defines "x0 \<equiv> (if from_above off (int (Suc d)) k v then at off v (k + 1) else at off v (k - 1) + 1)"
  shows "\<exists>s t j. s \<le> x0 \<and> x' = s + j \<and> y' = t + j \<and> matches_from old new s t j"
proof -
  note fa = from_above_at [OF k(1) d, of v]
  have top: "a \<le> at off v (int a - int b)" if "reach old new d a b" for a b
    using F reach_diagonal [OF that] that unfolding frontier_def furthest_def by blast
  from r(1) show ?thesis
  proof (cases rule: reach_Suc_cases)
    case (1 a b j)
    then have ab: "int a - int b = k - 1" using r(2) by simp
    then have "k \<noteq> - int (Suc d)" using reach_diagonal [OF 1(4)] by auto
    then have "Suc a \<le> x0" using top [OF 1(4)] ab fa by (auto simp: x0_def)
    then show ?thesis using 1 by blast
  next
    case (2 a b j)
    then have ab: "int a - int b = k + 1" using r(2) by simp
    then have "k \<noteq> int (Suc d)" using reach_diagonal [OF 2(4)] by auto
    then have "a \<le> x0" using top [OF 2(4)] ab fa by (auto simp: x0_def)
    then show ?thesis using 2 by blast
  qed
qed

lemma diagonal_step:
  assumes k: "\<bar>k\<bar> \<le> int d" "even (int d - k)" and off: "off = int (length old + length new)"
    and d: "int d \<le> off" and ne: "0 < off" and sm: "small_texts old new" and B: "before_round old new off d v"
    and x0: "x0 = (if from_above off (int d) k v then v ! (slot off k + 1) else v ! (slot off k - 1) + 1)"
    and sn: "snake old new x0 (i64_as_u64 (int x0 - k)) = (x, y)"
  obtains y0 j where "i64_as_u64 (int x0 - k) = y0" "int x0 - int y0 = k" "x = x0 + j" "y = y0 + j"
    "matches_from old new x0 y0 j" "furthest old new d k x" "reach old new d x y"
proof (cases d)
  case 0
  then have "k = 0" using k by simp
  then have "x0 = 0" using 0 B x0 slot_next [of 0 off] off sm
    by (simp add: before_round_def from_above_def at_def small_texts_def)
  then have y0: "i64_as_u64 (int x0 - k) = 0" using \<open>k = 0\<close> by (simp add: i64_as_u64_def)
  have "reach old new d x0 0" "int x0 - int 0 = k" using \<open>x0 = 0\<close> \<open>k = 0\<close> 0 reach_start by simp_all
  then show thesis
  proof (rule furthest_snake [OF _ sn [unfolded y0]])
    fix x' y' assume "reach old new d x' y'"
    then show "\<exists>s t j. s \<le> x0 \<and> x' = s + j \<and> y' = t + j \<and> matches_from old new s t j"
      using reach_zero [of old new x' y'] 0 by (intro exI [of _ 0] exI [of _ x']) auto
  qed (use that y0 \<open>k = 0\<close> \<open>x0 = 0\<close> in auto)
next
  case (Suc D)
  have b: "int (Suc D) \<le> off" "off < 2 ^ 60" "\<bar>k\<bar> \<le> int (Suc D)" "even (int (Suc D) - k)" "frontier old new off D v"
    using Suc d off sm k B by (auto simp: small_texts_def before_round_def)
  have x0': "x0 = (if from_above off (int (Suc D)) k v then at off v (k + 1) else at off v (k - 1) + 1)"
    using x0 Suc slot_next [of k off] slot_prev [of k off] b by (auto simp: at_def from_above_def)
  obtain py where py: "reach old new D (at off v (comes_from off (Suc D) k v)) py"
      "int (at off v (comes_from off (Suc D) k v)) - int py = comes_from off (Suc D) k v"
    using previous_point [OF b(3,4,1,2,5)] by blast
  define y0 where "y0 = (if from_above off (int (Suc D)) k v then Suc py else py)"
  have r: "reach old new d x0 y0" "int x0 - int y0 = k"
    using py Suc by (auto simp: x0' y0_def comes_from_def intro: reach_remove reach_insert)
  have c: "i64_as_u64 (int x0 - k) = y0"
    by (rule reach_cast [OF r]) (use d off sm in auto)
  show thesis
    by (rule furthest_snake [OF r(1) sn [unfolded c] r(2)])
      (use last_start [OF b(3,4,1,2,5), folded x0'] Suc that c r(2) in auto)
qed

section \<open>The rounds\<close>

text \<open>The diagonals of round \<open>d\<close> below \<open>k\<close> are finished, none of them at the end of both texts.\<close>

definition finished :: "text_line list \<Rightarrow> text_line list \<Rightarrow> int \<Rightarrow> nat \<Rightarrow> int \<Rightarrow> nat list \<Rightarrow> bool" where
  "finished old new off d k v \<longleftrightarrow>
     (\<forall>k'. - int d \<le> k' \<and> k' < k \<and> even (int d - k') \<longrightarrow> furthest old new d k' (at off v k') \<and>
        (int (at off v k') < int (length old) \<or> int (at off v k') - k' < int (length new)))"

definition past_end :: "text_line list \<Rightarrow> text_line list \<Rightarrow> nat \<Rightarrow> bool" where
  "past_end old new d \<longleftrightarrow> (\<exists>x y. reach old new d x y \<and> length old \<le> x \<and> length new \<le> y)"

lemma finished_all:
  assumes "finished old new off d k v" "int d < k"
  shows "frontier old new off d v \<and> \<not> past_end old new d"
proof
  show "frontier old new off d v" using assms by (auto simp: finished_def frontier_def abs_le_iff)
  show "\<not> past_end old new d"
  proof
    assume "past_end old new d"
    then obtain x y where p: "reach old new d x y" "length old \<le> x" "length new \<le> y" by (auto simp: past_end_def)
    have "- int d \<le> int x - int y \<and> int x - int y < k \<and> even (int d - (int x - int y))"
      using reach_diagonal [OF p(1)] assms(2) by (auto simp: abs_le_iff)
    then have f: "furthest old new d (int x - int y) (at off v (int x - int y))"
        "int (at off v (int x - int y)) < int (length old) \<or> int (at off v (int x - int y)) - (int x - int y) < int (length new)"
      using assms(1) unfolding finished_def by blast+
    have "x \<le> at off v (int x - int y)" using f(1) p(1) unfolding furthest_def by blast
    then show False using f(2) p(2,3) by linarith
  qed
qed

lemma finished_step:
  assumes "finished old new off d k v" "furthest old new d k x" "int x - int y = k" "\<not> (length old \<le> x \<and> length new \<le> y)"
    and "even (int d - k)" "\<bar>k\<bar> \<le> int d" "int d \<le> off" "int (length v) = 2 * off + 1" "off < 2 ^ 60"
  shows "finished old new off d (k + 2) (v[slot off k := x])"
  unfolding finished_def
proof (intro allI impI)
  fix k' assume k': "- int d \<le> k' \<and> k' < k + 2 \<and> even (int d - k')"
  then have "k' = k \<or> k' < k" using assms(5) by presburger
  moreover from this have "at off (v[slot off k := x]) k' = (if k' = k then x else at off v k')"
    using at_update_within [of k off k' v x] assms(6-9) k' by auto
  ultimately show "furthest old new d k' (at off (v[slot off k := x]) k') \<and>
      (int (at off (v[slot off k := x]) k') < int (length old) \<or> int (at off (v[slot off k := x]) k') - k' < int (length new))"
    using assms(1-4) k' by (auto simp: finished_def)
qed

lemma before_round_update:
  assumes "before_round old new off d v" "even (int d - k)" "\<bar>k\<bar> \<le> int d" "int d \<le> off" "0 < off"
    "int (length v) = 2 * off + 1" "off < 2 ^ 60"
  shows "before_round old new off d (v[slot off k := x])"
proof -
  have "at off (v[slot off k := x]) k' = at off v k'" if "\<bar>k'\<bar> \<le> off" "odd (int d - k')" for k'
  proof -
    have "k' \<noteq> k" using assms(2) that(2) by auto
    moreover have "at off (v[slot off k := x]) k' = (if k' = k then x else at off v k')"
      using at_update_within [of k off k' v x] assms(3,4,6,7) that(1) by simp
    ultimately show ?thesis by simp
  qed
  moreover have "\<bar>k'\<bar> \<le> off \<and> odd (int d - k')" if "\<bar>k'\<bar> \<le> int (d - 1)" "even (int (d - 1) - k')" "d \<noteq> 0" for k'
    using that assms(4) by (cases d) auto
  moreover have "\<bar>1\<bar> \<le> off" using assms(5) by simp
  ultimately show ?thesis
    using assms(1) by (cases "d = 0") (simp_all add: before_round_def frontier_def)
qed

lemma diagonals_spec:
  assumes "before_round old new off d v" "finished old new off d k v" "even (int d - k)" "- int d \<le> k"
    and off: "off = int (length old + length new)" "int d \<le> off" "0 < off" "int (length v) = 2 * off + 1"
    and sm: "small_texts old new"
  shows "length (snd (diagonals old new off (int d) k v)) = length v \<and>
    (if fst (diagonals old new off (int d) k v) then past_end old new d
     else frontier old new off d (snd (diagonals old new off (int d) k v)) \<and> \<not> past_end old new d)"
  using assms(1-4,8)
proof (induction "nat (int d + 2 - k)" arbitrary: k v rule: less_induct)
  case less
  show ?case
  proof (cases "k \<le> int d")
    case False
    then show ?thesis using finished_all [OF less.prems(2)] by (simp add: diagonals.simps [of old new off "int d" k v])
  next
    case True
    then have k: "\<bar>k\<bar> \<le> int d" using less.prems by simp
    define x0 where "x0 = (if from_above off (int d) k v then v ! (slot off k + 1) else v ! (slot off k - 1) + 1)"
    obtain x y where sn: "snake old new x0 (i64_as_u64 (int x0 - k)) = (x, y)" by force
    obtain y0 j where j: "int x0 - int y0 = k" "x = x0 + j" "y = y0 + j" "furthest old new d k x" "reach old new d x y"
      using diagonal_step [OF k less.prems(3) off(1,2,3) sm less.prems(1) x0_def sn] by blast
    have step: "diagonals old new off (int d) k v = (if length old \<le> x \<and> length new \<le> y then (True, v[slot off k := x])
        else diagonals old new off (int d) (k + 2) (v[slot off k := x]))"
      using True sn by (simp add: diagonals.simps [of old new off "int d" k v] Let_def x0_def [symmetric])
    show ?thesis
    proof (cases "length old \<le> x \<and> length new \<le> y")
      case True
      then show ?thesis using step j(5) by (auto simp: past_end_def)
    next
      case False
      have "off < 2 ^ 60" using off(1) sm by (simp add: small_texts_def)
      then have "before_round old new off d (v[slot off k := x])" "finished old new off d (k + 2) (v[slot off k := x])"
        using before_round_update [OF less.prems(1,3) k off(2,3) less.prems(5)]
          finished_step [OF less.prems(2) j(4) _ False less.prems(3) k off(2) less.prems(5)] j(1-3) by auto
      then show ?thesis
        using less.hyps [of "k + 2" "v[slot off k := x]"] less.prems(3-5) True step False by simp
    qed
  qed
qed

section \<open>The walk back\<close>

lemma walk_back_spec:
  assumes "px \<le> x0" "py \<le> y0" "x0 = px \<or> y0 = py" "x0 + j \<le> length old"
  shows "walk_back old px py (x0 + j) (y0 + j) script = (x0, y0, map Keep (take j (drop x0 old)) @ script)"
  using assms
proof (induction j arbitrary: script)
  case 0
  then show ?case by (cases x0; cases y0) auto
next
  case (Suc j)
  then show ?case by (simp add: take_Suc_conv_app_nth)
qed

lemma keeps_sides [simp]: "old_side (map Keep xs) = xs" "new_side (map Keep xs) = xs" "edit_cost (map Keep xs) = 0"
  by (induction xs) auto

lemma take_matches:
  assumes "matches_from old new x y j"
  shows "take j (drop x old) = take j (drop y new) \<and> (0 < j \<longrightarrow> x + j \<le> length old \<and> y + j \<le> length new)"
proof (cases j)
  case (Suc i)
  have b: "x + j \<le> length old" "y + j \<le> length new"
    using assms Suc by (auto simp: matches_from_def match_at_def Suc_le_eq)
  have "take j (drop x old) = take j (drop y new)"
    using assms b by (intro nth_equalityI) (auto simp: matches_from_def match_at_def)
  then show ?thesis using b by simp
qed simp

definition trace_ok :: "text_line list \<Rightarrow> text_line list \<Rightarrow> int \<Rightarrow> nat list list \<Rightarrow> bool" where
  "trace_ok old new off tr \<longleftrightarrow> (\<forall>i<length tr. before_round old new off i (tr ! i))"

lemma trace_ok_snoc:
  "trace_ok old new off (tr @ [v]) \<longleftrightarrow> trace_ok old new off tr \<and> before_round old new off (length tr) v"
  by (auto simp: trace_ok_def nth_append less_Suc_eq)

definition script_for :: "text_line list \<Rightarrow> text_line list \<Rightarrow> nat \<Rightarrow> nat \<Rightarrow> nat \<Rightarrow> edit list \<Rightarrow> bool" where
  "script_for old new d x y s \<longleftrightarrow> old_side s = take x old \<and> new_side s = take y new \<and> edit_cost s = d"

lemma script_for_step:
  assumes "script_for old new d px py s" "matches_from old new x0 y0 j"
  shows "x0 = Suc px \<Longrightarrow> y0 = py \<Longrightarrow> px < length old \<Longrightarrow>
      script_for old new (Suc d) (x0 + j) (y0 + j) (s @ Remove (old ! px) # map Keep (take j (drop x0 old)))"
    and "x0 = px \<Longrightarrow> y0 = Suc py \<Longrightarrow> py < length new \<Longrightarrow>
      script_for old new (Suc d) (x0 + j) (y0 + j) (s @ Insert (new ! py) # map Keep (take j (drop x0 old)))"
proof -
  have t: "take (x0 + j) old = take x0 old @ take j (drop x0 old)" "take (y0 + j) new = take y0 new @ take j (drop x0 old)"
    using take_matches [OF assms(2)] by (simp_all add: take_add)
  show "script_for old new (Suc d) (x0 + j) (y0 + j) (s @ Remove (old ! px) # map Keep (take j (drop x0 old)))"
    if "x0 = Suc px" "y0 = py" "px < length old"
    using assms(1) that unfolding script_for_def t by (simp add: take_Suc_conv_app_nth)
  show "script_for old new (Suc d) (x0 + j) (y0 + j) (s @ Insert (new ! py) # map Keep (take j (drop x0 old)))"
    if "x0 = px" "y0 = Suc py" "py < length new"
    using assms(1) that unfolding script_for_def t by (simp add: take_Suc_conv_app_nth)
qed


text \<open>Where a furthest point of a later round comes from, in the terms the walk back recomputes.\<close>

lemma round_origin:
  assumes k: "\<bar>k\<bar> \<le> int (Suc d)" "even (int (Suc d) - k)" and off: "off = int (length old + length new)"
    and d: "int (Suc d) \<le> off" and sm: "small_texts old new" and B: "before_round old new off (Suc d) v"
    and far: "furthest old new (Suc d) k x" and xy: "int x - int y = k"
  defines "pk \<equiv> comes_from off (Suc d) k v"
  obtains py j where "furthest old new d pk (at off v pk)" "reach old new d (at off v pk) py" "int (at off v pk) - int py = pk"
      "i64_as_u64 (int (at off v pk) - pk) = py" "from_above off (int (Suc d)) k v"
      "x = at off v pk + j" "y = Suc py + j" "matches_from old new (at off v pk) (Suc py) j"
    | py j where "furthest old new d pk (at off v pk)" "reach old new d (at off v pk) py" "int (at off v pk) - int py = pk"
      "i64_as_u64 (int (at off v pk) - pk) = py" "\<not> from_above off (int (Suc d)) k v"
      "x = Suc (at off v pk) + j" "y = py + j" "matches_from old new (Suc (at off v pk)) py j"
proof -
  have b: "off < 2 ^ 60" "frontier old new off d v" using off sm B by (simp_all add: small_texts_def before_round_def)
  obtain py where p: "furthest old new d pk (at off v pk)" "reach old new d (at off v pk) py" "int (at off v pk) - int py = pk"
    using previous_point [OF k d b] unfolding pk_def by blast
  have cast: "i64_as_u64 (int (at off v pk) - pk) = py" by (rule reach_cast [OF p(2,3)]) (use d off sm in auto)
  define x0 where "x0 = (if from_above off (int (Suc d)) k v then v ! (slot off k + 1) else v ! (slot off k - 1) + 1)"
  obtain x1 y1 where sn: "snake old new x0 (i64_as_u64 (int x0 - k)) = (x1, y1)" by force
  have "0 < off" using d by simp
  then obtain y0 j where j: "int x0 - int y0 = k" "x1 = x0 + j" "matches_from old new x0 y0 j" "furthest old new (Suc d) k x1"
    using diagonal_step [OF k off d _ sm B x0_def sn] by blast
  have x: "x = x0 + j" "y = y0 + j" using furthest_unique [OF far j(4)] j(1,2) xy by simp_all
  have x0: "x0 = (if from_above off (int (Suc d)) k v then at off v (k + 1) else at off v (k - 1) + 1)"
    using slot_next [of k off] slot_prev [of k off] k d b by (auto simp: x0_def at_def from_above_def)
  show thesis
  proof (cases "from_above off (int (Suc d)) k v")
    case True
    then have "pk = k + 1" by (simp add: pk_def comes_from_def)
    then have "x0 = at off v pk" "y0 = Suc py" using x0 True p(3) j(1) by simp_all
    then show thesis using that(1) [OF p cast True] x j(3) by simp
  next
    case False
    then have "pk = k - 1" by (simp add: pk_def comes_from_def)
    then have "x0 = Suc (at off v pk)" "y0 = py" using x0 False p(3) j(1) by simp_all
    then show thesis using that(2) [OF p cast False] x j(3) by simp
  qed
qed

lemma backtrack_from_Cons:
  assumes "d = length ws" "k = int x - int y" "pk = comes_from off (Suc d) k v" "px = at off v pk"
    "i64_as_u64 (int px - pk) = py" "walk_back old px py x y script = (x', y', script')"
  shows "backtrack_from old new off (v # w # ws) x y script =
      (if x' > px then backtrack_from old new off (w # ws) (x' - 1) y' (Remove (old ! (x' - 1)) # script')
       else if y' > py then backtrack_from old new off (w # ws) x' (y' - 1) (Insert (new ! (y' - 1)) # script')
       else backtrack_from old new off (w # ws) x' y' script')"
  using assms(5,6) unfolding assms(3,4) unfolding assms(1,2)
  by (simp add: Let_def comes_from_def at_def)

lemma backtrack_from_spec:
  assumes "trace_ok old new off (rev (v # vs))" "furthest old new (length vs) (int x - int y) x" "reach old new (length vs) x y"
    and "x \<le> length old" "y \<le> length new" "int (length vs) \<le> off"
    and off: "off = int (length old + length new)" and sm: "small_texts old new"
  shows "\<exists>s. backtrack_from old new off (v # vs) x y script = s @ script \<and> script_for old new (length vs) x y s"
  using assms(1-6)
proof (induction vs arbitrary: v x y script)
  case Nil
  then have "x = y" "matches_from old new 0 0 x" using reach_zero by auto
  then show ?case
    using walk_back_spec [of 0 0 0 0 x old script] take_matches [of old new 0 0 x] Nil
    by (intro exI [of _ "map Keep (take x old)"]) (simp add: script_for_def)
next
  case (Cons w ws)
  define d where "d = length ws"
  define k where "k = int x - int y"
  define pk where "pk = comes_from off (Suc d) k v"
  define px where "px = at off v pk"
  have tr: "trace_ok old new off (rev (w # ws))" "before_round old new off (Suc d) v"
    using Cons.prems(1) trace_ok_snoc [of old new off "rev (w # ws)" v] by (simp_all add: d_def)
  have k: "\<bar>k\<bar> \<le> int (Suc d)" "even (int (Suc d) - k)" "furthest old new (Suc d) k x" "int (Suc d) \<le> off"
    using reach_diagonal [OF Cons.prems(3)] Cons.prems(2,6) by (simp_all add: k_def d_def)
  note IH = Cons.IH [OF tr(1), folded d_def]
  from k(1,2) off k(4) sm tr(2) k(3) k_def [symmetric] show ?case
  proof (cases rule: round_origin)
    case (1 py j)
    note o = 1 [folded pk_def, folded px_def]
    have wb: "walk_back old px py x y script = (px, Suc py, map Keep (take j (drop px old)) @ script)"
      using walk_back_spec [of px px py "Suc py" j old script] o(6,7) Cons.prems(4) by simp
    obtain s where s: "backtrack_from old new off (w # ws) px py (Insert (new ! py) # map Keep (take j (drop px old)) @ script) =
        s @ Insert (new ! py) # map Keep (take j (drop px old)) @ script" "script_for old new d px py s"
      using IH [of px py] o(1-3,6,7) Cons.prems(4,5) k(4) by auto
    have "script_for old new (Suc d) x y (s @ Insert (new ! py) # map Keep (take j (drop px old)))"
      using script_for_step(2) [OF s(2) o(8)] o(6,7) Cons.prems(5) by simp
    then show ?thesis
      using s(1) backtrack_from_Cons [OF d_def k_def pk_def px_def o(4) wb] by (auto simp: d_def)
  next
    case (2 py j)
    note o = 2 [folded pk_def, folded px_def]
    have wb: "walk_back old px py x y script = (Suc px, py, map Keep (take j (drop (Suc px) old)) @ script)"
      using walk_back_spec [of px "Suc px" py py j old script] o(6,7) Cons.prems(4) by simp
    obtain s where s: "backtrack_from old new off (w # ws) px py (Remove (old ! px) # map Keep (take j (drop (Suc px) old)) @ script) =
        s @ Remove (old ! px) # map Keep (take j (drop (Suc px) old)) @ script" "script_for old new d px py s"
      using IH [of px py] o(1-3,6,7) Cons.prems(4,5) k(4) by auto
    have "script_for old new (Suc d) x y (s @ Remove (old ! px) # map Keep (take j (drop (Suc px) old)))"
      using script_for_step(1) [OF s(2) o(8)] o(6,7) Cons.prems(4) by simp
    then show ?thesis
      using s(1) backtrack_from_Cons [OF d_def k_def pk_def px_def o(4) wb] by (auto simp: d_def)
  qed
qed

section \<open>The whole search\<close>

text \<open>The first round that passes the end of both texts is at their corner.\<close>

lemma first_past_end:
  assumes "past_end old new d" "\<forall>e<d. \<not> past_end old new e"
  shows "reach old new d (length old) (length new) \<and>
    furthest old new d (int (length old) - int (length new)) (length old)"
proof -
  have exact: "x = length old \<and> y = length new" if r: "reach old new d x y" "length old \<le> x" "length new \<le> y" for x y
  proof -
    obtain d' where d': "reach old new d' (length old) (length new)" "d = d' + (x - length old) + (y - length new)"
      using reach_clip [OF r(1)] by (metis min.absorb2 r(2,3))
    then have "past_end old new d'" by (auto simp: past_end_def)
    then have "\<not> d' < d" using assms(2) by blast
    then show ?thesis using d'(2) r(2,3) by linarith
  qed
  then have corner: "reach old new d (length old) (length new)" using assms(1) by (auto simp: past_end_def)
  moreover have "x \<le> length old" if "reach old new d x y" "int x - int y = int (length old) - int (length new)" for x y
    using exact [OF that(1)] that(2) by linarith
  ultimately show ?thesis by (auto simp: furthest_def)
qed

lemma myers_rounds_spec:
  assumes "trace_ok old new (int (length old + length new)) trace" "length trace = d"
    and "before_round old new (int (length old + length new)) d v" "\<forall>e<d. \<not> past_end old new e"
    and "length v = 2 * (length old + length new) + 1" "rounds + d = length old + length new + 1"
    and "0 < length old + length new" "small_texts old new"
  shows "\<exists>D. script_for old new D (length old) (length new) (myers_rounds old new rounds d v trace) \<and>
    (\<forall>e<D. \<not> past_end old new e)"
  using assms(1-6)
proof (induction rounds arbitrary: d v trace)
  case 0
  then have "length old + length new < d" by simp
  then show ?case using 0(4) reach_corner [of old new] by (auto simp: past_end_def)
next
  case (Suc rounds)
  define off where "off = int (length old + length new)"
  obtain hit v' where D: "diagonals old new off (int d) (- int d) v = (hit, v')" by force
  have fin: "finished old new off d (- int d) v" for v unfolding finished_def by linarith
  have spec: "length v' = length v" "if hit then past_end old new d else frontier old new off d v' \<and> \<not> past_end old new d"
    using diagonals_spec [OF _ fin, of v] D [unfolded off_def] Suc.prems(3,5,6) assms(7,8) by (auto simp: off_def)
  have tr: "trace_ok old new off (trace @ [v])"
    using Suc.prems(1-3) by (simp add: trace_ok_snoc off_def)
  have unf: "myers_rounds old new (Suc rounds) d v trace =
      (if hit then backtrack old new (trace @ [v]) off else myers_rounds old new rounds (d + 1) v' (trace @ [v]))"
    using D unfolding off_def by (simp add: Let_def)
  show ?case
  proof (cases hit)
    case True
    then have pe: "past_end old new d" using spec(2) by simp
    have "\<exists>s. backtrack_from old new off (v # rev trace) (length old) (length new) [] = s @ [] \<and>
        script_for old new (length (rev trace)) (length old) (length new) s"
      by (rule backtrack_from_spec)
        (use tr first_past_end [OF pe Suc.prems(4)] Suc.prems(2,6) assms(8) in \<open>simp_all add: off_def\<close>)
    then have "script_for old new d (length old) (length new) (backtrack old new (trace @ [v]) off)"
      using Suc.prems(2) by (auto simp: backtrack_def simp del: backtrack_from.simps)
    then show ?thesis using unf True Suc.prems(4) by (auto simp del: myers_rounds.simps)
  next
    case False
    then have "before_round old new off (d + 1) v'" "\<forall>e<d + 1. \<not> past_end old new e"
      using False spec(2) Suc.prems(4) by (auto simp: before_round_def less_Suc_eq)
    then show ?thesis
      using Suc.IH [of "trace @ [v]" "d + 1" v'] tr spec(1) Suc.prems(2,5,6) unf False
      by (simp add: off_def del: myers_rounds.simps)
  qed
qed

lemma before_first: "before_round old new off 0 (replicate n 0)" if "slot off 1 < n"
  using that by (simp add: before_round_def at_def)

lemma myers_script:
  assumes "length old + length new < 2 ^ 60"
  obtains D where "script_for old new D (length old) (length new) (myers old new)" "\<forall>e<D. \<not> past_end old new e"
proof (cases "length old + length new = 0")
  case True
  then have "script_for old new 0 (length old) (length new) (myers old new)" by (simp add: myers_def script_for_def)
  then show thesis using that by blast
next
  case False
  have sm: "small_texts old new" using assms by (simp add: small_texts_def)
  define mx where "mx = length old + length new"
  have "0 < mx" "mx < 2 ^ 60" using assms False by (simp_all add: mx_def)
  then have "slot (int mx) 1 < 2 * mx + 1" by (simp add: slot_eq nat_less_iff)
  then have start: "before_round old new (int mx) 0 (replicate (2 * mx + 1) 0)" by (rule before_first)
  have m: "myers old new = myers_rounds old new (mx + 1) 0 (replicate (2 * mx + 1) 0) []"
    using \<open>0 < mx\<close> unfolding myers_def Let_def mx_def [symmetric] by (simp only: not_gr_zero [symmetric] if_False simp_thms)
  have "\<exists>D. script_for old new D (length old) (length new) (myers old new) \<and> (\<forall>e<D. \<not> past_end old new e)"
    unfolding m
    by (rule myers_rounds_spec)
      (use start sm \<open>0 < mx\<close> in \<open>simp_all add: trace_ok_def mx_def del: replicate.simps\<close>)
  then show thesis using that by blast
qed

lemma myers_sides:
  assumes "length old + length new < 2 ^ 60"
  shows "old_side (myers old new) = old" "new_side (myers old new) = new"
  by (rule myers_script [OF assms]; simp add: script_for_def)+

lemma myers_least:
  assumes "length old + length new < 2 ^ 60" "old_side s = old" "new_side s = new"
  shows "edit_cost (myers old new) \<le> edit_cost s"
proof (rule myers_script [OF assms(1)])
  fix D assume D: "script_for old new D (length old) (length new) (myers old new)" "\<forall>e<D. \<not> past_end old new e"
  then show ?thesis
    using script_reach [of s "length old" old "length new" new] assms(2,3)
    by (auto simp: past_end_def script_for_def not_less [symmetric])
qed

text \<open>
  C15. The diff always finds a script: the search ends before its rounds run out, the lines the script
  keeps and removes are the old text, the lines it keeps and inserts are the new one, and no script
  between the two texts has fewer edits.
\<close>
theorem myers_shortest_script:
  assumes "length old + length new < 2 ^ 60"
  shows "old_side (myers old new) = old \<and> new_side (myers old new) = new \<and>
    (\<forall>s. old_side s = old \<and> new_side s = new \<longrightarrow> edit_cost (myers old new) \<le> edit_cost s)"
  using myers_sides [OF assms] myers_least [OF assms] by blast

theorem myers_shortest_script_witness:
  "new_side (myers [''a'', ''b'', ''c''] [''b'', ''d'', ''c'']) = [''b'', ''d'', ''c''] \<and>
   edit_cost (myers [''a'', ''b'', ''c''] [''b'', ''d'', ''c'']) \<le>
     edit_cost [Remove ''a'', Remove ''b'', Insert ''b'', Insert ''d'', Keep ''c'']"
proof -
  let ?s = "[Remove ''a'', Remove ''b'', Insert ''b'', Insert ''d'', Keep ''c'']"
  have "old_side ?s = [''a'', ''b'', ''c'']" "new_side ?s = [''b'', ''d'', ''c'']" by code_simp+
  moreover have "length [''a'', ''b'', ''c''] + length [''b'', ''d'', ''c''] < 2 ^ 60" by simp
  ultimately show ?thesis using myers_shortest_script [of "[''a'', ''b'', ''c'']" "[''b'', ''d'', ''c'']"] by blast
qed

end
