(* ===== verification/Gfs_Diff.thy ===== *)
theory Gfs_Diff
  imports Gfs_Myers Gfs_Oid
begin

text \<open>
  Unified diffs and patch sections, the rest of \<open>crates/gfs-overlay/src/diff.rs\<close>, with the change record
  of \<open>status.rs\<close> they render. A hunk is a range of the edit script; the theorems are about what applying
  the hunks does, for a reference applier that follows the line numbers of the headers.
\<close>

section \<open>Changes\<close>

datatype change_kind = Added | Modified | Deleted | TypeChanged | ModeChanged | Renamed

fun porcelain :: "change_kind \<Rightarrow> char" where
  "porcelain Added = CHR ''A''"
| "porcelain Modified = CHR ''M''"
| "porcelain ModeChanged = CHR ''M''"
| "porcelain Deleted = CHR ''D''"
| "porcelain TypeChanged = CHR ''T''"
| "porcelain Renamed = CHR ''R''"

record status_change =
  sc_path :: path
  sc_kind :: change_kind
  sc_from :: "path option"
  sc_old_mode :: "nat option"
  sc_new_mode :: "nat option"
  sc_old_oid :: "string option"
  sc_new_oid :: "string option"
  sc_new_size :: nat

definition is_content_change :: "status_change \<Rightarrow> bool" where
  "is_content_change c = (sc_kind c \<noteq> ModeChanged)"

section \<open>Lines and hunks\<close>

definition SNIFF :: nat where "SNIFF = 8000"

definition is_binary :: "bytes \<Rightarrow> bool" where
  "is_binary bs = (CHR 0x00 \<in> set (take SNIFF bs))"

definition diff_lines :: "bytes \<Rightarrow> text_line list \<times> bool" where
  "diff_lines bs =
     (if bs = [] then ([], True)
      else let complete = (last bs = nl); body = (if complete then butlast bs else bs)
           in (split_on nl body, complete))"

text \<open>
  The scan for the end of a hunk: the position of its last change, the hunk ending where more than twice
  the context is unchanged.
\<close>

fun scan_end :: "nat \<Rightarrow> edit list \<Rightarrow> nat \<Rightarrow> nat \<Rightarrow> nat \<Rightarrow> nat" where
  "scan_end context [] position run e = e"
| "scan_end context (x # xs) position run e =
     (if is_keep x
      then if run + 1 > context * 2 then e else scan_end context xs (position + 1) (run + 1) e
      else scan_end context xs (position + 1) 0 position)"

lemma scan_end_ge: "e \<le> position \<Longrightarrow> e \<le> scan_end context xs position run e"
  by (induction xs arbitrary: position run e) (auto, meson le_trans nat_le_linear not_less_eq_eq)

text \<open>The hunks of the outer loop of \<open>unified\<close>, as half-open ranges of the script.\<close>

function hunk_ranges :: "edit list \<Rightarrow> nat \<Rightarrow> nat \<Rightarrow> (nat \<times> nat) list" where
  "hunk_ranges script context index =
     (if index < length script then
        let first = index + length (takeWhile is_keep (drop index script))
        in if first < length script then
             let start = first - context;
                 e = scan_end context (drop first script) first 0 first;
                 stop = min (e + context + 1) (length script)
             in (start, stop) # hunk_ranges script context stop
           else []
      else [])"
  by pat_completeness auto

termination
proof (relation "measure (\<lambda>(script, ctx, index). length script - index)")
  fix script :: "edit list" and ctx index first start e stop :: nat
  assume "index < length script" "first = index + length (takeWhile is_keep (drop index script))" "first < length script"
    "e = scan_end ctx (drop first script) first 0 first" "stop = min (e + ctx + 1) (length script)"
  then show "((script, ctx, stop), (script, ctx, index)) \<in> measure (\<lambda>(script, ctx, index). length script - index)"
    using scan_end_ge [of first first ctx "drop first script" 0] by auto
qed simp

declare hunk_ranges.simps [simp del]

text \<open>The two counting loops.\<close>

fun count_sides :: "edit list \<Rightarrow> nat \<times> nat" where
  "count_sides [] = (0, 0)"
| "count_sides (Keep _ # es) = (let (a, b) = count_sides es in (a + 1, b + 1))"
| "count_sides (Remove _ # es) = (let (a, b) = count_sides es in (a + 1, b))"
| "count_sides (Insert _ # es) = (let (a, b) = count_sides es in (a, b + 1))"

record hunk =
  h_old_line :: nat
  h_old_count :: nat
  h_new_line :: nat
  h_new_count :: nat
  h_edits :: "edit list"

definition hunk_of :: "edit list \<Rightarrow> nat \<times> nat \<Rightarrow> hunk" where
  "hunk_of script = (\<lambda>(start, stop).
     let (old_start, new_start) = count_sides (take start script);
         edits = take (stop - start) (drop start script);
         (old_count, new_count) = count_sides edits
     in \<lparr>h_old_line = (if old_count = 0 then old_start else old_start + 1), h_old_count = old_count,
         h_new_line = (if new_count = 0 then new_start else new_start + 1), h_new_count = new_count,
         h_edits = edits\<rparr>)"

definition is_last :: "edit list \<Rightarrow> bool \<Rightarrow> bool" where
  "is_last rest on_old =
     (\<not> list_ex (\<lambda>e. case e of Keep _ \<Rightarrow> True | Remove _ \<Rightarrow> on_old | Insert _ \<Rightarrow> \<not> on_old) rest)"

definition NO_NEWLINE :: bytes where
  "NO_NEWLINE = CHR 0x5C # '' No newline at end of file'' @ [nl]"

text \<open>One line of a hunk; \<open>rest\<close> is what follows it in the whole script.\<close>

definition render_edit :: "bool \<Rightarrow> bool \<Rightarrow> edit \<Rightarrow> edit list \<Rightarrow> bytes" where
  "render_edit old_complete new_complete e rest =
     (let (marker, line, last_of_side, complete) =
            (case e of
               Keep a \<Rightarrow> (CHR '' '', a, rest = [], old_complete \<and> new_complete)
             | Remove a \<Rightarrow> (CHR ''-'', a, is_last rest True, old_complete)
             | Insert b \<Rightarrow> (CHR ''+'', b, is_last rest False, new_complete))
      in marker # line @ nl # (if last_of_side \<and> \<not> complete then NO_NEWLINE else []))"

fun render_edits :: "bool \<Rightarrow> bool \<Rightarrow> nat \<Rightarrow> edit list \<Rightarrow> bytes" where
  "render_edits oc nc 0 script = []"
| "render_edits oc nc (Suc n) [] = []"
| "render_edits oc nc (Suc n) (e # rest) = render_edit oc nc e rest @ render_edits oc nc n rest"

definition render_hunk :: "bool \<Rightarrow> bool \<Rightarrow> edit list \<Rightarrow> nat \<times> nat \<Rightarrow> bytes" where
  "render_hunk oc nc script r =
     (let h = hunk_of script r
      in ''@@ -'' @ dec_string (h_old_line h) @ '','' @ dec_string (h_old_count h) @ '' +'' @
         dec_string (h_new_line h) @ '','' @ dec_string (h_new_count h) @ '' @@'' @ nl #
         render_edits oc nc (snd r - fst r) (drop (fst r) script))"

definition unified :: "bytes \<Rightarrow> bytes \<Rightarrow> nat \<Rightarrow> bytes" where
  "unified old new context =
     (let (old_lines, oc) = diff_lines old; (new_lines, nc) = diff_lines new; script = myers old_lines new_lines
      in concat (map (render_hunk oc nc script) (hunk_ranges script context 0)))"

section \<open>Patch sections\<close>

fun octal :: "nat \<Rightarrow> string" where
  "octal n = (if n < 8 then [digit_char n] else octal (n div 8) @ [digit_char (n mod 8)])"

declare octal.simps [simp del]

definition zero_padded :: "nat \<Rightarrow> string \<Rightarrow> string" where
  "zero_padded width s = replicate (width - length s) (CHR ''0'') @ s"

definition plain_byte :: "char \<Rightarrow> bool" where
  "plain_byte c = (let n = (of_char c :: nat) in 32 \<le> n \<and> n < 127)"

definition quoted_byte :: "char \<Rightarrow> bytes" where
  "quoted_byte c =
     (if c = CHR 0x22 then [CHR 0x5C, CHR 0x22]
      else if c = CHR 0x5C then [CHR 0x5C, CHR 0x5C]
      else if c = CHR 0x0A then [CHR 0x5C, CHR ''n'']
      else if c = CHR 0x09 then [CHR 0x5C, CHR ''t'']
      else if plain_byte c then [c]
      else CHR 0x5C # zero_padded 3 (octal (of_char c)))"

definition quoted_path :: "bytes \<Rightarrow> path \<Rightarrow> bytes" where
  "quoted_path prefix p =
     (if list_ex (\<lambda>c. \<not> plain_byte c \<or> c = CHR '' '' \<or> c = CHR 0x22 \<or> c = CHR 0x5C) p
      then CHR 0x22 # prefix @ concat (map quoted_byte p) @ [CHR 0x22]
      else prefix @ p)"

definition patch_mode :: "nat option \<Rightarrow> string" where
  "patch_mode m = zero_padded 6 (octal (case m of None \<Rightarrow> REGULAR | Some v \<Rightarrow> v))"

definition mode_lines :: "status_change \<Rightarrow> bytes" where
  "mode_lines c =
     (let old_path = (case sc_from c of None \<Rightarrow> sc_path c | Some f \<Rightarrow> f)
      in case sc_kind c of
           Added \<Rightarrow> ''new file mode '' @ patch_mode (sc_new_mode c) @ [nl]
         | Deleted \<Rightarrow> ''deleted file mode '' @ patch_mode (sc_old_mode c) @ [nl]
         | Renamed \<Rightarrow> ''similarity index 100%'' @ nl # ''rename from '' @ old_path @ nl # ''rename to '' @ sc_path c @ [nl]
         | _ \<Rightarrow> if sc_old_mode c \<noteq> sc_new_mode c
                then ''old mode '' @ patch_mode (sc_old_mode c) @ nl # ''new mode '' @ patch_mode (sc_new_mode c) @ [nl]
                else [])"

definition git_patch_section :: "status_change \<Rightarrow> bytes \<Rightarrow> bytes \<Rightarrow> bytes" where
  "git_patch_section c old new =
     (let old_path = (case sc_from c of None \<Rightarrow> sc_path c | Some f \<Rightarrow> f);
          a = quoted_path ''a/'' old_path; b = quoted_path ''b/'' (sc_path c);
          head = ''diff --git '' @ a @ '' '' @ b @ nl # mode_lines c
      in if old = new then head
         else if is_binary old \<or> is_binary new
         then head @ ''Binary files '' @ a @ '' and '' @ b @ '' differ'' @ [nl]
         else head @ ''--- '' @ (if sc_kind c = Added then ''/dev/null'' else a) @ nl #
              ''+++ '' @ (if sc_kind c = Deleted then ''/dev/null'' else b) @ nl # unified old new 3)"

section \<open>Applying hunks\<close>

text \<open>
  The reference applier: \<open>opos\<close> old lines are consumed and \<open>npos\<close> new lines produced; a hunk applies at
  the line its header names, where the old lines have to be what it keeps and removes.
\<close>

fun apply_hunks :: "nat \<Rightarrow> nat \<Rightarrow> hunk list \<Rightarrow> text_line list \<Rightarrow> text_line list option" where
  "apply_hunks opos npos [] old = Some (drop opos old)"
| "apply_hunks opos npos (h # hs) old =
     (let start = (if h_old_count h = 0 then h_old_line h else h_old_line h - 1);
          nstart = (if h_new_count h = 0 then h_new_line h else h_new_line h - 1)
      in if opos \<le> start \<and> nstart - npos = start - opos \<and> npos \<le> nstart \<and>
            take (h_old_count h) (drop start old) = old_side (h_edits h) \<and>
            length (old_side (h_edits h)) = h_old_count h \<and> length (new_side (h_edits h)) = h_new_count h
         then map_option (\<lambda>rest. take (start - opos) (drop opos old) @ new_side (h_edits h) @ rest)
                (apply_hunks (start + h_old_count h) (nstart + h_new_count h) hs old)
         else None)"

text \<open>Ranges in order, with nothing but kept lines between them.\<close>

fun spaced :: "edit list \<Rightarrow> nat \<Rightarrow> (nat \<times> nat) list \<Rightarrow> bool" where
  "spaced s i [] \<longleftrightarrow> list_all is_keep (drop i s)"
| "spaced s i ((a, b) # rs) \<longleftrightarrow>
     i \<le> a \<and> a \<le> b \<and> b \<le> length s \<and> list_all is_keep (take (a - i) (drop i s)) \<and> spaced s b rs"

lemma count_sides_length: "count_sides es = (length (old_side es), length (new_side es))"
  by (induction es rule: count_sides.induct) auto

lemma keeps_same_sides: "list_all is_keep es \<Longrightarrow> old_side es = new_side es"
proof (induction es)
  case (Cons e es)
  then show ?case by (cases e) auto
qed simp

lemma hunk_of_fields:
  "hunk_of s (a, b) =
     \<lparr>h_old_line = length (old_side (take a s)) + (if old_side (take (b - a) (drop a s)) = [] then 0 else 1),
      h_old_count = length (old_side (take (b - a) (drop a s))),
      h_new_line = length (new_side (take a s)) + (if new_side (take (b - a) (drop a s)) = [] then 0 else 1),
      h_new_count = length (new_side (take (b - a) (drop a s))),
      h_edits = take (b - a) (drop a s)\<rparr>"
  by (simp add: hunk_of_def count_sides_length Let_def)

lemma side_take_add:
  "i \<le> a \<Longrightarrow> take a s = take i s @ take (a - i) (drop i s)"
  by (metis le_add_diff_inverse take_add)

lemma drop_split: "i \<le> a \<Longrightarrow> drop i s = take (a - i) (drop i s) @ drop a s"
  using append_take_drop_id [of "a - i" "drop i s"] by simp

lemma apply_hunks_step:
  assumes "h_old_count h = length (old_side (h_edits h))" "h_new_count h = length (new_side (h_edits h))"
    and "h_old_line h = st + (if old_side (h_edits h) = [] then 0 else 1)"
    and "h_new_line h = nst + (if new_side (h_edits h) = [] then 0 else 1)"
    and "opos \<le> st" "npos \<le> nst" "nst - npos = st - opos"
    and "take (length (old_side (h_edits h))) (drop st old) = old_side (h_edits h)"
    and "apply_hunks (st + h_old_count h) (nst + h_new_count h) hs old = Some rest"
  shows "apply_hunks opos npos (h # hs) old = Some (take (st - opos) (drop opos old) @ new_side (h_edits h) @ rest)"
proof -
  have "(if h_old_count h = 0 then h_old_line h else h_old_line h - 1) = st"
      "(if h_new_count h = 0 then h_new_line h else h_new_line h - 1) = nst"
    using assms(1-4) by simp_all
  then show ?thesis using assms(1,2,5-9) unfolding apply_hunks.simps Let_def by simp
qed

lemma spaced_apply:
  assumes "spaced s i rs"
  shows "apply_hunks (length (old_side (take i s))) (length (new_side (take i s))) (map (hunk_of s) rs) (old_side s) =
    Some (new_side (drop i s))"
  using assms
proof (induction s i rs rule: spaced.induct)
  case (1 s i)
  have "old_side s = old_side (take i s) @ old_side (drop i s)" by (metis append_take_drop_id side_simps(13))
  then show ?case using 1 by (simp add: keeps_same_sides)
next
  case (2 s i a b rs)
  define gap where "gap = take (a - i) (drop i s)"
  define es where "es = take (b - a) (drop a s)"
  have ab: "i \<le> a" "a \<le> b" and g: "old_side gap = new_side gap"
    using 2 by (simp_all add: gap_def keeps_same_sides)
  have t: "take a s = take i s @ gap" "take b s = take a s @ es" "drop i s = gap @ es @ drop b s"
    using ab side_take_add [of i a s] side_take_add [of a b s] drop_split [of i a s] drop_split [of a b s]
    by (simp_all add: gap_def es_def)
  have s: "old_side s = old_side (take i s) @ old_side gap @ old_side es @ old_side (drop b s)"
    by (metis append_take_drop_id append.assoc side_simps(13) t(1,2))
  have o: "take (length (old_side es)) (drop (length (old_side (take a s))) (old_side s)) = old_side es"
    unfolding s t(1) by simp
  have h: "take (length (old_side (take a s)) - length (old_side (take i s))) (drop (length (old_side (take i s))) (old_side s))
      = new_side gap"
    unfolding s t(1) by (simp add: g)
  have l: "length (old_side (take b s)) = length (old_side (take a s)) + length (old_side es)"
      "length (new_side (take b s)) = length (new_side (take a s)) + length (new_side es)"
    unfolding t(2) by simp_all
  have d: "length (old_side (take i s)) \<le> length (old_side (take a s))"
      "length (new_side (take i s)) \<le> length (new_side (take a s))"
      "length (new_side (take a s)) - length (new_side (take i s)) = length (old_side (take a s)) - length (old_side (take i s))"
    unfolding t(1) by (simp_all add: g)
  have IH: "apply_hunks (length (old_side (take b s))) (length (new_side (take b s))) (map (hunk_of s) rs) (old_side s) =
      Some (new_side (drop b s))"
    using 2 by simp
  have "apply_hunks (length (old_side (take i s))) (length (new_side (take i s))) (hunk_of s (a, b) # map (hunk_of s) rs)
      (old_side s) = Some (new_side gap @ new_side es @ new_side (drop b s))"
    using apply_hunks_step [of "hunk_of s (a, b)" "length (old_side (take a s))" "length (new_side (take a s))", OF _ _ _ _ d(1,2,3)]
      o IH [unfolded l] by (simp add: hunk_of_fields es_def [symmetric] h)
  then show ?case unfolding t(3) by simp
qed

lemma scan_end_spec:
  assumes "scan_end ctx xs pos run e = e'" "e + run + 1 = pos"
  shows "e \<le> e' \<and> e' < pos + length xs \<and> (\<forall>i<length xs. \<not> is_keep (xs ! i) \<and> e' < pos + i \<longrightarrow> e' + 2 * ctx < pos + i)"
  using assms
proof (induction xs arbitrary: pos run e)
  case (Cons x xs)
  show ?case
  proof (cases "is_keep x \<and> run + 1 > ctx * 2")
    case True
    then show ?thesis using Cons.prems by (auto simp: All_less_Suc2)
  next
    case False
    show ?thesis
    proof (cases "is_keep x")
      case True
      then show ?thesis using False Cons.IH [of "pos + 1" "run + 1" e] Cons.prems by (auto simp: All_less_Suc2)
    next
      case change: False
      then show ?thesis using Cons.IH [of "pos + 1" 0 pos] Cons.prems by (auto simp: All_less_Suc2)
    qed
  qed
qed simp

lemma first_change:
  fixes s :: "edit list"
  assumes "first = index + length (takeWhile is_keep (drop index s))" "index \<le> length s"
  shows "first \<le> length s" "list_all is_keep (take (first - index) (drop index s))"
    "first < length s \<Longrightarrow> \<not> is_keep (s ! first)" "\<And>p. index \<le> p \<Longrightarrow> p < first \<Longrightarrow> is_keep (s ! p)"
proof -
  have le: "length (takeWhile is_keep (drop index s)) \<le> length s - index" using length_takeWhile_le [of is_keep "drop index s"] by simp
  then show "first \<le> length s" using assms by simp
  show "list_all is_keep (take (first - index) (drop index s))"
    using assms by (simp add: takeWhile_eq_take [symmetric] list_all_iff) (meson set_takeWhileD)
  show "\<not> is_keep (s ! first)" if "first < length s"
    using nth_length_takeWhile [of is_keep "drop index s"] that assms by simp
  show "is_keep (s ! p)" if "index \<le> p" "p < first" for p
  proof -
    have "takeWhile is_keep (drop index s) ! (p - index) = s ! p"
      using that assms le by (subst takeWhile_nth) auto
    moreover have "takeWhile is_keep (drop index s) ! (p - index) \<in> set (takeWhile is_keep (drop index s))"
      using that assms by (intro nth_mem) simp
    ultimately show ?thesis by (metis set_takeWhileD)
  qed
qed

lemma hunk_ranges_spaced:
  assumes "\<forall>p. index \<le> p \<and> p < length s \<and> \<not> is_keep (s ! p) \<longrightarrow> index = 0 \<or> index + ctx \<le> p" "index \<le> length s"
  shows "spaced s index (hunk_ranges s ctx index)"
  using assms
proof (induction s ctx index rule: hunk_ranges.induct)
  case (1 s ctx index)
  define first where "first = index + length (takeWhile is_keep (drop index s))"
  note fc = first_change [OF first_def 1(3)]
  show ?case
  proof (cases "index < length s \<and> first < length s")
    case False
    then have "drop index s = [] \<or> first = length s" using fc(1) 1(3) by auto
    then have "list_all is_keep (drop index s)" using fc(2) 1(3) by auto
    then show ?thesis using False by (auto simp: hunk_ranges.simps [of s ctx index] first_def Let_def)
  next
    case True
    define e where "e = scan_end ctx (drop first s) first 0 first"
    define stop where "stop = min (e + ctx + 1) (length s)"
    have ch: "\<not> is_keep (s ! first)" using fc(3) True by simp
    have le_first: "index \<le> first" by (simp add: first_def)
    obtain xs where xs: "drop first s = s ! first # xs" "xs = drop (Suc first) s" using True by (simp add: Cons_nth_drop_Suc)
    have sc: "first \<le> e" "e < length s" "\<forall>i<length xs. \<not> is_keep (xs ! i) \<and> e < Suc first + i \<longrightarrow> e + 2 * ctx < Suc first + i"
      using scan_end_spec [of ctx xs "Suc first" 0 first e] e_def ch xs True by auto
    have later: "e + 2 * ctx < p" if "e < p" "p < length s" "\<not> is_keep (s ! p)" for p
      using sc(1,3) that xs(2) by (auto dest: spec [of _ "p - Suc first"])
    have le: "stop \<le> length s" by (simp add: stop_def)
    have "stop + ctx \<le> p" if "stop \<le> p" "p < length s" "\<not> is_keep (s ! p)" for p
    proof -
      have "e < p" "stop \<le> e + ctx + 1" using that(1,2) by (auto simp: stop_def)
      then show ?thesis using later [OF _ that(2,3)] by linarith
    qed
    then have "spaced s stop (hunk_ranges s ctx stop)"
      using 1(1) [OF _ first_def _ refl e_def stop_def] True by (simp add: stop_def [symmetric] le)
    moreover have "index = 0 \<or> index + ctx \<le> first" using 1(2) ch True le_first by blast
    moreover from this have "index \<le> first - ctx" by linarith
    moreover have "list_all is_keep (take (first - ctx - index) (drop index s))"
      using fc(2) by (auto simp: list_all_length)
    moreover have "first - ctx \<le> stop" using sc(1,2) unfolding stop_def by linarith
    moreover have "hunk_ranges s ctx index = (first - ctx, stop) # hunk_ranges s ctx stop"
      using True unfolding hunk_ranges.simps [of s ctx index] Let_def first_def [symmetric] e_def [symmetric] stop_def [symmetric]
      by simp
    ultimately show ?thesis using le by simp
  qed
qed

section \<open>Properties\<close>

text \<open>
  C16. Applying the hunks of a unified diff, each at the line its header names and with the lines its
  header counts, turns the old lines into the new lines, whatever the context.
\<close>
theorem unified_applies:
  assumes "length old + length new < 2 ^ 60"
  shows "apply_hunks 0 0 (map (hunk_of (myers old new)) (hunk_ranges (myers old new) context 0)) old = Some new"
proof -
  have "old_side (myers old new) = old" "new_side (myers old new) = new"
    using myers_sides [OF assms] by simp_all
  moreover have "spaced (myers old new) 0 (hunk_ranges (myers old new) context 0)"
    by (rule hunk_ranges_spaced) simp_all
  ultimately show ?thesis using spaced_apply [of "myers old new" 0] by simp
qed

theorem unified_applies_witness:
  "map (hunk_of (myers [''a'', ''b''] [''b'', ''c''])) (hunk_ranges (myers [''a'', ''b''] [''b'', ''c'']) 0 0) =
     [\<lparr>h_old_line = 1, h_old_count = 1, h_new_line = 0, h_new_count = 0, h_edits = [Remove ''a'']\<rparr>,
      \<lparr>h_old_line = 2, h_old_count = 0, h_new_line = 2, h_new_count = 1, h_edits = [Insert ''c'']\<rparr>] \<and>
   apply_hunks 0 0 (map (hunk_of (myers [''a'', ''b''] [''b'', ''c'']))
     (hunk_ranges (myers [''a'', ''b''] [''b'', ''c'']) 0 0)) [''a'', ''b''] = Some [''b'', ''c'']"
proof
  show "apply_hunks 0 0 (map (hunk_of (myers [''a'', ''b''] [''b'', ''c'']))
     (hunk_ranges (myers [''a'', ''b''] [''b'', ''c'']) 0 0)) [''a'', ''b''] = Some [''b'', ''c'']"
    by (rule unified_applies) simp
qed code_simp

text \<open>
  C38. A change that only adds or only removes the newline at the end of a text is lost: the diff has no
  hunk for it, because lines are compared without their terminators.
\<close>
theorem final_newline_lost:
  assumes "s \<noteq> []" and "last s \<noteq> nl" and "length (split_on nl s) < 2 ^ 59"
  shows "unified s (s @ [nl]) context = [] \<and> unified (s @ [nl]) s context = []"
proof -
  let ?l = "split_on nl s"
  have lines: "diff_lines s = (?l, False)" "diff_lines (s @ [nl]) = (?l, True)"
    using assms(1,2) by (simp_all add: diff_lines_def)
  have keep: "list_all is_keep (myers ?l ?l)"
  proof -
    have "edit_cost (myers ?l ?l) \<le> edit_cost (map Keep ?l)"
      by (rule myers_least) (use assms(3) in simp_all)
    then show ?thesis by (simp add: edit_cost_def list_all_iff filter_empty_conv)
  qed
  then have "takeWhile is_keep (myers ?l ?l) = myers ?l ?l" by (simp add: list_all_iff)
  then have "hunk_ranges (myers ?l ?l) context 0 = []"
    unfolding hunk_ranges.simps [of _ _ 0] Let_def drop_0 by (simp only: add_0 less_irrefl if_False if_cancel)
  then show ?thesis by (simp add: unified_def lines)
qed

theorem final_newline_lost_witness: "unified ''a'' (''a'' @ [nl]) 3 = [] \<and> ''a'' \<noteq> ''a'' @ [nl]"
  using final_newline_lost [of "''a''" 3] by simp

end
