(* ===== verification/Gfs_Wire.thy ===== *)
theory Gfs_Wire
  imports Gfs_Path Gfs_Oid
begin

text \<open>
  What the binary formats of the program share: big and little endian integers
  (\<open>to_be_bytes\<close>, \<open>from_be_bytes\<close> and their little endian forms), checked slices (\<open>get(a..b)\<close>), and the
  traversal of a list with a fallible function (\<open>collect\<close> into a \<open>Result\<close>, or a loop with \<open>?\<close>).
\<close>

unbundle bit_operations_syntax

section \<open>Integers\<close>

fun be_bytes :: "nat \<Rightarrow> nat \<Rightarrow> bytes" where
  "be_bytes 0 v = []"
| "be_bytes (Suc w) v = be_bytes w (v div 256) @ [char_of (v mod 256)]"

definition from_be :: "bytes \<Rightarrow> nat" where
  "from_be bs = foldl (\<lambda>n c. 256 * n + of_char c) 0 bs"

abbreviation be16 :: "nat \<Rightarrow> bytes" where "be16 \<equiv> be_bytes 2"
abbreviation be32 :: "nat \<Rightarrow> bytes" where "be32 \<equiv> be_bytes 4"
abbreviation be64 :: "nat \<Rightarrow> bytes" where "be64 \<equiv> be_bytes 8"

definition le_bytes :: "nat \<Rightarrow> nat \<Rightarrow> bytes" where
  "le_bytes w v = rev (be_bytes w v)"

definition from_le :: "bytes \<Rightarrow> nat" where
  "from_le bs = from_be (rev bs)"

lemma be_bytes_length [simp]: "length (be_bytes w v) = w"
  by (induction w arbitrary: v) auto

lemma from_be_snoc: "from_be (bs @ [c]) = 256 * from_be bs + of_char c"
  by (simp add: from_be_def)

lemma from_be_be_bytes: "from_be (be_bytes w v) = v mod 256 ^ w"
proof (induction w arbitrary: v)
  case 0
  then show ?case by (simp add: from_be_def)
next
  case (Suc w)
  then show ?case by (simp add: from_be_snoc mod_mult2_eq)
qed

lemma from_be_exact [simp]: "v < 256 ^ w \<Longrightarrow> from_be (be_bytes w v) = v"
  by (simp add: from_be_be_bytes)

lemma from_le_exact [simp]: "v < 256 ^ w \<Longrightarrow> from_le (le_bytes w v) = v"
  by (simp add: from_le_def le_bytes_def)

lemma le_bytes_length [simp]: "length (le_bytes w v) = w"
  by (simp add: le_bytes_def)

lemma from_be_less: "from_be bs < 256 ^ length bs"
proof (induction bs rule: rev_induct)
  case (snoc c bs)
  have "(of_char c :: nat) < 256" by simp
  then have "256 * from_be bs + of_char c < 256 * (from_be bs + 1)" by simp
  also have "\<dots> \<le> 256 * 256 ^ length bs" using snoc by (intro mult_le_mono2) simp
  finally show ?case by (simp add: from_be_snoc)
qed (simp add: from_be_def)

lemma be_bytes_from_be: "be_bytes (length bs) (from_be bs) = bs"
proof (induction bs rule: rev_induct)
  case (snoc c bs)
  have "(of_char c :: nat) < 256" by simp
  then show ?case using snoc by (simp add: from_be_snoc)
qed simp

section \<open>Slices and searches\<close>

definition get_slice :: "bytes \<Rightarrow> nat \<Rightarrow> nat \<Rightarrow> bytes option" where
  "get_slice bs a n = (if a + n \<le> length bs then Some (take n (drop a bs)) else None)"

definition position_of :: "char \<Rightarrow> bytes \<Rightarrow> nat option" where
  "position_of c bs = (if c \<in> set bs then Some (length (takeWhile (\<lambda>x. x \<noteq> c) bs)) else None)"

lemma get_slice_append [simp]: "get_slice (xs @ ys) (length xs) (length ys) = Some ys"
  by (simp add: get_slice_def)

lemma get_slice_at:
  assumes "bs = xs @ ys @ zs" "a = length xs" "n = length ys"
  shows "get_slice bs a n = Some ys"
  using assms by (simp add: get_slice_def)

lemma takeWhile_neq_append: "c \<notin> set xs \<Longrightarrow> takeWhile (\<lambda>x. x \<noteq> c) (xs @ c # ys) = xs"
  by (induction xs) auto

lemma position_of_append: "c \<notin> set xs \<Longrightarrow> position_of c (xs @ c # ys) = Some (length xs)"
  by (simp add: position_of_def takeWhile_neq_append)

section \<open>Traversal\<close>

fun traverse :: "('a \<Rightarrow> 'e + 'b) \<Rightarrow> 'a list \<Rightarrow> 'e + 'b list" where
  "traverse f [] = Inr []"
| "traverse f (x # xs) =
     (case f x of Inl e \<Rightarrow> Inl e
      | Inr y \<Rightarrow> (case traverse f xs of Inl e \<Rightarrow> Inl e | Inr ys \<Rightarrow> Inr (y # ys)))"

lemma traverse_cong [fundef_cong]:
  "xs = ys \<Longrightarrow> (\<And>x. x \<in> set ys \<Longrightarrow> f x = g x) \<Longrightarrow> traverse f xs = traverse g ys"
  by (induction xs arbitrary: ys) (auto split: sum.splits)

lemma traverse_Inr:
  "traverse f xs = Inr ys \<longleftrightarrow> length ys = length xs \<and> (\<forall>i<length xs. f (xs ! i) = Inr (ys ! i))"
proof (induction xs arbitrary: ys)
  case (Cons x xs)
  have "traverse f (x # xs) = Inr ys \<longleftrightarrow> (\<exists>y zs. ys = y # zs \<and> f x = Inr y \<and> traverse f xs = Inr zs)"
    by (auto split: sum.splits)
  then show ?case using Cons.IH by (cases ys) (auto simp: All_less_Suc2)
qed auto

lemma traverse_mem: "traverse f xs = Inr ys \<Longrightarrow> x \<in> set xs \<Longrightarrow> \<exists>y \<in> set ys. f x = Inr y"
  by (metis in_set_conv_nth traverse_Inr)

section \<open>Prefixes in the byte order\<close>

text \<open>The texts with a given prefix are a contiguous run of a sorted list.\<close>

lemma starts_with_extends: "starts_with p d \<longleftrightarrow> (\<exists>s. p = d @ s)"
  by (simp add: starts_with_iff)

lemma starts_with_ge: "starts_with p d \<Longrightarrow> d \<le> (p :: bytes)"
proof -
  have "d \<le> d @ s" for s :: bytes by (induction d) auto
  then show "starts_with p d \<Longrightarrow> d \<le> p" by (auto simp: starts_with_extends)
qed

lemma starts_with_convex: "d \<le> (p :: bytes) \<Longrightarrow> p \<le> d @ s \<Longrightarrow> starts_with p d"
proof (induction d arbitrary: p)
  case (Cons c d)
  then obtain c' p' where p: "p = c' # p'" by (cases p) auto
  then have "c' = c" "d \<le> p'" "p' \<le> d @ s" using Cons.prems by (auto simp: Cons_le_Cons)
  then show ?case using Cons.IH p by (auto simp: starts_with_extends)
qed (simp add: starts_with_extends)

lemma prefix_run:
  fixes f :: "'a \<Rightarrow> bytes"
  assumes "sorted_wrt (<) (map f es)"
  shows "takeWhile (\<lambda>e. starts_with (f e) d) (drop (length (takeWhile (\<lambda>e. f e < d) es)) es) =
    filter (\<lambda>e. starts_with (f e) d) es"
  using assms
proof (induction es)
  case (Cons e es)
  show ?case
  proof (cases "f e < d")
    case True
    then have "\<not> starts_with (f e) d" using starts_with_ge [of "f e" d] by auto
    then show ?thesis using Cons True by simp
  next
    case False
    have ge: "d \<le> f x" if "x \<in> set es" for x using that Cons.prems False by fastforce
    then have tw: "takeWhile (\<lambda>e. f e < d) es = []" by (cases es) (auto simp: not_less)
    show ?thesis
    proof (cases "starts_with (f e) d")
      case True
      then show ?thesis using Cons False tw by simp
    next
      case out: False
      have "\<not> starts_with (f x) d" if "x \<in> set es" for x
      proof
        assume "starts_with (f x) d"
        then obtain t where "f x = d @ t" by (auto simp: starts_with_extends)
        moreover have "f e < f x" using Cons.prems that by auto
        ultimately show False using starts_with_convex [of d "f e" t] False out by (simp add: not_less less_imp_le)
      qed
      then have "filter (\<lambda>e. starts_with (f e) d) es = []" by (simp add: filter_empty_conv)
      then show ?thesis using False out by simp
    qed
  qed
qed simp

section \<open>The text of an object id\<close>

lemma hex_digit_ascii: "d < 16 \<Longrightarrow> (of_char (hex_digit d) :: nat) < 128"
  by (simp add: hex_digit_def)

lemma low_nibble: "(of_char c :: nat) AND 15 < 16"
proof -
  have "(of_char c :: nat) AND 15 = take_bit 4 (of_char c)" by (simp add: take_bit_eq_mask mask_eq_exp_minus_1)
  then show ?thesis using take_bit_nat_less_exp [of 4 "of_char c"] by simp
qed

lemma qualified_text: "oid_ok oid \<Longrightarrow> utf8_valid (to_qualified oid) \<and> length (to_qualified oid) < 2 ^ 32"
proof -
  assume ok: "oid_ok oid"
  have hex: "is_ascii (to_hex oid)"
    by (auto simp: to_hex_def is_ascii_def list_all_iff drop_bit_eq_div less_mult_imp_div_less low_nibble intro!: hex_digit_ascii)
  have "length (to_hex oid) = 2 * length (oid_raw oid)" by (simp add: to_hex_def length_concat o_def sum_list_triv)
  moreover have "is_ascii (to_qualified oid)"
    using hex by (cases "oid_algorithm oid") (auto simp: to_qualified_def is_ascii_def list_all_iff)
  ultimately show ?thesis
    using ok by (cases "oid_algorithm oid") (auto simp: to_qualified_def oid_ok_def)
qed

end
