(* ===== verification/Gfs_Index.thy ===== *)
theory Gfs_Index
  imports Gfs_Wire Gfs_Oid Gfs_Time "HOL-Library.Product_Lexorder"
begin

text \<open>
  The Git index file of a workspace, \<open>crates/gfs-git/src/index.rs\<close>: the version 2 writer with its cache
  tree (\<open>write_index_v2\<close>), the entry cursor that reads versions 2 to 4 (\<open>EntryCursor\<close>) and the two
  comparisons built on it (\<open>first_staged_difference\<close>, \<open>staged_tree\<close>). SHA-1 is a parameter of the writer,
  of which only the length of a digest is used. \<open>partition_point\<close> is the length of the leading run, which
  is what it returns on the sorted entries the writer has checked.
\<close>

unbundle bit_operations_syntax

section \<open>Entries and cache tree\<close>

record index_entry =
  ie_path :: bytes
  ie_mode :: nat
  ie_oid :: object_id
  ie_size :: nat

datatype cache_tree =
  CacheTree (ct_name: bytes) (ct_oid: object_id) (ct_entries: nat) (ct_children: "cache_tree list")

abbreviation nul :: char where "nul \<equiv> CHR 0x00"

text \<open>\<open>subtree_name_cmp\<close> compares lengths first, then bytes: the order of this key.\<close>

definition subtree_key :: "cache_tree \<Rightarrow> nat \<times> bytes" where
  "subtree_key t = (length (ct_name t), ct_name t)"

fun write_cache_tree :: "cache_tree \<Rightarrow> error_code + bytes" where
  "write_cache_tree (CacheTree name oid n cs) =
     (if oid_algorithm oid \<noteq> Sha1 then Inl UnsupportedRepositoryFormat
      else case traverse write_cache_tree cs of
        Inl e \<Rightarrow> Inl e
      | Inr bodies \<Rightarrow>
          Inr (name @ nul # dec_string n @ '' '' @ dec_string (length cs) @ nl # oid_raw oid @ concat bodies))"

text \<open>The check of \<open>windows(2)\<close> after sorting.\<close>

fun strictly_rising :: "cache_tree list \<Rightarrow> bool" where
  "strictly_rising (a # b # rest) = (subtree_key a < subtree_key b \<and> strictly_rising (b # rest))"
| "strictly_rising _ = True"

function sort_cache_tree :: "cache_tree \<Rightarrow> error_code + cache_tree" where
  "sort_cache_tree (CacheTree name oid n cs) =
     (let sorted_cs = sort_key subtree_key cs
      in if \<not> strictly_rising sorted_cs then Inl Internal
         else case traverse sort_cache_tree sorted_cs of
           Inl e \<Rightarrow> Inl e
         | Inr cs' \<Rightarrow> Inr (CacheTree name oid n cs'))"
  by pat_completeness auto

termination
proof (relation "measure size")
  fix name oid n cs sorted_cs x
  assume "sorted_cs = sort_key subtree_key cs" "x \<in> set sorted_cs"
  then have "x \<in> set cs" by simp
  then have "size x \<le> size_list size cs" by (induction cs) auto
  then show "(x, CacheTree name oid n cs) \<in> measure size" by simp
qed simp

fun verify_cache_tree :: "cache_tree \<Rightarrow> bytes \<Rightarrow> index_entry list \<Rightarrow> error_code + unit" where
  "verify_cache_tree (CacheTree name oid n cs) prefix es =
     (let start = length (takeWhile (\<lambda>e. ie_path e < prefix) es);
          covered = length (takeWhile (\<lambda>e. starts_with (ie_path e) prefix) (drop start es))
      in if covered \<noteq> n then Inl Internal
         else case traverse (\<lambda>c. verify_cache_tree c (prefix @ ct_name c @ ''/'') es) cs of
           Inl e \<Rightarrow> Inl e
         | Inr _ \<Rightarrow> Inr ())"

section \<open>The writer\<close>

text \<open>One entry: the 62 fixed bytes, the path, and at least one NUL up to a multiple of eight.\<close>

definition entry_fixed :: "nat \<Rightarrow> nat \<Rightarrow> index_entry \<Rightarrow> bytes" where
  "entry_fixed s ns e =
     be32 s @ be32 ns @ be32 s @ be32 ns @ be32 0 @ be32 0 @ be32 (ie_mode e) @ be32 0 @ be32 0 @
     be32 (ie_size e mod 2 ^ 32) @ oid_raw (ie_oid e) @ be16 (min (length (ie_path e)) 0xFFF)"

definition entry_bytes :: "nat \<Rightarrow> nat \<Rightarrow> index_entry \<Rightarrow> bytes" where
  "entry_bytes s ns e =
     (let body = entry_fixed s ns e @ ie_path e; padded = (length body div 8 + 1) * 8
      in body @ replicate (padded - length body) nul)"

fun write_entries :: "nat \<Rightarrow> nat \<Rightarrow> bytes option \<Rightarrow> index_entry list \<Rightarrow> error_code + bytes" where
  "write_entries s ns previous [] = Inr []"
| "write_entries s ns previous (e # es) =
     (if (case previous of None \<Rightarrow> False | Some prev \<Rightarrow> prev \<ge> ie_path e) then Inl Internal
      else if oid_algorithm (ie_oid e) \<noteq> Sha1 then Inl UnsupportedRepositoryFormat
      else case write_entries s ns (Some (ie_path e)) es of
        Inl err \<Rightarrow> Inl err
      | Inr rest \<Rightarrow> Inr (entry_bytes s ns e @ rest))"

definition tree_extension :: "cache_tree option \<Rightarrow> index_entry list \<Rightarrow> error_code + bytes" where
  "tree_extension tree es =
     (case tree of None \<Rightarrow> Inr []
      | Some root \<Rightarrow>
        (case sort_cache_tree root of Inl e \<Rightarrow> Inl e
         | Inr root' \<Rightarrow>
           (case verify_cache_tree root' [] es of Inl e \<Rightarrow> Inl e
            | Inr _ \<Rightarrow>
              (case write_cache_tree root' of Inl e \<Rightarrow> Inl e
               | Inr body \<Rightarrow>
                 if length body \<ge> 2 ^ 32 then Inl ResourceLimit
                 else Inr (''TREE'' @ be32 (length body) @ body)))))"

definition write_index_v2 ::
  "(bytes \<Rightarrow> bytes) \<Rightarrow> index_entry list \<Rightarrow> timestamp \<Rightarrow> cache_tree option \<Rightarrow> error_code + bytes"
where
  "write_index_v2 sha1 es t tree =
     (if length es \<ge> 2 ^ 32 then Inl ResourceLimit
      else case write_entries (i64_as_u32 (secs t)) (nanos t) None es of
        Inl e \<Rightarrow> Inl e
      | Inr body \<Rightarrow>
        (case tree_extension tree es of Inl e \<Rightarrow> Inl e
         | Inr ext \<Rightarrow>
           (let out = ''DIRC'' @ be32 2 @ be32 (length es) @ body @ ext in Inr (out @ sha1 out))))"

section \<open>The entry cursor\<close>

type_synonym staged = "nat \<times> nat \<times> bytes \<times> bool"

record entry_cursor =
  ec_version :: nat
  ec_remaining :: nat
  ec_pos :: nat
  ec_path :: bytes

definition cursor_new :: "bytes \<Rightarrow> error_code + entry_cursor" where
  "cursor_new bs =
     (if length bs < 12 \<or> take 4 bs \<noteq> ''DIRC'' then Inl FailedPrecondition
      else let version = from_be (take 4 (drop 4 bs))
           in if \<not> (2 \<le> version \<and> version \<le> 4) then Inl FailedPrecondition
              else Inr \<lparr>ec_version = version, ec_remaining = from_be (take 4 (drop 8 bs)), ec_pos = 12, ec_path = []\<rparr>)"

text \<open>
  The variable-length count of a version 4 path; the shift drops what leaves 64 bits, the increment wraps.
\<close>

function read_strip :: "bytes \<Rightarrow> nat \<Rightarrow> nat \<Rightarrow> (nat \<times> nat) option" where
  "read_strip bs pos strip =
     (if pos < length bs then
        let byte = of_char (bs ! pos) :: nat;
            strip' = push_bit 7 strip mod 2 ^ 64 OR byte AND 127
        in if byte AND 128 = 0 then Some (strip', pos + 1)
           else read_strip bs (pos + 1) ((strip' + 1) mod 2 ^ 64)
      else None)"
  by pat_completeness auto

termination
  by (relation "measure (\<lambda>(bs, pos, strip). length bs - pos)") auto

declare read_strip.simps [simp del]

text \<open>The path of an entry of version 4, and of version 2 or 3: the path and the position after the entry.\<close>

definition path_v4 :: "bytes \<Rightarrow> nat \<Rightarrow> bytes \<Rightarrow> (bytes \<times> nat) option" where
  "path_v4 bs pos previous =
     (case read_strip bs pos 0 of None \<Rightarrow> None
      | Some (strip, pos') \<Rightarrow>
          (case position_of nul (drop pos' bs) of None \<Rightarrow> None
           | Some len \<Rightarrow>
               if length previous < strip then None
               else Some (take (length previous - strip) previous @ take len (drop pos' bs), pos' + len + 1)))"

definition path_v2 :: "bytes \<Rightarrow> nat \<Rightarrow> nat \<Rightarrow> nat \<Rightarrow> (bytes \<times> nat) option" where
  "path_v2 bs start pos flags =
     (if pos > length bs then None
      else case (if take_bit 12 flags = 0xFFF then position_of nul (drop pos bs) else Some (take_bit 12 flags)) of
        None \<Rightarrow> None
      | Some len \<Rightarrow>
          (case get_slice bs pos len of None \<Rightarrow> None
           | Some p \<Rightarrow> Some (p, start + (pos - start + len) div 8 * 8 + 8)))"

definition cursor_next :: "bytes \<Rightarrow> entry_cursor \<Rightarrow> error_code + (staged option \<times> entry_cursor)" where
  "cursor_next bs c =
     (if ec_remaining c = 0 then Inr (None, c)
      else let start = ec_pos c in
        case get_slice bs start 62 of None \<Rightarrow> Inl FailedPrecondition
      | Some fixed \<Rightarrow>
        (let mode = from_be (take 4 (drop 24 fixed));
             oid = take 20 (drop 40 fixed);
             flags = from_be (take 2 (drop 60 fixed));
             stage = take_bit 2 (drop_bit 12 flags)
         in case (if bit flags 14
                  then map_option (\<lambda>x. (bit (from_be x) 13, start + 64)) (get_slice bs (start + 62) 2)
                  else Some (False, start + 62)) of
              None \<Rightarrow> Inl FailedPrecondition
            | Some (intent_to_add, pos) \<Rightarrow>
                (case (if ec_version c = 4 then path_v4 bs pos (ec_path c) else path_v2 bs start pos flags) of
                   None \<Rightarrow> Inl FailedPrecondition
                 | Some (p, pos') \<Rightarrow>
                     Inr (Some (stage, mode, oid, intent_to_add),
                       c\<lparr>ec_remaining := ec_remaining c - 1, ec_pos := pos', ec_path := p\<rparr>))))"

lemma cursor_next_remaining:
  "cursor_next bs c = Inr (Some st, c') \<Longrightarrow> ec_remaining c' < ec_remaining c"
  by (auto simp: cursor_next_def Let_def split: if_splits option.splits prod.splits)

section \<open>Comparisons\<close>

function staged_diff :: "bytes \<Rightarrow> entry_cursor \<Rightarrow> bytes \<Rightarrow> entry_cursor \<Rightarrow> error_code + bytes option" where
  "staged_diff a ca b cb =
     (case cursor_next a ca of Inl e \<Rightarrow> Inl e
      | Inr (sa, ca') \<Rightarrow>
        (case cursor_next b cb of Inl e \<Rightarrow> Inl e
         | Inr (sb, cb') \<Rightarrow>
           (case (sa, sb) of
              (None, None) \<Rightarrow> Inr None
            | (Some _, None) \<Rightarrow> Inr (Some (ec_path ca'))
            | (None, Some _) \<Rightarrow> Inr (Some (ec_path cb'))
            | (Some l, Some r) \<Rightarrow>
                if l \<noteq> r \<or> ec_path ca' \<noteq> ec_path cb'
                then Inr (Some (if ec_path ca' \<le> ec_path cb' then ec_path ca' else ec_path cb'))
                else staged_diff a ca' b cb')))"
  by pat_completeness auto

termination
  by (relation "measure (\<lambda>(a, ca, b, cb). ec_remaining ca)") (auto dest: cursor_next_remaining)

declare staged_diff.simps [simp del]

definition first_staged_difference :: "bytes \<Rightarrow> bytes \<Rightarrow> error_code + bytes option" where
  "first_staged_difference a b =
     (case cursor_new a of Inl e \<Rightarrow> Inl e
      | Inr ca \<Rightarrow> (case cursor_new b of Inl e \<Rightarrow> Inl e | Inr cb \<Rightarrow> staged_diff a ca b cb))"

text \<open>The first loop of \<open>staged_tree\<close>: the position after the entries, unless one is not plainly staged.\<close>

function plain_end :: "bytes \<Rightarrow> entry_cursor \<Rightarrow> error_code + nat option" where
  "plain_end bs c =
     (case cursor_next bs c of Inl e \<Rightarrow> Inl e
      | Inr (None, c') \<Rightarrow> Inr (Some (ec_pos c'))
      | Inr (Some (stage, mode, oid, intent), c') \<Rightarrow>
          if stage \<noteq> 0 \<or> intent then Inr None else plain_end bs c')"
  by pat_completeness auto

termination
  by (relation "measure (\<lambda>(bs, c). ec_remaining c)") (auto dest: cursor_next_remaining)

declare plain_end.simps [simp del]

text \<open>\<open>i64\<close>'s \<open>parse\<close>, on a string that is known to be text.\<close>

definition parse_i64 :: "string \<Rightarrow> int option" where
  "parse_i64 s =
     (case s of
        c # cs \<Rightarrow>
          if c = CHR ''-''
          then (if cs = [] \<or> \<not> list_all is_ascii_digit cs \<or> dec_value cs > 2 ^ 63 then None else Some (- int (dec_value cs)))
          else map_option int (parse_unsigned (2 ^ 63 - 1) s)
      | [] \<Rightarrow> None)"

definition tree_body_root :: "bytes \<Rightarrow> bytes option" where
  "tree_body_root body =
     (case strip_prefix [nul] body of None \<Rightarrow> None
      | Some rest \<Rightarrow>
        (case position_of nl rest of None \<Rightarrow> None
         | Some line_end \<Rightarrow>
             (let line = take line_end rest;
                  count = (if utf8_valid line then parse_i64 (hd (split_on (CHR '' '') line)) else None)
              in case count of
                   Some n \<Rightarrow> if n \<ge> 0 then get_slice rest (line_end + 1) 20 else None
                 | None \<Rightarrow> None)))"

function find_tree :: "bytes \<Rightarrow> nat \<Rightarrow> error_code + bytes option" where
  "find_tree bs pos =
     (if pos + 8 + 20 \<le> length bs then
        let len = from_be (take 4 (drop (pos + 4) bs))
        in case get_slice bs (pos + 8) len of
             None \<Rightarrow> Inl FailedPrecondition
           | Some body \<Rightarrow>
               if take 4 (drop pos bs) = ''TREE'' then Inr (tree_body_root body)
               else find_tree bs (pos + (8 + len))
      else Inr None)"
  by pat_completeness auto

termination
  by (relation "measure (\<lambda>(bs, pos). length bs - pos)") auto

declare find_tree.simps [simp del]

definition staged_tree :: "bytes \<Rightarrow> error_code + bytes option" where
  "staged_tree bs =
     (case cursor_new bs of Inl e \<Rightarrow> Inl e
      | Inr c \<Rightarrow>
        (case plain_end bs c of Inl e \<Rightarrow> Inl e
         | Inr None \<Rightarrow> Inr None
         | Inr (Some pos) \<Rightarrow> find_tree bs pos))"

end
