(* ===== verification/Gfs_IndexProofs.thy ===== *)
theory Gfs_IndexProofs
  imports Gfs_Index "HOL-Library.Code_Target_Nat"
begin

text \<open>
  Proofs about the index file: what the cursor reads from a written index is what was written, two
  sorted lists of staged entries differ first where \<open>first_difference\<close> says, and a cache tree that was accepted
  counts the entries under each of its directories. \<open>Gfs_GitIndex\<close> carries this to index files Git wrote.
\<close>

section \<open>Reading back one entry\<close>

definition index_entry_ok :: "index_entry \<Rightarrow> bool" where
  "index_entry_ok e \<longleftrightarrow> ie_mode e < 2 ^ 32 \<and> oid_ok (ie_oid e) \<and> nul \<notin> set (ie_path e)"

definition staged_of :: "index_entry \<Rightarrow> bytes \<times> staged" where
  "staged_of e = (ie_path e, 0, ie_mode e, oid_raw (ie_oid e), False)"

lemma entry_fixed_fields:
  assumes "length (oid_raw (ie_oid e)) = 20"
  shows "length (entry_fixed s ns e) = 62" "take 4 (drop 24 (entry_fixed s ns e)) = be32 (ie_mode e)"
    "take 20 (drop 40 (entry_fixed s ns e)) = oid_raw (ie_oid e)"
    "take 2 (drop 60 (entry_fixed s ns e)) = be16 (min (length (ie_path e)) 0xFFF)"
  using assms unfolding entry_fixed_def by simp_all

lemma entry_bytes_eq:
  assumes "length (oid_raw (ie_oid e)) = 20"
  shows "\<exists>pad. entry_bytes s ns e = entry_fixed s ns e @ ie_path e @ nul # pad"
    "length (entry_bytes s ns e) = (62 + length (ie_path e)) div 8 * 8 + 8"
proof -
  have less: "62 + length (ie_path e) < (62 + length (ie_path e)) div 8 * 8 + 8" by presburger
  then obtain n where n: "((62 + length (ie_path e)) div 8 + 1) * 8 - (62 + length (ie_path e)) = Suc n"
    by (metis Suc_diff_Suc add_mult_distrib mult_1)
  then show "\<exists>pad. entry_bytes s ns e = entry_fixed s ns e @ ie_path e @ nul # pad"
    unfolding entry_bytes_def Let_def by (simp add: entry_fixed_fields [OF assms])
  show "length (entry_bytes s ns e) = (62 + length (ie_path e)) div 8 * 8 + 8"
    using less unfolding entry_bytes_def Let_def by (simp add: entry_fixed_fields [OF assms])
qed

lemma path_v2_entry:
  assumes bs: "bs = pre @ fixed @ p @ nul # post" and l: "length fixed = 62" and p: "nul \<notin> set p"
  shows "path_v2 bs (length pre) (length pre + 62) (min (length p) 0xFFF) =
    Some (p, length pre + ((62 + length p) div 8 * 8 + 8))"
proof -
  have d: "drop (length pre + 62) bs = p @ nul # post" using l by (simp add: bs)
  have f: "take_bit 12 (min (length p) 0xFFF) = min (length p) 0xFFF" by (simp add: take_bit_nat_eq_self)
  have len: "(if take_bit 12 (min (length p) 0xFFF) = 0xFFF then position_of nul (drop (length pre + 62) bs)
      else Some (take_bit 12 (min (length p) 0xFFF))) = Some (length p)"
    unfolding f using position_of_append [OF p] by (auto simp: d min_def)
  have "get_slice bs (length pre + 62) (length p) = Some p"
    by (rule get_slice_at [of _ "pre @ fixed" _ "nul # post"]) (simp_all add: bs l)
  then show ?thesis using l unfolding path_v2_def len by (simp add: bs)
qed

lemma cursor_next_entry:
  assumes bs: "bs = pre @ entry_bytes s ns e @ post" and e: "index_entry_ok e" "oid_algorithm (ie_oid e) = Sha1"
    and c: "ec_pos c = length pre" "ec_version c = 2" "ec_remaining c = Suc n"
  shows "cursor_next bs c = Inr (Some (snd (staged_of e)),
    c\<lparr>ec_remaining := n, ec_pos := length pre + length (entry_bytes s ns e), ec_path := ie_path e\<rparr>)"
proof -
  have raw: "length (oid_raw (ie_oid e)) = 20" using e by (simp add: index_entry_ok_def oid_ok_def)
  note F = entry_fixed_fields [OF raw, of s ns]
  obtain pad where pad: "entry_bytes s ns e = entry_fixed s ns e @ ie_path e @ nul # pad"
    using entry_bytes_eq(1) [OF raw] by blast
  have bs': "bs = pre @ entry_fixed s ns e @ ie_path e @ nul # (pad @ post)" using bs pad by simp
  have fixed: "get_slice bs (length pre) 62 = Some (entry_fixed s ns e)"
    by (rule get_slice_at [of _ pre _ "ie_path e @ nul # pad @ post"]) (simp_all add: bs' F(1))
  have flags: "from_be (be16 (min (length (ie_path e)) 0xFFF)) = min (length (ie_path e)) 0xFFF"
    by (rule from_be_exact) simp
  have small: "min (length (ie_path e)) 0xFFF < 2 ^ 12" by simp
  have bits: "\<not> bit (min (length (ie_path e)) 0xFFF) 14" "drop_bit 12 (min (length (ie_path e)) 0xFFF) = 0"
    using small by (simp_all add: bit_iff_odd drop_bit_eq_div)
  have path: "path_v2 bs (length pre) (length pre + 62) (min (length (ie_path e)) 0xFFF) =
      Some (ie_path e, length pre + length (entry_bytes s ns e))"
    using path_v2_entry [OF bs' F(1)] e(1) entry_bytes_eq(2) [OF raw, of s ns] by (simp add: index_entry_ok_def)
  have mode: "from_be (be32 (ie_mode e)) = ie_mode e" using e(1) by (simp add: index_entry_ok_def)
  show ?thesis
    using fixed path bits c unfolding cursor_next_def Let_def
    by (simp add: F(2-4) flags mode staged_of_def)
qed

section \<open>Reading back the entries\<close>

text \<open>What an index stages, as the cursor reads it to the end.\<close>

fun staged_from :: "nat \<Rightarrow> bytes \<Rightarrow> entry_cursor \<Rightarrow> error_code + (bytes \<times> staged) list" where
  "staged_from 0 bs c = Inr []"
| "staged_from (Suc n) bs c =
     (case cursor_next bs c of
        Inl e \<Rightarrow> Inl e
      | Inr (None, c') \<Rightarrow> Inr []
      | Inr (Some st, c') \<Rightarrow>
          (case staged_from n bs c' of Inl e \<Rightarrow> Inl e | Inr rest \<Rightarrow> Inr ((ec_path c', st) # rest)))"

definition staged_entries :: "bytes \<Rightarrow> error_code + (bytes \<times> staged) list" where
  "staged_entries bs =
     (case cursor_new bs of Inl e \<Rightarrow> Inl e | Inr c \<Rightarrow> staged_from (ec_remaining c) bs c)"

lemma write_entries_sha1:
  "write_entries s ns prev es = Inr body \<Longrightarrow> e \<in> set es \<Longrightarrow> oid_algorithm (ie_oid e) = Sha1"
  by (induction s ns prev es arbitrary: body rule: write_entries.induct) (auto split: if_splits sum.splits)

lemma write_entries_sorted:
  "write_entries s ns prev es = Inr body \<Longrightarrow> sorted_wrt (<) (map ie_path es) \<and> (case prev of None \<Rightarrow> True | Some p \<Rightarrow> \<forall>e \<in> set es. p < ie_path e)"
proof (induction s ns prev es arbitrary: body rule: write_entries.induct)
  case (2 s ns previous e es)
  then obtain rest where "write_entries s ns (Some (ie_path e)) es = Inr rest" "case previous of None \<Rightarrow> True | Some p \<Rightarrow> p < ie_path e"
    by (auto split: if_splits sum.splits option.splits)
  then show ?case using 2 by (auto split: if_splits option.splits)
qed (auto split: option.splits)

text \<open>The cursor after the entries, and what it passed.\<close>

definition cursor_at :: "nat \<Rightarrow> nat \<Rightarrow> bytes \<Rightarrow> entry_cursor" where
  "cursor_at n pos p = \<lparr>ec_version = 2, ec_remaining = n, ec_pos = pos, ec_path = p\<rparr>"

lemma write_entries_read:
  assumes "write_entries s ns prev es = Inr body" "list_all index_entry_ok es" "bs = pre @ body @ post"
  shows "staged_from (length es) bs (cursor_at (length es) (length pre) p) = Inr (map staged_of es) \<and>
    plain_end bs (cursor_at (length es) (length pre) p) = Inr (Some (length pre + length body))"
  using assms
proof (induction s ns prev es arbitrary: body pre p rule: write_entries.induct)
  case (1 s ns previous)
  then show ?case by (simp add: cursor_next_def cursor_at_def
        plain_end.simps [of "pre @ post" "\<lparr>ec_version = 2, ec_remaining = 0, ec_pos = length pre, ec_path = p\<rparr>"])
next
  case (2 s ns previous e es)
  then obtain rest where rest: "write_entries s ns (Some (ie_path e)) es = Inr rest" "body = entry_bytes s ns e @ rest"
      "oid_algorithm (ie_oid e) = Sha1"
    by (auto split: if_splits sum.splits option.splits)
  have nx: "cursor_next bs (cursor_at (length (e # es)) (length pre) p) = Inr (Some (snd (staged_of e)),
      cursor_at (length es) (length (pre @ entry_bytes s ns e)) (ie_path e))"
    using cursor_next_entry [of bs pre s ns e "rest @ post" "cursor_at (length (e # es)) (length pre) p" "length es"] 2(3,4) rest
    by (simp add: cursor_at_def)
  have IH: "staged_from (length es) bs (cursor_at (length es) (length (pre @ entry_bytes s ns e)) (ie_path e)) = Inr (map staged_of es)"
      "plain_end bs (cursor_at (length es) (length (pre @ entry_bytes s ns e)) (ie_path e)) =
        Inr (Some (length (pre @ entry_bytes s ns e) + length rest))"
    using 2(1) [OF _ _ rest(1), of "pre @ entry_bytes s ns e" "ie_path e"] 2(2-4) rest by (auto split: if_splits)
  have "(ie_path e, snd (staged_of e)) = staged_of e" by (simp add: staged_of_def)
  moreover have "plain_end bs (cursor_at (length (e # es)) (length pre) p) = Inr (Some (length pre + length body))"
    using nx IH(2) rest(2) by (subst plain_end.simps) (simp add: staged_of_def)
  ultimately show ?case using nx IH(1) by (simp add: cursor_at_def staged_of_def)
qed

lemma write_index_shape:
  assumes "write_index_v2 sha1 es t tree = Inr bs"
  obtains body ext out where "write_entries (i64_as_u32 (secs t)) (nanos t) None es = Inr body" "tree_extension tree es = Inr ext"
    "out = ''DIRC'' @ be32 2 @ be32 (length es) @ body @ ext" "bs = out @ sha1 out" "length es < 2 ^ 32"
    "cursor_new bs = Inr (cursor_at (length es) 12 [])"
proof -
  obtain body ext where b: "write_entries (i64_as_u32 (secs t)) (nanos t) None es = Inr body" "tree_extension tree es = Inr ext"
      "length es < 2 ^ 32" "bs = (let out = ''DIRC'' @ be32 2 @ be32 (length es) @ body @ ext in out @ sha1 out)"
    using assms by (auto simp: write_index_v2_def Let_def split: if_splits sum.splits)
  have n: "from_be (be32 2) = 2" "from_be (be32 (length es)) = length es" using b(3) by simp_all
  have "cursor_new bs = Inr (cursor_at (length es) 12 [])"
    using b(4) n by (simp add: cursor_new_def cursor_at_def Let_def)
  then show thesis using that b by (simp add: Let_def)
qed

lemma write_index_read:
  assumes "write_index_v2 sha1 es t tree = Inr bs" "list_all index_entry_ok es"
  shows "staged_entries bs = Inr (map staged_of es)" "sorted_wrt (<) (map ie_path es)"
proof -
  obtain body ext out where b: "write_entries (i64_as_u32 (secs t)) (nanos t) None es = Inr body"
      "out = ''DIRC'' @ be32 2 @ be32 (length es) @ body @ ext" "bs = out @ sha1 out"
      "cursor_new bs = Inr (cursor_at (length es) 12 [])"
    using write_index_shape [OF assms(1)] by metis
  have "staged_from (length es) bs (cursor_at (length es) (length (''DIRC'' @ be32 2 @ be32 (length es))) []) = Inr (map staged_of es)"
    using write_entries_read [OF b(1) assms(2), of bs "''DIRC'' @ be32 2 @ be32 (length es)" "ext @ sha1 out" "[]"] b by simp
  then show "staged_entries bs = Inr (map staged_of es)" using b(4) by (simp add: staged_entries_def cursor_at_def)
  show "sorted_wrt (<) (map ie_path es)" using write_entries_sorted [OF b(1)] by simp
qed

section \<open>Differences\<close>

text \<open>The first difference of two lists of staged entries, in path order.\<close>

fun first_difference :: "(bytes \<times> staged) list \<Rightarrow> (bytes \<times> staged) list \<Rightarrow> bytes option" where
  "first_difference [] [] = None"
| "first_difference ((p, _) # _) [] = Some p"
| "first_difference [] ((q, _) # _) = Some q"
| "first_difference ((p, l) # xs) ((q, r) # ys) =
     (if l \<noteq> r \<or> p \<noteq> q then Some (if p \<le> q then p else q) else first_difference xs ys)"

lemma staged_from_next:
  assumes "staged_from (ec_remaining c) bs c = Inr xs"
  shows "(xs = [] \<and> cursor_next bs c = Inr (None, c)) \<or>
    (\<exists>st c' ys. cursor_next bs c = Inr (Some st, c') \<and> xs = (ec_path c', st) # ys \<and> staged_from (ec_remaining c') bs c' = Inr ys)"
proof (cases "ec_remaining c")
  case 0
  then show ?thesis using assms by (simp add: cursor_next_def)
next
  case (Suc n)
  have rem: "ec_remaining c' = n" if "cursor_next bs c = Inr (Some st, c')" for st c'
    using that Suc by (auto simp: cursor_next_def Let_def split: if_splits option.splits prod.splits)
  have some: "st \<noteq> None" if "cursor_next bs c = Inr (st, c')" for st c'
    using that Suc by (auto simp: cursor_next_def Let_def split: if_splits option.splits prod.splits)
  obtain st c' where nx: "cursor_next bs c = Inr (Some st, c')"
    using assms Suc some by (cases "cursor_next bs c") (auto split: prod.splits)
  then show ?thesis using assms Suc rem [OF nx] by (auto split: sum.splits)
qed

lemma staged_diff_spec:
  assumes "staged_from (ec_remaining ca) a ca = Inr xs" "staged_from (ec_remaining cb) b cb = Inr ys"
  shows "staged_diff a ca b cb = Inr (first_difference xs ys)"
  using assms
proof (induction xs ys arbitrary: ca cb rule: first_difference.induct)
  case (4 p l xs q r ys)
  obtain ca' where ca': "cursor_next a ca = Inr (Some l, ca')" "p = ec_path ca'" "staged_from (ec_remaining ca') a ca' = Inr xs"
    using staged_from_next [OF 4(2)] by auto
  obtain cb' where cb': "cursor_next b cb = Inr (Some r, cb')" "q = ec_path cb'" "staged_from (ec_remaining cb') b cb' = Inr ys"
    using staged_from_next [OF 4(3)] by auto
  show ?case
    using 4(1) [OF _ ca'(3) cb'(3)] ca'(1,2) cb'(1,2) unfolding staged_diff.simps [of a ca b cb] by simp
next
  case 1
  then show ?case
    using staged_from_next [OF 1(1)] staged_from_next [OF 1(2)] by (subst staged_diff.simps) auto
next
  case (2 p l xs)
  then show ?case
    using staged_from_next [OF 2(1)] staged_from_next [OF 2(2)] by (subst staged_diff.simps) auto
next
  case (3 q r ys)
  then show ?case
    using staged_from_next [OF 3(1)] staged_from_next [OF 3(2)] by (subst staged_diff.simps) auto
qed

lemma first_staged_difference_spec:
  assumes "staged_entries a = Inr xs" "staged_entries b = Inr ys"
  shows "first_staged_difference a b = Inr (first_difference xs ys)"
  using assms staged_diff_spec by (auto simp: staged_entries_def first_staged_difference_def split: sum.splits)

lemma first_difference_None: "first_difference xs ys = None \<longleftrightarrow> xs = ys"
  by (induction xs ys rule: first_difference.induct) auto

section \<open>Cache trees\<close>

text \<open>
  A cache tree counts, at every directory, the entries below it. The order of the children plays no part,
  so this is a statement about the tree that was handed to the writer.
\<close>

fun tree_counts :: "cache_tree \<Rightarrow> bytes \<Rightarrow> index_entry list \<Rightarrow> bool" where
  "tree_counts (CacheTree name oid n cs) prefix es \<longleftrightarrow>
     n = length (filter (\<lambda>e. starts_with (ie_path e) prefix) es) \<and>
     list_all (\<lambda>c. tree_counts c (prefix @ ct_name c @ ''/'') es) cs"

lemma verify_counts:
  assumes "verify_cache_tree t prefix es = Inr ()" "sorted_wrt (<) (map ie_path es)"
  shows "tree_counts t prefix es"
  using assms
proof (induction t prefix es rule: verify_cache_tree.induct)
  case (1 name oid n cs prefix es)
  obtain us where us: "traverse (\<lambda>c. verify_cache_tree c (prefix @ ct_name c @ ''/'') es) cs = Inr us"
    and n: "n = length (filter (\<lambda>e. starts_with (ie_path e) prefix) es)"
    using 1(2) unfolding verify_cache_tree.simps Let_def prefix_run [OF 1(3)] by (auto split: if_splits sum.splits)
  have "tree_counts c (prefix @ ct_name c @ ''/'') es" if "c \<in> set cs" for c
  proof -
    have "verify_cache_tree c (prefix @ ct_name c @ ''/'') es = Inr ()" using traverse_mem [OF us that] by auto
    then show ?thesis
      using 1(1) [OF refl refl _ that] 1(3) n unfolding prefix_run [OF 1(3)] by simp
  qed
  then show ?case using n by (simp add: list_all_iff)
qed

lemma sort_cache_tree_shape:
  "sort_cache_tree t = Inr t' \<Longrightarrow> ct_name t' = ct_name t \<and> ct_oid t' = ct_oid t \<and> ct_entries t' = ct_entries t"
  by (induction t rule: sort_cache_tree.induct) (auto simp: Let_def split: if_splits sum.splits)

lemma sort_cache_tree_counts:
  "sort_cache_tree t = Inr t' \<Longrightarrow> tree_counts t' prefix es \<Longrightarrow> tree_counts t prefix es"
proof (induction t arbitrary: t' prefix rule: sort_cache_tree.induct)
  case (1 name oid n cs)
  define ss where "ss = sort_key subtree_key cs"
  obtain cs' where cs': "traverse sort_cache_tree ss = Inr cs'" "t' = CacheTree name oid n cs'" "strictly_rising ss"
    using 1(2) by (auto simp: ss_def Let_def split: if_splits sum.splits)
  have "tree_counts c (prefix @ ct_name c @ ''/'') es" if "c \<in> set cs" for c
  proof -
    have mem: "c \<in> set ss" using that by (simp add: ss_def)
    then obtain c' where c': "c' \<in> set cs'" "sort_cache_tree c = Inr c'" using traverse_mem [OF cs'(1)] by blast
    then have "tree_counts c' (prefix @ ct_name c' @ ''/'') es" using 1(3) cs'(2) by (simp add: list_all_iff)
    then show ?thesis
      using 1(1) [OF ss_def _ mem c'(2)] cs'(3) sort_cache_tree_shape [OF c'(2)] by simp
  qed
  then show ?case using 1(3) cs'(2) by (simp add: list_all_iff)
qed

lemma digits_not_in: "list_all is_ascii_digit ds \<Longrightarrow> \<not> is_ascii_digit c \<Longrightarrow> c \<notin> set ds"
  by (auto simp: list_all_iff)

lemma parse_i64_dec_string: "n < 2 ^ 63 \<Longrightarrow> parse_i64 (dec_string n) = Some (int n)"
proof -
  assume n: "n < 2 ^ 63"
  obtain c cs where s: "dec_string n = c # cs" using dec_string_not_Nil by (meson neq_Nil_conv)
  then have "c \<noteq> CHR ''-''" using dec_string_digits [of n] by (auto simp: is_ascii_digit_def)
  moreover have "parse_unsigned (2 ^ 63 - 1) (dec_string n) = Some n" by (rule parse_dec_string) (use n in simp)
  ultimately show ?thesis by (simp add: parse_i64_def s)
qed

lemma tree_body_root_written:
  assumes "write_cache_tree (CacheTree [] oid n cs) = Inr body" "oid_ok oid" "n < 2 ^ 63"
  shows "tree_body_root body = Some (oid_raw oid)"
proof -
  obtain bodies where b: "body = nul # dec_string n @ '' '' @ dec_string (length cs) @ nl # oid_raw oid @ concat bodies"
      "oid_algorithm oid = Sha1"
    using assms(1) by (auto split: if_splits sum.splits)
  define line where "line = dec_string n @ '' '' @ dec_string (length cs)"
  have not_nl: "nl \<notin> set line" and no_space: "CHR '' '' \<notin> set (dec_string n)"
    using digits_not_in [OF dec_string_digits] by (auto simp: line_def is_ascii_digit_def)
  have "is_ascii line" using digits_ascii [OF dec_string_digits] by (auto simp: line_def is_ascii_def list_all_iff)
  then have valid: "utf8_valid line" by simp
  have hd: "hd (split_on (CHR '' '') line) = dec_string n"
    using no_space by (simp add: line_def split_on_append)
  have rest: "strip_prefix [nul] body = Some (line @ nl # oid_raw oid @ concat bodies)"
    by (simp add: b line_def strip_prefix_def)
  have "get_slice (line @ nl # oid_raw oid @ concat bodies) (length line + 1) 20 = Some (oid_raw oid)"
    by (rule get_slice_at [of _ "line @ [nl]" _ "concat bodies"]) (use assms(2) b(2) in \<open>simp_all add: oid_ok_def\<close>)
  then show ?thesis
    unfolding tree_body_root_def rest using position_of_append [OF not_nl] valid hd parse_i64_dec_string [OF assms(3)]
    by simp
qed

lemma find_tree_written:
  assumes "bs = pre @ (''TREE'' @ be32 (length body) @ body) @ digest" "length digest = 20" "length body < 2 ^ 32"
  shows "find_tree bs (length pre) = Inr (tree_body_root body)"
proof -
  have len: "from_be (take 4 (drop (length pre + 4) bs)) = length body" using assms(1,3) by simp
  have "get_slice bs (length pre + 8) (length body) = Some body"
    by (rule get_slice_at [of _ "pre @ ''TREE'' @ be32 (length body)" _ digest]) (use assms(1) in simp_all)
  then show ?thesis using assms(1,2) len by (subst find_tree.simps) simp
qed

lemma filter_starts_all: "filter (\<lambda>e. starts_with (ie_path e) []) es = es"
  by (simp add: starts_with_extends)

lemma tree_extension_shape:
  assumes "tree_extension (Some root) es = Inr ext" "sorted_wrt (<) (map ie_path es)"
  obtains root' body where "sort_cache_tree root = Inr root'" "write_cache_tree root' = Inr body" "length body < 2 ^ 32"
    "ext = ''TREE'' @ be32 (length body) @ body" "tree_counts root [] es" "ct_entries root' = length es"
proof -
  obtain root' body where r: "sort_cache_tree root = Inr root'" "verify_cache_tree root' [] es = Inr ()"
      "write_cache_tree root' = Inr body" "length body < 2 ^ 32" "ext = ''TREE'' @ be32 (length body) @ body"
    using assms(1) by (auto simp: tree_extension_def split: sum.splits if_splits)
  have counts: "tree_counts root' [] es" by (rule verify_counts [OF r(2) assms(2)])
  then have "ct_entries root' = length es" by (cases root') (simp add: filter_starts_all)
  then show thesis using that r sort_cache_tree_counts [OF r(1) counts] by blast
qed

lemma staged_tree_written:
  assumes w: "write_index_v2 sha1 es t (Some root) = Inr bs" and es: "list_all index_entry_ok es"
    and root: "ct_name root = []" "oid_ok (ct_oid root)" and sha: "\<And>out. length (sha1 out) = 20"
  shows "staged_tree bs = Inr (Some (oid_raw (ct_oid root))) \<and> tree_counts root [] es"
proof -
  obtain body ext out where b: "write_entries (i64_as_u32 (secs t)) (nanos t) None es = Inr body" "tree_extension (Some root) es = Inr ext"
      "out = ''DIRC'' @ be32 2 @ be32 (length es) @ body @ ext" "bs = out @ sha1 out" "length es < 2 ^ 32"
      "cursor_new bs = Inr (cursor_at (length es) 12 [])"
    using write_index_shape [OF w] by metis
  obtain root' tb where r: "sort_cache_tree root = Inr root'" "write_cache_tree root' = Inr tb" "length tb < 2 ^ 32"
      "ext = ''TREE'' @ be32 (length tb) @ tb" "tree_counts root [] es" "ct_entries root' = length es"
    using tree_extension_shape [OF b(2) write_index_read(2) [OF w es]] by metis
  define pre where "pre = ''DIRC'' @ be32 2 @ be32 (length es)"
  have bs: "bs = pre @ body @ ext @ sha1 out" using b(3,4) by (simp add: pre_def)
  have "plain_end bs (cursor_at (length es) 12 []) = Inr (Some (12 + length body))"
    using write_entries_read [OF b(1) es bs, of "[]"] by (simp add: pre_def)
  moreover have "find_tree bs (12 + length body) = Inr (tree_body_root tb)"
    using find_tree_written [of bs "pre @ body" tb "sha1 out"] bs r(3,4) sha by (simp add: pre_def)
  moreover have "tree_body_root tb = Some (oid_raw (ct_oid root))"
  proof -
    obtain cs where root': "root' = CacheTree [] (ct_oid root) (length es) cs"
      using sort_cache_tree_shape [OF r(1)] root(1) r(6) by (cases root') auto
    show ?thesis by (rule tree_body_root_written [OF r(2) [unfolded root'] root(2)]) (use b(5) in simp)
  qed
  ultimately show ?thesis using b(6) r(5) by (simp add: staged_tree_def)
qed

section \<open>Properties\<close>

text \<open>
  C10. The entry cursor reads back exactly what the version 2 writer wrote: the same entries in the same
  order, at stage zero, with their modes and object ids, also for paths too long for the length field.
\<close>
theorem index_roundtrip:
  assumes "write_index_v2 sha1 es t tree = Inr bs"
    and "list_all index_entry_ok es"
  shows "staged_entries bs = Inr (map (\<lambda>e. (ie_path e, 0, ie_mode e, oid_raw (ie_oid e), False)) es)"
  using write_index_read(1) [OF assms] by (simp add: staged_of_def [abs_def])

definition demo_oid :: object_id where
  "demo_oid = ObjectId Sha1 (replicate 20 (CHR 0x11))"

definition demo_entries :: "index_entry list" where
  "demo_entries = [\<lparr>ie_path = ''a/b'', ie_mode = REGULAR, ie_oid = demo_oid, ie_size = 3\<rparr>,
     \<lparr>ie_path = ''c'', ie_mode = EXECUTABLE, ie_oid = demo_oid, ie_size = 4\<rparr>]"

definition demo_tree :: cache_tree where
  "demo_tree = CacheTree [] demo_oid 2 [CacheTree ''a'' demo_oid 1 []]"

definition demo_sha1 :: "bytes \<Rightarrow> bytes" where
  "demo_sha1 out = replicate 20 (CHR 0x22)"

definition demo_index :: bytes where
  "demo_index = projr (write_index_v2 demo_sha1 demo_entries (Timestamp 1000 0) (Some demo_tree))"

lemma demo_index_written: "write_index_v2 demo_sha1 demo_entries (Timestamp 1000 0) (Some demo_tree) = Inr demo_index"
proof -
  have "\<not> isl (write_index_v2 demo_sha1 demo_entries (Timestamp 1000 0) (Some demo_tree))" by code_simp
  then show ?thesis by (simp add: demo_index_def)
qed

theorem index_roundtrip_witness:
  "staged_entries demo_index = Inr [(''a/b'', 0, REGULAR, replicate 20 (CHR 0x11), False), (''c'', 0, EXECUTABLE, replicate 20 (CHR 0x11), False)]"
proof -
  have "list_all index_entry_ok demo_entries" by code_simp
  from index_roundtrip [OF demo_index_written this] show ?thesis by (simp add: demo_entries_def demo_oid_def)
qed

text \<open>
  C12. Git trusts the cache tree, so it has to be right: an index that was written with one counts at every
  directory exactly the entries below it, and \<open>staged_tree\<close> reads back the root's object id.
\<close>
theorem cache_tree_trusted:
  assumes "write_index_v2 sha1 es t (Some root) = Inr bs"
    and "list_all index_entry_ok es"
    and "ct_name root = []" "oid_ok (ct_oid root)" and "\<forall>out. length (sha1 out) = 20"
  shows "tree_counts root [] es \<and> staged_tree bs = Inr (Some (oid_raw (ct_oid root)))"
  using staged_tree_written [OF assms(1-4)] assms(5) by simp

theorem cache_tree_trusted_witness:
  "tree_counts demo_tree [] demo_entries \<and> staged_tree demo_index = Inr (Some (replicate 20 (CHR 0x11)))"
proof -
  have "list_all index_entry_ok demo_entries" by code_simp
  from cache_tree_trusted [OF demo_index_written this] show ?thesis
    by (simp add: demo_tree_def demo_oid_def oid_ok_def demo_sha1_def)
qed

end
