(* ===== verification/Gfs_GitIndex.thy ===== *)
theory Gfs_GitIndex
  imports Gfs_IndexProofs
begin

text \<open>
  Indexes that Git itself wrote, and the comparison of \<open>first_staged_difference\<close> on them. \<open>git_index\<close> is
  Git's documented file format (gitformat-index) for versions 2 to 4: the stat data, the flags with the stage and
  the extended flag, the extended flags with intent-to-add, padding in versions 2 and 3, prefix compression
  with Git's variable-length count in version 4. The cursor of \<open>crates/gfs-git/src/index.rs\<close> reads every such
  file back, and the comparison is exact on any two of them.
\<close>

unbundle bit_operations_syntax

section \<open>The format\<close>

text \<open>\<open>ge_keep\<close> is how much of the previous path a version 4 entry keeps; Git keeps as much as it can.\<close>

record git_entry =
  ge_stat :: bytes
  ge_mode :: nat
  ge_owner :: bytes
  ge_oid :: bytes
  ge_valid :: bool
  ge_stage :: nat
  ge_extended :: "(bool \<times> bool) option"
  ge_path :: bytes
  ge_keep :: nat

definition ge_flags :: "git_entry \<Rightarrow> nat" where
  "ge_flags e = (if ge_valid e then 2 ^ 15 else 0) + (if ge_extended e \<noteq> None then 2 ^ 14 else 0)
     + ge_stage e * 2 ^ 12 + min (length (ge_path e)) 0xFFF"

definition ge_more :: "git_entry \<Rightarrow> bytes" where
  "ge_more e = (case ge_extended e of None \<Rightarrow> []
     | Some (skip, intent) \<Rightarrow> be16 ((if skip then 2 ^ 14 else 0) + (if intent then 2 ^ 13 else 0)))"

definition ge_fixed :: "git_entry \<Rightarrow> bytes" where
  "ge_fixed e = ge_stat e @ be32 (ge_mode e) @ ge_owner e @ ge_oid e @ be16 (ge_flags e)"

text \<open>Git's \<open>encode_varint\<close>: seven bits a byte, most significant first, each continued group less one.\<close>

fun strip_more :: "nat \<Rightarrow> bytes" where
  "strip_more m = (if m < 128 then [char_of (128 + m)] else strip_more (m div 128 - 1) @ [char_of (128 + m mod 128)])"

declare strip_more.simps [simp del]

definition strip_code :: "nat \<Rightarrow> bytes" where
  "strip_code n = (if n < 128 then [char_of n] else strip_more (n div 128 - 1) @ [char_of (n mod 128)])"

definition git_entry_bytes :: "nat \<Rightarrow> bytes \<Rightarrow> git_entry \<Rightarrow> bytes" where
  "git_entry_bytes v previous e =
     (let body = ge_fixed e @ ge_more e
      in if v = 4 then body @ strip_code (length previous - ge_keep e) @ drop (ge_keep e) (ge_path e) @ [nul]
         else body @ ge_path e @ replicate (8 - (length body + length (ge_path e)) mod 8) nul)"

fun git_entries :: "nat \<Rightarrow> bytes \<Rightarrow> git_entry list \<Rightarrow> bytes" where
  "git_entries v previous [] = []"
| "git_entries v previous (e # es) = git_entry_bytes v previous e @ git_entries v (ge_path e) es"

definition git_index :: "nat \<Rightarrow> git_entry list \<Rightarrow> bytes \<Rightarrow> bytes" where
  "git_index v es rest = ''DIRC'' @ be32 v @ be32 (length es) @ git_entries v [] es @ rest"

definition git_entry_ok :: "bytes \<Rightarrow> git_entry \<Rightarrow> bool" where
  "git_entry_ok previous e \<longleftrightarrow> length (ge_stat e) = 24 \<and> ge_mode e < 2 ^ 32 \<and> length (ge_owner e) = 12
     \<and> length (ge_oid e) = 20 \<and> ge_stage e < 4 \<and> nul \<notin> set (ge_path e) \<and> length previous < 2 ^ 32
     \<and> ge_keep e \<le> length previous \<and> ge_keep e \<le> length (ge_path e)
     \<and> take (ge_keep e) previous = take (ge_keep e) (ge_path e)"

fun git_entries_ok :: "bytes \<Rightarrow> git_entry list \<Rightarrow> bool" where
  "git_entries_ok previous [] = True"
| "git_entries_ok previous (e # es) = (git_entry_ok previous e \<and> git_entries_ok (ge_path e) es)"

text \<open>A well-formed index: a known version, entries in path order, and few enough to count.\<close>

definition git_index_ok :: "nat \<Rightarrow> git_entry list \<Rightarrow> bool" where
  "git_index_ok v es \<longleftrightarrow> 2 \<le> v \<and> v \<le> 4 \<and> length es < 2 ^ 32 \<and> git_entries_ok [] es \<and> sorted (map ge_path es)"

text \<open>What an entry stages: its stage, mode, object id and whether it is only an intention.\<close>

definition ge_intent :: "git_entry \<Rightarrow> bool" where
  "ge_intent e = (case ge_extended e of None \<Rightarrow> False | Some (skip, intent) \<Rightarrow> intent)"

definition ge_staged :: "git_entry \<Rightarrow> staged" where
  "ge_staged e = (ge_stage e, ge_mode e, ge_oid e, ge_intent e)"

section \<open>Reading the count\<close>

lemma strip_step:
  assumes "bs ! pos = char_of (128 * c + k)" and "pos < length bs" and "k < 128" and "c < 2" and "s * 128 + k < 2 ^ 64"
  shows "read_strip bs pos s = (if c = 0 then Some (s * 128 + k, pos + 1) else read_strip bs (pos + 1) ((s * 128 + k + 1) mod 2 ^ 64))"
proof -
  have b: "of_char (bs ! pos) = 128 * c + k" using assms(1,3,4) by simp
  have lo: "(128 * x + k) AND 127 = k" for x
  proof -
    have "(128 * x + k) AND 127 = take_bit 7 (128 * x + k)" by (simp add: take_bit_eq_mask mask_eq_exp_minus_1)
    then show ?thesis using assms(3) by (simp add: take_bit_eq_mod)
  qed
  have hi: "(128 * c + k) AND 128 = 0 \<longleftrightarrow> c = 0"
  proof -
    have "c = 0 \<or> c = 1" using assms(4) by auto
    moreover have "(k AND 128) = 0" using assms(3) by (simp add: and_exp_eq_0_iff_not_bit [of k 7, simplified] bit_iff_odd)
    moreover have "(128 + k) div 128 = 1" using assms(3) by simp
    then have "(128 + k) AND 128 \<noteq> 0" using assms(3) by (simp add: and_exp_eq_0_iff_not_bit [of "128 + k" 7, simplified] bit_iff_odd)
    ultimately show ?thesis by auto
  qed
  have "push_bit 7 s mod 2 ^ 64 OR k = s * 128 + k"
    using or_add [of k 7 s] assms(3,5) by (simp add: push_bit_eq_mult)
  then show ?thesis using assms(2) by (subst read_strip.simps) (simp add: Let_def b lo lo [of 0, simplified] hi)
qed

lemma strip_more_read:
  assumes "bs = pre @ strip_more m @ post" and "m < 2 ^ 57"
  shows "read_strip bs (length pre) 0 = read_strip bs (length pre + length (strip_more m)) (m + 1)"
  using assms
proof (induction m arbitrary: post rule: strip_more.induct)
  case (1 m)
  show ?case
  proof (cases "m < 128")
    case True
    then have m: "strip_more m = [char_of (128 + m)]" by (simp add: strip_more.simps)
    have "bs ! length pre = char_of (128 * 1 + m)" using 1(2) by (simp add: m nth_append)
    from strip_step [OF this, of 0] True 1(2) show ?thesis by (simp add: m)
  next
    case False
    then have m: "strip_more m = strip_more (m div 128 - 1) @ [char_of (128 + m mod 128)]" by (subst strip_more.simps) simp
    have d: "m div 128 - 1 + 1 = m div 128" using False by simp
    have "read_strip bs (length pre) 0 = read_strip bs (length pre + length (strip_more (m div 128 - 1))) (m div 128)"
      using 1(1) [OF False, of "char_of (128 + m mod 128) # post"] 1(2,3) m d by simp
    moreover have "bs ! (length pre + length (strip_more (m div 128 - 1))) = char_of (128 * 1 + m mod 128)"
      using 1(2) by (simp add: m nth_append)
    from strip_step [OF this, of "m div 128"] 1(2,3)
    have "read_strip bs (length pre + length (strip_more (m div 128 - 1))) (m div 128) =
        read_strip bs (length pre + length (strip_more (m div 128 - 1)) + 1) (m + 1)"
      by (simp add: m)
    ultimately show ?thesis by (simp add: m)
  qed
qed

lemma strip_code_read:
  assumes "bs = pre @ strip_code n @ post" and "n < 2 ^ 57"
  shows "read_strip bs (length pre) 0 = Some (n, length pre + length (strip_code n))"
proof (cases "n < 128")
  case True
  have "bs ! length pre = char_of (128 * 0 + n)" using assms(1) True by (simp add: strip_code_def nth_append)
  from strip_step [OF this, of 0] True assms(1) show ?thesis by (simp add: strip_code_def)
next
  case False
  then have n: "strip_code n = strip_more (n div 128 - 1) @ [char_of (n mod 128)]" by (simp add: strip_code_def)
  have d: "n div 128 - 1 + 1 = n div 128" using False by simp
  have "read_strip bs (length pre) 0 = read_strip bs (length pre + length (strip_more (n div 128 - 1))) (n div 128)"
    using strip_more_read [of bs pre "n div 128 - 1" "char_of (n mod 128) # post"] assms n d by simp
  moreover have "bs ! (length pre + length (strip_more (n div 128 - 1))) = char_of (128 * 0 + n mod 128)"
    using assms(1) by (simp add: n nth_append)
  from strip_step [OF this, of "n div 128"] assms
  have "read_strip bs (length pre + length (strip_more (n div 128 - 1))) (n div 128) =
      Some (n, length pre + length (strip_more (n div 128 - 1)) + 1)"
    by (simp add: n)
  ultimately show ?thesis by (simp add: n)
qed

section \<open>Reading an entry\<close>

lemma ge_fixed_fields:
  assumes "git_entry_ok previous e"
  shows "length (ge_fixed e) = 62" "take 4 (drop 24 (ge_fixed e)) = be32 (ge_mode e)" "take 20 (drop 40 (ge_fixed e)) = ge_oid e"
    "take 2 (drop 60 (ge_fixed e)) = be16 (ge_flags e)"
  using assms unfolding ge_fixed_def git_entry_ok_def by simp_all

lemma div_mod_sum: "l < (n :: nat) \<Longrightarrow> (n * a + l) div n = a \<and> (n * a + l) mod n = l"
  by simp

lemma ge_flags_bits:
  assumes "ge_stage e < 4"
  shows "ge_flags e < 2 ^ 16" "bit (ge_flags e) 14 \<longleftrightarrow> ge_extended e \<noteq> None" "take_bit 2 (drop_bit 12 (ge_flags e)) = ge_stage e"
    "take_bit 12 (ge_flags e) = min (length (ge_path e)) 0xFFF"
proof -
  define l where "l = min (length (ge_path e)) 0xFFF"
  have l: "l \<le> 4095" by (simp add: l_def)
  have f: "ge_flags e = (if ge_valid e then 32768 else 0) + (if ge_extended e \<noteq> None then 16384 else 0) + ge_stage e * 4096 + l"
    by (simp add: ge_flags_def l_def)
  show "ge_flags e < 2 ^ 16" using assms l by (simp add: f)
  define k where "k = (if ge_valid e then 8 else 0) + (if ge_extended e \<noteq> None then 4 else 0) + ge_stage e"
  have "ge_flags e = 4096 * k + l" by (simp add: f k_def)
  then have hi: "ge_flags e div 4096 = k" and lo: "ge_flags e mod 4096 = l" using l div_mod_sum [of l 4096 k] by simp_all
  have "ge_flags e div 16384 = (if ge_valid e then 2 else 0) + (if ge_extended e \<noteq> None then 1 else 0)"
    using assms l by (auto simp: f)
  then show "bit (ge_flags e) 14 \<longleftrightarrow> ge_extended e \<noteq> None" by (simp add: bit_iff_odd)
  show "take_bit 2 (drop_bit 12 (ge_flags e)) = ge_stage e"
  proof -
    have "ge_stage e = 0 \<or> ge_stage e = 1 \<or> ge_stage e = 2 \<or> ge_stage e = 3" using assms by arith
    then show ?thesis by (auto simp: take_bit_eq_mod drop_bit_eq_div hi k_def)
  qed
  show "take_bit 12 (ge_flags e) = min (length (ge_path e)) 0xFFF" by (simp add: take_bit_eq_mod lo l_def [symmetric])
qed

lemma ge_more_intent:
  assumes "ge_extended e = Some si"
  shows "length (ge_more e) = 2" "bit (from_be (ge_more e)) 13 \<longleftrightarrow> ge_intent e"
proof -
  obtain skip intent where si: "si = (skip, intent)" by force
  let ?w = "(if skip then 2 ^ 14 else 0) + (if intent then 2 ^ 13 else 0) :: nat"
  have "ge_more e = be16 ?w" by (simp add: ge_more_def assms si)
  moreover have "from_be (be16 ?w) = ?w" by (rule from_be_exact) simp
  ultimately show "length (ge_more e) = 2" "bit (from_be (ge_more e)) 13 \<longleftrightarrow> ge_intent e"
    by (simp_all add: ge_intent_def assms si bit_iff_odd)
qed

lemma ge_more_none: "ge_extended e = None \<Longrightarrow> ge_more e = [] \<and> \<not> ge_intent e"
  by (simp add: ge_more_def ge_intent_def)

text \<open>The cursor at an entry of the file reads it and stands at the next.\<close>

definition git_cursor :: "nat \<Rightarrow> nat \<Rightarrow> nat \<Rightarrow> bytes \<Rightarrow> entry_cursor" where
  "git_cursor v n pos p = \<lparr>ec_version = v, ec_remaining = n, ec_pos = pos, ec_path = p\<rparr>"

lemma path_v4_entry:
  assumes bs: "bs = pre @ strip_code (length previous - ge_keep e) @ drop (ge_keep e) (ge_path e) @ nul # post"
    and e: "git_entry_ok previous e"
  shows "path_v4 bs (length pre) previous =
    Some (ge_path e, length pre + length (strip_code (length previous - ge_keep e)) + length (drop (ge_keep e) (ge_path e)) + 1)"
proof -
  let ?c = "strip_code (length previous - ge_keep e)" and ?t = "drop (ge_keep e) (ge_path e)"
  have "read_strip bs (length pre) 0 = Some (length previous - ge_keep e, length pre + length ?c)"
    by (rule strip_code_read [OF bs]) (use e in \<open>simp add: git_entry_ok_def less_imp_diff_less\<close>)
  moreover have "drop (length pre + length ?c) bs = ?t @ nul # post" by (simp add: bs)
  moreover have "nul \<notin> set ?t" using e by (auto simp: git_entry_ok_def dest: in_set_dropD)
  ultimately show ?thesis
    using e position_of_append [of nul ?t post] unfolding path_v4_def by (simp add: git_entry_ok_def)
qed

lemma path_v2_git:
  assumes bs: "bs = pre @ body @ ge_path e @ nul # post" and e: "git_entry_ok previous e"
  shows "path_v2 bs (length pre) (length pre + length body) (ge_flags e) =
    Some (ge_path e, length pre + ((length body + length (ge_path e)) div 8 * 8 + 8))"
proof -
  have d: "drop (length pre + length body) bs = ge_path e @ nul # post" by (simp add: bs)
  have f: "take_bit 12 (ge_flags e) = min (length (ge_path e)) 0xFFF"
    by (rule ge_flags_bits(4)) (use e in \<open>simp add: git_entry_ok_def\<close>)
  have "nul \<notin> set (ge_path e)" using e by (simp add: git_entry_ok_def)
  then have len: "(if take_bit 12 (ge_flags e) = 0xFFF then position_of nul (drop (length pre + length body) bs)
      else Some (take_bit 12 (ge_flags e))) = Some (length (ge_path e))"
    unfolding f using position_of_append [of nul "ge_path e" post] by (auto simp: d min_def)
  have "get_slice bs (length pre + length body) (length (ge_path e)) = Some (ge_path e)"
    by (rule get_slice_at [of _ "pre @ body" _ "nul # post"]) (simp_all add: bs)
  then show ?thesis unfolding path_v2_def len by (simp add: bs)
qed

lemma padding: "\<exists>k. replicate (8 - L mod 8) x = x # replicate k x" "L + (8 - L mod 8) = L div 8 * 8 + (8 :: nat)"
proof -
  have "0 < 8 - L mod 8" by simp
  then obtain k where "8 - L mod 8 = Suc k" using gr0_conv_Suc by blast
  then show "\<exists>k. replicate (8 - L mod 8) x = x # replicate k x" by auto
  show "L + (8 - L mod 8) = L div 8 * 8 + (8 :: nat)"
    using div_mult_mod_eq [of L 8] mod_less_divisor [of 8 L] by linarith
qed

lemma cursor_next_git:
  assumes bs: "bs = pre @ git_entry_bytes v previous e @ post" and e: "git_entry_ok previous e"
  shows "cursor_next bs (git_cursor v (Suc n) (length pre) previous) = Inr (Some (ge_staged e),
    git_cursor v n (length pre + length (git_entry_bytes v previous e)) (ge_path e))"
proof -
  let ?body = "ge_fixed e @ ge_more e"
  let ?pos = "length pre + length ?body"
  note F = ge_fixed_fields [OF e]
  have stage: "ge_stage e < 4" and mode: "from_be (be32 (ge_mode e)) = ge_mode e" using e by (simp_all add: git_entry_ok_def)
  note B = ge_flags_bits [OF stage]
  have flags: "from_be (be16 (ge_flags e)) = ge_flags e" using B(1) by simp
  obtain tail where tail: "bs = pre @ ge_fixed e @ ge_more e @ tail"
    using bs by (cases "v = 4") (auto simp: git_entry_bytes_def Let_def)
  have fixed: "get_slice bs (length pre) 62 = Some (ge_fixed e)"
    by (rule get_slice_at [of _ pre _ "ge_more e @ tail"]) (simp_all add: tail F(1))
  have more: "(if bit (ge_flags e) 14 then map_option (\<lambda>x. (bit (from_be x) 13, length pre + 64)) (get_slice bs (length pre + 62) 2)
      else Some (False, length pre + 62)) = Some (ge_intent e, ?pos)"
  proof (cases "ge_extended e")
    case None
    then show ?thesis using B(2) ge_more_none [OF None] by (simp add: F(1))
  next
    case (Some si)
    have "get_slice bs (length pre + 62) 2 = Some (ge_more e)"
      by (rule get_slice_at [of _ "pre @ ge_fixed e" _ tail]) (simp_all add: tail F(1) ge_more_intent [OF Some])
    then show ?thesis using B(2) Some ge_more_intent [OF Some] by (simp add: F(1))
  qed
  have path: "(if v = 4 then path_v4 bs ?pos previous else path_v2 bs (length pre) ?pos (ge_flags e)) =
      Some (ge_path e, length pre + length (git_entry_bytes v previous e))"
  proof (cases "v = 4")
    case True
    have "bs = (pre @ ?body) @ strip_code (length previous - ge_keep e) @ drop (ge_keep e) (ge_path e) @ nul # post"
      using bs True by (simp add: git_entry_bytes_def Let_def)
    from path_v4_entry [OF this e] show ?thesis using True by (simp add: git_entry_bytes_def Let_def)
  next
    case False
    obtain k where k: "replicate (8 - (length ?body + length (ge_path e)) mod 8) nul = nul # replicate k nul" using padding(1) [of "length ?body + length (ge_path e)" nul] by blast
    have "bs = pre @ ?body @ ge_path e @ nul # (replicate k nul @ post)"
      using bs False k by (simp add: git_entry_bytes_def Let_def)
    from path_v2_git [OF this e] show ?thesis
      using False padding(2) [of "length ?body + length (ge_path e)"] by (simp add: git_entry_bytes_def Let_def)
  qed
  show ?thesis
    unfolding cursor_next_def Let_def
    by (simp only: git_cursor_def entry_cursor.simps fixed option.case F(2-4) flags mode B(3) more prod.case path nat.distinct if_False)
      (simp add: ge_staged_def)
qed

lemma git_entries_read:
  assumes "git_entries_ok previous es" and "bs = pre @ git_entries v previous es @ post"
  shows "staged_from (length es) bs (git_cursor v (length es) (length pre) previous) = Inr (map (\<lambda>e. (ge_path e, ge_staged e)) es)"
  using assms
proof (induction v previous es arbitrary: pre rule: git_entries.induct)
  case (2 v previous e es)
  have "cursor_next bs (git_cursor v (Suc (length es)) (length pre) previous) = Inr (Some (ge_staged e),
      git_cursor v (length es) (length (pre @ git_entry_bytes v previous e)) (ge_path e))"
    using cursor_next_git [of bs pre v previous e "git_entries v (ge_path e) es @ post"] 2(2,3) by simp
  moreover have "staged_from (length es) bs (git_cursor v (length es) (length (pre @ git_entry_bytes v previous e)) (ge_path e)) =
      Inr (map (\<lambda>e. (ge_path e, ge_staged e)) es)"
    by (rule 2(1)) (use 2(2,3) in simp_all)
  ultimately show ?case by (simp add: git_cursor_def)
qed simp

lemma git_index_read:
  assumes "git_index_ok v es"
  shows "staged_entries (git_index v es rest) = Inr (map (\<lambda>e. (ge_path e, ge_staged e)) es)"
proof -
  let ?head = "''DIRC'' @ be32 v @ be32 (length es)"
  have v: "2 \<le> v" "v \<le> 4" "length es < 2 ^ 32" "git_entries_ok [] es" using assms by (simp_all add: git_index_ok_def)
  then have n: "from_be (be32 v) = v" "from_be (be32 (length es)) = length es" by simp_all
  have "cursor_new (git_index v es rest) = Inr (git_cursor v (length es) (length ?head) [])"
    using v n by (simp add: git_index_def cursor_new_def git_cursor_def Let_def)
  moreover have "staged_from (length es) (git_index v es rest) (git_cursor v (length es) (length ?head) []) = Inr (map (\<lambda>e. (ge_path e, ge_staged e)) es)"
    by (rule git_entries_read [OF v(4)]) (simp add: git_index_def)
  ultimately show ?thesis by (simp add: staged_entries_def git_cursor_def)
qed

text \<open>The indexes this code writes are such files.\<close>

definition git_of :: "nat \<Rightarrow> nat \<Rightarrow> index_entry \<Rightarrow> git_entry" where
  "git_of s ns e = \<lparr>ge_stat = be32 s @ be32 ns @ be32 s @ be32 ns @ be32 0 @ be32 0, ge_mode = ie_mode e,
     ge_owner = be32 0 @ be32 0 @ be32 (ie_size e mod 2 ^ 32), ge_oid = oid_raw (ie_oid e), ge_valid = False, ge_stage = 0,
     ge_extended = None, ge_path = ie_path e, ge_keep = 0\<rparr>"

lemma git_of_bytes: "length (oid_raw (ie_oid e)) = 20 \<Longrightarrow> git_entry_bytes 2 previous (git_of s ns e) = entry_bytes s ns e"
  using padding(2) [of "62 + length (ie_path e)"]
  by (simp add: git_entry_bytes_def entry_bytes_def Let_def ge_fixed_def ge_more_def ge_flags_def git_of_def entry_fixed_def)

lemma written_is_git_index:
  assumes w: "write_index_v2 sha1 es t tree = Inr bs" and es: "list_all index_entry_ok es"
  shows "\<exists>rest. bs = git_index 2 (map (git_of (i64_as_u32 (secs t)) (nanos t)) es) rest"
proof -
  obtain body ext where b: "write_entries (i64_as_u32 (secs t)) (nanos t) None es = Inr body"
      "bs = ''DIRC'' @ be32 2 @ be32 (length es) @ body @ ext @ sha1 (''DIRC'' @ be32 2 @ be32 (length es) @ body @ ext)"
    using write_index_shape [OF w] by (metis append.assoc)
  have "git_entries 2 previous (map (git_of s ns) es) = body"
    if "write_entries s ns prev es = Inr body" "list_all index_entry_ok es" for s ns prev es body previous
    using that
  proof (induction s ns prev es arbitrary: body previous rule: write_entries.induct)
    case (2 s ns prev e es)
    then have "length (oid_raw (ie_oid e)) = 20" by (auto simp: index_entry_ok_def oid_ok_def split: if_splits sum.splits)
    then show ?case using 2 git_of_bytes by (auto simp: git_of_def split: if_splits sum.splits option.splits)
  qed simp
  then show ?thesis using b es by (auto simp: git_index_def)
qed

section \<open>The comparison\<close>

definition staged_at :: "git_entry list \<Rightarrow> bytes \<Rightarrow> staged list" where
  "staged_at es p = map ge_staged (filter (\<lambda>e. ge_path e = p) es)"

lemma first_difference_at:
  assumes "first_difference xs ys = Some p" and "sorted (map fst xs)" and "sorted (map fst ys)"
  shows "filter (\<lambda>x. fst x = p) xs \<noteq> filter (\<lambda>x. fst x = p) ys \<and> (\<forall>q<p. filter (\<lambda>x. fst x = q) xs = filter (\<lambda>x. fst x = q) ys)"
proof -
  have none: "filter (\<lambda>x. fst x = q) zs = []" if "\<forall>z \<in> set zs. q < fst z" for zs :: "(bytes \<times> staged) list" and q
    using that by (auto simp: filter_empty_conv)
  show ?thesis
    using assms
  proof (induction xs ys arbitrary: p rule: first_difference.induct)
    case (4 p' l xs q' r ys)
    have a: "filter (\<lambda>z. fst z = x) xs = []" if "x < p'" for x
      by (rule none) (use 4(3) that in \<open>auto dest: order.strict_trans2\<close>)
    have b: "filter (\<lambda>z. fst z = x) ys = []" if "x < q'" for x
      by (rule none) (use 4(4) that in \<open>auto dest: order.strict_trans2\<close>)
    show ?case
    proof (cases "l \<noteq> r \<or> p' \<noteq> q'")
      case True
      then have p: "p = (if p' \<le> q' then p' else q')" using 4(2) by simp
      consider "p' < q'" | "q' < p'" | "p' = q'" "l \<noteq> r" using True by fastforce
      then show ?thesis
      proof cases
        case 1
        then show ?thesis using p a b by (auto simp: b)
      next
        case 2
        then show ?thesis using p a b by (auto simp: a)
      next
        case 3
        then show ?thesis using p a b by auto
      qed
    next
      case False
      then show ?thesis using 4 by auto
    qed
  next
    case (2 p' l xs)
    have "filter (\<lambda>z. fst z = x) xs = []" if "x < p'" for x
      by (rule none) (use 2(2) that in \<open>auto dest: order.strict_trans2\<close>)
    then show ?case using 2(1) by auto
  next
    case (3 q' r ys)
    have "filter (\<lambda>z. fst z = x) ys = []" if "x < q'" for x
      by (rule none) (use 3(3) that in \<open>auto dest: order.strict_trans2\<close>)
    then show ?case using 3(1) by auto
  qed simp
qed

lemma staged_at_eq: "staged_at es p = map snd (filter (\<lambda>x. fst x = p) (map (\<lambda>e. (ge_path e, ge_staged e)) es))"
  by (induction es) (simp_all add: staged_at_def)

text \<open>
  C11. On any two well-formed Git index files, of any of the versions 2 to 4, with any stages, extended flags, stat
  data and extensions, \<open>first_staged_difference\<close> answers. It says \<open>None\<close> exactly when at every path the two stage the
  same entries (stage, mode, object id, intent-to-add); otherwise it names the least path at which they do not.
\<close>
theorem staged_difference_exact:
  assumes "git_index_ok v es" and "git_index_ok w fs"
  shows "(\<exists>d. first_staged_difference (git_index v es rest) (git_index w fs rest') = Inr d)
    \<and> (first_staged_difference (git_index v es rest) (git_index w fs rest') = Inr None \<longleftrightarrow> (\<forall>p. staged_at es p = staged_at fs p))
    \<and> (first_staged_difference (git_index v es rest) (git_index w fs rest') = Inr (Some p) \<longrightarrow>
        staged_at es p \<noteq> staged_at fs p \<and> (\<forall>q<p. staged_at es q = staged_at fs q))"
proof -
  let ?r = "\<lambda>es. map (\<lambda>e. (ge_path e, ge_staged e)) es"
  have d: "first_staged_difference (git_index v es rest) (git_index w fs rest') = Inr (first_difference (?r es) (?r fs))"
    by (rule first_staged_difference_spec [OF git_index_read [OF assms(1)] git_index_read [OF assms(2)]])
  have srt: "sorted (map fst (?r es))" "sorted (map fst (?r fs))" using assms by (simp_all add: git_index_ok_def o_def)
  have inj: "map snd (filter (\<lambda>x. fst x = p) xs) = map snd (filter (\<lambda>x. fst x = p) ys) \<longleftrightarrow> filter (\<lambda>x. fst x = p) xs = filter (\<lambda>x. fst x = p) ys"
    for xs ys :: "(bytes \<times> staged) list" and p
  proof -
    have "filter (\<lambda>x. fst x = p) zs = map (Pair p) (map snd (filter (\<lambda>x. fst x = p) zs))" for zs :: "(bytes \<times> staged) list"
      by (induction zs) auto
    then show ?thesis by metis
  qed
  have some: "staged_at es p \<noteq> staged_at fs p \<and> (\<forall>q<p. staged_at es q = staged_at fs q)"
    if "first_difference (?r es) (?r fs) = Some p" for p
    unfolding staged_at_eq inj by (rule first_difference_at [OF that srt])
  have "first_difference (?r es) (?r fs) = None \<longleftrightarrow> (\<forall>p. staged_at es p = staged_at fs p)"
  proof
    show "\<forall>p. staged_at es p = staged_at fs p" if "first_difference (?r es) (?r fs) = None"
      using that unfolding first_difference_None staged_at_eq by simp
    show "first_difference (?r es) (?r fs) = None" if same: "\<forall>p. staged_at es p = staged_at fs p"
    proof (cases "first_difference (?r es) (?r fs)")
      case (Some q)
      then show ?thesis using some [OF Some] same by blast
    qed
  qed
  then show ?thesis using d some by auto
qed

text \<open>A conflicted path in a version 4 index and in a version 3 index, once the same and once with an intent to add.\<close>

definition demo_git :: "bool \<Rightarrow> git_entry list" where
  "demo_git intent = (let e = \<lparr>ge_stat = replicate 24 (CHR 0x01), ge_mode = REGULAR, ge_owner = replicate 12 nul,
       ge_oid = replicate 20 (CHR 0x11), ge_valid = False, ge_stage = 0, ge_extended = None, ge_path = ''dir/a'', ge_keep = 0\<rparr>
     in [e\<lparr>ge_stage := 1\<rparr>, e\<lparr>ge_stage := 2, ge_keep := 5\<rparr>,
         e\<lparr>ge_path := ''dir/b'', ge_keep := 4, ge_extended := Some (False, intent)\<rparr>])"

lemma demo_git_ok: "git_index_ok 4 (demo_git i)" "git_index_ok 3 (demo_git i)"
  by (simp_all add: git_index_ok_def demo_git_def git_entry_ok_def Let_def REGULAR_def)

theorem staged_difference_exact_witness:
  "first_staged_difference (git_index 4 (demo_git True) ''REUC'') (git_index 3 (demo_git True) (replicate 20 nul)) = Inr None
   \<and> first_staged_difference (git_index 4 (demo_git True) ''REUC'') (git_index 3 (demo_git False) (replicate 20 nul)) = Inr (Some ''dir/b'')"
proof
  note same = staged_difference_exact [OF demo_git_ok(1) demo_git_ok(2), of True "''REUC''" True "replicate 20 nul"]
  show "first_staged_difference (git_index 4 (demo_git True) ''REUC'') (git_index 3 (demo_git True) (replicate 20 nul)) = Inr None" using same by blast
  note diff = staged_difference_exact [OF demo_git_ok(1) demo_git_ok(2), of True "''REUC''" False "replicate 20 nul"]
  have at: "staged_at (demo_git True) p = staged_at (demo_git False) p \<longleftrightarrow> p \<noteq> ''dir/b''" for p
    by (simp add: staged_at_def demo_git_def Let_def ge_staged_def ge_intent_def)
  obtain d where d: "first_staged_difference (git_index 4 (demo_git True) ''REUC'') (git_index 3 (demo_git False) (replicate 20 nul)) = Inr d"
    using diff by blast
  moreover have "d \<noteq> None" using d diff at by auto
  ultimately show "first_staged_difference (git_index 4 (demo_git True) ''REUC'') (git_index 3 (demo_git False) (replicate 20 nul)) = Inr (Some ''dir/b'')"
    using diff at by (metis option.exhaust)
qed

end
