(* ===== verification/Gfs_Capability.thy ===== *)
theory Gfs_Capability
  imports Gfs_Revision Gfs_Wire Gfs_Time
begin

text \<open>
  Mount capabilities and blob tickets, \<open>crates/gfs-service/src/auth/capability.rs\<close>: the length-prefixed
  canonical encoding, the token around it, and issuing and verifying the two kinds of grant. The keyed hash
  (HMAC-SHA256) is a parameter \<open>hmac\<close>, a function of the secret and the message; nothing is assumed of it.
  The constant-time comparison is equality.
\<close>

section \<open>Tokens\<close>

definition PREFIX :: string where "PREFIX = ''gfs1''"
definition TAG_MOUNT :: nat where "TAG_MOUNT = 1"
definition TAG_BLOB :: nat where "TAG_BLOB = 2"

definition capability_key :: "bytes \<Rightarrow> error_code + bytes" where
  "capability_key secret = (if length secret < 32 then Inl FailedPrecondition else Inr secret)"

definition encode_fields :: "nat \<Rightarrow> bytes list \<Rightarrow> bytes" where
  "encode_fields tag fs = char_of tag # concat (map (\<lambda>f. be32 (length f) @ f) fs)"

text \<open>The loop of \<open>decode_fields\<close>: the fields and what is left.\<close>

fun decode_loop :: "nat \<Rightarrow> bytes \<Rightarrow> error_code + (bytes list \<times> bytes)" where
  "decode_loop 0 rest = Inr ([], rest)"
| "decode_loop (Suc n) rest =
     (if length rest < 4 then Inl Unauthenticated
      else let len = from_be (take 4 rest); tail = drop 4 rest
           in if length tail < len then Inl Unauthenticated
              else case decode_loop n (drop len tail) of
                Inl e \<Rightarrow> Inl e
              | Inr (fs, left) \<Rightarrow> Inr (take len tail # fs, left))"

definition decode_fields :: "bytes \<Rightarrow> nat \<Rightarrow> nat \<Rightarrow> error_code + bytes list" where
  "decode_fields bs expected_tag n =
     (case bs of [] \<Rightarrow> Inl Unauthenticated
      | tag # rest \<Rightarrow>
          if tag \<noteq> char_of expected_tag then Inl Unauthenticated
          else (case decode_loop n rest of Inl e \<Rightarrow> Inl e
                | Inr (fs, left) \<Rightarrow> if left \<noteq> [] then Inl Unauthenticated else Inr fs))"

definition assemble :: "(bytes \<Rightarrow> bytes \<Rightarrow> bytes) \<Rightarrow> bytes \<Rightarrow> bytes \<Rightarrow> string" where
  "assemble hmac key signed =
     PREFIX @ ''.'' @ b64url_encode signed @ ''.'' @ b64url_encode (hmac key signed)"

definition disassemble :: "(bytes \<Rightarrow> bytes \<Rightarrow> bytes) \<Rightarrow> bytes \<Rightarrow> string \<Rightarrow> error_code + bytes" where
  "disassemble hmac key token =
     (case split_on (CHR ''.'') token of
        [prefix, payload, mac] \<Rightarrow>
          if prefix \<noteq> PREFIX then Inl Unauthenticated
          else (case b64url_decode payload of Inl _ \<Rightarrow> Inl Unauthenticated
                | Inr signed \<Rightarrow>
                  (case b64url_decode mac of Inl _ \<Rightarrow> Inl Unauthenticated
                   | Inr m \<Rightarrow> if hmac key signed = m then Inr signed else Inl Unauthenticated))
      | _ \<Rightarrow> Inl Unauthenticated)"

section \<open>Grants\<close>

record mount_capability =
  mc_subject :: string
  mc_repository :: string
  mc_commit :: object_id
  mc_mount_id :: string
  mc_expires_at :: timestamp

record blob_ticket =
  bt_subject :: string
  bt_repository :: string
  bt_commit :: object_id
  bt_blob :: object_id
  bt_expires_at :: timestamp

text \<open>\<open>i64\<close> in big endian, two's complement.\<close>

definition i64_be :: "int \<Rightarrow> bytes" where
  "i64_be i = be64 (i64_as_u64 i)"

definition i64_from_be :: "bytes \<Rightarrow> error_code + int" where
  "i64_from_be bs = (if length bs \<noteq> 8 then Inl Unauthenticated else Inr (u64_as_i64 (from_be bs)))"

definition utf8 :: "bytes \<Rightarrow> error_code + string" where
  "utf8 bs = (if utf8_valid bs then Inr bs else Inl Unauthenticated)"

definition bind_sum :: "'e + 'a \<Rightarrow> ('a \<Rightarrow> 'e + 'b) \<Rightarrow> 'e + 'b" where
  "bind_sum r f = (case r of Inl e \<Rightarrow> Inl e | Inr x \<Rightarrow> f x)"

definition mount_fields :: "mount_capability \<Rightarrow> bytes list" where
  "mount_fields c = [mc_subject c, mc_repository c, to_qualified (mc_commit c), mc_mount_id c, i64_be (secs (mc_expires_at c))]"

definition mount_issue :: "(bytes \<Rightarrow> bytes \<Rightarrow> bytes) \<Rightarrow> bytes \<Rightarrow> mount_capability \<Rightarrow> string" where
  "mount_issue hmac key c = assemble hmac key (encode_fields TAG_MOUNT (mount_fields c))"

definition parse_mount_fields :: "bytes list \<Rightarrow> error_code + mount_capability" where
  "parse_mount_fields fs =
     bind_sum (bind_sum (utf8 (fs ! 0)) subject_id_parse) (\<lambda>s.
     bind_sum (bind_sum (utf8 (fs ! 1)) repository_id_parse) (\<lambda>r.
     bind_sum (bind_sum (utf8 (fs ! 2)) (\<lambda>x. oid_invalid (parse_qualified x))) (\<lambda>c.
     bind_sum (bind_sum (utf8 (fs ! 3)) mount_id_parse) (\<lambda>m.
     bind_sum (i64_from_be (fs ! 4)) (\<lambda>t.
       Inr \<lparr>mc_subject = s, mc_repository = r, mc_commit = c, mc_mount_id = m, mc_expires_at = from_secs t\<rparr>)))))"

definition verify_with_tolerance ::
  "(bytes \<Rightarrow> bytes \<Rightarrow> bytes) \<Rightarrow> bytes \<Rightarrow> string \<Rightarrow> timestamp \<Rightarrow> nat \<Rightarrow> error_code + mount_capability"
where
  "verify_with_tolerance hmac key token now tolerance =
     bind_sum (disassemble hmac key token) (\<lambda>signed.
     bind_sum (decode_fields signed TAG_MOUNT 5) (\<lambda>fs.
     bind_sum (parse_mount_fields fs) (\<lambda>cap.
       if secs now > isat_add (secs (mc_expires_at cap)) (u64_as_i64 tolerance) then Inl Expired else Inr cap)))"

definition mount_verify :: "(bytes \<Rightarrow> bytes \<Rightarrow> bytes) \<Rightarrow> bytes \<Rightarrow> string \<Rightarrow> timestamp \<Rightarrow> error_code + mount_capability" where
  "mount_verify hmac key token now = verify_with_tolerance hmac key token now 0"

definition ticket_fields :: "blob_ticket \<Rightarrow> bytes list" where
  "ticket_fields t = [bt_subject t, bt_repository t, to_qualified (bt_commit t), to_qualified (bt_blob t), i64_be (secs (bt_expires_at t))]"

definition ticket_issue :: "(bytes \<Rightarrow> bytes \<Rightarrow> bytes) \<Rightarrow> bytes \<Rightarrow> blob_ticket \<Rightarrow> string" where
  "ticket_issue hmac key t = assemble hmac key (encode_fields TAG_BLOB (ticket_fields t))"

definition parse_ticket_fields :: "bytes list \<Rightarrow> error_code + blob_ticket" where
  "parse_ticket_fields fs =
     bind_sum (bind_sum (utf8 (fs ! 0)) subject_id_parse) (\<lambda>s.
     bind_sum (bind_sum (utf8 (fs ! 1)) repository_id_parse) (\<lambda>r.
     bind_sum (bind_sum (utf8 (fs ! 2)) (\<lambda>x. oid_invalid (parse_qualified x))) (\<lambda>c.
     bind_sum (bind_sum (utf8 (fs ! 3)) (\<lambda>x. oid_invalid (parse_qualified x))) (\<lambda>b.
     bind_sum (i64_from_be (fs ! 4)) (\<lambda>t.
       Inr \<lparr>bt_subject = s, bt_repository = r, bt_commit = c, bt_blob = b, bt_expires_at = from_secs t\<rparr>)))))"

definition ticket_verify :: "(bytes \<Rightarrow> bytes \<Rightarrow> bytes) \<Rightarrow> bytes \<Rightarrow> string \<Rightarrow> timestamp \<Rightarrow> error_code + blob_ticket" where
  "ticket_verify hmac key token now =
     bind_sum (disassemble hmac key token) (\<lambda>signed.
     bind_sum (decode_fields signed TAG_BLOB 5) (\<lambda>fs.
     bind_sum (parse_ticket_fields fs) (\<lambda>t.
       if secs now > secs (bt_expires_at t) then Inl Expired else Inr t)))"

section \<open>The encoding\<close>

lemma bind_sum_simps [simp]: "bind_sum (Inl e) f = Inl e" "bind_sum (Inr x) f = f x"
  by (simp_all add: bind_sum_def)

lemma bind_sum_Inr: "bind_sum r f = Inr y \<longleftrightarrow> (\<exists>x. r = Inr x \<and> f x = Inr y)"
  by (cases r) auto

lemma decode_loop_encode:
  "list_all (\<lambda>f. length f < 2 ^ 32) fs \<Longrightarrow>
   decode_loop (length fs) (concat (map (\<lambda>f. be32 (length f) @ f) fs) @ left) = Inr (fs, left)"
  by (induction fs) (auto simp: Let_def)

lemma decode_encode_fields:
  "list_all (\<lambda>f. length f < 2 ^ 32) fs \<Longrightarrow> n = length fs \<Longrightarrow> decode_fields (encode_fields tag fs) tag n = Inr fs"
  using decode_loop_encode [of fs "[]"] by (simp add: decode_fields_def encode_fields_def)

lemma decode_loop_canonical:
  "decode_loop n rest = Inr (fs, left) \<Longrightarrow>
   length fs = n \<and> rest = concat (map (\<lambda>f. be32 (length f) @ f) fs) @ left"
proof (induction n arbitrary: rest fs)
  case (Suc n)
  define len where "len = from_be (take 4 rest)"
  obtain fs' where d: "decode_loop n (drop len (drop 4 rest)) = Inr (fs', left)" "fs = take len (drop 4 rest) # fs'"
      "4 \<le> length rest" "len \<le> length (drop 4 rest)"
    using Suc.prems by (auto simp: len_def Let_def not_less split: if_splits sum.splits prod.splits)
  have "length (take 4 rest) = 4" using d(3) by simp
  then have "be32 len = take 4 rest" using be_bytes_from_be [of "take 4 rest"] by (simp add: len_def)
  define f where "f = take len (drop 4 rest)"
  have lf: "length f = len" using d(4) by (simp add: f_def)
  have "rest = be32 len @ f @ drop len (drop 4 rest)"
    using \<open>be32 len = take 4 rest\<close> unfolding f_def by (metis append_take_drop_id)
  also have "drop len (drop 4 rest) = concat (map (\<lambda>f. be32 (length f) @ f) fs') @ left" using Suc.IH [OF d(1)] by simp
  finally show ?case using Suc.IH [OF d(1)] d(2) lf by (simp add: f_def [symmetric])
qed simp

lemma decode_fields_canonical:
  "decode_fields bs tag n = Inr fs \<Longrightarrow> bs = encode_fields tag fs \<and> length fs = n"
  using decode_loop_canonical by (fastforce simp: decode_fields_def encode_fields_def split: list.splits if_splits sum.splits prod.splits)

lemma b64_table_no_dot: "CHR ''.'' \<notin> set b64_table" "length b64_table = 64"
  by (simp_all add: b64_table_def)

lemma b64_digit_table: "b64_digit n k \<in> set b64_table"
proof -
  have "drop_bit k n AND 63 = take_bit 6 (drop_bit k n)" by (simp add: take_bit_eq_mask mask_eq_exp_minus_1)
  also have "\<dots> < 64" using take_bit_nat_less_exp [of 6 "drop_bit k n"] by simp
  finally show ?thesis using b64_table_no_dot(2) by (simp add: b64_digit_def)
qed

lemma b64url_no_dot: "CHR ''.'' \<notin> set (b64url_encode bs)"
proof -
  have "set (b64_chunk c) \<subseteq> set b64_table" for c
    using b64_digit_table by (auto simp: b64_chunk_def Let_def)
  then show ?thesis using b64_table_no_dot(1) by (auto simp: b64url_encode_def)
qed

lemma disassemble_assemble: "disassemble hmac key (assemble hmac key signed) = Inr signed"
proof -
  have "split_on (CHR ''.'') (assemble hmac key signed) = [PREFIX, b64url_encode signed, b64url_encode (hmac key signed)]"
    using split_on_append [of "CHR ''.''" PREFIX] split_on_append [OF b64url_no_dot, of signed] b64url_no_dot
    by (simp add: assemble_def PREFIX_def)
  then show ?thesis by (simp add: disassemble_def b64_codec.dec_enc)
qed

lemma disassemble_authentic:
  assumes "disassemble hmac key token = Inr signed"
  obtains payload mac where "token = PREFIX @ ''.'' @ payload @ ''.'' @ mac" "b64url_decode payload = Inr signed"
    "b64url_decode mac = Inr (hmac key signed)"
proof -
  obtain payload mac where s: "split_on (CHR ''.'') token = [PREFIX, payload, mac]" "b64url_decode payload = Inr signed"
      "b64url_decode mac = Inr (hmac key signed)"
    using assms by (auto simp: disassemble_def split: list.splits if_splits sum.splits)
  have "token = join_with (CHR ''.'') [PREFIX, payload, mac]" by (metis join_split s(1))
  then show thesis using that s by simp
qed

section \<open>Round trips\<close>

definition i64_range :: "int \<Rightarrow> bool" where
  "i64_range i \<longleftrightarrow> i64_min \<le> i \<and> i \<le> i64_max"

lemma i64_be_roundtrip: "i64_range i \<Longrightarrow> i64_from_be (i64_be i) = Inr i"
proof -
  assume r: "i64_range i"
  have "i64_as_u64 i < 256 ^ 8" using nat_mod_distrib by (simp add: i64_as_u64_def nat_less_iff)
  then have "from_be (i64_be i) = i64_as_u64 i" by (simp add: i64_be_def del: power.simps)
  moreover have "u64_as_i64 (i64_as_u64 i) = i"
  proof (cases "0 \<le> i")
    case True
    then show ?thesis
      using r by (simp add: u64_as_i64_def i64_as_u64_def i64_range_def i64_max_def nat_less_iff)
  next
    case False
    have "i mod 2 ^ 64 = (i + 2 ^ 64) mod 2 ^ 64" by simp
    also have "\<dots> = i + 2 ^ 64" by (rule mod_pos_pos_trivial) (use r False in \<open>simp_all add: i64_range_def i64_min_def\<close>)
    finally show ?thesis
      using r False by (simp add: u64_as_i64_def i64_as_u64_def i64_range_def i64_min_def nat_less_iff)
  qed
  ultimately show ?thesis by (simp add: i64_from_be_def i64_be_def)
qed

text \<open>What the types of the source guarantee of a grant: identifiers and object ids were parsed.\<close>

definition mount_capability_ok :: "mount_capability \<Rightarrow> bool" where
  "mount_capability_ok c \<longleftrightarrow>
     utf8_valid (mc_subject c) \<and> subject_id_parse (mc_subject c) = Inr (mc_subject c) \<and>
     repository_id_parse (mc_repository c) = Inr (mc_repository c) \<and> oid_ok (mc_commit c) \<and>
     mount_id_parse (mc_mount_id c) = Inr (mc_mount_id c) \<and>
     i64_range (secs (mc_expires_at c)) \<and> mc_expires_at c = from_secs (secs (mc_expires_at c))"

definition blob_ticket_ok :: "blob_ticket \<Rightarrow> bool" where
  "blob_ticket_ok t \<longleftrightarrow>
     utf8_valid (bt_subject t) \<and> subject_id_parse (bt_subject t) = Inr (bt_subject t) \<and>
     repository_id_parse (bt_repository t) = Inr (bt_repository t) \<and> oid_ok (bt_commit t) \<and> oid_ok (bt_blob t) \<and>
     i64_range (secs (bt_expires_at t)) \<and> bt_expires_at t = from_secs (secs (bt_expires_at t))"

lemma alphanumeric_ascii: "is_ascii_alphanumeric c \<Longrightarrow> (of_char c :: nat) < 128"
  by (auto simp: is_ascii_alphanumeric_def Let_def)

lemma name_chars_valid:
  assumes "\<forall>b\<in>set s. is_ascii_alphanumeric b \<or> b = CHR ''.'' \<or> b = CHR ''_'' \<or> b = CHR ''-''"
  shows "utf8_valid s"
proof -
  have "(of_char c :: nat) < 128" if "c \<in> set s" for c
    using bspec [OF assms that] alphanumeric_ascii by auto
  then show ?thesis by (intro ascii_utf8_valid) (simp add: is_ascii_def list_all_iff)
qed

lemma id_lengths:
  "subject_id_parse s = Inr s' \<Longrightarrow> s' = s \<and> length s \<le> 512"
  "repository_id_parse s = Inr s' \<Longrightarrow> s' = s \<and> length s \<le> 128 \<and> utf8_valid s"
  "mount_id_parse s = Inr s' \<Longrightarrow> s' = s \<and> length s \<le> 64 \<and> utf8_valid s"
  by (auto simp: subject_id_parse_def repository_id_parse_def mount_id_parse_def MAX_SUBJECT_ID_BYTES_def
      MAX_REPOSITORY_ID_BYTES_def MAX_MOUNT_ID_BYTES_def list_all_iff intro!: name_chars_valid split: if_splits)

lemma mount_fields_parse:
  assumes "mount_capability_ok c"
  shows "decode_fields (encode_fields TAG_MOUNT (mount_fields c)) TAG_MOUNT 5 = Inr (mount_fields c)"
    and "parse_mount_fields (mount_fields c) = Inr c"
proof -
  note ok = assms [unfolded mount_capability_ok_def]
  have q: "utf8_valid (to_qualified (mc_commit c))" "length (to_qualified (mc_commit c)) < 2 ^ 32"
    using qualified_text ok by blast+
  show "decode_fields (encode_fields TAG_MOUNT (mount_fields c)) TAG_MOUNT 5 = Inr (mount_fields c)"
    by (rule decode_encode_fields)
      (use ok q(2) id_lengths [of "mc_subject c"] id_lengths [of "mc_repository c"] id_lengths [of "mc_mount_id c"] in
        \<open>auto simp: mount_fields_def i64_be_def\<close>)
  show "parse_mount_fields (mount_fields c) = Inr c"
    using ok q(1) id_lengths [of "mc_repository c"] id_lengths [of "mc_mount_id c"] i64_be_roundtrip
    by (cases c) (simp add: parse_mount_fields_def mount_fields_def utf8_def parse_to_qualified oid_invalid_def)
qed

lemma ticket_fields_parse:
  assumes "blob_ticket_ok t"
  shows "decode_fields (encode_fields TAG_BLOB (ticket_fields t)) TAG_BLOB 5 = Inr (ticket_fields t)"
    and "parse_ticket_fields (ticket_fields t) = Inr t"
proof -
  note ok = assms [unfolded blob_ticket_ok_def]
  have q: "utf8_valid (to_qualified (bt_commit t))" "length (to_qualified (bt_commit t)) < 2 ^ 32"
      "utf8_valid (to_qualified (bt_blob t))" "length (to_qualified (bt_blob t)) < 2 ^ 32"
    using qualified_text ok by blast+
  show "decode_fields (encode_fields TAG_BLOB (ticket_fields t)) TAG_BLOB 5 = Inr (ticket_fields t)"
    by (rule decode_encode_fields)
      (use ok q id_lengths [of "bt_subject t"] id_lengths [of "bt_repository t"] in \<open>auto simp: ticket_fields_def i64_be_def\<close>)
  show "parse_ticket_fields (ticket_fields t) = Inr t"
    using ok q id_lengths [of "bt_repository t"] i64_be_roundtrip
    by (cases t) (simp add: parse_ticket_fields_def ticket_fields_def utf8_def parse_to_qualified oid_invalid_def)
qed

lemma mount_verify_issue:
  "mount_capability_ok c \<Longrightarrow> secs now \<le> isat_add (secs (mc_expires_at c)) (u64_as_i64 tol) \<Longrightarrow>
   verify_with_tolerance hmac key (mount_issue hmac key c) now tol = Inr c"
  using mount_fields_parse [of c]
  by (simp add: verify_with_tolerance_def mount_issue_def disassemble_assemble)

lemma ticket_verify_issue:
  "blob_ticket_ok t \<Longrightarrow> secs now \<le> secs (bt_expires_at t) \<Longrightarrow> ticket_verify hmac key (ticket_issue hmac key t) now = Inr t"
  using ticket_fields_parse [of t] by (simp add: ticket_verify_def ticket_issue_def disassemble_assemble)

lemma i64_range_bounds: "i64_range i \<Longrightarrow> i64_min \<le> isat_add i (u64_as_i64 0)"
  by (simp add: i64_range_def isat_add_def)

interpretation capability_codec: codec mount_capability_ok "mount_issue hmac key"
    "\<lambda>token. mount_verify hmac key token (Timestamp i64_min 0)" for hmac key
  by unfold_locales (simp add: mount_verify_def mount_verify_issue mount_capability_ok_def i64_range_bounds)

interpretation ticket_codec: codec blob_ticket_ok "ticket_issue hmac key"
    "\<lambda>token. ticket_verify hmac key token (Timestamp i64_min 0)" for hmac key
  by unfold_locales (simp add: ticket_verify_issue blob_ticket_ok_def i64_range_def)

section \<open>Properties\<close>

text \<open>
  C14. A capability that was issued verifies to itself until it expires, and different capabilities have
  different tokens under every key.
\<close>
theorem capability_roundtrip:
  assumes "mount_capability_ok c" and "secs now \<le> secs (mc_expires_at c)"
  shows "mount_verify hmac key (mount_issue hmac key c) now = Inr c \<and>
    (mount_capability_ok c' \<and> mount_issue hmac key c = mount_issue hmac key c' \<longrightarrow> c = c')"
proof -
  have "secs now \<le> isat_add (secs (mc_expires_at c)) (u64_as_i64 0)"
    using assms by (simp add: mount_capability_ok_def i64_range_def isat_add_def u64_as_i64_def)
  then show ?thesis
    using mount_verify_issue [OF assms(1)] capability_codec.enc_eq_iff [OF assms(1)] by (auto simp: mount_verify_def)
qed

definition demo_capability :: mount_capability where
  "demo_capability = \<lparr>mc_subject = ''alice'', mc_repository = ''r'', mc_commit = ObjectId Sha1 (replicate 20 (CHR 0x11)),
     mc_mount_id = ''m1'', mc_expires_at = from_secs 1000\<rparr>"

lemma demo_capability_ok: "mount_capability_ok demo_capability"
  by (simp add: mount_capability_ok_def demo_capability_def subject_id_parse_def repository_id_parse_def mount_id_parse_def
      MAX_SUBJECT_ID_BYTES_def MAX_REPOSITORY_ID_BYTES_def MAX_MOUNT_ID_BYTES_def is_ascii_alphanumeric_def oid_ok_def
      i64_range_def i64_min_def i64_max_def from_secs_def str_chars_def cp_control_def Let_def utf8_valid_def
      utf8_char.simps numeral_eq_Suc)

theorem capability_roundtrip_witness:
  "mount_verify (\<lambda>k m. k @ m) ''k'' (mount_issue (\<lambda>k m. k @ m) ''k'' demo_capability) (from_secs 999) = Inr demo_capability"
  using capability_roundtrip [OF demo_capability_ok, of "from_secs 999"] by (simp add: demo_capability_def from_secs_def)

text \<open>
  C13. What a verified capability says was signed: the token carries a message authentication code of
  exactly the bytes that encode the five fields under the mount tag, the fields parse to the capability,
  and it has not expired beyond the tolerance.
\<close>
theorem capability_authentic:
  assumes "verify_with_tolerance hmac key token now tol = Inr cap"
  shows "\<exists>fs payload mac. token = PREFIX @ ''.'' @ payload @ ''.'' @ mac \<and>
    b64url_decode payload = Inr (encode_fields TAG_MOUNT fs) \<and> b64url_decode mac = Inr (hmac key (encode_fields TAG_MOUNT fs)) \<and>
    parse_mount_fields fs = Inr cap \<and> secs now \<le> isat_add (secs (mc_expires_at cap)) (u64_as_i64 tol)"
proof -
  obtain signed fs where s: "disassemble hmac key token = Inr signed" "decode_fields signed TAG_MOUNT 5 = Inr fs"
      "parse_mount_fields fs = Inr cap" "secs now \<le> isat_add (secs (mc_expires_at cap)) (u64_as_i64 tol)"
    using assms by (auto simp: verify_with_tolerance_def bind_sum_Inr not_less split: if_splits)
  have "signed = encode_fields TAG_MOUNT fs" using decode_fields_canonical [OF s(2)] by simp
  then show ?thesis using disassemble_authentic [OF s(1)] s(3,4) by metis
qed

theorem capability_authentic_witness:
  "\<exists>fs payload mac. mount_issue (\<lambda>k m. k @ m) ''k'' demo_capability = PREFIX @ ''.'' @ payload @ ''.'' @ mac \<and>
    b64url_decode payload = Inr (encode_fields TAG_MOUNT fs) \<and> b64url_decode mac = Inr (''k'' @ encode_fields TAG_MOUNT fs) \<and>
    parse_mount_fields fs = Inr demo_capability"
proof -
  have "verify_with_tolerance (\<lambda>k m. k @ m) ''k'' (mount_issue (\<lambda>k m. k @ m) ''k'' demo_capability) (from_secs 999) 0 = Inr demo_capability"
    by (rule mount_verify_issue [OF demo_capability_ok])
      (simp add: demo_capability_def from_secs_def isat_add_def u64_as_i64_def i64_min_def i64_max_def)
  from capability_authentic [OF this] show ?thesis by blast
qed

text \<open>
  The two kinds of token are never interchangeable: a blob ticket does not verify as a mount
  capability, nor the reverse, whatever the key, the clock and the tolerance.
\<close>
theorem token_kinds_separate:
  "verify_with_tolerance hmac key (ticket_issue hmac key t) now tol = Inl Unauthenticated \<and>
   ticket_verify hmac key (mount_issue hmac key c) now = Inl Unauthenticated"
proof -
  have "decode_fields (encode_fields TAG_BLOB fs) TAG_MOUNT 5 = Inl Unauthenticated"
      "decode_fields (encode_fields TAG_MOUNT fs) TAG_BLOB 5 = Inl Unauthenticated" for fs
    by (simp_all add: decode_fields_def encode_fields_def TAG_MOUNT_def TAG_BLOB_def)
  then show ?thesis
    by (simp add: verify_with_tolerance_def ticket_verify_def ticket_issue_def mount_issue_def disassemble_assemble)
qed

end
