(* ===== verification/Gfs_Manifest.thy ===== *)
theory Gfs_Manifest
  imports Gfs_Wire Gfs_Oid
begin

text \<open>
  The per-snapshot search manifest, \<open>crates/gfs-search/src/manifest.rs\<close>: building it from entries or from a
  parent and a delta, the ordinal range of a scope, and the front-coded encoding with its decoder. SHA-256
  is a parameter, of which only the length of a digest is used; the membership bitmap is a set and the
  reverse table a sorted map. \<open>partition_point\<close> is the length of the leading run, as on sorted paths.
\<close>

unbundle bit_operations_syntax

section \<open>Data\<close>

definition MANIFEST_FORMAT_VERSION :: nat where "MANIFEST_FORMAT_VERSION = 1"

definition MAGIC :: bytes where "MAGIC = ''GFSMAN'' @ [CHR 0x00, CHR 0x00]"

record path_entry =
  pe_path :: path
  pe_mode :: nat
  pe_key :: nat

record manifest =
  mf_commit :: object_id
  mf_paths :: "path_entry list"
  mf_members :: "nat set"
  mf_reverse :: "(nat, nat list) btree"

datatype manifest_delta = Removed path | Upserted path nat nat

section \<open>Building\<close>

definition push_ordinal :: "nat \<times> path_entry \<Rightarrow> (nat, nat list) btree \<Rightarrow> (nat, nat list) btree" where
  "push_ordinal = (\<lambda>(i, e) rv. bt_insert (pe_key e) ((case bt_get rv (pe_key e) of None \<Rightarrow> [] | Some v \<Rightarrow> v) @ [i]) rv)"

definition from_sorted :: "object_id \<Rightarrow> path_entry list \<Rightarrow> manifest" where
  "from_sorted c paths =
     \<lparr>mf_commit = c, mf_paths = paths, mf_members = set (map pe_key paths),
      mf_reverse = fold push_ordinal (enumerate 0 paths) []\<rparr>"

text \<open>\<open>dedup_by\<close> on equal paths: of neighbours with one path the first stays.\<close>

fun dedup_paths :: "path_entry list \<Rightarrow> path_entry list" where
  "dedup_paths (a # b # rest) = (if pe_path b = pe_path a then dedup_paths (a # rest) else a # dedup_paths (b # rest))"
| "dedup_paths xs = xs"

definition build :: "object_id \<Rightarrow> path_entry list \<Rightarrow> manifest" where
  "build c entries = from_sorted c (dedup_paths (sort_key pe_path entries))"

definition paths_for_key :: "manifest \<Rightarrow> nat \<Rightarrow> nat list" where
  "paths_for_key m k = (case bt_get (mf_reverse m) k of None \<Rightarrow> [] | Some v \<Rightarrow> v)"

fun apply_delta :: "manifest_delta \<Rightarrow> (path, nat \<times> nat) btree \<Rightarrow> (path, nat \<times> nat) btree" where
  "apply_delta (Removed p) table = bt_remove p table"
| "apply_delta (Upserted p m k) table = bt_insert p (m, k) table"

definition apply_deltas :: "object_id \<Rightarrow> manifest_delta list \<Rightarrow> manifest \<Rightarrow> manifest" where
  "apply_deltas c deltas mf =
     (let table = fold (\<lambda>e. bt_insert (pe_path e) (pe_mode e, pe_key e)) (mf_paths mf) [];
          table' = fold apply_delta deltas table
      in from_sorted c (map (\<lambda>(p, m, k). \<lparr>pe_path = p, pe_mode = m, pe_key = k\<rparr>) table'))"

section \<open>Scopes\<close>

definition partition_point :: "(path_entry \<Rightarrow> bool) \<Rightarrow> path_entry list \<Rightarrow> nat" where
  "partition_point P xs = length (takeWhile P xs)"

text \<open>The loop that forms the upper bound, on the reversed bytes.\<close>

fun bump_last :: "bytes \<Rightarrow> bytes option" where
  "bump_last [] = None"
| "bump_last (c # cs) = (if of_char c = (255::nat) then bump_last cs else Some (rev (char_of (of_char c + 1 :: nat) # cs)))"

definition scope :: "manifest \<Rightarrow> bytes \<Rightarrow> nat \<times> nat" where
  "scope mf prefix =
     (let paths = mf_paths mf in
      if prefix = [] then (0, length paths)
      else let with_sep = (if last prefix \<noteq> CHR ''/'' then prefix @ ''/'' else prefix);
               start = partition_point (\<lambda>e. pe_path e < with_sep) paths;
               stop = (case bump_last (rev with_sep) of
                         None \<Rightarrow> length paths
                       | Some upper \<Rightarrow> partition_point (\<lambda>e. pe_path e < upper) paths);
               exact = partition_point (\<lambda>e. pe_path e < prefix) paths
           in if start \<ge> stop \<and> exact < length paths \<and> pe_path (paths ! exact) = prefix then (exact, exact + 1)
              else (start, stop))"

section \<open>Encoding\<close>

function put_varint :: "nat \<Rightarrow> bytes" where
  "put_varint v =
     (let byte = v AND 0x7F; v' = drop_bit 7 v
      in if v' = 0 then [char_of byte] else char_of (byte OR 0x80) # put_varint v')"
  by pat_completeness auto

termination
  by (relation "measure id") (auto simp: drop_bit_eq_div)

declare put_varint.simps [simp del]

fun shared_prefix :: "bytes \<Rightarrow> bytes \<Rightarrow> nat" where
  "shared_prefix (a # as) (b # bs) = (if a = b then Suc (shared_prefix as bs) else 0)"
| "shared_prefix _ _ = 0"

fun encode_paths :: "bytes \<Rightarrow> path_entry list \<Rightarrow> bytes" where
  "encode_paths previous [] = []"
| "encode_paths previous (e # es) =
     (let p = pe_path e; shared = shared_prefix p previous
      in put_varint shared @ put_varint (length p - shared) @ drop shared p @
         put_varint (pe_mode e) @ put_varint (pe_key e) @ encode_paths p es)"

definition manifest_encode :: "(bytes \<Rightarrow> bytes) \<Rightarrow> manifest \<Rightarrow> bytes" where
  "manifest_encode sha256 mf =
     (let commit = to_qualified (mf_commit mf);
          body = MAGIC @ le_bytes 4 MANIFEST_FORMAT_VERSION @ put_varint (length commit) @ commit @
                 put_varint (length (mf_paths mf)) @ encode_paths [] (mf_paths mf)
      in body @ sha256 body)"

section \<open>Decoding\<close>

text \<open>The cursor is the bytes that are left.\<close>

definition cursor_take :: "nat \<Rightarrow> bytes \<Rightarrow> error_code + (bytes \<times> bytes)" where
  "cursor_take n bs = (if n \<le> length bs then Inr (take n bs, drop n bs) else Inl Internal)"

fun cursor_varint :: "nat \<Rightarrow> nat \<Rightarrow> bytes \<Rightarrow> error_code + (nat \<times> bytes)" where
  "cursor_varint v shift [] = Inl Internal"
| "cursor_varint v shift (b # bs) =
     (let byte = of_char b :: nat; v' = v OR push_bit shift (byte AND 0x7F) mod 2 ^ 64
      in if byte AND 0x80 = 0 then Inr (v', bs)
         else if shift + 7 \<ge> 64 then Inl Internal
         else cursor_varint v' (shift + 7) bs)"

definition and_next :: "error_code + ('a \<times> bytes) \<Rightarrow> ('a \<Rightarrow> bytes \<Rightarrow> error_code + 'b) \<Rightarrow> error_code + 'b" where
  "and_next r f = (case r of Inl e \<Rightarrow> Inl e | Inr (x, rest) \<Rightarrow> f x rest)"

fun decode_paths :: "nat \<Rightarrow> bytes \<Rightarrow> bytes \<Rightarrow> error_code + path_entry list" where
  "decode_paths 0 previous bs = Inr []"
| "decode_paths (Suc n) previous bs =
     and_next (cursor_varint 0 0 bs) (\<lambda>shared bs.
     and_next (cursor_varint 0 0 bs) (\<lambda>suffix_len bs.
     if shared > length previous then Inl Internal else
     and_next (cursor_take suffix_len bs) (\<lambda>suffix bs.
     and_next (cursor_varint 0 0 bs) (\<lambda>mode bs.
     and_next (cursor_varint 0 0 bs) (\<lambda>key bs.
     if key \<ge> 2 ^ 32 then Inl Internal
     else let p = take shared previous @ suffix
          in case decode_paths n p bs of Inl e \<Rightarrow> Inl e
             | Inr es \<Rightarrow> Inr (\<lparr>pe_path = p, pe_mode = mode mod 2 ^ 32, pe_key = key\<rparr> # es))))))"

definition manifest_decode :: "(bytes \<Rightarrow> bytes) \<Rightarrow> bytes \<Rightarrow> error_code + manifest" where
  "manifest_decode sha256 bs =
     (if length bs < length MAGIC + 4 + 32 then Inl Internal
      else let body = take (length bs - 32) bs; digest = drop (length bs - 32) bs
      in if sha256 body \<noteq> digest then Inl Internal
      else and_next (cursor_take (length MAGIC) body) (\<lambda>magic bs.
      if magic \<noteq> MAGIC then Inl Internal
      else and_next (cursor_take 4 bs) (\<lambda>version bs.
      if from_le version \<noteq> MANIFEST_FORMAT_VERSION then Inl FailedPrecondition
      else and_next (cursor_varint 0 0 bs) (\<lambda>commit_len bs.
      and_next (cursor_take commit_len bs) (\<lambda>commit bs.
      if \<not> utf8_valid commit then Inl Internal
      else case parse_qualified commit of Inl _ \<Rightarrow> Inl Internal
      | Inr c \<Rightarrow>
        and_next (cursor_varint 0 0 bs) (\<lambda>count bs.
        case decode_paths count [] bs of Inl e \<Rightarrow> Inl e
        | Inr paths \<Rightarrow> Inr (from_sorted c paths)))))))"

section \<open>Variable-length integers\<close>

lemma and_127: "n AND 127 = n mod (128 :: nat)"
  using take_bit_eq_mask [of 7 n] by (simp add: take_bit_eq_mod mask_eq_exp_minus_1)

lemma and_128: "n AND 128 = (0 :: nat) \<longleftrightarrow> even (n div 128)"
  using and_exp_eq_0_iff_not_bit [of n 7] by (simp add: bit_iff_odd)

lemma put_varint_cases:
  "put_varint v = (if v < 128 then [char_of v] else char_of (128 + v mod 128) # put_varint (v div 128))"
proof -
  have "128 OR v mod 128 = 128 + v mod (128 :: nat)" using or_add [of "v mod 128" 7 1] by simp
  then show ?thesis
    by (subst put_varint.simps) (simp add: Let_def drop_bit_eq_div and_127 or.commute [of "v mod 128"] div_eq_0_iff)
qed

lemma cursor_varint_put:
  assumes "v * 2 ^ shift < 2 ^ 64" "acc < 2 ^ shift"
  shows "cursor_varint acc shift (put_varint v @ rest) = Inr (acc + v * 2 ^ shift, rest)"
  using assms
proof (induction v arbitrary: acc shift rule: less_induct)
  case (less v)
  have pb: "acc OR push_bit shift w mod 2 ^ 64 = acc + w * 2 ^ shift" if "w \<le> v" for w
  proof -
    have "w * 2 ^ shift < 2 ^ 64" using less.prems(1) mult_le_mono1 [OF that, of "2 ^ shift"] by linarith
    then have "push_bit shift w mod 2 ^ 64 = push_bit shift w" by (simp add: push_bit_eq_mult)
    then show ?thesis using or_add [OF less.prems(2), of w] by (simp add: or.commute mult.commute)
  qed
  show ?case
  proof (cases "v < 128")
    case True
    then show ?thesis using pb [of v] by (simp add: put_varint_cases [of v] Let_def and_127 and_128)
  next
    case False
    define low where "low = v mod 128"
    have low: "(of_char (char_of (128 + low) :: char) :: nat) = 128 + low" "low < 128" "(128 + low) div 128 = 1" "(128 + low) mod 128 = low"
      by (simp_all add: low_def)
    have acc: "acc OR push_bit shift low mod 2 ^ 64 = acc + low * 2 ^ shift" by (rule pb) (simp add: low_def)
    have "2 ^ (shift + 7) \<le> v * 2 ^ shift" using False by (simp add: power_add)
    then have "(2::nat) ^ (shift + 7) < 2 ^ 64" using less.prems(1) by (rule le_less_trans)
    then have sh: "shift + 7 < 64" by (rule power_less_imp_less_exp [rotated]) simp
    have v: "v = 128 * (v div 128) + low" by (simp add: low_def)
    have a: "acc + low * 2 ^ shift < 2 ^ (shift + 7)"
    proof -
      have "acc + low * 2 ^ shift < (low + 1) * 2 ^ shift" using less.prems(2) by simp
      also have "\<dots> \<le> 128 * 2 ^ shift" using low(2) by (intro mult_le_mono1) simp
      finally show ?thesis by (simp add: power_add)
    qed
    have b: "v div 128 * 2 ^ (shift + 7) < 2 ^ 64"
    proof -
      have "v div 128 * 2 ^ (shift + 7) = 128 * (v div 128) * 2 ^ shift" by (simp add: power_add)
      also have "\<dots> \<le> v * 2 ^ shift" by (intro mult_le_mono1) simp
      finally show ?thesis using less.prems(1) by linarith
    qed
    have "cursor_varint acc shift (put_varint v @ rest) = cursor_varint (acc + low * 2 ^ shift) (shift + 7) (put_varint (v div 128) @ rest)"
      using False sh acc by (simp add: put_varint_cases [of v] low_def [symmetric] Let_def and_127 and_128 low)
    also have "\<dots> = Inr (acc + low * 2 ^ shift + v div 128 * 2 ^ (shift + 7), rest)"
      by (rule less.IH) (use False a b in auto)
    also have "acc + low * 2 ^ shift + v div 128 * 2 ^ (shift + 7) = acc + (128 * (v div 128) + low) * 2 ^ shift"
      by (simp add: power_add algebra_simps)
    finally show ?thesis using v by simp
  qed
qed

lemma varint_roundtrip [simp]: "v < 2 ^ 64 \<Longrightarrow> cursor_varint 0 0 (put_varint v @ rest) = Inr (v, rest)"
  using cursor_varint_put [of v 0 0 rest] by simp

section \<open>The encoding\<close>

lemma and_next_simps [simp]: "and_next (Inr (x, rest)) f = f x rest" "and_next (Inl e) f = Inl e"
  by (simp_all add: and_next_def)

lemma cursor_take_append [simp]: "n = length xs \<Longrightarrow> cursor_take n (xs @ ys) = Inr (xs, ys)"
  by (simp add: cursor_take_def)

lemma shared_prefix_spec:
  "shared_prefix a b \<le> length a \<and> shared_prefix a b \<le> length b \<and> take (shared_prefix a b) b = take (shared_prefix a b) a"
  by (induction a b rule: shared_prefix.induct) auto

definition path_entry_ok :: "path_entry \<Rightarrow> bool" where
  "path_entry_ok e \<longleftrightarrow> length (pe_path e) < 2 ^ 64 \<and> pe_mode e < 2 ^ 32 \<and> pe_key e < 2 ^ 32"

lemma decode_encode_paths:
  "list_all path_entry_ok es \<Longrightarrow> decode_paths (length es) previous (encode_paths previous es @ rest) = Inr es"
proof (induction es arbitrary: previous)
  case (Cons e es)
  define sh where "sh = shared_prefix (pe_path e) previous"
  have sh: "sh \<le> length (pe_path e)" "sh \<le> length previous" "take sh previous = take sh (pe_path e)"
    using shared_prefix_spec [of "pe_path e" previous] by (simp_all add: sh_def)
  have ok: "length (pe_path e) < 2 ^ 64" "pe_mode e < 2 ^ 64" "pe_key e < 2 ^ 64" "pe_mode e < 2 ^ 32" "pe_key e < 2 ^ 32"
    using Cons.prems by (simp_all add: path_entry_ok_def)
  have IH: "decode_paths (length es) (pe_path e) (encode_paths (pe_path e) es @ rest) = Inr es"
    using Cons by simp
  show ?case
    using sh ok IH by (simp add: Let_def sh_def [symmetric] not_less)
qed simp

text \<open>Manifests as the program builds them: sorted paths without repetitions.\<close>

definition manifest_ok :: "manifest \<Rightarrow> bool" where
  "manifest_ok mf \<longleftrightarrow> sorted_wrt (<) (map pe_path (mf_paths mf)) \<and> mf = from_sorted (mf_commit mf) (mf_paths mf)"

lemma from_sorted_fields [simp]:
  "mf_commit (from_sorted c ps) = c" "mf_paths (from_sorted c ps) = ps" "mf_members (from_sorted c ps) = set (map pe_key ps)"
  by (simp_all add: from_sorted_def)

lemma manifest_decode_encode:
  assumes "manifest_ok mf" "oid_ok (mf_commit mf)" "list_all path_entry_ok (mf_paths mf)" "length (mf_paths mf) < 2 ^ 64"
    and sha: "\<And>b. length (sha256 b) = 32"
  shows "manifest_decode sha256 (manifest_encode sha256 mf) = Inr mf"
proof -
  define q where "q = to_qualified (mf_commit mf)"
  define body where "body = MAGIC @ le_bytes 4 MANIFEST_FORMAT_VERSION @ put_varint (length q) @ q @
      put_varint (length (mf_paths mf)) @ encode_paths [] (mf_paths mf)"
  have e: "manifest_encode sha256 mf = body @ sha256 body" by (simp add: manifest_encode_def body_def q_def Let_def)
  have q: "utf8_valid q" "length q < 2 ^ 64" "parse_qualified q = Inr (mf_commit mf)"
    using qualified_text [OF assms(2)] parse_to_qualified [OF assms(2)] by (simp_all add: q_def)
  have v: "from_le (le_bytes 4 MANIFEST_FORMAT_VERSION) = MANIFEST_FORMAT_VERSION"
    by (rule from_le_exact) (simp add: MANIFEST_FORMAT_VERSION_def)
  have paths: "decode_paths (length (mf_paths mf)) [] (encode_paths [] (mf_paths mf)) = Inr (mf_paths mf)"
    using decode_encode_paths [OF assms(3), of "[]" "[]"] by simp
  have "length MAGIC + 4 \<le> length body" by (simp add: body_def)
  then have "\<not> length (body @ sha256 body) < length MAGIC + 4 + 32" using sha [of body] by simp
  then have "manifest_decode sha256 (body @ sha256 body) = Inr (from_sorted (mf_commit mf) (mf_paths mf))"
    using q v paths assms(4) sha [of body] unfolding manifest_decode_def Let_def
    by (simp add: body_def)
  then show ?thesis using assms(1) by (simp add: e manifest_ok_def)
qed

section \<open>The tables\<close>

lemma push_ordinals:
  "bt_get (fold push_ordinal (enumerate n ps) rv) k =
     (let old = bt_get rv k; new = filter (\<lambda>i. pe_key (ps ! (i - n)) = k) [n..<n + length ps]
      in if new = [] then old else Some ((case old of None \<Rightarrow> [] | Some v \<Rightarrow> v) @ new))"
proof (induction ps arbitrary: n rv)
  case (Cons e ps)
  define new where "new = filter (\<lambda>i. pe_key (ps ! (i - Suc n)) = k) [Suc n..<Suc n + length ps]"
  have "[n..<n + length (e # ps)] = n # [Suc n..<Suc n + length ps]" by (simp add: upt_rec)
  moreover have "filter (\<lambda>i. pe_key ((e # ps) ! (i - n)) = k) [Suc n..<Suc n + length ps] = new"
    unfolding new_def by (intro filter_cong) (auto simp: nth_Cons')
  ultimately have new: "filter (\<lambda>i. pe_key ((e # ps) ! (i - n)) = k) [n..<n + length (e # ps)] =
      (if pe_key e = k then n # new else new)"
    by (simp del: upt_Suc)
  show ?case
    unfolding enumerate_simps fold_simps Cons.IH Let_def new new_def [symmetric]
    by (cases "pe_key e = k"; cases "bt_get rv k") (simp_all add: push_ordinal_def)
qed (simp add: Let_def)

lemma paths_for_key_from_sorted:
  "paths_for_key (from_sorted c ps) k = filter (\<lambda>i. pe_key (ps ! i) = k) [0..<length ps]"
  using push_ordinals [of 0 ps "[]" k] by (simp add: paths_for_key_def from_sorted_def Let_def)

text \<open>What a manifest says of each path.\<close>

definition manifest_table :: "path_entry list \<Rightarrow> path \<rightharpoonup> nat \<times> nat" where
  "manifest_table ps = map_of (map (\<lambda>e. (pe_path e, pe_mode e, pe_key e)) ps)"

lemma dedup_paths_hd: "dedup_paths (a # es) = a # dedup_paths (dropWhile (\<lambda>e. pe_path e = pe_path a) es)"
  by (induction es) auto

lemma set_dedup_paths: "set (dedup_paths es) \<subseteq> set es"
  by (induction es rule: dedup_paths.induct) auto

lemma dedup_paths_sorted: "sorted (map pe_path es) \<Longrightarrow> sorted_wrt (<) (map pe_path (dedup_paths es))"
proof (induction es rule: dedup_paths.induct)
  case (1 a b rest)
  show ?case
  proof (cases "pe_path b = pe_path a")
    case False
    then have "pe_path a < pe_path b" using 1(3) by auto
    moreover have "pe_path b \<le> pe_path x" if "x \<in> set (dedup_paths (b # rest))" for x
      using that set_dedup_paths [of "b # rest"] 1(3) by auto
    ultimately have "\<forall>x \<in> set (dedup_paths (b # rest)). pe_path a < pe_path x" by (meson less_le_trans)
    then show ?thesis using False 1 by simp
  qed (use 1 in simp)
qed auto

lemma manifest_table_dedup: "manifest_table (dedup_paths es) = manifest_table es"
  by (induction es rule: dedup_paths.induct) (auto simp: manifest_table_def fun_eq_iff)

lemma build_ok: "manifest_ok (build c es)"
  by (simp add: manifest_ok_def build_def dedup_paths_sorted)

lemma manifest_table_build: "manifest_table (mf_paths (build c es)) = manifest_table es"
proof -
  have "map_of (map (\<lambda>e. (pe_path e, pe_mode e, pe_key e)) (sort_key pe_path es)) p = manifest_table es p" for p
  proof -
    have f: "map_of (map (\<lambda>e. (pe_path e, pe_mode e, pe_key e)) xs) p =
        map_option (\<lambda>e. (pe_mode e, pe_key e)) (List.find (\<lambda>e. pe_path e = p) xs)" for xs
      by (induction xs) auto
    have h: "List.find P xs = (case filter P xs of [] \<Rightarrow> None | e # _ \<Rightarrow> Some e)" for P :: "path_entry \<Rightarrow> bool" and xs
      by (induction xs) auto
    show ?thesis by (simp add: manifest_table_def f h sort_key_stable)
  qed
  then show ?thesis by (simp add: build_def manifest_table_dedup) (simp add: manifest_table_def fun_eq_iff)
qed

text \<open>Sorted paths are determined by what they say of each path.\<close>

lemma manifest_table_inj:
  assumes "sorted_wrt (<) (map pe_path ps)" "sorted_wrt (<) (map pe_path qs)" "manifest_table ps = manifest_table qs"
  shows "ps = qs"
proof -
  let ?f = "\<lambda>e :: path_entry. (pe_path e, pe_mode e, pe_key e)"
  have ok: "bt_ok (map ?f ps)" "bt_ok (map ?f qs)" using assms by (simp_all add: bt_ok_def o_def)
  have "map_of (map ?f ps) = map_of (map ?f qs)" using assms(3) by (simp add: manifest_table_def)
  then have "map ?f ps = map ?f qs" by (rule bt_ext [OF ok])
  moreover have "inj ?f" by (rule injI) (auto intro: path_entry.equality)
  ultimately show ?thesis by (simp add: inj_map_eq_map)
qed

fun delta_effect :: "manifest_delta \<Rightarrow> (path \<rightharpoonup> nat \<times> nat) \<Rightarrow> (path \<rightharpoonup> nat \<times> nat)" where
  "delta_effect (Removed p) t = t(p := None)"
| "delta_effect (Upserted p m k) t = t(p \<mapsto> (m, k))"

lemma fold_apply_delta:
  "bt_get (fold apply_delta ds t) = fold delta_effect ds (bt_get t)" "bt_ok t \<Longrightarrow> bt_ok (fold apply_delta ds t)"
proof -
  have 1: "bt_get (apply_delta d t) = delta_effect d (bt_get t)" for d t by (cases d) auto
  show "bt_get (fold apply_delta ds t) = fold delta_effect ds (bt_get t)" by (induction ds arbitrary: t) (auto simp: 1)
  have 2: "bt_ok t \<Longrightarrow> bt_ok (apply_delta d t)" for d t by (cases d) auto
  show "bt_ok t \<Longrightarrow> bt_ok (fold apply_delta ds t)" by (induction ds arbitrary: t) (auto simp: 2)
qed

lemma apply_deltas_table:
  assumes "manifest_ok mf"
  shows "manifest_ok (apply_deltas c ds mf)" (is ?ok)
    and "manifest_table (mf_paths (apply_deltas c ds mf)) = fold delta_effect ds (manifest_table (mf_paths mf))" (is ?table)
proof -
  define t where "t = fold (\<lambda>e. bt_insert (pe_path e) (pe_mode e, pe_key e)) (mf_paths mf) []"
  define t' where "t' = fold apply_delta ds t"
  let ?entry = "\<lambda>(p, m, k). \<lparr>pe_path = p, pe_mode = m, pe_key = k\<rparr>"
  have a: "apply_deltas c ds mf = from_sorted c (map ?entry t')" by (simp add: apply_deltas_def t_def t'_def Let_def)
  have ok: "bt_ok t" unfolding t_def by (rule bt.ok_fold_ins) simp
  then have ok': "bt_ok t'" by (simp add: t'_def fold_apply_delta)
  have "map pe_path (map ?entry t') = map fst t'" by auto
  then have "sorted_wrt (<) (map pe_path (map ?entry t'))" using ok' unfolding bt_ok_def by (simp only:)
  then show ?ok unfolding a manifest_ok_def from_sorted_fields by simp
  have "distinct (map pe_path (mf_paths mf))" using assms by (simp add: manifest_ok_def strict_sorted_iff)
  then have inj: "inj_on pe_path (set (mf_paths mf))" by (simp add: distinct_map)
  have "bt_get t = manifest_table (mf_paths mf)"
  proof
    fix p
    show "bt_get t p = manifest_table (mf_paths mf) p"
    proof (cases "p \<in> pe_path ` set (mf_paths mf)")
      case True
      then obtain e where e: "e \<in> set (mf_paths mf)" "p = pe_path e" by auto
      then have "bt_get t p = Some (pe_mode e, pe_key e)" unfolding t_def
        using bt.get_fold_ins [OF bt.ok_empty inj, of e "\<lambda>e. (pe_mode e, pe_key e)"] by simp
      moreover have "manifest_table (mf_paths mf) p = Some (pe_mode e, pe_key e)"
        using e assms unfolding manifest_table_def
        by (intro map_of_is_SomeI) (auto simp: o_def manifest_ok_def strict_sorted_iff)
      ultimately show ?thesis by simp
    next
      case False
      then have "bt_get t p = None" unfolding t_def by (simp add: bt.get_fold_ins_other)
      moreover have "manifest_table (mf_paths mf) p = None"
        using False by (auto simp: manifest_table_def map_of_eq_None_iff)
      ultimately show ?thesis by simp
    qed
  qed
  then have "bt_get t' = fold delta_effect ds (manifest_table (mf_paths mf))" by (simp add: t'_def fold_apply_delta)
  moreover have "manifest_table (map ?entry t') = bt_get t'" by (simp add: manifest_table_def o_def case_prod_unfold)
  ultimately show ?table by (simp add: a)
qed

section \<open>Runs of a sorted list\<close>

lemma leading_run: "sorted_wrt (<) (map f xs) \<Longrightarrow> filter (\<lambda>e. f e < hi) xs = takeWhile (\<lambda>e. f e < hi) xs"
  for f :: "'a \<Rightarrow> 'b::linorder"
proof (induction xs)
  case (Cons a xs)
  have "filter (\<lambda>e. f e < hi) xs = []" if "\<not> f a < hi" using that Cons.prems by (fastforce simp: filter_empty_conv)
  then show ?case using Cons by simp
qed simp

lemma run_between:
  fixes f :: "'a \<Rightarrow> 'b::linorder"
  assumes "sorted_wrt (<) (map f xs)" "lo \<le> hi"
  shows "take (length (takeWhile (\<lambda>e. f e < hi) xs) - length (takeWhile (\<lambda>e. f e < lo) xs))
      (drop (length (takeWhile (\<lambda>e. f e < lo) xs)) xs) = filter (\<lambda>e. lo \<le> f e \<and> f e < hi) xs"
  using assms(1)
proof (induction xs)
  case (Cons e xs)
  show ?case
  proof (cases "f e < lo")
    case True
    then show ?thesis using Cons assms(2) by auto
  next
    case False
    have ge: "lo \<le> f x" if "x \<in> set xs" for x using that Cons.prems False by fastforce
    have "filter (\<lambda>e. lo \<le> f e \<and> f e < hi) xs = filter (\<lambda>e. f e < hi) xs" using ge by (auto intro: filter_cong)
    also have "\<dots> = takeWhile (\<lambda>e. f e < hi) xs"
      using Cons.prems by (simp add: leading_run)
    finally have run: "filter (\<lambda>e. lo \<le> f e \<and> f e < hi) xs = takeWhile (\<lambda>e. f e < hi) xs" .
    have "\<not> f x < hi" if "\<not> f e < hi" "x \<in> set xs" for x using that Cons.prems by fastforce
    then have "filter (\<lambda>e. lo \<le> f e \<and> f e < hi) xs = []" if "\<not> f e < hi" using that by (simp add: filter_empty_conv)
    then show ?thesis using False run by (simp add: takeWhile_eq_take [symmetric])
  qed
qed simp

lemma exact_run:
  fixes f :: "'a \<Rightarrow> 'b::linorder"
  assumes "sorted_wrt (<) (map f xs)"
  shows "filter (\<lambda>e. f e = x) xs =
    (if length (takeWhile (\<lambda>e. f e < x) xs) < length xs \<and> f (xs ! length (takeWhile (\<lambda>e. f e < x) xs)) = x
     then take 1 (drop (length (takeWhile (\<lambda>e. f e < x) xs)) xs) else [])"
  using assms
proof (induction xs)
  case (Cons e xs)
  have none: "filter (\<lambda>e. f e = x) xs = []" if "\<not> f e < x" using that Cons.prems by (auto simp: filter_empty_conv)
  show ?case using none Cons by (cases "f e < x") auto
qed simp

lemma slash_upper: "bump_last (rev (d @ ''/'')) = Some (d @ ''0'')"
  by (simp add: char_of_def bit_numeral_rec bit_simps)

lemma under_slash: "d @ ''/'' \<le> p \<and> p < d @ ''0'' \<longleftrightarrow> starts_with p (d @ ''/'')" for p :: bytes
proof (induction d arbitrary: p)
  case Nil
  have "c = CHR ''/''" if "CHR ''/'' \<le> c" "c < CHR ''0''" for c :: char
  proof -
    have "of_char CHR ''/'' \<le> (of_char c :: nat)" "of_char c < (of_char CHR ''0'' :: nat)" using that by (simp_all add: less_eq_char_def less_char_def)
    then have "(of_char c :: nat) = of_char CHR ''/''" by simp
    then show ?thesis by (simp only: of_char_eq_iff)
  qed
  then show ?case by (cases p) (auto simp: starts_with_extends Cons_le_Cons Cons_less_Cons)
next
  case (Cons c d)
  then show ?case by (cases p) (auto simp: starts_with_extends Cons_le_Cons Cons_less_Cons)
qed

section \<open>Properties\<close>

text \<open>
  A manifest reads back from its encoding as it was written, with the tables derived from the paths; the
  digest only has to have its 32 bytes.
\<close>

theorem manifest_roundtrip:
  assumes "manifest_ok mf" "oid_ok (mf_commit mf)" "list_all path_entry_ok (mf_paths mf)" "length (mf_paths mf) < 2 ^ 64"
    and "\<And>b. length (sha256 b) = 32"
  shows "manifest_decode sha256 (manifest_encode sha256 mf) = Inr mf"
  by (rule manifest_decode_encode [OF assms])

definition sample_commit :: object_id where
  "sample_commit = ObjectId Sha1 (replicate 20 (CHR 0x07))"

definition sample_paths :: "path_entry list" where
  "sample_paths =
     [\<lparr>pe_path = ''src/main.rs'', pe_mode = 33188, pe_key = 300\<rparr>, \<lparr>pe_path = ''README'', pe_mode = 33188, pe_key = 1\<rparr>,
      \<lparr>pe_path = ''srcutil/x'', pe_mode = 33261, pe_key = 300\<rparr>, \<lparr>pe_path = ''src/lib.rs'', pe_mode = 33188, pe_key = 2\<rparr>]"

lemma sample_build:
  "mf_paths (build sample_commit sample_paths) = [sample_paths ! 1, sample_paths ! 3, sample_paths ! 0, sample_paths ! 2]"
  by (simp add: build_def sample_paths_def)

theorem manifest_roundtrip_witness:
  "manifest_decode (\<lambda>_. replicate 32 (CHR 0x00)) (manifest_encode (\<lambda>_. replicate 32 (CHR 0x00)) (build sample_commit sample_paths)) =
     Inr (build sample_commit sample_paths)"
proof (rule manifest_roundtrip)
  show "oid_ok (mf_commit (build sample_commit sample_paths))"
    by (simp add: build_def sample_commit_def oid_ok_def)
  show "list_all path_entry_ok (mf_paths (build sample_commit sample_paths))" "length (mf_paths (build sample_commit sample_paths)) < 2 ^ 64"
    unfolding sample_build by (simp_all add: sample_paths_def path_entry_ok_def)
qed (simp_all add: build_ok)

text \<open>
  C17. Preparing a commit from its parent's manifest and the changes between them gives the manifest that a
  full walk of the commit would build, provided the changes lead from what the parent has to what the walk
  finds: the same paths in the same order, the same membership set and the same reverse table.
\<close>

theorem manifest_incremental:
  assumes "manifest_ok parent"
    and "fold delta_effect deltas (manifest_table (mf_paths parent)) = manifest_table walked"
  shows "apply_deltas c deltas parent = build c walked"
proof -
  have t: "manifest_table (mf_paths (apply_deltas c deltas parent)) = manifest_table (mf_paths (build c walked))"
    using apply_deltas_table(2) [OF assms(1)] assms(2) by (simp add: manifest_table_build)
  have "mf_paths (apply_deltas c deltas parent) = mf_paths (build c walked)"
    using apply_deltas_table(1) [OF assms(1), of c deltas] build_ok [of c walked]
    by (intro manifest_table_inj t) (simp_all add: manifest_ok_def)
  then show ?thesis by (simp add: apply_deltas_def build_def Let_def)
qed

theorem manifest_incremental_witness:
  "apply_deltas sample_commit [Removed ''README'', Upserted ''a'' 33188 9, Upserted ''src/lib.rs'' 33188 5] (build sample_commit sample_paths) =
   build sample_commit
     [\<lparr>pe_path = ''src/lib.rs'', pe_mode = 33188, pe_key = 5\<rparr>, \<lparr>pe_path = ''src/main.rs'', pe_mode = 33188, pe_key = 300\<rparr>,
      \<lparr>pe_path = ''a'', pe_mode = 33188, pe_key = 9\<rparr>, \<lparr>pe_path = ''srcutil/x'', pe_mode = 33261, pe_key = 300\<rparr>]"
proof (rule manifest_incremental [OF build_ok], rule ext)
  fix p :: path
  consider "p = ''README''" | "p = ''a''" | "p = ''src/lib.rs''" | "p = ''src/main.rs''" | "p = ''srcutil/x''"
    | "p \<notin> {''README'', ''a'', ''src/lib.rs'', ''src/main.rs'', ''srcutil/x''}" by blast
  then show "fold delta_effect [Removed ''README'', Upserted ''a'' 33188 9, Upserted ''src/lib.rs'' 33188 5]
      (manifest_table (mf_paths (build sample_commit sample_paths))) p = manifest_table
     [\<lparr>pe_path = ''src/lib.rs'', pe_mode = 33188, pe_key = 5\<rparr>, \<lparr>pe_path = ''src/main.rs'', pe_mode = 33188, pe_key = 300\<rparr>,
      \<lparr>pe_path = ''a'', pe_mode = 33188, pe_key = 9\<rparr>, \<lparr>pe_path = ''srcutil/x'', pe_mode = 33261, pe_key = 300\<rparr>] p"
    unfolding manifest_table_build by cases (simp_all add: manifest_table_def sample_paths_def)
qed

text \<open>
  C18. The range of a scope covers exactly the paths inside the directory it names, at a path boundary; when
  there is none, exactly the file of that name.
\<close>

theorem manifest_scope_exact:
  assumes "manifest_ok mf" "prefix \<noteq> []"
  shows "case scope mf prefix of (start, stop) \<Rightarrow>
    take (stop - start) (drop start (mf_paths mf)) =
    (let d = (if last prefix = CHR ''/'' then prefix else prefix @ ''/'');
         inside = filter (\<lambda>e. starts_with (pe_path e) d) (mf_paths mf)
     in if inside \<noteq> [] then inside else filter (\<lambda>e. pe_path e = prefix) (mf_paths mf))"
proof -
  define d where "d = (if last prefix = CHR ''/'' then prefix else prefix @ ''/'')"
  obtain d0 where d0: "d = d0 @ ''/''" using assms(2) append_butlast_last_id [of prefix] unfolding d_def by metis
  define ps where "ps = mf_paths mf"
  have sorted: "sorted_wrt (<) (map pe_path ps)" using assms(1) by (simp add: manifest_ok_def ps_def)
  define lo hi where "lo = length (takeWhile (\<lambda>e. pe_path e < d) ps)" and "hi = length (takeWhile (\<lambda>e. pe_path e < d0 @ ''0'') ps)"
  define inside where "inside = filter (\<lambda>e. starts_with (pe_path e) d) ps"
  have "d \<le> d0 @ ''0''" unfolding d0 by (induction d0) (auto simp: less_eq_char_def)
  then have run: "take (hi - lo) (drop lo ps) = inside"
    using run_between [OF sorted] unfolding lo_def hi_def inside_def under_slash [symmetric] d0 by simp
  have lo: "lo \<le> length ps" "hi \<le> length ps" unfolding lo_def hi_def by (simp_all add: length_takeWhile_le)
  have empty: "lo \<ge> hi \<longleftrightarrow> inside = []" using lo arg_cong [OF run, of length] by auto
  define ex where "ex = length (takeWhile (\<lambda>e. pe_path e < prefix) ps)"
  have sc: "scope mf prefix = (if lo \<ge> hi \<and> ex < length ps \<and> pe_path (ps ! ex) = prefix then (ex, ex + 1) else (lo, hi))"
    using assms(2) slash_upper [of d0] d0
    by (simp add: scope_def Let_def partition_point_def ps_def lo_def hi_def ex_def d_def split: if_splits)
  have exact: "filter (\<lambda>e. pe_path e = prefix) ps = (if ex < length ps \<and> pe_path (ps ! ex) = prefix then take 1 (drop ex ps) else [])"
    unfolding ex_def by (rule exact_run [OF sorted])
  show ?thesis
    unfolding d_def [symmetric] ps_def [symmetric] Let_def inside_def [symmetric] sc
    using run empty exact by auto
qed

theorem manifest_scope_exact_witness:
  "case scope (build sample_commit sample_paths) ''src'' of (start, stop) \<Rightarrow>
    take (stop - start) (drop start (mf_paths (build sample_commit sample_paths))) = [sample_paths ! 3, sample_paths ! 0]"
proof -
  show ?thesis
    using manifest_scope_exact [OF build_ok [of sample_commit sample_paths], of "''src''"]
    unfolding sample_build by (simp add: sample_paths_def)
qed

end
