(* ===== verification/Spec2Isabelle.thy ===== *)
theory Spec2Isabelle
  imports Gfs_Crash Gfs_Switch Gfs_Glob Gfs_Pkt Gfs_Search Gfs_Inode Gfs_Retention Gfs_Diff Gfs_GitIndex Gfs_Capability
    Gfs_Manifest
begin

text \<open>
  A verification development for GFS, a service that serves Git repositories at a pinned commit as a
  mounted, writable workspace. Paths below are relative to \<open>src/crates\<close>.

  \<^bold>\<open>The program and how its parts meet.\<close> A client names a repository and a revision
  (\<open>gfs-types\<close>: ids, revisions, object ids, paths, limits). The service resolves the revision to a commit,
  writes a lease row in its catalog and an anchor ref in the bare repository, and answers with a grant signed
  as a capability (\<open>gfs-service\<close>: \<open>mounts.rs\<close>, \<open>catalog\<close>, \<open>auth\<close>; \<open>gfs-git\<close>: \<open>libgit2.rs\<close>). A daemon mounts the
  commit (\<open>gfs-mount\<close>: inode table, blob cache, index for stock Git) and keeps every local edit in a
  copy-on-write overlay with its own journal and content files (\<open>gfs-overlay\<close>), from which status and patches
  are computed. Text search runs on the server over a trigram index and a manifest per commit
  (\<open>gfs-search\<close>). The gateway filters the ref advertisement of Git's own protocol (\<open>gateway/pkt.rs\<close>).

  \<^bold>\<open>Theories.\<close>
  \<^item> \<^theory_text>\<open>Gfs_Prelude\<close>: widths, sorted maps (\<open>BTreeMap\<close>) with the interface \<open>ordered_map\<close>, the interface \<open>codec\<close>,
    UTF-8 validity, decimal and hexadecimal text, splitting. Shared by everything.
  \<^item> \<^theory_text>\<open>Gfs_Time\<close>, \<^theory_text>\<open>Gfs_Error\<close>, \<^theory_text>\<open>Gfs_Path\<close>, \<^theory_text>\<open>Gfs_Oid\<close>, \<^theory_text>\<open>Gfs_Revision\<close>, \<^theory_text>\<open>Gfs_Glob\<close>: the value types of
    \<open>gfs-types\<close> (\<open>time.rs\<close>, \<open>error.rs\<close>, \<open>path.rs\<close>, \<open>oid.rs\<close>, \<open>entry.rs\<close>, \<open>lfs.rs\<close>, \<open>revision.rs\<close>, \<open>ids.rs\<close>, \<open>glob.rs\<close>).
    Lemmas: canonical paths, round trips, the selector grammar, and glob patterns against their documented meaning,
    which the matcher exceeds only where a pattern has a double star.
  \<^item> \<^theory_text>\<open>Gfs_OverlayState\<close>, \<^theory_text>\<open>Gfs_Overlay\<close>, \<^theory_text>\<open>Gfs_OverlayOps\<close>: the overlay of \<open>gfs-overlay\<close> (\<open>state.rs\<close>, \<open>merge.rs\<close>, \<open>lib.rs\<close>,
    \<open>journal.rs\<close>, \<open>store.rs\<close>). The record \<open>overlay\<close> is \<open>Inner\<close> with the journal and the content files; each
    method is a function from the state to a result and the next state.
  \<^item> \<^theory_text>\<open>Gfs_Model\<close>: the repository's own reference model (\<open>model.rs\<close>) and the harness that drives both.
    \<^theory_text>\<open>Gfs_Commit\<close>, \<^theory_text>\<open>Gfs_View\<close>, \<^theory_text>\<open>Gfs_Refine\<close>, \<^theory_text>\<open>Gfs_RefineRename\<close>, \<^theory_text>\<open>Gfs_Walk\<close>, \<^theory_text>\<open>Gfs_Simulation\<close>: the invariant of
    the overlay, the merged view as a function of the rows and the files, and the simulation: every sequence
    of operations on a fresh overlay tracks the model (interface \<open>step_simulation\<close>).
  \<^item> \<^theory_text>\<open>Gfs_Durable\<close>, \<^theory_text>\<open>Gfs_Recovery\<close>, \<^theory_text>\<open>Gfs_Crash\<close>: what is on disk while the overlay runs, kept by every
    operation; what opening finds (sweep, rows corrected from the content files); lives of an overlay in which the
    process dies after any of the durable effects of an operation and the next one opens what is left.
    \<open>Gfs_Simulation\<close> says exactly which requests break the invariant (\<open>spoils\<close>: a write of no bytes past the end, a
    creation at the empty path); lives exclude these and numbers beyond 64 bits, nothing else.
  \<^item> \<^theory_text>\<open>Gfs_Repin\<close>, \<^theory_text>\<open>Gfs_Carry\<close>, \<^theory_text>\<open>Gfs_Switch\<close>: re-pinning the overlay, and what \<open>gfs switch\<close> carries over
    (\<open>plan_carry\<close> of \<open>gfs-mount/src/mount.rs\<close>): after it Git sees at every path what Git's own rule says.
  \<^item> \<^theory_text>\<open>Gfs_Myers\<close>, \<^theory_text>\<open>Gfs_Diff\<close>: \<open>diff.rs\<close>: the search finds a shortest script, the hunks apply.
  \<^item> \<^theory_text>\<open>Gfs_Wire\<close>, \<^theory_text>\<open>Gfs_Index\<close>, \<^theory_text>\<open>Gfs_IndexProofs\<close>, \<^theory_text>\<open>Gfs_GitIndex\<close>: Git's index file as
    \<open>gfs-git/src/index.rs\<close> writes and reads it. \<open>Gfs_GitIndex\<close> defines Git's format for versions 2 to 4 on its own,
    with stages, flags, padding and shared prefixes, and proves that the cursor reads it and the comparison is exact.
  \<^item> \<^theory_text>\<open>Gfs_Search\<close>, \<^theory_text>\<open>Gfs_Manifest\<close>: \<open>trigram.rs\<close>, \<open>postings.rs\<close>, \<open>manifest.rs\<close> of \<open>gfs-search\<close>.
    Matching folds case as the regular-expression library does: ASCII with the two characters outside it that fold
    to ASCII letters, and an arbitrary table for literals with other characters.
  \<^item> \<^theory_text>\<open>Gfs_Inode\<close>: \<open>gfs-mount/src/inode.rs\<close>. Runs record which numbers the rows of the overlay bring for a new path
    while they are in use, as \<open>seed\<close> does with whiteouts; the invariant is stated up to these.
  \<^item> \<^theory_text>\<open>Gfs_Lease\<close>, \<^theory_text>\<open>Gfs_LeaseProofs\<close>, \<^theory_text>\<open>Gfs_Retention\<close>: lease rows, anchors and the mount manager, with every
    durable state a crash in the middle of an operation can leave.
  \<^item> \<^theory_text>\<open>Gfs_Capability\<close>: \<open>auth/capability.rs\<close>. \<^theory_text>\<open>Gfs_Pkt\<close>: \<open>gateway/pkt.rs\<close>.

  \<^bold>\<open>Conventions.\<close> A byte string is a list of characters ordered byte-wise; \<open>u64\<close> and \<open>u32\<close> values are naturals
  with the wrap, saturation or cast written where the code has it. A \<open>BTreeMap\<close> is a sorted association list, a
  \<open>HashMap\<close> or a table with a primary key likewise, sets are sets. A fallible operation returns \<open>Inl\<close> an error
  code or \<open>Inr\<close> a value. The host clock is a sequence of answers in the state; SHA-1, SHA-256 and HMAC are
  parameters, with the length of a digest or its injectivity on the values at hand as the only hypotheses.
  SQLite transactions are atomic and do not fail.

  \<^bold>\<open>Bounds and fuel.\<close> The walk of the merged view takes as fuel one more than the total length of the paths
  of the rows and of the base, which exceeds the depth of any path it meets; \<open>Gfs_Walk\<close> proves it enough. The diff takes \<open>2^60\<close>
  lines at most, where its \<open>isize\<close> arithmetic is exact. The overlay's clock may stall at the last instant of
  \<open>i64\<close>, which the time lemmas exclude by hypothesis. Everything else recurses structurally or on a measure.

  \<^bold>\<open>Not modelled.\<close> FUSE callbacks, the mount and its host process, sockets, HTTP and gRPC front ends, the
  command line and the wire messages: they translate between the components above and a kernel, a network or a
  terminal. libgit2, SQLite, the regular-expression engine, the roaring bitmaps and the file system are outside
  the repository. Error messages and logging are dropped. The components of the manifest say what each leaves
  out.
\<close>

end
